(* ===== verification/Prelude.thy ===== *)
theory Prelude
  imports Main "HOL-Library.Word" "HOL-Library.Multiset"
begin

text \<open>
  What every component of the model shares: the Windows integer types as fixed-width words,
  the outcome of a C++ operation (a value, a fault, or a wait that does not end), the
  little-endian byte encoding that \<^verbatim>\<open>memcpy\<close> of a struct produces, reads and writes of a
  memory region with their bounds, and the generic lemmas on lists and words about them.
\<close>

section \<open>Machine types\<close>

text \<open>
  \<open>CHAR\<close>, \<open>UCHAR\<close> and \<open>BYTE\<close> are 8 bits, \<open>WORD\<close> and \<open>USHORT\<close> 16,
  \<open>DWORD\<close>, \<open>LONG\<close> and \<open>int\<close> 32, \<open>SIZE_T\<close>, \<open>SOCKET\<close> and
  pointers 64 (the Win64 model the solution builds for). Signed values are read with \<open>sint\<close>.
\<close>

type_synonym BYTE = "8 word"
type_synonym WORD = "16 word"
type_synonym DWORD = "32 word"
type_synonym LONG = "32 word"
type_synonym SIZE_T = "64 word"
type_synonym SOCKET = "64 word"

section \<open>Outcomes\<close>

text \<open>
  \<open>Runtime_error\<close> and \<open>Out_of_range\<close> are the exceptions the code throws, itself or through
  \<^verbatim>\<open>vector::at\<close>. The other faults are what the C++ standard calls undefined behaviour:
  dereferencing a null pointer, calling a null function pointer, reading or writing outside an
  object, dividing by zero, overflowing a signed \<open>int\<close>. \<open>Exit\<close> is a call of
  \<^verbatim>\<open>exit\<close> or \<^verbatim>\<open>std::terminate\<close>.
\<close>

datatype fault =
    Runtime_error string
  | Out_of_range
  | Null_deref
  | Null_call
  | Mem_fault
  | Div_by_zero
  | Int_overflow
  | Exit int

datatype 'a outcome = Done 'a | Fault fault | Blocks

fun bind_outcome :: "'a outcome \<Rightarrow> ('a \<Rightarrow> 'b outcome) \<Rightarrow> 'b outcome" where
  "bind_outcome (Done x) f = f x"
| "bind_outcome (Fault e) f = Fault e"
| "bind_outcome Blocks f = Blocks"

fun is_done :: "'a outcome \<Rightarrow> bool" where
  "is_done (Done _) = True"
| "is_done _ = False"

lemma bind_outcome_Done [simp]:
  "bind_outcome m f = Done y \<longleftrightarrow> (\<exists>x. m = Done x \<and> f x = Done y)"
  by (cases m) auto

lemma is_done_iff: "is_done m \<longleftrightarrow> (\<exists>x. m = Done x)"
  by (cases m) auto

text \<open>A loop over a container whose body may fault.\<close>

fun foreach :: "('a \<Rightarrow> 's \<Rightarrow> 's outcome) \<Rightarrow> 'a list \<Rightarrow> 's \<Rightarrow> 's outcome" where
  "foreach f [] s = Done s"
| "foreach f (x # xs) s = bind_outcome (f x s) (foreach f xs)"

lemma foreach_Done:
  assumes "\<And>x s. x \<in> set xs \<Longrightarrow> I s \<Longrightarrow> f x s = Done (g x s) \<and> I (g x s)" and "I s"
  shows "foreach f xs s = Done (fold g xs s) \<and> I (fold g xs s)"
  using assms by (induction xs arbitrary: s) (simp_all del: bind_outcome_Done)

section \<open>Little-endian bytes\<close>

text \<open>
  x86 stores integers least significant byte first. \<open>le_encode n v\<close> is the \<open>n\<close> bytes of
  \<open>v\<close>; \<open>le_decode\<close> reads them back.
\<close>

fun le_encode :: "nat \<Rightarrow> nat \<Rightarrow> BYTE list" where
  "le_encode 0 v = []"
| "le_encode (Suc n) v = word_of_nat (v mod 256) # le_encode n (v div 256)"

fun le_decode :: "BYTE list \<Rightarrow> nat" where
  "le_decode [] = 0"
| "le_decode (b # bs) = unat b + 256 * le_decode bs"

lemma length_le_encode [simp]: "length (le_encode n v) = n"
  by (induction n arbitrary: v) auto

lemma unat_byte_mod [simp]: "unat (word_of_nat (v mod 256) :: BYTE) = v mod 256"
  by (simp add: unat_of_nat)

lemma le_decode_encode: "le_decode (le_encode n v) = v mod 256 ^ n"
  by (induction n arbitrary: v) (simp_all add: mod_mult2_eq)

definition put16 :: "WORD \<Rightarrow> BYTE list" where
  "put16 w = le_encode 2 (unat w)"

definition put32 :: "DWORD \<Rightarrow> BYTE list" where
  "put32 w = le_encode 4 (unat w)"

definition put64 :: "64 word \<Rightarrow> BYTE list" where
  "put64 w = le_encode 8 (unat w)"

definition get64 :: "BYTE list \<Rightarrow> 64 word" where
  "get64 bs = word_of_nat (le_decode (take 8 bs))"

definition get16 :: "BYTE list \<Rightarrow> WORD" where
  "get16 bs = word_of_nat (le_decode (take 2 bs))"

definition get32 :: "BYTE list \<Rightarrow> DWORD" where
  "get32 bs = word_of_nat (le_decode (take 4 bs))"

lemma length_put [simp]: "length (put16 w) = 2" "length (put32 x) = 4"
    "length (put64 y) = 8"
  by (simp_all add: put16_def put32_def put64_def)

lemma get16_put16 [simp]: "get16 (put16 w @ bs) = w"
proof -
  have "unat w < 256 ^ 2" using unsigned_less[of w] by simp
  then show ?thesis by (simp add: get16_def put16_def le_decode_encode)
qed

lemma get32_put32 [simp]: "get32 (put32 w @ bs) = w"
proof -
  have "unat w < 256 ^ 4" using unsigned_less[of w] by simp
  then show ?thesis by (simp add: get32_def put32_def le_decode_encode)
qed

lemma get64_put64 [simp]: "get64 (put64 w @ bs) = w"
proof -
  have "unat w < 256 ^ 8" using unsigned_less[of w] by simp
  then show ?thesis by (simp add: get64_def put64_def le_decode_encode)
qed

lemma get64_put64_nil [simp]: "get64 (put64 w) = w"
  using get64_put64[of w "[]"] by simp

lemma get32_put32_nil [simp]: "get32 (put32 w) = w"
  using get32_put32[of w "[]"] by simp

lemma get16_put16_nil [simp]: "get16 (put16 w) = w"
  using get16_put16[of w "[]"] by simp

section \<open>Memory regions\<close>

text \<open>
  A buffer is a list of bytes. \<open>mem_read\<close> and \<open>mem_write\<close> copy \<open>n\<close> bytes from or to an
  offset; leaving the buffer is a memory fault, and copying no byte touches nothing.
\<close>

definition mem_read :: "'a list \<Rightarrow> nat \<Rightarrow> nat \<Rightarrow> 'a list outcome" where
  "mem_read buf off n =
     (if n = 0 then Done []
      else if off + n \<le> length buf then Done (take n (drop off buf))
      else Fault Mem_fault)"

definition mem_write :: "'a list \<Rightarrow> nat \<Rightarrow> 'a list \<Rightarrow> 'a list outcome" where
  "mem_write buf off bs =
     (if bs = [] then Done buf
      else if off + length bs \<le> length buf
      then Done (take off buf @ bs @ drop (off + length bs) buf)
      else Fault Mem_fault)"

lemma mem_read_ok: "off + n \<le> length buf \<Longrightarrow> mem_read buf off n = Done (take n (drop off buf))"
  by (simp add: mem_read_def)

lemma mem_write_length: "mem_write buf off bs = Done buf' \<Longrightarrow> length buf' = length buf"
  by (auto simp: mem_write_def split: if_splits)

lemma mem_write_ok:
  "off + length bs \<le> length buf \<Longrightarrow>
     mem_write buf off bs = Done (take off buf @ bs @ drop (off + length bs) buf)"
  by (simp add: mem_write_def)

lemma nth_mem_write:
  assumes "mem_write buf off bs = Done buf'" and "j < length buf"
  shows "buf' ! j = (if off \<le> j \<and> j < off + length bs then bs ! (j - off) else buf ! j)"
  using assms by (auto simp: mem_write_def nth_append min_def split: if_splits)

section \<open>Receiving into a buffer\<close>

text \<open>
  \<^verbatim>\<open>recv\<close> and \<^verbatim>\<open>recvfrom\<close> write what arrived over the start of the buffer, whose other
  bytes stay, and return its length. An error (no datagram) returns -1; a datagram that does not
  fit fills the buffer and also returns -1 (WSAEMSGSIZE).
\<close>

definition winsock_recvfrom :: "BYTE list \<Rightarrow> BYTE list option \<Rightarrow> int \<times> BYTE list" where
  "winsock_recvfrom buf arrived = (case arrived of
       None \<Rightarrow> (-1, buf)
     | Some dgram \<Rightarrow>
         (if length dgram \<le> length buf then (int (length dgram), dgram @ drop (length dgram) buf)
          else (-1, take (length buf) dgram)))"

lemma length_winsock_recvfrom [simp]: "length (snd (winsock_recvfrom buf arrived)) = length buf"
  by (simp add: winsock_recvfrom_def split: option.split)

section \<open>Permutations\<close>

lemma distinct_singleton: "distinct xs \<Longrightarrow> set xs = {x} \<Longrightarrow> xs = [x]"
  by (cases xs) (auto simp: subset_singleton_iff)

lemma mset_map_permute: "mset ys = mset (map g xs) \<Longrightarrow> \<exists>xs'. mset xs' = mset xs \<and> ys = map g xs'"
proof (induction ys arbitrary: xs)
  case Nil
  then show ?case by simp
next
  case (Cons y ys)
  then have "y \<in> set (map g xs)" by (metis list.set_intros(1) mset_eq_setD)
  then obtain x where x: "x \<in> set xs" "g x = y" by auto
  then have m: "mset xs = add_mset x (mset (remove1 x xs))" by simp
  then have "image_mset g (mset xs) = add_mset (g x) (image_mset g (mset (remove1 x xs)))"
    by (metis image_mset_add_mset)
  with Cons.prems x have "mset ys = mset (map g (remove1 x xs))" by (simp del: mset_remove1)
  from Cons.IH[OF this] obtain xs' where "mset xs' = mset (remove1 x xs)" "ys = map g xs'"
    by (elim exE conjE)
  with m x show ?case by (intro exI[of _ "x # xs'"]) (simp del: mset_remove1)
qed

section \<open>Words\<close>

lemma WORD_bound: "unat (w :: WORD) < 65536"
  using unsigned_less[of w] by simp

lemma DWORD_bound: "unat (w :: DWORD) < 4294967296"
  using unsigned_less[of w] by simp

lemma SIZE_T_bound: "unat (w :: SIZE_T) < 18446744073709551616"
  using unsigned_less[of w] by simp

lemma unat_ucast_16_32 [simp]: "unat (ucast (w :: WORD) :: DWORD) = unat w"
  by (simp add: unsigned_ucast_eq take_bit_nat_eq_self_iff WORD_bound DWORD_bound WORD_bound[THEN less_trans] DWORD_bound[THEN less_trans])

lemma unat_ucast_16_64 [simp]: "unat (ucast (w :: WORD) :: SIZE_T) = unat w"
  by (simp add: unsigned_ucast_eq take_bit_nat_eq_self_iff WORD_bound DWORD_bound WORD_bound[THEN less_trans] DWORD_bound[THEN less_trans])

lemma unat_ucast_32_64 [simp]: "unat (ucast (w :: DWORD) :: SIZE_T) = unat w"
  by (simp add: unsigned_ucast_eq take_bit_nat_eq_self_iff WORD_bound DWORD_bound WORD_bound[THEN less_trans] DWORD_bound[THEN less_trans])

lemma ucast_32_64_eq [simp]: "(ucast (a :: DWORD) :: 64 word) = ucast b \<longleftrightarrow> a = b"
  using unat_ucast_32_64[of a] unat_ucast_32_64[of b] by (metis unsigned_word_eqI)

lemma unat_of_nat_16 [simp]: "n < 65536 \<Longrightarrow> unat (word_of_nat n :: WORD) = n"
  by (simp add: unat_of_nat)

lemma unat_of_nat_32 [simp]: "n < 4294967296 \<Longrightarrow> unat (word_of_nat n :: DWORD) = n"
  by (simp add: unat_of_nat)

lemma DWORD_of_nat_eq_iff:
  "n < 2 ^ 32 \<Longrightarrow> m < 2 ^ 32 \<Longrightarrow> (word_of_nat n :: DWORD) = word_of_nat m \<longleftrightarrow> n = m"
proof
  assume nm: "n < 2 ^ 32" "m < 2 ^ 32" and eq: "(word_of_nat n :: DWORD) = word_of_nat m"
  from eq have "unat (word_of_nat n :: DWORD) = unat (word_of_nat m :: DWORD)" by (rule arg_cong)
  with nm show "n = m" by simp
qed simp

lemma unat_of_nat_64 [simp]: "n < 18446744073709551616 \<Longrightarrow> unat (word_of_nat n :: SIZE_T) = n"
  by (simp add: unat_of_nat)

lemma unat_min: "unat (min a b) = min (unat a) (unat (b :: 'a :: len word))"
  by (auto simp: min_def word_le_nat_alt)

lemma unat_ucast_64_32: "unat (ucast (w :: SIZE_T) :: DWORD) = unat w mod 4294967296"
  by (simp add: unsigned_ucast_eq take_bit_eq_mod)

lemma unat_ucast_64_16: "unat (ucast (w :: SIZE_T) :: WORD) = unat w mod 65536"
  by (simp add: unsigned_ucast_eq take_bit_eq_mod)

lemma ucast_of_nat_64_32: "(ucast (word_of_nat n :: SIZE_T) :: DWORD) = word_of_nat n"
proof -
  have "unat (ucast (word_of_nat n :: SIZE_T) :: DWORD) = unat (word_of_nat n :: DWORD)"
    by (simp add: unat_ucast_64_32 unat_of_nat mod_mod_cancel)
  then show ?thesis by (rule unsigned_word_eqI)
qed

lemma word_eq_of_nat: "unat w = n \<Longrightarrow> w = word_of_nat n"
  by auto

end
