(* ===== verification/Protocols.thy ===== *)
theory Protocols
  imports Prelude
begin

text \<open>
  The wire formats of \<^verbatim>\<open>protocols.h\<close> (RDIBY, VideoClient) and \<^verbatim>\<open>protocol.h\<close> (VideoHost).
  The program sends its structs by copying their memory, so the formats are the x64 layouts of
  the structs: natural alignment, little-endian fields, padding bytes, and unions that are plain
  bytes which any member can be read from. The lemmas are the round trips between the fields
  and the bytes, and the sizes the rest of the code relies on through \<^verbatim>\<open>sizeof\<close>.
\<close>

section \<open>Constants\<close>

definition PACKET_TYPE_EVENT :: BYTE where "PACKET_TYPE_EVENT = 0"
definition PACKET_TYPE_STREAM :: BYTE where "PACKET_TYPE_STREAM = 1"
definition PACKET_TYPE_CONTROL :: BYTE where "PACKET_TYPE_CONTROL = 2"
definition STREAM_TYPE_JPEG :: BYTE where "STREAM_TYPE_JPEG = 0"
definition FLAG_LAST_PACKET :: BYTE where "FLAG_LAST_PACKET = 0x01"
definition FLAG_ACK :: BYTE where "FLAG_ACK = 0x02"

lemmas packet_types [simp] =
  PACKET_TYPE_EVENT_def PACKET_TYPE_STREAM_def PACKET_TYPE_CONTROL_def
  FLAG_LAST_PACKET_def FLAG_ACK_def

section \<open>Packet payload headers\<close>

record mouse_data =
  dx :: LONG
  dy :: LONG
  mouse_flags :: DWORD
  mouse_wheel_data :: DWORD

record keyboard_data =
  vkCode :: DWORD
  keyboard_flags :: DWORD

record rtsmp_packet =
  streamType :: BYTE
  frameNumber :: DWORD
  offset :: WORD
  totalPackets :: WORD

text \<open>
  \<open>rtmp_packet\<close> ends in a union of \<open>rtemp_packet\<close> (20 bytes: the event type, three bytes of
  padding, a union of 8 and 16 bytes) and \<open>rtsmp_packet\<close> (12 bytes: the stream type, padding,
  the frame number, the offset, the packet count). The union's bytes are the field
  \<open>rtmp_data\<close>; its members are views of them.
\<close>

record rtmp_packet =
  pkt_version :: BYTE
  pkt_type :: BYTE
  pkt_size :: WORD
  slidingWindow :: DWORD
  sequenceNumber :: DWORD
  pkt_flags :: BYTE
  rtmp_data :: "BYTE list"

definition sizeof_union :: nat where "sizeof_union = 20"
definition sizeof_rtmp :: nat where "sizeof_rtmp = 36"

lemmas sizeofs [simp] = sizeof_union_def sizeof_rtmp_def

definition zero_packet :: rtmp_packet where
  "zero_packet = \<lparr>pkt_version = 0, pkt_type = 0, pkt_size = 0, slidingWindow = 0,
     sequenceNumber = 0, pkt_flags = 0, rtmp_data = replicate sizeof_union 0\<rparr>"

definition wf_packet :: "rtmp_packet \<Rightarrow> bool" where
  "wf_packet p \<longleftrightarrow> length (rtmp_data p) = sizeof_union"

subsection \<open>Views of the union\<close>

definition put_rtsmp :: "rtsmp_packet \<Rightarrow> BYTE list \<Rightarrow> BYTE list" where
  "put_rtsmp r u = [streamType r] @ take 3 (drop 1 u) @ put32 (frameNumber r)
     @ put16 (offset r) @ put16 (totalPackets r) @ drop 12 u"

definition get_rtsmp :: "BYTE list \<Rightarrow> rtsmp_packet" where
  "get_rtsmp u = \<lparr>streamType = u ! 0, frameNumber = get32 (drop 4 u),
     offset = get16 (drop 8 u), totalPackets = get16 (drop 10 u)\<rparr>"

definition put_msData :: "BYTE \<Rightarrow> mouse_data \<Rightarrow> BYTE list \<Rightarrow> BYTE list" where
  "put_msData eventType m u = [eventType] @ take 3 (drop 1 u) @ put32 (dx m) @ put32 (dy m)
     @ put32 (mouse_flags m) @ put32 (mouse_wheel_data m)"

definition put_kbdData :: "BYTE \<Rightarrow> keyboard_data \<Rightarrow> BYTE list \<Rightarrow> BYTE list" where
  "put_kbdData eventType k u = [eventType] @ take 3 (drop 1 u) @ put32 (vkCode k)
     @ put32 (keyboard_flags k) @ drop 12 u"

definition get_eventType :: "BYTE list \<Rightarrow> BYTE" where
  "get_eventType u = u ! 0"

definition get_msData :: "BYTE list \<Rightarrow> mouse_data" where
  "get_msData u = \<lparr>dx = get32 (drop 4 u), dy = get32 (drop 8 u),
     mouse_flags = get32 (drop 12 u), mouse_wheel_data = get32 (drop 16 u)\<rparr>"

definition get_kbdData :: "BYTE list \<Rightarrow> keyboard_data" where
  "get_kbdData u = \<lparr>vkCode = get32 (drop 4 u), keyboard_flags = get32 (drop 8 u)\<rparr>"

lemma length_put_views [simp]:
  assumes "length u = 20"
  shows "length (put_rtsmp r u) = 20" and "length (put_msData e m u) = 20"
    and "length (put_kbdData e k u) = 20"
  using assms by (simp_all add: put_rtsmp_def put_msData_def put_kbdData_def)

lemma get_put_rtsmp [simp]: "length u = 20 \<Longrightarrow> get_rtsmp (put_rtsmp r u) = r"
  by (simp add: get_rtsmp_def put_rtsmp_def)

lemma get_put_msData [simp]:
  assumes "length u = 20"
  shows "get_eventType (put_msData e m u) = e" and "get_msData (put_msData e m u) = m"
  using assms by (simp_all add: get_eventType_def get_msData_def put_msData_def)

lemma get_put_kbdData [simp]:
  assumes "length u = 20"
  shows "get_eventType (put_kbdData e k u) = e" and "get_kbdData (put_kbdData e k u) = k"
  using assms by (simp_all add: get_eventType_def get_kbdData_def put_kbdData_def)

subsection \<open>The packet header as bytes\<close>

definition encode_rtmp :: "rtmp_packet \<Rightarrow> BYTE list" where
  "encode_rtmp p = [pkt_version p, pkt_type p] @ put16 (pkt_size p) @ put32 (slidingWindow p)
     @ put32 (sequenceNumber p) @ [pkt_flags p, 0, 0, 0] @ rtmp_data p"

definition decode_rtmp :: "BYTE list \<Rightarrow> rtmp_packet" where
  "decode_rtmp bs = \<lparr>pkt_version = bs ! 0, pkt_type = bs ! 1, pkt_size = get16 (drop 2 bs),
     slidingWindow = get32 (drop 4 bs), sequenceNumber = get32 (drop 8 bs),
     pkt_flags = bs ! 12, rtmp_data = take sizeof_union (drop 16 bs)\<rparr>"

lemma length_encode_rtmp [simp]: "wf_packet p \<Longrightarrow> length (encode_rtmp p) = 36"
  by (simp add: encode_rtmp_def wf_packet_def)

lemma decode_encode_rtmp [simp]: "wf_packet p \<Longrightarrow> decode_rtmp (encode_rtmp p @ rest) = p"
  by (simp add: decode_rtmp_def encode_rtmp_def wf_packet_def nth_append)

lemma wf_decode [simp]: "36 \<le> length bs \<Longrightarrow> wf_packet (decode_rtmp bs)"
  by (simp add: decode_rtmp_def wf_packet_def)

lemma wf_zero_packet [simp]: "wf_packet zero_packet"
  by (simp add: zero_packet_def wf_packet_def)

section \<open>Room messages\<close>

text \<open>
  \<open>sockaddr_in\<close> is the 16-byte address of winsock: the family, the port and the address in
  network byte order (here: as the words they are in memory), and 8 bytes of padding that the
  program copies along.
\<close>

record sockaddr_in =
  sin_family :: WORD
  sin_port :: WORD
  sin_addr :: DWORD
  sin_zero :: "64 word"

definition sizeof_sockaddr :: nat where "sizeof_sockaddr = 16"

definition zero_sockaddr :: sockaddr_in where
  "zero_sockaddr = \<lparr>sin_family = 0, sin_port = 0, sin_addr = 0, sin_zero = 0\<rparr>"

definition encode_sockaddr :: "sockaddr_in \<Rightarrow> BYTE list" where
  "encode_sockaddr a = put16 (sin_family a) @ put16 (sin_port a) @ put32 (sin_addr a)
     @ put64 (sin_zero a)"

definition decode_sockaddr :: "BYTE list \<Rightarrow> sockaddr_in" where
  "decode_sockaddr bs = \<lparr>sin_family = get16 bs, sin_port = get16 (drop 2 bs),
     sin_addr = get32 (drop 4 bs), sin_zero = get64 (drop 8 bs)\<rparr>"

lemma length_encode_sockaddr [simp]: "length (encode_sockaddr a) = 16"
  by (simp add: encode_sockaddr_def)

lemma decode_encode_sockaddr [simp]: "decode_sockaddr (encode_sockaddr a @ bs) = a"
  by (simp add: decode_sockaddr_def encode_sockaddr_def)

lemma decode_encode_sockaddr_nil [simp]: "decode_sockaddr (encode_sockaddr a) = a"
  using decode_encode_sockaddr[of a "[]"] by simp

text \<open>
  \<open>server_room_msg\<close>: a message type, three bytes of padding, and a union of an address and a
  name of 16 characters, kept as its 16 bytes.
\<close>

record server_room_msg =
  msgType :: BYTE
  msgData :: "BYTE list"

definition ENTRY_MSG :: BYTE where "ENTRY_MSG = 0"
definition LEAVE_MSG :: BYTE where "LEAVE_MSG = 1"
definition CLOSE_ROOM_MSG :: BYTE where "CLOSE_ROOM_MSG = 2"
definition START_PUNCH_MSG :: BYTE where "START_PUNCH_MSG = 3"

lemmas room_msg_types = ENTRY_MSG_def LEAVE_MSG_def CLOSE_ROOM_MSG_def START_PUNCH_MSG_def

definition sizeof_room_msg :: nat where "sizeof_room_msg = 20"

definition zero_room_msg :: server_room_msg where
  "zero_room_msg = \<lparr>msgType = 0, msgData = replicate 16 0\<rparr>"

definition wf_room_msg :: "server_room_msg \<Rightarrow> bool" where
  "wf_room_msg m \<longleftrightarrow> length (msgData m) = 16"

definition put_sockAddr4 :: "sockaddr_in \<Rightarrow> server_room_msg \<Rightarrow> server_room_msg" where
  "put_sockAddr4 a m = m\<lparr>msgData := encode_sockaddr a\<rparr>"

definition get_sockAddr4 :: "server_room_msg \<Rightarrow> sockaddr_in" where
  "get_sockAddr4 m = decode_sockaddr (msgData m)"

definition encode_room_msg :: "server_room_msg \<Rightarrow> BYTE list" where
  "encode_room_msg m = [msgType m, 0, 0, 0] @ msgData m"

definition decode_room_msg :: "BYTE list \<Rightarrow> server_room_msg" where
  "decode_room_msg bs = \<lparr>msgType = bs ! 0, msgData = take 16 (drop 4 bs)\<rparr>"

lemma get_put_sockAddr4 [simp]: "get_sockAddr4 (put_sockAddr4 a m) = a"
  by (simp add: get_sockAddr4_def put_sockAddr4_def)

lemma put_sockAddr4_simps [simp]:
  "msgType (put_sockAddr4 a m) = msgType m" "wf_room_msg (put_sockAddr4 a m)"
  by (simp_all add: put_sockAddr4_def wf_room_msg_def)

lemma wf_zero_room_msg [simp]: "wf_room_msg zero_room_msg"
  by (simp add: wf_room_msg_def zero_room_msg_def)

lemma wf_room_msg_type [simp]: "wf_room_msg (m\<lparr>msgType := t\<rparr>) = wf_room_msg m"
  by (simp add: wf_room_msg_def)

lemma length_encode_room_msg [simp]: "wf_room_msg m \<Longrightarrow> length (encode_room_msg m) = 20"
  by (simp add: wf_room_msg_def encode_room_msg_def)

lemma decode_encode_room_msg [simp]: "wf_room_msg m \<Longrightarrow> decode_room_msg (encode_room_msg m @ bs) = m"
  by (simp add: wf_room_msg_def encode_room_msg_def decode_room_msg_def)

section \<open>The first interaction\<close>

text \<open>
  \<open>first_server_client_interaction\<close>: three arrays of 16 characters, three length bytes and
  the host flag, 52 bytes without padding.
\<close>

record first_interaction =
  fi_roomName :: "BYTE list"
  fi_clientName :: "BYTE list"
  fi_roomPassword :: "BYTE list"
  clientNameLength :: BYTE
  roomNameLength :: BYTE
  roomPasswordLength :: BYTE
  fi_isHost :: bool

definition sizeof_fsi :: nat where "sizeof_fsi = 52"

definition zero_fsi :: first_interaction where
  "zero_fsi = \<lparr>fi_roomName = replicate 16 0, fi_clientName = replicate 16 0,
     fi_roomPassword = replicate 16 0, clientNameLength = 0, roomNameLength = 0,
     roomPasswordLength = 0, fi_isHost = False\<rparr>"

definition wf_fsi :: "first_interaction \<Rightarrow> bool" where
  "wf_fsi f \<longleftrightarrow> length (fi_roomName f) = 16 \<and> length (fi_clientName f) = 16
     \<and> length (fi_roomPassword f) = 16"

definition encode_fsi :: "first_interaction \<Rightarrow> BYTE list" where
  "encode_fsi f = fi_roomName f @ fi_clientName f @ fi_roomPassword f
     @ [clientNameLength f, roomNameLength f, roomPasswordLength f, if fi_isHost f then 1 else 0]"

definition decode_fsi :: "BYTE list \<Rightarrow> first_interaction" where
  "decode_fsi bs = \<lparr>fi_roomName = take 16 bs, fi_clientName = take 16 (drop 16 bs),
     fi_roomPassword = take 16 (drop 32 bs), clientNameLength = bs ! 48,
     roomNameLength = bs ! 49, roomPasswordLength = bs ! 50, fi_isHost = (bs ! 51 \<noteq> 0)\<rparr>"

lemma wf_zero_fsi [simp]: "wf_fsi zero_fsi"
  by (simp add: wf_fsi_def zero_fsi_def)

lemma length_encode_fsi [simp]: "wf_fsi f \<Longrightarrow> length (encode_fsi f) = 52"
  by (simp add: wf_fsi_def encode_fsi_def)

lemma decode_encode_fsi [simp]: "wf_fsi f \<Longrightarrow> decode_fsi (encode_fsi f @ bs) = f"
  by (simp add: wf_fsi_def encode_fsi_def decode_fsi_def nth_append)

end
