(* ===== verification/Network.thy ===== *)
theory Network
  imports Protocols
begin

text \<open>
  The socket classes: \<open>BaseSocket\<close> and \<open>Addr\<close> (\<^verbatim>\<open>network.h\<close>), \<open>ClientSocket\<close> and
  \<open>EncryptedClientSocket\<close> (\<^verbatim>\<open>client.cpp\<close>), \<open>ServerSocket\<close> and \<open>EncryptedServerSocket\<close>
  (\<^verbatim>\<open>serverNetwork.cpp\<close>), \<open>HostSocket\<close> and \<open>EncryptedHostSocket\<close> (\<^verbatim>\<open>host.cpp\<close>), and the
  first interaction between a client and the server. What winsock answers to a call is an
  argument; what the program does with the answer, and the state it leaves, is the model.
\<close>

section \<open>Winsock\<close>

definition INVALID_SOCKET :: SOCKET where "INVALID_SOCKET = 0xFFFFFFFFFFFFFFFF"
definition SOCKET_ERROR :: DWORD where "SOCKET_ERROR = 0xFFFFFFFF"

text \<open>
  The process-wide effects the socket code has: the datagrams and stream segments handed to
  winsock, the sockets closed, and the number of \<open>WSACleanup\<close> calls.
\<close>

record net =
  net_sent :: "(SOCKET \<times> BYTE list) list"
  net_closed :: "SOCKET list"
  wsa_cleanups :: nat

definition empty_net :: net where
  "empty_net = \<lparr>net_sent = [], net_closed = [], wsa_cleanups = 0\<rparr>"

definition closesocket :: "SOCKET \<Rightarrow> net \<Rightarrow> net" where
  "closesocket s n = n\<lparr>net_closed := net_closed n @ [s]\<rparr>"

definition WSACleanup :: "net \<Rightarrow> net" where
  "WSACleanup n = n\<lparr>wsa_cleanups := Suc (wsa_cleanups n)\<rparr>"

text \<open>
  \<^verbatim>\<open>network.cpp\<close> calls \<^verbatim>\<open>WSAStartup\<close> once, so the first \<open>WSACleanup\<close> ends the use of winsock: from
  then on \<^verbatim>\<open>socket\<close> fails with \<open>INVALID_SOCKET\<close>, whatever \<open>answer\<close> it would have given before.
\<close>

definition winsock_socket :: "SOCKET \<Rightarrow> net \<Rightarrow> SOCKET" where
  "winsock_socket answer n = (if wsa_cleanups n = 0 then answer else INVALID_SOCKET)"

text \<open>
  \<open>recv\<close> on a stream: what is available goes to the start of the buffer, as much as fits; 0 bytes
  mean that the peer has closed the connection, no answer an error.
\<close>

definition winsock_recv :: "BYTE list \<Rightarrow> BYTE list option \<Rightarrow> DWORD \<times> BYTE list" where
  "winsock_recv buf arrived = (case arrived of
       None \<Rightarrow> (SOCKET_ERROR, buf)
     | Some bs \<Rightarrow> let bs' = take (length buf) bs
         in (word_of_nat (length bs'), bs' @ drop (length bs') buf))"

section \<open>Sending and receiving\<close>

text \<open>
  The length is a product of \<open>DWORD\<close>s, so it wraps; a zero length is refused with -1.
  \<open>res\<close> is what \<^verbatim>\<open>send\<close> returns.
\<close>

definition ServerSocket_sendData ::
  "DWORD \<Rightarrow> SOCKET \<Rightarrow> BYTE list \<Rightarrow> DWORD \<Rightarrow> DWORD \<Rightarrow> net \<Rightarrow> DWORD \<times> net" where
  "ServerSocket_sendData res sock pData dwTypeSize dwLen n =
     (let dwMsgLen = dwTypeSize * dwLen
      in if dwMsgLen \<le> 0 then (-1, n)
         else (res, n\<lparr>net_sent := net_sent n @ [(sock, take (unat dwMsgLen) pData)]\<rparr>))"

definition ClientSocket_sendData ::
  "DWORD \<Rightarrow> SOCKET \<Rightarrow> BYTE list \<Rightarrow> DWORD \<Rightarrow> DWORD \<Rightarrow> net \<Rightarrow> DWORD \<times> net" where
  "ClientSocket_sendData res sock pData dwTypeSize dwLen n =
     (let dwMsgLen = dwTypeSize * dwLen
      in if dwMsgLen \<le> 0 then (-1, n)
         else (res, n\<lparr>net_sent := net_sent n @ [(sock, take (unat dwMsgLen) pData)]\<rparr>))"

definition HostSocket_sendData ::
  "DWORD \<Rightarrow> SOCKET \<Rightarrow> BYTE list \<Rightarrow> DWORD \<Rightarrow> DWORD \<Rightarrow> net \<Rightarrow> DWORD \<times> net" where
  "HostSocket_sendData res sock pData dwTypeSize dwLen n =
     (let dwMsgLen = dwTypeSize * dwLen
      in if dwMsgLen \<le> 0 then (-1, n)
         else (res, n\<lparr>net_sent := net_sent n @ [(sock, take (unat dwMsgLen) pData)]\<rparr>))"

definition ServerSocket_recvData :: "BYTE list \<Rightarrow> BYTE list option \<Rightarrow> DWORD \<times> BYTE list" where
  "ServerSocket_recvData pBuffer arrived = winsock_recv pBuffer arrived"

definition HostSocket_recvData :: "BYTE list \<Rightarrow> BYTE list option \<Rightarrow> DWORD \<times> BYTE list" where
  "HostSocket_recvData pBuffer arrived = winsock_recv pBuffer arrived"

definition ClientSocket_recvData :: "BYTE list \<Rightarrow> BYTE list option \<Rightarrow> DWORD \<times> BYTE list" where
  "ClientSocket_recvData pBuffer arrived = winsock_recv pBuffer arrived"

text \<open>The datagram calls return \<open>DWORD\<close>, so a result of -1 becomes \<open>0xFFFFFFFF\<close>.\<close>

definition ClientSocket_sendDataTo ::
  "DWORD \<Rightarrow> SOCKET \<Rightarrow> BYTE list \<Rightarrow> net \<Rightarrow> DWORD \<times> net" where
  "ClientSocket_sendDataTo res sock pBuffer n = (res, n\<lparr>net_sent := net_sent n @ [(sock, pBuffer)]\<rparr>)"

definition ClientSocket_recvDataFrom :: "BYTE list \<Rightarrow> BYTE list option \<Rightarrow> DWORD \<times> BYTE list" where
  "ClientSocket_recvDataFrom pBuffer arrived =
     (let (res, buf) = winsock_recvfrom pBuffer arrived in (word_of_int res, buf))"

text \<open>\<open>EncryptedServerSocket\<close> and \<open>EncryptedClientSocket\<close> pass everything on unencrypted.\<close>

definition EncryptedServerSocket_sendData ::
  "DWORD \<Rightarrow> SOCKET \<Rightarrow> BYTE list \<Rightarrow> DWORD \<Rightarrow> DWORD \<Rightarrow> net \<Rightarrow> DWORD \<times> net" where
  "EncryptedServerSocket_sendData = ServerSocket_sendData"

definition EncryptedServerSocket_recvData :: "BYTE list \<Rightarrow> BYTE list option \<Rightarrow> DWORD \<times> BYTE list" where
  "EncryptedServerSocket_recvData pBuffer arrived =
     (let (len, buf) = ServerSocket_recvData pBuffer arrived in (len, buf))"

definition EncryptedClientSocket_sendData ::
  "DWORD \<Rightarrow> SOCKET \<Rightarrow> BYTE list \<Rightarrow> DWORD \<Rightarrow> DWORD \<Rightarrow> net \<Rightarrow> DWORD \<times> net" where
  "EncryptedClientSocket_sendData = ClientSocket_sendData"

definition EncryptedClientSocket_recvData :: "BYTE list \<Rightarrow> BYTE list option \<Rightarrow> DWORD \<times> BYTE list" where
  "EncryptedClientSocket_recvData = ClientSocket_recvData"

section \<open>Opening sockets\<close>

text \<open>
  \<open>ClientSocket::initTCP\<close>. \<open>socketRes\<close> is the answer of \<^verbatim>\<open>socket\<close>, \<open>connectOk\<close> whether
  \<^verbatim>\<open>connect\<close> succeeds. A socket that is already set is closed and the call fails; the member
  keeps its value.
\<close>

definition ClientSocket :: SOCKET where "ClientSocket = -1"

definition ClientSocket_initTCP :: "SOCKET \<Rightarrow> bool \<Rightarrow> SOCKET \<times> net \<Rightarrow> bool \<times> SOCKET \<times> net" where
  "ClientSocket_initTCP socketRes connectOk st =
     (let (sock, n) = st
      in if sock \<noteq> -1 then (False, sock, WSACleanup (closesocket sock n))
         else if socketRes = INVALID_SOCKET then (False, socketRes, WSACleanup n)
         else if \<not> connectOk then (False, socketRes, WSACleanup (closesocket socketRes n))
         else (True, socketRes, n))"

text \<open>\<open>initUDP\<close> ends the process when it cannot open or bind its socket.\<close>

definition ClientSocket_initUDP :: "SOCKET \<Rightarrow> bool \<Rightarrow> SOCKET \<times> net \<Rightarrow> (bool \<times> SOCKET \<times> net) outcome" where
  "ClientSocket_initUDP socketRes bindOk st =
     (let (sock, n) = st
      in if socketRes \<le> 1 then Fault (Exit 1)
         else if socketRes = INVALID_SOCKET then Fault (Exit 1)
         else if \<not> bindOk then Fault (Exit 1)
         else Done (True, socketRes, n))"

definition ClientSocket_destructor :: "SOCKET \<Rightarrow> net \<Rightarrow> net" where
  "ClientSocket_destructor sock n = closesocket sock n"

definition HostSocket_initTCP :: "SOCKET \<Rightarrow> bool \<Rightarrow> SOCKET \<times> net \<Rightarrow> bool \<times> SOCKET \<times> net" where
  "HostSocket_initTCP socketRes connectOk st =
     (let (sock, n) = st
      in if sock \<noteq> -1 then (False, sock, WSACleanup (closesocket sock n))
         else if socketRes = INVALID_SOCKET then (False, socketRes, WSACleanup n)
         else if \<not> connectOk then (False, socketRes, WSACleanup (closesocket socketRes n))
         else (True, socketRes, n))"

text \<open>\<open>addrRes\<close> is the answer of \<^verbatim>\<open>getaddrinfo\<close>.\<close>

definition HostSocket_initUDP ::
  "int \<Rightarrow> SOCKET \<Rightarrow> bool \<Rightarrow> SOCKET \<times> net \<Rightarrow> (bool \<times> SOCKET \<times> net) outcome" where
  "HostSocket_initUDP addrRes socketRes bindOk st =
     (let (sock, n) = st
      in if addrRes \<noteq> 0 then Fault (Exit 1)
         else if socketRes \<le> 1 then Fault (Exit 1)
         else if socketRes = INVALID_SOCKET then Fault (Exit 1)
         else if \<not> bindOk then Fault (Exit 1)
         else Done (True, socketRes, n))"

definition ServerSocket_init ::
  "int \<Rightarrow> SOCKET \<Rightarrow> bool \<Rightarrow> SOCKET \<times> net \<Rightarrow> bool \<times> SOCKET \<times> net" where
  "ServerSocket_init addrRes socketRes bindOk st =
     (let (sock, n) = st
      in if addrRes \<noteq> 0 then (False, sock, WSACleanup n)
         else if socketRes \<le> 1 then (False, sock, WSACleanup n)
         else if socketRes = INVALID_SOCKET then (False, sock, WSACleanup n)
         else if \<not> bindOk then (False, sock, WSACleanup (closesocket socketRes n))
         else (True, socketRes, n))"

definition HostSocket_initListen :: "int \<Rightarrow> bool" where
  "HostSocket_initListen listenRes = (if listenRes < 0 then False else True)"

definition ServerSocket_initListen :: "int \<Rightarrow> bool" where
  "ServerSocket_initListen listenRes = (if listenRes < 0 then False else True)"

text \<open>The encrypted socket drops the answer.\<close>

definition EncryptedServerSocket_initListen :: "int \<Rightarrow> bool" where
  "EncryptedServerSocket_initListen listenRes = (let _ = ServerSocket_initListen listenRes in True)"

text \<open>
  A socket and a pointer to an \<open>Addr\<close>, \<open>None\<close> the null pointer; \<open>SAP_NULL\<close> is the pair of nulls. The
  \<open>Addr\<close> objects are on the heap: \<open>Some\<close> is an address in use with what it holds. \<^verbatim>\<open>delete\<close> of the null
  pointer does nothing, that of an object that is gone is undefined.
\<close>

type_synonym socket_addr_pair = "SOCKET \<times> nat option"

type_synonym addr_heap = "nat \<Rightarrow> sockaddr_in option"

definition delete_Addr :: "nat option \<Rightarrow> addr_heap \<Rightarrow> addr_heap outcome" where
  "delete_Addr ptr addrs = (case ptr of
       None \<Rightarrow> Done addrs
     | Some q \<Rightarrow> if addrs q = None then Fault Mem_fault else Done (addrs(q := None)))"

definition SAP_NULL :: socket_addr_pair where "SAP_NULL = (0, None)"

definition compareSocketAddrPair :: "socket_addr_pair \<Rightarrow> socket_addr_pair \<Rightarrow> bool" where
  "compareSocketAddrPair a b \<longleftrightarrow> fst a = fst b \<and> snd a = snd b"

text \<open>
  \<open>q\<close> is what \<^verbatim>\<open>new Addr()\<close> returns, \<open>addr\<close> what \<^verbatim>\<open>accept\<close> writes there. The test of the answer of
  \<^verbatim>\<open>accept\<close> is \<open>clientSocket <= 1\<close> in unsigned arithmetic; after a failure the object is not deleted.
\<close>

definition acceptNewConnection ::
  "SOCKET \<Rightarrow> sockaddr_in \<Rightarrow> nat \<Rightarrow> addr_heap \<Rightarrow> net \<Rightarrow> socket_addr_pair \<times> addr_heap \<times> net" where
  "acceptNewConnection clientSocket addr q addrs n =
     (let addrs1 = addrs(q \<mapsto> addr)
      in if clientSocket \<le> 1 then (SAP_NULL, addrs1, WSACleanup n) else ((clientSocket, Some q), addrs1, n))"

definition EncryptedServerSocket_firstEncryptionInteraction :: "socket_addr_pair \<Rightarrow> DWORD" where
  "EncryptedServerSocket_firstEncryptionInteraction sap = 1"

definition EncryptedServerSocket_acceptNewConnection ::
  "SOCKET \<Rightarrow> sockaddr_in \<Rightarrow> nat \<Rightarrow> addr_heap \<Rightarrow> net \<Rightarrow> socket_addr_pair \<times> addr_heap \<times> net" where
  "EncryptedServerSocket_acceptNewConnection = acceptNewConnection"

text \<open>The rest of \<open>EncryptedClientSocket\<close>: opening and datagrams as in \<open>ClientSocket\<close>, and a stub.\<close>

definition EncryptedClientSocket_initTCP :: "SOCKET \<Rightarrow> bool \<Rightarrow> SOCKET \<times> net \<Rightarrow> bool \<times> SOCKET \<times> net" where
  "EncryptedClientSocket_initTCP = ClientSocket_initTCP"

definition EncryptedClientSocket_initUDP :: "SOCKET \<Rightarrow> bool \<Rightarrow> SOCKET \<times> net \<Rightarrow> (bool \<times> SOCKET \<times> net) outcome" where
  "EncryptedClientSocket_initUDP = ClientSocket_initUDP"

definition EncryptedClientSocket_sendDataTo :: "DWORD \<Rightarrow> SOCKET \<Rightarrow> BYTE list \<Rightarrow> net \<Rightarrow> DWORD \<times> net" where
  "EncryptedClientSocket_sendDataTo = ClientSocket_sendDataTo"

definition EncryptedClientSocket_recvDataFrom :: "BYTE list \<Rightarrow> BYTE list option \<Rightarrow> DWORD \<times> BYTE list" where
  "EncryptedClientSocket_recvDataFrom = ClientSocket_recvDataFrom"

definition EncryptedClientSocket_firstHostInteraction :: DWORD where
  "EncryptedClientSocket_firstHostInteraction = 1"

text \<open>The stubs of \<open>EncryptedHostSocket\<close>.\<close>

definition EncryptedHostSocket_initTCP :: bool where "EncryptedHostSocket_initTCP = True"
definition EncryptedHostSocket_initUDP :: bool where "EncryptedHostSocket_initUDP = True"
definition EncryptedHostSocket_initListen :: bool where "EncryptedHostSocket_initListen = True"
definition EncryptedHostSocket_sendData :: DWORD where "EncryptedHostSocket_sendData = 1"
definition EncryptedHostSocket_recvData :: DWORD where "EncryptedHostSocket_recvData = 1"
definition EncryptedHostSocket_firstServerInteraction :: DWORD where "EncryptedHostSocket_firstServerInteraction = 1"
definition EncryptedHostSocket_firstClientInteraction :: DWORD where "EncryptedHostSocket_firstClientInteraction = 1"

section \<open>The first interaction\<close>

record client =
  cl_name :: "BYTE list"
  cl_roomName :: "BYTE list"
  cl_roomPassword :: "BYTE list"
  cl_isHost :: bool

text \<open>Writing a name over the start of an array.\<close>

definition fill :: "BYTE list \<Rightarrow> BYTE list \<Rightarrow> BYTE list" where
  "fill name arr = name @ drop (length name) arr"

text \<open>
  \<open>firstServerInteraction\<close>: refuses names longer than the arrays, waits for the server's zeroed
  struct, fills it in and sends it. The answer of the receive is not looked at.
\<close>

definition firstServerInteraction ::
  "DWORD \<Rightarrow> client \<Rightarrow> BYTE list option \<Rightarrow> SOCKET \<Rightarrow> net \<Rightarrow> DWORD \<times> net" where
  "firstServerInteraction res client arrived sock n =
     (if 16 < length (cl_name client) \<or> 16 < length (cl_roomName client)
         \<or> 16 < length (cl_roomPassword client)
      then (-1, n)
      else let (_, buf) = EncryptedClientSocket_recvData (encode_fsi zero_fsi) arrived;
               fsi = decode_fsi buf;
               fsi' = fsi\<lparr>fi_clientName := fill (cl_name client) (fi_clientName fsi),
                 clientNameLength := word_of_nat (length (cl_name client)),
                 fi_roomName := fill (cl_roomName client) (fi_roomName fsi),
                 roomNameLength := word_of_nat (length (cl_roomName client)),
                 fi_roomPassword := fill (cl_roomPassword client) (fi_roomPassword fsi),
                 roomPasswordLength := word_of_nat (length (cl_roomPassword client)),
                 fi_isHost := cl_isHost client\<rparr>
           in EncryptedClientSocket_sendData res sock (encode_fsi fsi') (word_of_nat sizeof_fsi) 1 n)"

text \<open>The server's side: send zeros, receive the struct over them.\<close>

definition firstClientInteraction ::
  "DWORD \<Rightarrow> SOCKET \<Rightarrow> BYTE list option \<Rightarrow> net \<Rightarrow> first_interaction \<times> net" where
  "firstClientInteraction res sock arrived n =
     (let idData = encode_fsi zero_fsi;
          (_, n1) = EncryptedServerSocket_sendData res sock idData (word_of_nat sizeof_fsi) 1 n;
          (_, buf) = EncryptedServerSocket_recvData idData arrived
      in (decode_fsi buf, n1))"

text \<open>
  \<^verbatim>\<open>std::string(idRes.roomName)\<close> reads bytes up to the first zero, past the end of the array if
  it has none; \<open>None\<close> when it would leave the struct.
\<close>

definition c_string :: "first_interaction \<Rightarrow> nat \<Rightarrow> BYTE list option" where
  "c_string f off = (let bs = drop off (encode_fsi f)
     in if 0 \<in> set bs then Some (takeWhile (\<lambda>b. b \<noteq> 0) bs) else None)"

definition roomName_off :: nat where "roomName_off = 0"
definition clientName_off :: nat where "clientName_off = 16"
definition roomPassword_off :: nat where "roomPassword_off = 32"


section \<open>Lemmas: the exchange\<close>

lemma winsock_recv_full:
  "length bs = length buf \<Longrightarrow> winsock_recv buf (Some bs) = (word_of_nat (length bs), bs)"
  by (simp add: winsock_recv_def)

definition filled_fsi :: "client \<Rightarrow> first_interaction" where
  "filled_fsi c = zero_fsi\<lparr>fi_clientName := fill (cl_name c) (replicate 16 0),
     clientNameLength := word_of_nat (length (cl_name c)),
     fi_roomName := fill (cl_roomName c) (replicate 16 0),
     roomNameLength := word_of_nat (length (cl_roomName c)),
     fi_roomPassword := fill (cl_roomPassword c) (replicate 16 0),
     roomPasswordLength := word_of_nat (length (cl_roomPassword c)),
     fi_isHost := cl_isHost c\<rparr>"

definition names_fit :: "client \<Rightarrow> bool" where
  "names_fit c \<longleftrightarrow> length (cl_name c) \<le> 16 \<and> length (cl_roomName c) \<le> 16
     \<and> length (cl_roomPassword c) \<le> 16"

lemma wf_filled_fsi: "names_fit c \<Longrightarrow> wf_fsi (filled_fsi c)"
  by (simp add: names_fit_def wf_fsi_def filled_fsi_def zero_fsi_def fill_def)

text \<open>The server's greeting, and what a client with fitting names answers.\<close>

lemma server_greets:
  "net_sent (snd (firstClientInteraction res sock arrived n)) = net_sent n @ [(sock, encode_fsi zero_fsi)]"
  by (simp add: firstClientInteraction_def EncryptedServerSocket_sendData_def ServerSocket_sendData_def
      sizeof_fsi_def Let_def split_def)

lemma server_reads:
  "wf_fsi f \<Longrightarrow> fst (firstClientInteraction res sock (Some (encode_fsi f)) n) = f"
  using decode_encode_fsi[of f "[]"]
  by (simp add: firstClientInteraction_def EncryptedServerSocket_recvData_def
      ServerSocket_recvData_def winsock_recv_full Let_def split_def)

lemma client_answers:
  assumes "names_fit c"
  shows "firstServerInteraction res c (Some (encode_fsi zero_fsi)) sock n
    = (res, n\<lparr>net_sent := net_sent n @ [(sock, encode_fsi (filled_fsi c))]\<rparr>)"
proof -
  have "decode_fsi (encode_fsi zero_fsi) = zero_fsi" using decode_encode_fsi[of zero_fsi "[]"] by simp
  moreover have "length (encode_fsi (filled_fsi c)) = 52" using assms by (simp add: wf_filled_fsi)
  ultimately show ?thesis
    using assms
    by (simp add: firstServerInteraction_def EncryptedClientSocket_recvData_def ClientSocket_recvData_def
        winsock_recv_full EncryptedClientSocket_sendData_def ClientSocket_sendData_def sizeof_fsi_def
        names_fit_def filled_fsi_def zero_fsi_def Let_def split_def)
qed

subsection \<open>C strings in the struct\<close>

lemma takeWhile_name: "0 \<notin> set name \<Longrightarrow> takeWhile (\<lambda>b. b \<noteq> 0) (name @ 0 # rest) = (name :: BYTE list)"
  by (induction name) auto

lemma c_string_name:
  assumes "drop off (encode_fsi f) = name @ 0 # rest" and "0 \<notin> set name"
  shows "c_string f off = Some name"
  using assms by (simp add: c_string_def takeWhile_name)

lemma fill_short: "length name < 16 \<Longrightarrow> fill name (replicate 16 0) = name @ 0 # replicate (15 - length name) 0"
  by (simp add: fill_def replicate_Suc[symmetric] Suc_diff_le[symmetric] del: replicate_Suc)

lemma fill_full: "length name = 16 \<Longrightarrow> fill name (replicate 16 0) = name"
  by (simp add: fill_def)

lemma drop_encode_fsi:
  assumes "wf_fsi f"
  shows "drop 16 (encode_fsi f) = fi_clientName f @ fi_roomPassword f
      @ [clientNameLength f, roomNameLength f, roomPasswordLength f, if fi_isHost f then 1 else 0]"
    and "drop 32 (encode_fsi f) = fi_roomPassword f
      @ [clientNameLength f, roomNameLength f, roomPasswordLength f, if fi_isHost f then 1 else 0]"
  using assms by (simp_all add: encode_fsi_def wf_fsi_def)

lemma c_string_room:
  assumes "names_fit c" and "length (cl_roomName c) < 16" and "0 \<notin> set (cl_roomName c)"
  shows "c_string (filled_fsi c) roomName_off = Some (cl_roomName c)"
  by (rule c_string_name[OF _ assms(3)])
    (simp add: encode_fsi_def roomName_off_def filled_fsi_def fill_short[OF assms(2)])

lemma c_string_client:
  assumes "names_fit c" and "length (cl_name c) < 16" and "0 \<notin> set (cl_name c)"
  shows "c_string (filled_fsi c) clientName_off = Some (cl_name c)"
  unfolding clientName_off_def
  by (rule c_string_name[OF trans[OF drop_encode_fsi(1)[OF wf_filled_fsi[OF assms(1)]]] assms(3)])
    (simp add: filled_fsi_def fill_short[OF assms(2)])

lemma c_string_password:
  assumes "names_fit c" and "length (cl_roomPassword c) < 16" and "0 \<notin> set (cl_roomPassword c)"
  shows "c_string (filled_fsi c) roomPassword_off = Some (cl_roomPassword c)"
  unfolding roomPassword_off_def
  by (rule c_string_name[OF trans[OF drop_encode_fsi(2)[OF wf_filled_fsi[OF assms(1)]]] assms(3)])
    (simp add: filled_fsi_def fill_short[OF assms(2)])

section \<open>Properties\<close>

definition short_names :: "client \<Rightarrow> bool" where
  "short_names c \<longleftrightarrow> (\<forall>name \<in> {cl_name c, cl_roomName c, cl_roomPassword c}. length name < 16 \<and> 0 \<notin> set name)"

lemma short_names_fit: "short_names c \<Longrightarrow> names_fit c"
  by (auto simp: short_names_def names_fit_def)

text \<open>
  C23: The first interaction tells the server who the client is. The server greets with a zeroed
  struct; a client whose names have at most 15 characters answers it with one message; and what
  the server reads from that message are exactly the client's name, room, password and role.
\<close>

theorem first_interaction_delivers:
  assumes "short_names c"
  shows "\<exists>greeting answer fsi.
    net_sent (snd (firstClientInteraction r ss (Some answer) sn)) = net_sent sn @ [(ss, greeting)]
    \<and> firstServerInteraction r' c (Some greeting) cs cn = (r', cn\<lparr>net_sent := net_sent cn @ [(cs, answer)]\<rparr>)
    \<and> fst (firstClientInteraction r ss (Some answer) sn) = fsi
    \<and> c_string fsi roomName_off = Some (cl_roomName c) \<and> c_string fsi clientName_off = Some (cl_name c)
    \<and> c_string fsi roomPassword_off = Some (cl_roomPassword c) \<and> fi_isHost fsi = cl_isHost c"
proof (intro exI conjI)
  from assms have fit: "names_fit c" by (rule short_names_fit)
  show "net_sent (snd (firstClientInteraction r ss (Some (encode_fsi (filled_fsi c))) sn))
      = net_sent sn @ [(ss, encode_fsi zero_fsi)]" by (rule server_greets)
  show "firstServerInteraction r' c (Some (encode_fsi zero_fsi)) cs cn
      = (r', cn\<lparr>net_sent := net_sent cn @ [(cs, encode_fsi (filled_fsi c))]\<rparr>)"
    using fit by (rule client_answers)
  show "fst (firstClientInteraction r ss (Some (encode_fsi (filled_fsi c))) sn) = filled_fsi c"
    using fit by (intro server_reads wf_filled_fsi)
  from assms show "c_string (filled_fsi c) roomName_off = Some (cl_roomName c)"
    "c_string (filled_fsi c) clientName_off = Some (cl_name c)"
    "c_string (filled_fsi c) roomPassword_off = Some (cl_roomPassword c)"
    using fit by (simp_all add: short_names_def c_string_room c_string_client c_string_password)
  show "fi_isHost (filled_fsi c) = cl_isHost c" by (simp add: filled_fsi_def)
qed

text \<open>A guest \<open>bob\<close> of the room \<open>r1\<close> with the password \<open>pw\<close>.\<close>

definition bob :: client where
  "bob = \<lparr>cl_name = [98, 111, 98], cl_roomName = [114, 49], cl_roomPassword = [112, 119], cl_isHost = False\<rparr>"

theorem first_interaction_delivers_witness:
  "\<exists>greeting answer fsi.
    net_sent (snd (firstClientInteraction 52 7 (Some answer) empty_net)) = net_sent empty_net @ [(7, greeting)]
    \<and> firstServerInteraction 52 bob (Some greeting) 9 empty_net
        = (52, empty_net\<lparr>net_sent := net_sent empty_net @ [(9, answer)]\<rparr>)
    \<and> fst (firstClientInteraction 52 7 (Some answer) empty_net) = fsi
    \<and> c_string fsi roomName_off = Some (cl_roomName bob) \<and> c_string fsi clientName_off = Some (cl_name bob)
    \<and> c_string fsi roomPassword_off = Some (cl_roomPassword bob) \<and> fi_isHost fsi = cl_isHost bob"
  by (rule first_interaction_delivers) (simp add: short_names_def bob_def)

text \<open>
  A room name of 16 characters passes the client's length check and then names another room.
  The array has no room for the terminating zero, so the name the server reads goes on with the
  client's own name, and two clients that ask for the same room get different ones.
\<close>

lemma full_length_room_name:
  assumes "length (cl_roomName c) = 16" and "0 \<notin> set (cl_roomName c)"
    and "length (cl_name c) < 16" and "0 \<notin> set (cl_name c)" and "length (cl_roomPassword c) \<le> 16"
  shows "\<exists>answer. firstServerInteraction r c (Some (encode_fsi zero_fsi)) cs cn
      = (r, cn\<lparr>net_sent := net_sent cn @ [(cs, answer)]\<rparr>)
    \<and> c_string (fst (firstClientInteraction r' ss (Some answer) sn)) roomName_off
      = Some (cl_roomName c @ cl_name c)"
proof (intro exI conjI)
  from assms have fit: "names_fit c" by (simp add: names_fit_def)
  show "firstServerInteraction r c (Some (encode_fsi zero_fsi)) cs cn
      = (r, cn\<lparr>net_sent := net_sent cn @ [(cs, encode_fsi (filled_fsi c))]\<rparr>)"
    using fit by (rule client_answers)
  have "c_string (filled_fsi c) roomName_off = Some (cl_roomName c @ cl_name c)"
    by (rule c_string_name)
      (use assms in \<open>simp_all add: encode_fsi_def roomName_off_def filled_fsi_def fill_full fill_short\<close>)
  then show "c_string (fst (firstClientInteraction r' ss (Some (encode_fsi (filled_fsi c))) sn)) roomName_off
      = Some (cl_roomName c @ cl_name c)"
    by (simp only: server_reads[OF wf_filled_fsi[OF fit]])
qed

text \<open>
  \<open>initTCP\<close> connects a socket object at most once. After an attempt that got a socket, connected
  or not, every later call closes the socket once more, gives up a reference to winsock and fails,
  whatever winsock would answer; the object keeps the handle it has closed.
\<close>

lemma initTCP_one_shot:
  assumes "socketRes \<noteq> INVALID_SOCKET"
    and "ClientSocket_initTCP socketRes connectOk (ClientSocket, n) = (ok, sock, n')"
  shows "ok = connectOk \<and> sock = socketRes
    \<and> ClientSocket_initTCP socketRes' connectOk' (sock, n')
      = (False, sock, n'\<lparr>net_closed := net_closed n' @ [sock], wsa_cleanups := Suc (wsa_cleanups n')\<rparr>)"
  using assms
  by (auto simp: ClientSocket_initTCP_def ClientSocket_def INVALID_SOCKET_def WSACleanup_def closesocket_def
      split: if_splits)

text \<open>
  \<open>acceptNewConnection\<close> takes the failure of \<^verbatim>\<open>accept\<close> for a new connection: the comparison
  \<open>clientSocket <= 1\<close> is unsigned, so the value \<open>INVALID_SOCKET\<close> passes it, and the server starts
  a handler for a socket that does not exist.
\<close>

lemma accept_failure_passes:
  "\<exists>conn. acceptNewConnection INVALID_SOCKET addr q addrs n = (conn, addrs(q \<mapsto> addr), n) \<and> fst conn = INVALID_SOCKET
    \<and> \<not> compareSocketAddrPair conn SAP_NULL"
  by (simp add: acceptNewConnection_def INVALID_SOCKET_def compareSocketAddrPair_def SAP_NULL_def
      word_le_nat_alt)

text \<open>
  No receive error is negative. \<open>recvDataFrom\<close> returns a \<open>DWORD\<close>: when \<^verbatim>\<open>recvfrom\<close> fails
  the result is \<open>0xFFFFFFFF\<close> with the buffer unchanged, the test \<open>< 0\<close> on it is false for every
  outcome, and only the conversion to \<open>int\<close>, which the viewer's receiver does, brings -1 back.
\<close>

lemma recvDataFrom_error_is_unsigned:
  "\<not> fst (ClientSocket_recvDataFrom buf arrived) < 0
    \<and> ClientSocket_recvDataFrom buf None = (SOCKET_ERROR, buf)
    \<and> sint (fst (ClientSocket_recvDataFrom buf None)) = -1"
  by (simp add: ClientSocket_recvDataFrom_def winsock_recvfrom_def SOCKET_ERROR_def)

text \<open>
  \<open>sendData\<close> never hands an empty message to winsock. It computes the length as a 32-bit
  product; if that is zero, also by wrapping around, it returns the error value and sends nothing;
  otherwise it sends one message of that many bytes.
\<close>

lemma sendData_length:
  "ServerSocket_sendData res sock pData typeSize len n
    = (if (unat typeSize * unat len) mod 2 ^ 32 = 0 then (SOCKET_ERROR, n)
       else (res, n\<lparr>net_sent := net_sent n @ [(sock, take ((unat typeSize * unat len) mod 2 ^ 32) pData)]\<rparr>))"
proof -
  have "unat (typeSize * len) = (unat typeSize * unat len) mod 2 ^ 32" by (simp add: unat_word_ariths)
  moreover have "(typeSize * len \<le> 0) = (unat (typeSize * len) = 0)" by (simp add: unat_eq_0)
  ultimately show ?thesis
    by (simp add: ServerSocket_sendData_def SOCKET_ERROR_def Let_def)
qed

end
