(* ===== verification/DataStructures.thy ===== *)
theory DataStructures
  imports Prelude
begin

text \<open>
  \<^verbatim>\<open>datastructures.h\<close>: the blocking queues \<open>ThreadSafeQueue\<close> and
  \<open>ThreadSafePrioQueue\<close>. Each holds a standard container guarded by a critical section and a
  counting semaphore created with count 0 and maximum \<open>MAXINT\<close>. An operation is modelled in
  the parts the code runs atomically: the container access inside the critical section, and the
  semaphore call outside of it. Here one thread runs an operation from start to end;
  \<^verbatim>\<open>QueueThreads\<close> interleaves the same parts of many threads.

  The locale \<open>counted_queue\<close> states what all the queues promise about the multiset of their
  items and the permits of their semaphore, whatever a \<open>Pop\<close> without a permit does;
  \<open>blocking_queue\<close> says that it waits, \<open>polling_queue\<close> that it times out. \<open>fifo_queue\<close> adds the
  order of \<open>ThreadSafeQueue\<close>, \<open>prio_order\<close> the order of \<open>ThreadSafePrioQueue\<close>.
\<close>

section \<open>The semaphore\<close>

text \<open>
  \<open>ReleaseSemaphore\<close> fails once the count is at the maximum, and \<open>GetLastError\<close> is then
  \<open>ERROR_TOO_MANY_POSTS\<close>. A wait with the timeout \<open>INFINITE\<close> never times out, so with no
  permit it blocks; with a finite timeout and no permit arriving it times out.
\<close>

definition MAXINT :: nat where "MAXINT = 2147483647"
definition ERROR_TOO_MANY_POSTS :: DWORD where "ERROR_TOO_MANY_POSTS = 298"
definition INFINITE :: DWORD where "INFINITE = 0xFFFFFFFF"

definition release_semaphore :: "nat \<Rightarrow> DWORD \<times> nat" where
  "release_semaphore permits =
     (if permits < MAXINT then (0, Suc permits) else (ERROR_TOO_MANY_POSTS, permits))"

definition wait_semaphore :: "DWORD \<Rightarrow> nat \<Rightarrow> unit outcome \<times> nat" where
  "wait_semaphore timeout permits =
     (if 0 < permits then (Done (), permits - 1)
      else if timeout = INFINITE then (Blocks, permits)
      else (Fault (Runtime_error ''semaphore timed out''), permits))"

section \<open>ThreadSafeQueue\<close>

record 'a tsqueue =
  queue :: "'a list"
  queue_semaphore :: nat

definition ThreadSafeQueue :: "'a tsqueue" where
  "ThreadSafeQueue = \<lparr>queue = [], queue_semaphore = 0\<rparr>"

text \<open>\<open>timeout\<close> is \<open>INFINITE\<close> in RDIBY and 3 milliseconds in RDIBYClient.\<close>

definition tsq_timeout :: DWORD where "tsq_timeout = INFINITE"
definition tsq_timeout_RDIBYClient :: DWORD where "tsq_timeout_RDIBYClient = 3"

definition tsq_enqueue :: "'a \<Rightarrow> 'a tsqueue \<Rightarrow> 'a tsqueue" where
  "tsq_enqueue item q = q\<lparr>queue := queue q @ [item]\<rparr>"

definition tsq_release :: "'a tsqueue \<Rightarrow> DWORD \<times> 'a tsqueue" where
  "tsq_release q = (let (res, n) = release_semaphore (queue_semaphore q)
     in (res, q\<lparr>queue_semaphore := n\<rparr>))"

definition tsq_Push :: "'a \<Rightarrow> 'a tsqueue \<Rightarrow> DWORD \<times> 'a tsqueue" where
  "tsq_Push item q = tsq_release (tsq_enqueue item q)"

definition tsq_wait :: "DWORD \<Rightarrow> 'a tsqueue \<Rightarrow> unit outcome \<times> 'a tsqueue" where
  "tsq_wait timeout q = (let (r, n) = wait_semaphore timeout (queue_semaphore q)
     in (r, q\<lparr>queue_semaphore := n\<rparr>))"

definition tsq_take :: "'a tsqueue \<Rightarrow> 'a outcome \<times> 'a tsqueue" where
  "tsq_take q = (case queue q of
       [] \<Rightarrow> (Fault (Runtime_error ''empty queue''), q)
     | item # rest \<Rightarrow> (Done item, q\<lparr>queue := rest\<rparr>))"

definition tsq_Pop :: "DWORD \<Rightarrow> 'a tsqueue \<Rightarrow> 'a outcome \<times> 'a tsqueue" where
  "tsq_Pop timeout q = (case tsq_wait timeout q of
       (Done _, q') \<Rightarrow> tsq_take q'
     | (Fault e, q') \<Rightarrow> (Fault e, q')
     | (Blocks, q') \<Rightarrow> (Blocks, q'))"

definition tsq_Peek :: "'a tsqueue \<Rightarrow> 'a outcome" where
  "tsq_Peek q = (case queue q of
       [] \<Rightarrow> Fault (Runtime_error ''empty queue'')
     | item # _ \<Rightarrow> Done item)"

definition tsq_isEmpty :: "'a tsqueue \<Rightarrow> bool" where
  "tsq_isEmpty q \<longleftrightarrow> queue q = []"

definition tsq_Size :: "'a tsqueue \<Rightarrow> DWORD" where
  "tsq_Size q = word_of_nat (length (queue q))"

text \<open>\<open>Clear\<close> empties the container and leaves the semaphore as it is.\<close>

definition tsq_Clear :: "'a tsqueue \<Rightarrow> 'a tsqueue" where
  "tsq_Clear q = q\<lparr>queue := []\<rparr>"

section \<open>ThreadSafePrioQueue\<close>

text \<open>
  \<^verbatim>\<open>std::priority_queue\<close> gives a greatest item of its comparison first. It is modelled as the
  list of its items in the order they would be popped; among items that the comparison does not
  order, the one pushed first comes first (the standard leaves that open, and no lemma below
  depends on it).
\<close>

fun pq_insert :: "('a \<Rightarrow> 'a \<Rightarrow> bool) \<Rightarrow> 'a \<Rightarrow> 'a list \<Rightarrow> 'a list" where
  "pq_insert cmp x [] = [x]"
| "pq_insert cmp x (y # ys) = (if cmp y x then x # y # ys else y # pq_insert cmp x ys)"

record 'a tspqueue =
  pqueue :: "'a list"
  pqueue_semaphore :: nat

definition ThreadSafePrioQueue :: "'a tspqueue" where
  "ThreadSafePrioQueue = \<lparr>pqueue = [], pqueue_semaphore = 0\<rparr>"

definition tspq_Push :: "('a \<Rightarrow> 'a \<Rightarrow> bool) \<Rightarrow> 'a \<Rightarrow> 'a tspqueue \<Rightarrow> DWORD \<times> 'a tspqueue" where
  "tspq_Push cmp item q =
     (let q' = q\<lparr>pqueue := pq_insert cmp item (pqueue q)\<rparr>;
          (res, n) = release_semaphore (pqueue_semaphore q')
      in (res, q'\<lparr>pqueue_semaphore := n\<rparr>))"

definition tspq_Pop :: "DWORD \<Rightarrow> 'a tspqueue \<Rightarrow> 'a outcome \<times> 'a tspqueue" where
  "tspq_Pop timeout q = (case wait_semaphore timeout (pqueue_semaphore q) of
       (Done _, n) \<Rightarrow> (case pqueue q of
            [] \<Rightarrow> (Fault (Runtime_error ''empty queue''), q\<lparr>pqueue_semaphore := n\<rparr>)
          | item # rest \<Rightarrow> (Done item, q\<lparr>pqueue := rest, pqueue_semaphore := n\<rparr>))
     | (Fault e, n) \<Rightarrow> (Fault e, q\<lparr>pqueue_semaphore := n\<rparr>)
     | (Blocks, n) \<Rightarrow> (Blocks, q\<lparr>pqueue_semaphore := n\<rparr>))"

definition tspq_Peek :: "'a tspqueue \<Rightarrow> 'a outcome" where
  "tspq_Peek q = (case pqueue q of
       [] \<Rightarrow> Fault (Runtime_error ''empty queue'')
     | item # _ \<Rightarrow> Done item)"

definition tspq_isEmpty :: "'a tspqueue \<Rightarrow> bool" where
  "tspq_isEmpty q \<longleftrightarrow> pqueue q = []"

definition tspq_Size :: "'a tspqueue \<Rightarrow> DWORD" where
  "tspq_Size q = word_of_nat (length (pqueue q))"

definition tspq_Clear :: "'a tspqueue \<Rightarrow> 'a tspqueue" where
  "tspq_Clear q = q\<lparr>pqueue := []\<rparr>"

section \<open>The contract of the queues\<close>

text \<open>One call of a client, and its result: the item of a \<open>Pop\<close>, if it returned one.\<close>

datatype 'a queue_call = Push_call 'a | Pop_call

locale counted_queue =
  fixes empty :: 'q
    and push :: "'a \<Rightarrow> 'q \<Rightarrow> DWORD \<times> 'q"
    and pop :: "'q \<Rightarrow> 'a outcome \<times> 'q"
    and contents :: "'q \<Rightarrow> 'a multiset"
    and permits :: "'q \<Rightarrow> nat"
  assumes contents_empty: "contents empty = {#}"
    and permits_empty: "permits empty = 0"
    and contents_push: "contents (snd (push x q)) = add_mset x (contents q)"
    and push_ok: "permits q < MAXINT \<Longrightarrow> fst (push x q) = 0 \<and> permits (snd (push x q)) = Suc (permits q)"
    and push_full: "\<not> permits q < MAXINT \<Longrightarrow>
      fst (push x q) = ERROR_TOO_MANY_POSTS \<and> permits (snd (push x q)) = permits q"
    and pop_nothing: "permits q = 0 \<Longrightarrow> snd (pop q) = q \<and> (\<forall>x. fst (pop q) \<noteq> Done x)"
    and pop_item: "0 < permits q \<Longrightarrow> contents q \<noteq> {#} \<Longrightarrow>
      \<exists>x q'. pop q = (Done x, q') \<and> contents q = add_mset x (contents q') \<and> permits q = Suc (permits q')"
    and pop_empty: "0 < permits q \<Longrightarrow> contents q = {#} \<Longrightarrow>
      fst (pop q) = Fault (Runtime_error ''empty queue'') \<and> permits q = Suc (permits (snd (pop q)))
        \<and> contents (snd (pop q)) = {#}"
begin

text \<open>
  \<open>synced\<close>: as many permits as items. Then a \<open>Pop\<close> that gets a permit finds an item.
\<close>

definition synced :: "'q \<Rightarrow> bool" where
  "synced q \<longleftrightarrow> permits q = size (contents q)"

definition call :: "'a queue_call \<Rightarrow> 'q \<Rightarrow> 'a outcome option \<times> 'q" where
  "call c q = (case c of
       Push_call x \<Rightarrow> (None, snd (push x q))
     | Pop_call \<Rightarrow> (case pop q of (r, q') \<Rightarrow> (Some r, q')))"

fun calls :: "'a queue_call list \<Rightarrow> 'q \<Rightarrow> 'a outcome list \<times> 'q" where
  "calls [] q = ([], q)"
| "calls (c # cs) q = (case call c q of (r, q1) \<Rightarrow> (case calls cs q1 of (rs, q2) \<Rightarrow>
     (case r of None \<Rightarrow> rs | Some r' \<Rightarrow> r' # rs, q2)))"

lemma synced_empty: "synced empty"
  by (simp add: synced_def contents_empty permits_empty)

lemma synced_push: "synced q \<Longrightarrow> size (contents q) < MAXINT \<Longrightarrow> synced (snd (push x q))"
  by (simp add: synced_def contents_push push_ok)

lemma synced_pop:
  assumes "synced q"
  shows "(contents q = {#} \<and> permits q = 0 \<and> snd (pop q) = q \<and> (\<forall>x. fst (pop q) \<noteq> Done x)) \<or>
    (\<exists>x q'. pop q = (Done x, q') \<and> contents q = add_mset x (contents q') \<and> synced q')"
  using assms pop_nothing[of q] pop_item[of q] by (cases "contents q = {#}") (fastforce simp: synced_def)+

text \<open>
  As long as fewer than \<open>MAXINT\<close> items are pushed, the items popped by any sequence of calls and
  those left are those pushed, and a \<open>Pop\<close> gives no item only when there is none: what it gives
  then is what \<open>pop\<close> gives without a permit.
\<close>

fun pushes :: "'a queue_call list \<Rightarrow> 'a list" where
  "pushes [] = []"
| "pushes (Push_call x # cs) = x # pushes cs"
| "pushes (Pop_call # cs) = pushes cs"

definition popped :: "'a outcome list \<Rightarrow> 'a list" where
  "popped rs = concat (map (\<lambda>r. case r of Done x \<Rightarrow> [x] | _ \<Rightarrow> []) rs)"

lemma popped_simps [simp]:
  "popped [] = []" "popped (Done x # rs) = x # popped rs" "popped (Blocks # rs) = popped rs"
  "popped (Fault e # rs) = popped rs"
  by (simp_all add: popped_def)

lemma popped_other: "\<forall>x. r \<noteq> Done x \<Longrightarrow> popped (r # rs) = popped rs"
  by (auto simp: popped_def split: outcome.split)

lemma calls_conserve:
  assumes "synced q" and "size (contents q) + length (pushes cs) \<le> MAXINT"
  shows "synced (snd (calls cs q))
    \<and> (\<forall>r \<in> set (fst (calls cs q)). (\<exists>x. r = Done x) \<or> (\<exists>q'. permits q' = 0 \<and> r = fst (pop q')))
    \<and> contents q + mset (pushes cs) = mset (popped (fst (calls cs q))) + contents (snd (calls cs q))"
  using assms
proof (induction cs arbitrary: q)
  case (Cons c cs)
  show ?case
  proof (cases c)
    case (Push_call x)
    with Cons.prems have s: "synced (snd (push x q))" by (simp add: synced_push)
    show ?thesis
      using Cons.IH[OF s] Cons.prems Push_call
      by (auto simp: call_def contents_push split: prod.splits)
  next
    case Pop_call
    from synced_pop[OF Cons.prems(1)] show ?thesis
    proof (elim disjE exE conjE)
      assume e: "permits q = 0" "snd (pop q) = q" "\<forall>x. fst (pop q) \<noteq> Done x"
      then obtain r where r: "pop q = (r, q)" "\<forall>x. r \<noteq> Done x" by (metis prod.collapse)
      from e(1) r(1) have w: "\<exists>q'. permits q' = 0 \<and> r = fst (pop q')" by (intro exI[of _ q]) simp
      have c: "calls (c # cs) q = (r # fst (calls cs q), snd (calls cs q))"
        using r(1) Pop_call by (simp add: call_def split_def)
      from Cons.IH[OF Cons.prems(1)] Cons.prems(2) Pop_call show ?thesis
        unfolding c by (simp add: popped_other[OF r(2)] w)
    next
      fix x q' assume p: "pop q = (Done x, q')" "contents q = add_mset x (contents q')" "synced q'"
      have c: "calls (c # cs) q = (Done x # fst (calls cs q'), snd (calls cs q'))"
        using p(1) Pop_call by (simp add: call_def split_def)
      from Cons.IH[OF p(3)] Cons.prems(2) Pop_call p(2) show ?thesis
        unfolding c by simp
    qed
  qed
qed simp

end

text \<open>
  \<open>Clear\<close> leaves the permits: after it, on a queue with items, the next \<open>Pop\<close> does not wait for
  an item, it throws.
\<close>

locale clearable_queue = counted_queue empty push pop contents permits
  for empty :: 'q and push :: "'a \<Rightarrow> 'q \<Rightarrow> DWORD \<times> 'q" and pop contents permits +
  fixes clear :: "'q \<Rightarrow> 'q"
  assumes contents_clear: "contents (clear q) = {#}"
    and permits_clear: "permits (clear q) = permits q"
begin

lemma synced_clear: "synced q \<Longrightarrow> synced (clear q) \<longleftrightarrow> contents q = {#}"
  by (auto simp: synced_def contents_clear permits_clear)

lemma pop_after_clear:
  assumes "synced q" and "contents q \<noteq> {#}"
  shows "fst (pop (clear q)) = Fault (Runtime_error ''empty queue'')"
  using assms pop_empty[of "clear q"] by (auto simp: synced_def contents_clear permits_clear size_eq_0_iff_empty)

end

locale fifo_queue = counted_queue empty push pop contents permits
  for empty :: 'q and push :: "'a \<Rightarrow> 'q \<Rightarrow> DWORD \<times> 'q" and pop contents permits +
  fixes items :: "'q \<Rightarrow> 'a list"
  assumes contents_items: "contents q = mset (items q)"
    and items_push: "items (snd (push x q)) = items q @ [x]"
    and items_pop: "0 < permits q \<Longrightarrow> items q = x # xs \<Longrightarrow> fst (pop q) = Done x \<and> items (snd (pop q)) = xs"
begin

text \<open>First in, first out: what was in the queue and what was pushed comes out in order.\<close>

lemma calls_fifo:
  assumes "synced q" and "size (contents q) + length (pushes cs) \<le> MAXINT"
  shows "items q @ pushes cs = popped (fst (calls cs q)) @ items (snd (calls cs q))"
  using assms
proof (induction cs arbitrary: q)
  case Nil
  then show ?case by simp
next
  case (Cons c cs)
  show ?case
  proof (cases c)
    case (Push_call x)
    with Cons.prems have s: "synced (snd (push x q))" by (simp add: synced_push)
    show ?thesis
      using Cons.IH[OF s] Cons.prems Push_call
      by (auto simp: call_def contents_push items_push split: prod.splits)
  next
    case Pop_call
    from synced_pop[OF Cons.prems(1)] show ?thesis
    proof (elim disjE exE conjE)
      assume "contents q = {#}" and e: "snd (pop q) = q" "\<forall>x. fst (pop q) \<noteq> Done x"
      then obtain r where r: "pop q = (r, q)" "\<forall>x. r \<noteq> Done x" by (metis prod.collapse)
      have c: "calls (c # cs) q = (r # fst (calls cs q), snd (calls cs q))"
        using r(1) Pop_call by (simp add: call_def split_def)
      from Cons.IH[OF Cons.prems(1)] Cons.prems(2) Pop_call show ?thesis
        unfolding c by (simp add: popped_other[OF r(2)])
    next
      fix x q' assume p: "pop q = (Done x, q')" "contents q = add_mset x (contents q')" "synced q'"
      then obtain y ys where i: "items q = y # ys"
        by (cases "items q") (auto simp: contents_items)
      moreover have "0 < permits q" using Cons.prems(1) p by (simp add: synced_def)
      ultimately have "y = x" "items q' = ys" using items_pop[of q y ys] p by auto
      with i p Cons.IH[OF p(3)] Cons.prems Pop_call show ?thesis
        by (fastforce simp: call_def split: prod.splits)
    qed
  qed
qed

end

text \<open>A \<open>Pop\<close> without a permit waits for one.\<close>

locale blocking_queue = counted_queue empty push pop contents permits
  for empty :: 'q and push :: "'a \<Rightarrow> 'q \<Rightarrow> DWORD \<times> 'q" and pop contents permits +
  assumes pop_waits: "permits q = 0 \<Longrightarrow> pop q = (Blocks, q)"
begin

lemma calls_safe:
  assumes "synced q" and "size (contents q) + length (pushes cs) \<le> MAXINT"
  shows "\<forall>r \<in> set (fst (calls cs q)). \<forall>e. r \<noteq> Fault e"
  using calls_conserve[OF assms] pop_waits by fastforce

end

text \<open>A \<open>Pop\<close> without a permit throws, and leaves the queue as it is.\<close>

locale polling_queue = counted_queue empty push pop contents permits
  for empty :: 'q and push :: "'a \<Rightarrow> 'q \<Rightarrow> DWORD \<times> 'q" and pop contents permits +
  assumes pop_times_out: "permits q = 0 \<Longrightarrow> pop q = (Fault (Runtime_error ''semaphore timed out''), q)"
begin

lemma never_blocks: "fst (pop q) \<noteq> Blocks"
  using pop_times_out[of q] pop_item[of q] pop_empty[of q] by (cases "permits q = 0"; cases "contents q = {#}") auto

lemma calls_only_time_out:
  assumes "synced q" and "size (contents q) + length (pushes cs) \<le> MAXINT"
  shows "\<forall>r \<in> set (fst (calls cs q)). (\<exists>x. r = Done x) \<or> r = Fault (Runtime_error ''semaphore timed out'')"
  using calls_conserve[OF assms] pop_times_out by fastforce

end

section \<open>ThreadSafeQueue keeps the contract\<close>

lemmas tsq_defs = ThreadSafeQueue_def tsq_enqueue_def tsq_release_def tsq_Push_def tsq_wait_def
  tsq_take_def tsq_Pop_def tsq_Peek_def tsq_isEmpty_def tsq_Size_def tsq_Clear_def tsq_timeout_def
  release_semaphore_def wait_semaphore_def

interpretation tsq: fifo_queue ThreadSafeQueue tsq_Push "tsq_Pop tsq_timeout"
  "\<lambda>q. mset (queue q)" queue_semaphore queue
  by unfold_locales (auto simp: tsq_defs neq_Nil_conv)

interpretation tsq_wait: blocking_queue ThreadSafeQueue tsq_Push "tsq_Pop tsq_timeout"
  "\<lambda>q. mset (queue q)" queue_semaphore
  by unfold_locales (simp add: tsq_defs)

interpretation tsq_clear: clearable_queue ThreadSafeQueue tsq_Push "tsq_Pop tsq_timeout"
  "\<lambda>q. mset (queue q)" queue_semaphore tsq_Clear
  by unfold_locales (simp_all add: tsq_defs)

section \<open>ThreadSafePrioQueue keeps the contract\<close>

lemma mset_pq_insert [simp]: "mset (pq_insert cmp x ys) = add_mset x (mset ys)"
  by (induction ys) auto

lemma set_pq_insert [simp]: "set (pq_insert cmp x ys) = insert x (set ys)"
  by (metis mset_pq_insert set_mset_add_mset_insert set_mset_mset)

lemmas tspq_defs = ThreadSafePrioQueue_def tspq_Push_def tspq_Pop_def tspq_Peek_def
  tspq_isEmpty_def tspq_Size_def tspq_Clear_def tsq_timeout_def
  release_semaphore_def wait_semaphore_def

interpretation tspq: blocking_queue ThreadSafePrioQueue "tspq_Push cmp" "tspq_Pop tsq_timeout"
  "\<lambda>q. mset (pqueue q)" pqueue_semaphore for cmp
  by unfold_locales (auto simp: tspq_defs Let_def neq_Nil_conv)

interpretation tspq_clear: clearable_queue ThreadSafePrioQueue "tspq_Push cmp" "tspq_Pop tsq_timeout"
  "\<lambda>q. mset (pqueue q)" pqueue_semaphore tspq_Clear for cmp
  by unfold_locales (simp_all add: tspq_defs)

text \<open>
  For a strict weak order, which the standard demands of the comparison, no item of the queue
  is greater than the one \<open>Pop\<close> and \<open>Peek\<close> return.
\<close>

locale prio_order =
  fixes cmp :: "'a \<Rightarrow> 'a \<Rightarrow> bool"
  assumes cmp_irrefl: "\<not> cmp x x"
    and cmp_trans: "cmp x y \<Longrightarrow> cmp y z \<Longrightarrow> cmp x z"
    and cmp_neg_trans: "\<not> cmp x y \<Longrightarrow> \<not> cmp y z \<Longrightarrow> \<not> cmp x z"
begin

definition ordered :: "'a tspqueue \<Rightarrow> bool" where
  "ordered q \<longleftrightarrow> sorted_wrt (\<lambda>x y. \<not> cmp x y) (pqueue q)"

lemma cmp_asym: "cmp x y \<Longrightarrow> \<not> cmp y x"
  using cmp_irrefl cmp_trans by blast

lemma sorted_pq_insert:
  "sorted_wrt (\<lambda>x y. \<not> cmp x y) ys \<Longrightarrow> sorted_wrt (\<lambda>x y. \<not> cmp x y) (pq_insert cmp x ys)"
proof (induction ys)
  case Nil
  then show ?case by simp
next
  case (Cons y ys)
  then show ?case by (auto intro: cmp_neg_trans dest: cmp_asym cmp_trans)
qed

lemma ordered_empty: "ordered ThreadSafePrioQueue"
  by (simp add: ordered_def ThreadSafePrioQueue_def)

lemma ordered_push: "ordered q \<Longrightarrow> ordered (snd (tspq_Push cmp x q))"
  by (simp add: ordered_def tspq_Push_def Let_def sorted_pq_insert split: prod.splits)

lemma ordered_pop: "ordered q \<Longrightarrow> ordered (snd (tspq_Pop t q))"
  by (auto simp: ordered_def tspq_Pop_def split: prod.splits outcome.splits list.splits)

lemma ordered_clear: "ordered q \<Longrightarrow> ordered (tspq_Clear q)"
  by (simp add: ordered_def tspq_Clear_def)

lemma pop_greatest:
  "ordered q \<Longrightarrow> fst (tspq_Pop t q) = Done x \<Longrightarrow> y \<in> set (pqueue q) \<Longrightarrow> \<not> cmp x y"
  by (auto simp: ordered_def tspq_Pop_def cmp_irrefl split: prod.splits outcome.splits list.splits)

end

end
