(* ===== verification/Concurrency.thy ===== *)
theory Concurrency
  imports DataStructures
begin

text \<open>
  \<^verbatim>\<open>concurrency.h\<close> and \<^verbatim>\<open>concurrency.cpp\<close>: \<open>CriticalSection\<close>, \<open>ConditionVariable\<close>,
  \<open>ConThread\<close> and \<open>ThreadManager\<close>. Threads are numbered; what the Windows calls answer is an
  argument. \<open>ThreadManager\<close> keeps pointers to \<open>ConThread\<close> objects: the heap maps addresses to
  the objects, and \<open>None\<close> in the map is the null pointer.
\<close>

section \<open>Critical sections\<close>

text \<open>
  A Windows critical section: the thread that owns it and how often it has entered. Leaving a
  section that the thread does not own is undefined.
\<close>

record critical_section =
  cs_owner :: "nat option"
  cs_count :: nat

definition CriticalSection :: critical_section where
  "CriticalSection = \<lparr>cs_owner = None, cs_count = 0\<rparr>"

definition enter :: "nat \<Rightarrow> critical_section \<Rightarrow> critical_section outcome" where
  "enter t cs = (case cs_owner cs of
       None \<Rightarrow> Done \<lparr>cs_owner = Some t, cs_count = 1\<rparr>
     | Some u \<Rightarrow> if u = t then Done (cs\<lparr>cs_count := Suc (cs_count cs)\<rparr>) else Blocks)"

definition tryEntry :: "nat \<Rightarrow> critical_section \<Rightarrow> DWORD \<times> critical_section" where
  "tryEntry t cs = (case enter t cs of Done cs' \<Rightarrow> (1, cs') | _ \<Rightarrow> (0, cs))"

definition release :: "nat \<Rightarrow> critical_section \<Rightarrow> critical_section outcome" where
  "release t cs =
     (if cs_owner cs \<noteq> Some t then Fault Mem_fault
      else if cs_count cs \<le> 1 then Done CriticalSection
      else Done (cs\<lparr>cs_count := cs_count cs - 1\<rparr>))"

definition wf_section :: "critical_section \<Rightarrow> bool" where
  "wf_section cs \<longleftrightarrow> (cs_owner cs = None \<longleftrightarrow> cs_count cs = 0)"

subsection \<open>The contract of a lock\<close>

text \<open>
  What the code that brackets its work with \<open>enter\<close> and \<open>release\<close> relies on.
\<close>

locale lock =
  fixes lock_enter :: "nat \<Rightarrow> 'l \<Rightarrow> 'l outcome"
    and lock_release :: "nat \<Rightarrow> 'l \<Rightarrow> 'l outcome"
    and available :: "nat \<Rightarrow> 'l \<Rightarrow> bool"
    and good :: "'l \<Rightarrow> bool"
  assumes enter_available: "good l \<Longrightarrow> available t l \<Longrightarrow> \<exists>l'. lock_enter t l = Done l'"
    and enter_unavailable: "good l \<Longrightarrow> \<not> available t l \<Longrightarrow> lock_enter t l = Blocks"
    and enter_good: "good l \<Longrightarrow> lock_enter t l = Done l' \<Longrightarrow> good l'"
    and enter_excludes: "lock_enter t l = Done l' \<Longrightarrow> available u l' \<Longrightarrow> u = t"
    and release_enter: "good l \<Longrightarrow> lock_enter t l = Done l' \<Longrightarrow> lock_release t l' = Done l"
begin

definition guarded :: "nat \<Rightarrow> ('s \<Rightarrow> 'r outcome) \<Rightarrow> 'l \<Rightarrow> 's \<Rightarrow> ('l \<times> 'r) outcome" where
  "guarded t f l s = bind_outcome (lock_enter t l) (\<lambda>l1.
     bind_outcome (f s) (\<lambda>r. bind_outcome (lock_release t l1) (\<lambda>l2. Done (l2, r))))"

lemma guarded_balanced: "good l \<Longrightarrow> available t l \<Longrightarrow> f s = Done r \<Longrightarrow> guarded t f l s = Done (l, r)"
  unfolding guarded_def using enter_available release_enter by fastforce

lemma guarded_blocks: "good l \<Longrightarrow> \<not> available t l \<Longrightarrow> guarded t f l s = Blocks"
  by (simp add: guarded_def enter_unavailable)

lemma entered_blocks_others: "good l \<Longrightarrow> lock_enter t l = Done l' \<Longrightarrow> u \<noteq> t \<Longrightarrow> lock_enter u l' = Blocks"
  using enter_excludes enter_good enter_unavailable by blast

end

definition section_available :: "nat \<Rightarrow> critical_section \<Rightarrow> bool" where
  "section_available t cs \<longleftrightarrow> cs_owner cs = None \<or> cs_owner cs = Some t"

interpretation section_lock: lock enter release section_available wf_section
proof unfold_locales
  fix t u and l l' :: critical_section
  show "wf_section l \<Longrightarrow> section_available t l \<Longrightarrow> \<exists>l'. enter t l = Done l'"
    by (auto simp: enter_def section_available_def)
  show "wf_section l \<Longrightarrow> \<not> section_available t l \<Longrightarrow> enter t l = Blocks"
    by (auto simp: enter_def section_available_def split: option.split)
  show "wf_section l \<Longrightarrow> enter t l = Done l' \<Longrightarrow> wf_section l'"
    by (auto simp: enter_def wf_section_def split: option.splits if_splits)
  show "enter t l = Done l' \<Longrightarrow> section_available u l' \<Longrightarrow> u = t"
    by (auto simp: enter_def section_available_def split: option.splits if_splits)
  show "wf_section l \<Longrightarrow> enter t l = Done l' \<Longrightarrow> release t l' = Done l"
    by (cases l) (auto simp: enter_def wf_section_def release_def CriticalSection_def
        split: option.splits if_splits)
qed

section \<open>Condition variables\<close>

text \<open>
  \<open>SleepConditionVariableCS\<close> gives the section up while it waits and takes it again before it
  returns, woken up or timed out; the depth of the nesting stays. \<open>sleep\<close> in RDIBY and
  RDIBYClient leaves the section afterwards, \<open>sleep\<close> in VideoClient does not. \<open>wakes\<close> says
  whether the wait ends (by a wake-up or the timeout).
\<close>

record condition_variable =
  cv_cs :: critical_section
  cv_timeout :: DWORD

definition VideoClient_ConditionVariable :: condition_variable where
  "VideoClient_ConditionVariable = \<lparr>cv_cs = CriticalSection, cv_timeout = INFINITE\<rparr>"

definition setTimeout :: "DWORD \<Rightarrow> condition_variable \<Rightarrow> condition_variable" where
  "setTimeout timeout cv = cv\<lparr>cv_timeout := timeout\<rparr>"

definition SleepConditionVariableCS :: "bool \<Rightarrow> nat \<Rightarrow> critical_section \<Rightarrow> critical_section outcome" where
  "SleepConditionVariableCS wakes t cs =
     (if cs_owner cs \<noteq> Some t then Fault Mem_fault else if wakes then Done cs else Blocks)"

definition sleep :: "bool \<Rightarrow> nat \<Rightarrow> condition_variable \<Rightarrow> condition_variable outcome" where
  "sleep wakes t cv = bind_outcome (enter t (cv_cs cv)) (\<lambda>cs1.
     bind_outcome (SleepConditionVariableCS wakes t cs1) (\<lambda>cs2.
       bind_outcome (release t cs2) (\<lambda>cs3. Done (cv\<lparr>cv_cs := cs3\<rparr>))))"

definition VideoClient_sleep :: "bool \<Rightarrow> nat \<Rightarrow> condition_variable \<Rightarrow> condition_variable outcome" where
  "VideoClient_sleep wakes t cv = bind_outcome (enter t (cv_cs cv)) (\<lambda>cs1.
     bind_outcome (SleepConditionVariableCS wakes t cs1) (\<lambda>cs2. Done (cv\<lparr>cv_cs := cs2\<rparr>)))"

section \<open>Threads\<close>

type_synonym handle = "nat option"

record ('f, 'p) con_thread =
  hThread :: handle
  hStopEvent :: handle
  lpThreadAttributes :: "nat option"
  dwStackSize :: SIZE_T
  lpStartAddress :: "'f option"
  lpParameter :: "'p option"
  dwCreationFlags :: DWORD
  lpThreadId :: "nat option"

definition ConThread :: "('f, 'p) con_thread" where
  "ConThread = \<lparr>hThread = None, hStopEvent = None, lpThreadAttributes = None, dwStackSize = 0,
     lpStartAddress = None, lpParameter = None, dwCreationFlags = 0, lpThreadId = None\<rparr>"

definition ConThread3 :: "handle \<Rightarrow> 'f \<Rightarrow> 'p \<Rightarrow> ('f, 'p) con_thread" where
  "ConThread3 stop start param = \<lparr>hThread = None, hStopEvent = stop, lpThreadAttributes = None,
     dwStackSize = 0, lpStartAddress = Some start, lpParameter = Some param, dwCreationFlags = 0,
     lpThreadId = None\<rparr>"

definition ConThread7 ::
  "handle \<Rightarrow> nat option \<Rightarrow> SIZE_T \<Rightarrow> 'f \<Rightarrow> 'p \<Rightarrow> DWORD \<Rightarrow> nat option \<Rightarrow> ('f, 'p) con_thread" where
  "ConThread7 stop attrs stack start param flags tid = \<lparr>hThread = None, hStopEvent = stop,
     lpThreadAttributes = attrs, dwStackSize = stack, lpStartAddress = Some start,
     lpParameter = Some param, dwCreationFlags = flags, lpThreadId = tid\<rparr>"

text \<open>
  The Windows side: the threads started (handle, start routine, parameter), the events signalled,
  the handles waited for (at most one second each) and the handles closed. \<open>HandleDeleter\<close> closes
  a handle that is not null.
\<close>

record ('f, 'p) threads_os =
  started :: "(nat \<times> 'f option \<times> 'p option) list"
  signalled :: "nat set"
  waited :: "handle list"
  closed :: "nat list"

definition SetEvent :: "handle \<Rightarrow> ('f, 'p) threads_os \<Rightarrow> ('f, 'p) threads_os" where
  "SetEvent h os = (case h of None \<Rightarrow> os | Some e \<Rightarrow> os\<lparr>signalled := insert e (signalled os)\<rparr>)"

definition WaitForSingleObject :: "handle \<Rightarrow> ('f, 'p) threads_os \<Rightarrow> ('f, 'p) threads_os" where
  "WaitForSingleObject h os = os\<lparr>waited := waited os @ [h]\<rparr>"

definition HandleDeleter :: "handle \<Rightarrow> ('f, 'p) threads_os \<Rightarrow> ('f, 'p) threads_os" where
  "HandleDeleter h os = (case h of None \<Rightarrow> os | Some e \<Rightarrow> os\<lparr>closed := closed os @ [e]\<rparr>)"

record ('f, 'p) thread_manager =
  threadMap :: "(DWORD \<times> nat option) list"
  heap :: "nat \<Rightarrow> ('f, 'p) con_thread option"
  tm_os :: "('f, 'p) threads_os"

definition ThreadManager :: "('f, 'p) thread_manager" where
  "ThreadManager = \<lparr>threadMap = [], heap = Map.empty,
     tm_os = \<lparr>started = [], signalled = {}, waited = [], closed = []\<rparr>\<rparr>"

text \<open>
  \<open>new ConThread(...)\<close> at a free address, and \<open>createNewEvent\<close>, whose event is what
  \<^verbatim>\<open>CreateEventA\<close> answers.
\<close>

definition new_ConThread :: "nat \<Rightarrow> ('f, 'p) con_thread \<Rightarrow> ('f, 'p) thread_manager \<Rightarrow> ('f, 'p) thread_manager" where
  "new_ConThread p ct tm = tm\<lparr>heap := (heap tm)(p \<mapsto> ct)\<rparr>"

definition createNewEvent :: "handle \<Rightarrow> ('f, 'p) thread_manager \<Rightarrow> handle \<times> ('f, 'p) thread_manager" where
  "createNewEvent eventRes tm = (eventRes, tm)"

text \<open>
  \<open>createNewThread\<close>: \<open>thread\<close> is the answer of \<^verbatim>\<open>CreateThread\<close>. Assigning the handle closes the
  one the object held. \<^verbatim>\<open>insert\<close> keeps an entry that is there already.
\<close>

definition createNewThread ::
  "handle \<Rightarrow> DWORD \<Rightarrow> nat \<Rightarrow> ('f, 'p) thread_manager \<Rightarrow> (bool \<times> ('f, 'p) thread_manager) outcome" where
  "createNewThread thread key p tm = (case heap tm p of
       None \<Rightarrow> Fault Mem_fault
     | Some ct \<Rightarrow> (case thread of
         None \<Rightarrow> Done (False, tm)
       | Some h \<Rightarrow>
           let os1 = (tm_os tm)\<lparr>started := started (tm_os tm) @ [(h, lpStartAddress ct, lpParameter ct)]\<rparr>
           in Done (True, tm\<lparr>
             heap := (heap tm)(p \<mapsto> ct\<lparr>hThread := Some h\<rparr>),
             tm_os := HandleDeleter (hThread ct) os1,
             threadMap := (if map_of (threadMap tm) key = None
               then threadMap tm @ [(key, Some p)] else threadMap tm)\<rparr>)))"

text \<open>
  \<open>killThread\<close>: \<open>threadMap[key]\<close> of a key that is not in the map is a null pointer, and reading
  its \<open>hStopEvent\<close> is the fault.
\<close>

definition killThread :: "DWORD \<Rightarrow> ('f, 'p) thread_manager \<Rightarrow> (bool \<times> ('f, 'p) thread_manager) outcome" where
  "killThread key tm = (case map_of (threadMap tm) key of
       None \<Rightarrow> Fault Null_deref
     | Some None \<Rightarrow> Fault Null_deref
     | Some (Some p) \<Rightarrow> (case heap tm p of
         None \<Rightarrow> Fault Mem_fault
       | Some ct \<Rightarrow>
           Done (True, tm\<lparr>
             tm_os := WaitForSingleObject (hThread ct) (SetEvent (hStopEvent ct) (tm_os tm)),
             threadMap := filter (\<lambda>e. fst e \<noteq> key) (threadMap tm)\<rparr>)))"

text \<open>
  The destructor, which runs the destructor of every \<open>ConThread\<close>: the handles are closed and the
  object is gone. \<open>~ConThread\<close> destroys the members last to first.
\<close>

definition destroy_entry ::
  "DWORD \<times> nat option \<Rightarrow> ('f, 'p) thread_manager \<Rightarrow> ('f, 'p) thread_manager outcome" where
  "destroy_entry e tm = (case snd e of
       None \<Rightarrow> Fault Null_deref
     | Some p \<Rightarrow> (case heap tm p of
         None \<Rightarrow> Fault Mem_fault
       | Some ct \<Rightarrow>
           let os1 = WaitForSingleObject (hThread ct) (SetEvent (hStopEvent ct) (tm_os tm))
           in Done (tm\<lparr>heap := (heap tm)(p := None),
                tm_os := HandleDeleter (hThread ct) (HandleDeleter (hStopEvent ct) os1)\<rparr>)))"

definition ThreadManager_destructor :: "('f, 'p) thread_manager \<Rightarrow> ('f, 'p) thread_manager outcome" where
  "ThreadManager_destructor tm = foreach destroy_entry (threadMap tm) tm"


section \<open>Lemmas\<close>

lemma SetEvent_simps [simp]:
  "started (SetEvent h os) = started os" "waited (SetEvent h os) = waited os"
  "closed (SetEvent h os) = closed os" "signalled (SetEvent h os) = signalled os \<union> set_option h"
  by (simp_all add: SetEvent_def split: option.split)

lemma WaitForSingleObject_simps [simp]:
  "started (WaitForSingleObject h os) = started os" "waited (WaitForSingleObject h os) = waited os @ [h]"
  "closed (WaitForSingleObject h os) = closed os" "signalled (WaitForSingleObject h os) = signalled os"
  by (simp_all add: WaitForSingleObject_def)

lemma HandleDeleter_simps [simp]:
  "started (HandleDeleter h os) = started os" "waited (HandleDeleter h os) = waited os"
  "signalled (HandleDeleter h os) = signalled os"
  by (simp_all add: HandleDeleter_def split: option.split)

lemma filter_new_key: "map_of m key = None \<Longrightarrow> filter (\<lambda>e. fst e \<noteq> key) m = m"
  by (auto simp: filter_id_conv map_of_eq_None_iff)

lemma map_of_filter_key: "map_of (filter (\<lambda>e. fst e \<noteq> key) m) key = None"
  by (auto simp: map_of_eq_None_iff)

lemma killThread_unknown: "map_of (threadMap tm) key = None \<Longrightarrow> killThread key tm = Fault Null_deref"
  by (simp add: killThread_def)

section \<open>Properties\<close>

text \<open>
  The life of a thread. Created under a key that is free, a thread starts with the routine and
  the parameter of its object; killing the key signals the object's stop event, waits for that
  thread and takes the entry out again, so that the map is what it was before. Killing the key
  once more follows a null pointer.
\<close>

lemma thread_lifecycle:
  assumes "heap tm p = Some ct" and "map_of (threadMap tm) key = None"
  shows "\<exists>tm1 tm2. createNewThread (Some h) key p tm = Done (True, tm1)
    \<and> started (tm_os tm1) = started (tm_os tm) @ [(h, lpStartAddress ct, lpParameter ct)]
    \<and> killThread key tm1 = Done (True, tm2) \<and> threadMap tm2 = threadMap tm
    \<and> signalled (tm_os tm2) = signalled (tm_os tm) \<union> set_option (hStopEvent ct)
    \<and> waited (tm_os tm2) = waited (tm_os tm) @ [Some h]
    \<and> killThread key tm2 = Fault Null_deref"
proof -
  obtain tm1 where tm1: "createNewThread (Some h) key p tm = Done (True, tm1)"
    "threadMap tm1 = threadMap tm @ [(key, Some p)]" "heap tm1 p = Some (ct\<lparr>hThread := Some h\<rparr>)"
    "started (tm_os tm1) = started (tm_os tm) @ [(h, lpStartAddress ct, lpParameter ct)]"
    "signalled (tm_os tm1) = signalled (tm_os tm)" "waited (tm_os tm1) = waited (tm_os tm)"
    using assms by (simp add: createNewThread_def Let_def)
  have "map_of (threadMap tm1) key = Some (Some p)"
    using assms(2) by (simp add: tm1(2) map_add_def split: option.split)
  then obtain tm2 where "killThread key tm1 = Done (True, tm2)" "threadMap tm2 = threadMap tm"
    "signalled (tm_os tm2) = signalled (tm_os tm) \<union> set_option (hStopEvent ct)"
    "waited (tm_os tm2) = waited (tm_os tm) @ [Some h]"
    using tm1 assms(2) by (simp add: killThread_def filter_new_key)
  with tm1 assms(2) show ?thesis by (simp add: killThread_unknown)
qed

text \<open>The manager of \<open>acceptFunc\<close>, with the object for one client at address 40.\<close>

definition client_thread :: "nat \<Rightarrow> nat \<Rightarrow> (nat, nat) con_thread" where
  "client_thread stop param = ConThread3 (Some stop) 1 param"

definition one_thread_object :: "(nat, nat) thread_manager" where
  "one_thread_object = new_ConThread 40 (client_thread 5 2) ThreadManager"

text \<open>
  A key in use loses the new thread. \<open>createNewThread\<close> starts the thread and reports success,
  but \<^verbatim>\<open>insert\<close> keeps the old entry: killing the key then stops the old thread, and the new one
  can not be reached any more. The keys are sockets cut to 32 bits, so two sockets can share one.
\<close>

lemma used_key_loses_thread:
  assumes "map_of (threadMap tm) key = Some (Some q)" and "heap tm q = Some old"
    and "heap tm p = Some new" and "p \<noteq> q"
  shows "\<exists>tm1 tm2. createNewThread (Some h) key p tm = Done (True, tm1)
    \<and> (h, lpStartAddress new, lpParameter new) \<in> set (started (tm_os tm1))
    \<and> threadMap tm1 = threadMap tm
    \<and> killThread key tm1 = Done (True, tm2)
    \<and> signalled (tm_os tm2) = signalled (tm_os tm) \<union> set_option (hStopEvent old)
    \<and> waited (tm_os tm2) = waited (tm_os tm) @ [hThread old]
    \<and> killThread key tm2 = Fault Null_deref"
proof -
  obtain tm1 where tm1: "createNewThread (Some h) key p tm = Done (True, tm1)"
    "threadMap tm1 = threadMap tm" "heap tm1 q = Some old"
    "(h, lpStartAddress new, lpParameter new) \<in> set (started (tm_os tm1))"
    "signalled (tm_os tm1) = signalled (tm_os tm)" "waited (tm_os tm1) = waited (tm_os tm)"
    using assms by (simp add: createNewThread_def Let_def)
  then obtain tm2 where "killThread key tm1 = Done (True, tm2)"
    "threadMap tm2 = filter (\<lambda>e. fst e \<noteq> key) (threadMap tm)"
    "signalled (tm_os tm2) = signalled (tm_os tm) \<union> set_option (hStopEvent old)"
    "waited (tm_os tm2) = waited (tm_os tm) @ [hThread old]"
    using assms(1) by (simp add: killThread_def)
  with tm1 show ?thesis by (simp add: killThread_unknown map_of_filter_key)
qed

definition two_thread_objects :: "(nat, nat) thread_manager" where
  "two_thread_objects = (new_ConThread 41 (client_thread 6 3) one_thread_object)
     \<lparr>threadMap := [(100, Some 40)]\<rparr>"

subsection \<open>The destructor\<close>

definition manages :: "('f, 'p) thread_manager \<Rightarrow> (DWORD \<times> nat option) list \<Rightarrow> bool" where
  "manages tm es \<longleftrightarrow> distinct (map snd es) \<and> (\<forall>e \<in> set es. \<exists>p ct. snd e = Some p \<and> heap tm p = Some ct)"

definition stop_events :: "('f, 'p) thread_manager \<Rightarrow> (DWORD \<times> nat option) list \<Rightarrow> nat set" where
  "stop_events tm es = {ev. \<exists>e \<in> set es. \<exists>p ct. snd e = Some p \<and> heap tm p = Some ct \<and> hStopEvent ct = Some ev}"

lemma destroy_entry_step:
  assumes "manages tm (e # es)"
  obtains tm' where "destroy_entry e tm = Done tm'" "manages tm' es"
    "stop_events tm' es = stop_events tm es" "threadMap tm' = threadMap tm"
    "signalled (tm_os tm') = signalled (tm_os tm) \<union> stop_events tm [e]"
    "heap tm' = (heap tm)(the (snd e) := None)"
proof -
  from assms obtain p ct where p: "snd e = Some p" "heap tm p = Some ct"
    unfolding manages_def by auto
  then obtain tm' where tm': "destroy_entry e tm = Done tm'" "heap tm' = (heap tm)(p := None)"
    "threadMap tm' = threadMap tm"
    "signalled (tm_os tm') = signalled (tm_os tm) \<union> set_option (hStopEvent ct)"
    by (simp add: destroy_entry_def Let_def)
  have other: "\<And>e'. e' \<in> set es \<Longrightarrow> snd e' \<noteq> Some p"
    using assms p(1) by (force simp: manages_def)
  show thesis
  proof (rule that[OF tm'(1)])
    show "manages tm' es" using assms other by (fastforce simp: manages_def tm'(2))
    show "stop_events tm' es = stop_events tm es" using other by (fastforce simp: stop_events_def tm'(2))
    show "threadMap tm' = threadMap tm" by (fact tm'(3))
    have "set_option (hStopEvent ct) = stop_events tm [e]" using p by (auto simp: stop_events_def)
    with tm'(4) show "signalled (tm_os tm') = signalled (tm_os tm) \<union> stop_events tm [e]" by simp
    show "heap tm' = (heap tm)(the (snd e) := None)" using tm'(2) p(1) by simp
  qed
qed

lemma stop_events_Cons: "stop_events tm (e # es) = stop_events tm [e] \<union> stop_events tm es"
  by (auto simp: stop_events_def)

lemma destroy_entries:
  assumes "manages tm es"
  shows "\<exists>tm'. foreach destroy_entry es tm = Done tm'
    \<and> signalled (tm_os tm') = signalled (tm_os tm) \<union> stop_events tm es
    \<and> (\<forall>p. heap tm' p = (if Some p \<in> snd ` set es then None else heap tm p))"
  using assms
proof (induction es arbitrary: tm)
  case Nil
  then show ?case by (simp add: stop_events_def)
next
  case (Cons e es)
  obtain tm1 where tm1: "destroy_entry e tm = Done tm1" "manages tm1 es"
    "stop_events tm1 es = stop_events tm es"
    "signalled (tm_os tm1) = signalled (tm_os tm) \<union> stop_events tm [e]"
    "heap tm1 = (heap tm)(the (snd e) := None)"
    by (rule destroy_entry_step[OF Cons.prems])
  from Cons.IH[OF tm1(2)] obtain tm' where tm': "foreach destroy_entry es tm1 = Done tm'"
    "signalled (tm_os tm') = signalled (tm_os tm1) \<union> stop_events tm1 es"
    "\<forall>p. heap tm' p = (if Some p \<in> snd ` set es then None else heap tm1 p)"
    by (elim exE conjE)
  have "signalled (tm_os tm') = signalled (tm_os tm) \<union> stop_events tm (e # es)"
    using tm'(2) tm1(3,4) by (simp add: stop_events_Cons[of tm e es] Un_assoc)
  moreover have "\<exists>p. snd e = Some p" using Cons.prems by (auto simp: manages_def)
  ultimately show ?case
    using tm1(1,5) tm'(1,3) by (intro exI[of _ tm']) (auto simp del: bind_outcome_Done)
qed

text \<open>
  The destructor of \<open>ThreadManager\<close> asks every thread it manages to stop. When the map holds
  valid objects, each once, the destructor runs through, has signalled the stop event of every one
  of them and no other, and has destroyed exactly these objects.
\<close>

lemma destructor_stops_all:
  assumes "manages tm (threadMap tm)"
  shows "\<exists>tm'. ThreadManager_destructor tm = Done tm'
    \<and> signalled (tm_os tm') = signalled (tm_os tm) \<union> stop_events tm (threadMap tm)
    \<and> (\<forall>p. heap tm' p = (if Some p \<in> snd ` set (threadMap tm) then None else heap tm p))"
  unfolding ThreadManager_destructor_def using assms by (rule destroy_entries)

subsection \<open>Sleeping\<close>

lemma enter_owner: "enter t cs = Done cs' \<Longrightarrow> cs_owner cs' = Some t"
  by (auto simp: enter_def split: option.splits if_splits)

text \<open>
  The two versions of \<open>ConditionVariable::sleep\<close>. On a free section, the one of RDIBY returns
  with the section free again. The one of VideoClient returns with the section still entered, so
  that every other thread that goes to sleep on it blocks for good.
\<close>

lemma sleep_releases_section:
  assumes "wf_section (cv_cs cv)" and "cs_owner (cv_cs cv) = None"
  shows "sleep True t cv = Done cv
    \<and> (\<exists>cv'. VideoClient_sleep True t cv = Done cv' \<and> cs_owner (cv_cs cv') = Some t
         \<and> (\<forall>u wakes. u \<noteq> t \<longrightarrow> VideoClient_sleep wakes u cv' = Blocks))"
proof -
  obtain cs1 where cs1: "enter t (cv_cs cv) = Done cs1"
    using section_lock.enter_available[OF assms(1)] assms(2) by (auto simp: section_available_def)
  have owner: "cs_owner cs1 = Some t" using cs1 by (rule enter_owner)
  have "release t cs1 = Done (cv_cs cv)" using assms(1) cs1 by (rule section_lock.release_enter)
  moreover have "\<forall>u. u \<noteq> t \<longrightarrow> enter u cs1 = Blocks"
    using section_lock.entered_blocks_others[OF assms(1) cs1] by blast
  ultimately show ?thesis
    using cs1 owner
    by (simp add: sleep_def VideoClient_sleep_def SleepConditionVariableCS_def del: bind_outcome_Done)
qed

end
