(* ===== verification/Rooms.thy ===== *)
theory Rooms
  imports Network
begin

text \<open>
  \<^verbatim>\<open>room.h\<close> and \<^verbatim>\<open>room.cpp\<close>: \<open>RoomClient\<close>, \<open>Room\<close> and \<open>RoomManager\<close>. Rooms and clients
  are objects on the stacks of the server's handler threads, and the manager keeps pointers to
  them; here a handler's number is the address of its objects. \<open>room_at\<close> and \<open>client_at\<close> are the
  objects that are alive, \<open>addr_at\<close> the \<open>Addr\<close> objects on the heap that have not been deleted, so
  following a pointer to one that is gone shows as a memory fault.
\<close>

section \<open>State\<close>

record room_client =
  rc_sap :: socket_addr_pair
  rc_name :: "BYTE list option"
  rc_isHost :: bool
  rc_isLeaving :: bool

definition RoomClient :: room_client where
  "RoomClient = \<lparr>rc_sap = SAP_NULL, rc_name = None, rc_isHost = False, rc_isLeaving = False\<rparr>"

definition RoomClient3 :: "socket_addr_pair \<Rightarrow> BYTE list option \<Rightarrow> bool \<Rightarrow> room_client" where
  "RoomClient3 sap name isHost = \<lparr>rc_sap = sap, rc_name = name, rc_isHost = isHost, rc_isLeaving = False\<rparr>"

record room =
  roomVector :: "nat list"
  prHost :: "nat option"
  roomID :: SIZE_T
  roomPassword :: SIZE_T

definition Room :: room where
  "Room = \<lparr>roomVector = [], prHost = None, roomID = 0, roomPassword = 0\<rparr>"

text \<open>The other constructor takes \<open>DWORD\<close>s for the two 64-bit members.\<close>

definition Room3 :: "nat option \<Rightarrow> DWORD \<Rightarrow> DWORD \<Rightarrow> room" where
  "Room3 host rid password = \<lparr>roomVector = [], prHost = host, roomID = ucast rid, roomPassword = ucast password\<rparr>"

definition getRoomSize :: "room \<Rightarrow> DWORD" where
  "getRoomSize r = word_of_nat (length (roomVector r)) + (if prHost r \<noteq> None then 1 else 0)"

text \<open>
  \<open>roomMap\<close> maps a room's number to a pointer; the entry \<open>Some None\<close> holds the null pointer.
\<close>

record rooms =
  roomMap :: "SIZE_T \<Rightarrow> nat option option"
  room_at :: "nat \<Rightarrow> room option"
  client_at :: "nat \<Rightarrow> room_client option"
  addr_at :: addr_heap

definition RoomManager :: rooms where
  "RoomManager = \<lparr>roomMap = Map.empty, room_at = Map.empty, client_at = Map.empty, addr_at = Map.empty\<rparr>"

section \<open>Pointers\<close>

definition room_ptr :: "nat option \<Rightarrow> rooms \<Rightarrow> room outcome" where
  "room_ptr ptr rs = (case ptr of
       None \<Rightarrow> Fault Null_deref
     | Some p \<Rightarrow> (case room_at rs p of None \<Rightarrow> Fault Mem_fault | Some r \<Rightarrow> Done r))"

definition client_ptr :: "nat option \<Rightarrow> rooms \<Rightarrow> room_client outcome" where
  "client_ptr ptr rs = (case ptr of
       None \<Rightarrow> Fault Null_deref
     | Some p \<Rightarrow> (case client_at rs p of None \<Rightarrow> Fault Mem_fault | Some c \<Rightarrow> Done c))"

section \<open>RoomManager\<close>

text \<open>\<^verbatim>\<open>insert\<close> keeps an entry that exists; the result is true all the same.\<close>

definition createNewRoom :: "SIZE_T \<Rightarrow> nat \<Rightarrow> rooms \<Rightarrow> bool \<times> rooms" where
  "createNewRoom rid p rs =
     (True, if roomMap rs rid = None then rs\<lparr>roomMap := (roomMap rs)(rid \<mapsto> Some p)\<rparr> else rs)"

definition deleteRoom :: "SIZE_T \<Rightarrow> rooms \<Rightarrow> bool \<times> rooms" where
  "deleteRoom rid rs = (True, rs\<lparr>roomMap := (roomMap rs)(rid := None)\<rparr>)"

text \<open>\<open>roomMap[roomID]\<close> enters a null pointer for a number that is not in the map.\<close>

definition getRoomPtr :: "SIZE_T \<Rightarrow> rooms \<Rightarrow> nat option \<times> rooms" where
  "getRoomPtr rid rs = (case roomMap rs rid of
       None \<Rightarrow> (None, rs\<lparr>roomMap := (roomMap rs)(rid \<mapsto> None)\<rparr>)
     | Some ptr \<Rightarrow> (ptr, rs))"

definition addClientToRoom :: "SIZE_T \<Rightarrow> nat option \<Rightarrow> rooms \<Rightarrow> (bool \<times> rooms) outcome" where
  "addClientToRoom rid pClient rs =
     (let (ptrRoom, rs1) = getRoomPtr rid rs
      in case (pClient, ptrRoom) of
           (Some c, Some p) \<Rightarrow> bind_outcome (room_ptr ptrRoom rs1) (\<lambda>r.
             let rs2 = rs1\<lparr>room_at := (room_at rs1)(p \<mapsto> r\<lparr>roomVector := roomVector r @ [c]\<rparr>)\<rparr>
             in bind_outcome (client_ptr pClient rs2) (\<lambda>_. Done (True, rs2)))
         | _ \<Rightarrow> Done (False, rs1))"

text \<open>
  The loop of \<open>removeClientFromRoom\<close>: \<open>k\<close> rounds are left, the next one looks at index \<open>i\<close>.
  \<open>at(i)\<close> throws when the index is not in the vector. The number of rounds is fixed before the
  first one.
\<close>

fun remove_loop :: "nat \<Rightarrow> nat \<Rightarrow> nat \<Rightarrow> nat list \<Rightarrow> nat list outcome" where
  "remove_loop c 0 i v = Done v"
| "remove_loop c (Suc k) i v =
     (if i < length v
      then remove_loop c k (Suc i) (if v ! i = c then take i v @ drop (Suc i) v else v)
      else Fault Out_of_range)"

definition removeClientFromRoom :: "SIZE_T \<Rightarrow> nat \<Rightarrow> rooms \<Rightarrow> (bool \<times> rooms) outcome" where
  "removeClientFromRoom rid c rs =
     (let (ptrRoom, rs1) = getRoomPtr rid rs
      in bind_outcome (room_ptr ptrRoom rs1) (\<lambda>r.
           bind_outcome (remove_loop c (unat (getRoomSize r)) 0 (roomVector r)) (\<lambda>v.
             let rs2 = rs1\<lparr>room_at := (room_at rs1)(the ptrRoom \<mapsto> r\<lparr>roomVector := v\<rparr>)\<rparr>
             in bind_outcome (client_ptr (Some c) rs2) (\<lambda>_. Done (True, rs2)))))"

section \<open>Lemmas\<close>

lemma remove_loop_too_long: "length v < i + k \<Longrightarrow> 0 < k \<Longrightarrow> remove_loop c k i v = Fault Out_of_range"
proof (induction k arbitrary: i v)
  case 0
  then show ?case by simp
next
  case (Suc k)
  show ?case
  proof (cases "i < length v")
    case True
    with Suc.prems have "0 < k" by simp
    with True Suc show ?thesis by simp
  next
    case False
    then show ?thesis by simp
  qed
qed

lemma remove_loop_absent: "i + k \<le> length v \<Longrightarrow> c \<notin> set v \<Longrightarrow> remove_loop c k i v = Done v"
  by (induction k arbitrary: i) (auto simp: in_set_conv_nth)

text \<open>
  Over a whole vector the loop survives the removal only in its last round.
\<close>

lemma remove_loop_from:
  assumes "i + k = length v" and "c \<notin> set (take i v)"
  shows "remove_loop c k i v =
    (if c \<in> set (butlast v) then Fault Out_of_range else Done (remove1 c v))"
  using assms
proof (induction k arbitrary: i)
  case 0
  then have "c \<notin> set v" by simp
  then show ?case by (simp add: remove1_idem) (auto dest: in_set_butlastD)
next
  case (Suc k)
  then have i: "i < length v" by simp
  show ?case
  proof (cases "v ! i = c")
    case False
    with Suc.prems(2) i have "c \<notin> set (take (Suc i) v)" by (simp add: take_Suc_conv_app_nth)
    with False i Suc show ?thesis by simp
  next
    case here: True
    let ?v = "take i v @ drop (Suc i) v"
    have split: "v = take i v @ c # drop (Suc i) v" using i here by (metis id_take_nth_drop)
    have rem: "remove1 c v = ?v" using Suc.prems(2) by (subst split) (simp add: remove1_append)
    show ?thesis
    proof (cases k)
      case 0
      with Suc.prems i have drop: "drop (Suc i) v = []" by simp
      then have "butlast v = take i v" by (subst split) (simp add: butlast_append)
      with 0 rem i here Suc.prems(2) drop show ?thesis by simp
    next
      case (Suc k')
      then have "drop (Suc i) v \<noteq> []" using Suc.prems(1) by simp
      then have "c \<in> set (butlast v)" by (subst split) (simp add: butlast_append)
      moreover have "remove_loop c k (Suc i) ?v = Fault Out_of_range"
        using Suc.prems(1) Suc i by (intro remove_loop_too_long) auto
      ultimately show ?thesis using i here by simp
    qed
  qed
qed

lemma getRoomSize_nat:
  assumes "Suc (length (roomVector r)) < 2 ^ 32"
  shows "unat (getRoomSize r) = length (roomVector r) + (if prHost r = None then 0 else 1)"
proof -
  have "getRoomSize r = word_of_nat (length (roomVector r) + (if prHost r = None then 0 else 1))"
    by (simp add: getRoomSize_def)
  also have "unat \<dots> = length (roomVector r) + (if prHost r = None then 0 else 1)"
    using assms by (intro unat_of_nat_32) simp
  finally show ?thesis .
qed

lemma removeClient_null:
  "roomMap rs rid \<in> {None, Some None} \<Longrightarrow> removeClientFromRoom rid c rs = Fault Null_deref"
  by (auto simp: removeClientFromRoom_def getRoomPtr_def room_ptr_def)

text \<open>
  No guest can be taken out of a room that has its host. \<open>getRoomSize\<close> counts the host, who is
  not in the vector, so the loop of \<open>removeClientFromRoom\<close> runs one index too far: the call throws
  whatever the vector holds and whoever leaves.
\<close>

lemma removeClient_with_host:
  assumes "roomMap rs rid = Some (Some p)" and "room_at rs p = Some r"
    and "prHost r \<noteq> None" and "Suc (length (roomVector r)) < 2 ^ 32"
  shows "removeClientFromRoom rid c rs = Fault Out_of_range"
proof -
  have "remove_loop c (unat (getRoomSize r)) 0 (roomVector r) = Fault Out_of_range"
    using assms(3) by (intro remove_loop_too_long) (auto simp: getRoomSize_nat[OF assms(4)])
  with assms(1,2) show ?thesis by (simp add: removeClientFromRoom_def getRoomPtr_def room_ptr_def)
qed

section \<open>Removing and joining\<close>

text \<open>
  Removing from a room without a host. A client that is not in the vector, or only at its end, is
  removed (if it is there); one that stands before the end makes the call throw, because the loop
  goes on to the length the vector had before the removal.
\<close>

lemma remove_without_host:
  assumes "roomMap rs rid = Some (Some p)" and "room_at rs p = Some r" and "client_at rs c = Some cl"
    and "prHost r = None" and "length (roomVector r) < 2 ^ 32 - 1"
  shows "removeClientFromRoom rid c rs =
    (if c \<in> set (butlast (roomVector r)) then Fault Out_of_range
     else Done (True, rs\<lparr>room_at := (room_at rs)(p \<mapsto> r\<lparr>roomVector := remove1 c (roomVector r)\<rparr>)\<rparr>))"
proof -
  have "unat (getRoomSize r) = length (roomVector r)" using assms(4,5) by (simp add: getRoomSize_nat)
  with assms show ?thesis
    by (simp add: removeClientFromRoom_def getRoomPtr_def room_ptr_def client_ptr_def remove_loop_from
        del: bind_outcome_Done)
qed

text \<open>
  Asking for a room that does not exist keeps it from being created. The lookup leaves a null
  entry behind; creating the room then reports success and changes nothing, and every later lookup
  still finds the null pointer, so nobody can join or end the room.
\<close>

lemma lookup_poisons_room:
  assumes "roomMap rs rid = None" and "getRoomPtr rid rs = (ptr, rs1)" and "createNewRoom rid p rs1 = (ok, rs2)"
  shows "ptr = None \<and> ok \<and> rs2 = rs1 \<and> getRoomPtr rid rs2 = (None, rs2)
    \<and> addClientToRoom rid c rs2 = Done (False, rs2)"
  using assms by (auto simp: getRoomPtr_def createNewRoom_def addClientToRoom_def split: option.split)

subsection \<open>Joining\<close>

lemma addClient_joins:
  assumes "roomMap rs rid = Some (Some p)" and "room_at rs p = Some r" and "client_at rs c = Some cl"
  shows "addClientToRoom rid (Some c) rs = Done (True,
    rs\<lparr>room_at := (room_at rs)(p \<mapsto> r\<lparr>roomVector := roomVector r @ [c]\<rparr>)\<rparr>)"
  using assms by (simp add: addClientToRoom_def getRoomPtr_def room_ptr_def client_ptr_def)

text \<open>
  Clients join a room in the order they come. On a fresh number, \<open>createNewRoom\<close> makes the room
  object the one that lookups find; clients added to it then stand in its vector in that order, and
  nothing else changes.
\<close>

lemma clients_join_in_order:
  assumes "roomMap rs rid = None" and "room_at rs p = Some r" and "roomVector r = []"
    and "\<forall>c \<in> set cs. client_at rs c \<noteq> None"
  shows "\<exists>rs1. createNewRoom rid p rs = (True, rs1) \<and> getRoomPtr rid rs1 = (Some p, rs1)
    \<and> foreach (\<lambda>c s. bind_outcome (addClientToRoom rid (Some c) s) (\<lambda>(ok, s'). Done s')) cs rs1
      = Done (rs1\<lparr>room_at := (room_at rs)(p \<mapsto> r\<lparr>roomVector := cs\<rparr>)\<rparr>)"
proof -
  let ?rs = "\<lambda>v. rs\<lparr>roomMap := (roomMap rs)(rid \<mapsto> Some p), room_at := (room_at rs)(p \<mapsto> r\<lparr>roomVector := v\<rparr>)\<rparr>"
  have join: "addClientToRoom rid (Some c) (?rs v) = Done (True, ?rs (v @ [c]))" if "c \<in> set cs" for c v
    using assms(4) that addClient_joins[of "?rs v" rid p "r\<lparr>roomVector := v\<rparr>" c] by fastforce
  have "set cs' \<subseteq> set cs \<Longrightarrow>
      foreach (\<lambda>c s. bind_outcome (addClientToRoom rid (Some c) s) (\<lambda>(ok, s'). Done s')) cs' (?rs v)
        = Done (?rs (v @ cs'))" for cs' v
    by (induction cs' arbitrary: v) (simp_all add: join del: bind_outcome_Done)
  from this[of cs "[]"] show ?thesis
    using assms by (simp add: createNewRoom_def getRoomPtr_def map_upd_triv del: bind_outcome_Done)
qed

end
