(* ===== verification/Server.thy ===== *)
theory Server
  imports Rooms Concurrency
begin

text \<open>
  \<^verbatim>\<open>server.h\<close> and \<^verbatim>\<open>server.cpp\<close>: the rendezvous server. \<open>acceptFunc\<close> accepts connections and
  starts a handler thread for each; \<open>clientHandlerFunc\<close> reads who the client is, creates or joins
  a room and then serves the client's messages; \<open>endRoom\<close> tells the members of a room each
  other's addresses and sends them off. One step is one accepted connection, one handler entering
  its loop, or one received message: the code takes no lock, so handlers also
  meet inside a step; \<open>ServerRaces\<close> takes \<open>endRoom\<close> apart for that. The receive loop of the clients (\<^verbatim>\<open>clienttest.cpp\<close>) is at the end.
\<close>

section \<open>State\<close>

text \<open>
  \<open>snm_threads\<close> is the thread manager inside \<open>snManager\<close>, the one the code uses.
  \<open>tData\<close> is the local variable of the accept loop that the handler threads read their
  parameter from: the same stack slot in every round.
\<close>

record server =
  sm_rooms :: rooms
  snm_threads :: "(nat, nat) thread_manager"
  sm_net :: net
  tData :: socket_addr_pair

definition ServerManager :: server where
  "ServerManager = \<lparr>sm_rooms = RoomManager, snm_threads = ThreadManager, sm_net = empty_net, tData = SAP_NULL\<rparr>"

definition on_net :: "(net \<Rightarrow> net) \<Rightarrow> server \<Rightarrow> server" where
  "on_net f sm = sm\<lparr>sm_net := f (sm_net sm)\<rparr>"

text \<open>The result of \<open>sendData\<close> is never looked at; the bytes sent do not depend on it.\<close>

definition send_room_msg :: "SOCKET \<Rightarrow> server_room_msg \<Rightarrow> server \<Rightarrow> server" where
  "send_room_msg sock msg = on_net (\<lambda>n. snd (EncryptedServerSocket_sendData 0 sock (encode_room_msg msg)
     (word_of_nat sizeof_room_msg) 1 n))"

section \<open>Ending a room\<close>

definition punch_msg :: "sockaddr_in \<Rightarrow> server_room_msg" where
  "punch_msg a = put_sockAddr4 a (zero_room_msg\<lparr>msgType := START_PUNCH_MSG\<rparr>)"

definition leave_msg :: server_room_msg where
  "leave_msg = zero_room_msg\<lparr>msgType := LEAVE_MSG\<rparr>"

text \<open>Reading the address of a client, through the pointer in its \<open>sap\<close>.\<close>

definition addr_ptr :: "room_client \<Rightarrow> rooms \<Rightarrow> sockaddr_in outcome" where
  "addr_ptr c rs = (case snd (rc_sap c) of
       None \<Rightarrow> Fault Null_deref
     | Some q \<Rightarrow> (case addr_at rs q of None \<Rightarrow> Fault Mem_fault | Some a \<Rightarrow> Done a))"

definition set_leaving :: "nat \<Rightarrow> server \<Rightarrow> server" where
  "set_leaving c sm = (let rs = sm_rooms sm in case client_at rs c of
       None \<Rightarrow> sm
     | Some cl \<Rightarrow> sm\<lparr>sm_rooms := rs\<lparr>client_at := (client_at rs)(c \<mapsto> cl\<lparr>rc_isLeaving := True\<rparr>)\<rparr>\<rparr>)"

text \<open>The bodies of the three loops over the clients of the room.\<close>

definition punch_to_host :: "SOCKET \<Rightarrow> nat \<Rightarrow> server \<Rightarrow> server outcome" where
  "punch_to_host hostSock c sm = bind_outcome (client_ptr (Some c) (sm_rooms sm)) (\<lambda>cl.
     bind_outcome (addr_ptr cl (sm_rooms sm)) (\<lambda>a. Done (send_room_msg hostSock (punch_msg a) sm)))"

definition punch_to_client :: "server_room_msg \<Rightarrow> nat \<Rightarrow> server \<Rightarrow> server outcome" where
  "punch_to_client msgToClient c sm = bind_outcome (client_ptr (Some c) (sm_rooms sm)) (\<lambda>cl.
     bind_outcome (addr_ptr cl (sm_rooms sm)) (\<lambda>a. let clientSock = fst (rc_sap cl) in
       Done (send_room_msg clientSock (punch_msg a) (send_room_msg clientSock msgToClient (set_leaving c sm)))))"

definition leave_to_client :: "nat \<Rightarrow> server \<Rightarrow> server outcome" where
  "leave_to_client c sm = bind_outcome (client_ptr (Some c) (sm_rooms sm)) (\<lambda>cl.
     Done (send_room_msg (fst (rc_sap cl)) leave_msg sm))"

text \<open>
  \<open>pHostAddr\<close> is only computed at the start; the address is read where it is copied into a message.
\<close>

definition endRoom :: "SIZE_T \<Rightarrow> bool \<Rightarrow> server \<Rightarrow> (bool \<times> server) outcome" where
  "endRoom rid startStreaming sm =
     (let (ptr, rs) = getRoomPtr rid (sm_rooms sm); sm0 = sm\<lparr>sm_rooms := rs\<rparr>
      in bind_outcome (room_ptr ptr rs) (\<lambda>r.
         bind_outcome (client_ptr (prHost r) rs) (\<lambda>host.
         let hostSock = fst (rc_sap host); clientsVec = roomVector r
         in bind_outcome (if startStreaming
              then bind_outcome (addr_ptr host rs) (\<lambda>hostAddr.
                   bind_outcome (foreach (punch_to_host hostSock) clientsVec
                     (send_room_msg hostSock (punch_msg hostAddr) sm0))
                   (foreach (punch_to_client (punch_msg hostAddr)) clientsVec))
              else Done sm0) (\<lambda>sm1.
            bind_outcome (foreach leave_to_client clientsVec sm1) (\<lambda>sm2.
              let sm3 = send_room_msg hostSock leave_msg (set_leaving (the (prHost r)) sm2)
              in Done (True, sm3\<lparr>sm_rooms := snd (deleteRoom rid (sm_rooms sm3))\<rparr>))))))"

section \<open>The handler of a client\<close>

text \<open>
  The locals of a running handler: the number of its thread, under which its \<open>RoomClient\<close> and
  \<open>Room\<close> objects live, the room's number, and the message buffer.
\<close>

record handler =
  hd_self :: nat
  hd_sap :: socket_addr_pair
  hd_roomID :: SIZE_T
  hd_buf :: "BYTE list"

text \<open>The objects of a handler, when it starts and when it returns.\<close>

definition frame_enter :: "nat \<Rightarrow> room_client \<Rightarrow> server \<Rightarrow> server" where
  "frame_enter h cl sm = sm\<lparr>sm_rooms := (sm_rooms sm)\<lparr>
     room_at := (room_at (sm_rooms sm))(h \<mapsto> Room), client_at := (client_at (sm_rooms sm))(h \<mapsto> cl)\<rparr>\<rparr>"

definition frame_exit :: "nat \<Rightarrow> server \<Rightarrow> server" where
  "frame_exit h sm = sm\<lparr>sm_rooms := (sm_rooms sm)\<lparr>
     room_at := (room_at (sm_rooms sm))(h := None), client_at := (client_at (sm_rooms sm))(h := None)\<rparr>\<rparr>"

definition snm_killThread :: "SOCKET \<Rightarrow> server \<Rightarrow> server outcome" where
  "snm_killThread sock sm = bind_outcome (killThread (ucast sock) (snm_threads sm)) (\<lambda>(ok, tm).
     Done (sm\<lparr>snm_threads := tm\<rparr>))"

text \<open>
  Sending a client away: the thread is killed, the socket closed and the address object deleted, then
  the handler returns.
\<close>

definition reject_client :: "nat \<Rightarrow> socket_addr_pair \<Rightarrow> server \<Rightarrow> (handler option \<times> server) outcome" where
  "reject_client h sap sm = bind_outcome (snm_killThread (fst sap) sm) (\<lambda>sm1.
     let sm2 = on_net (closesocket (fst sap)) sm1
     in bind_outcome (delete_Addr (snd sap) (addr_at (sm_rooms sm2))) (\<lambda>addrs.
          Done (None, frame_exit h (sm2\<lparr>sm_rooms := (sm_rooms sm2)\<lparr>addr_at := addrs\<rparr>\<rparr>))))"

definition text_of :: "first_interaction \<Rightarrow> nat \<Rightarrow> BYTE list outcome" where
  "text_of f off = (case c_string f off of None \<Rightarrow> Fault Mem_fault | Some s \<Rightarrow> Done s)"

text \<open>
  From the start of the thread to its message loop. \<open>hasher\<close> stands for \<^verbatim>\<open>std::hash\<close> of
  strings. The result is the handler in its loop, or \<open>None\<close> when it has returned.
\<close>

definition enter_as_host ::
  "nat \<Rightarrow> socket_addr_pair \<Rightarrow> SIZE_T \<Rightarrow> SIZE_T \<Rightarrow> server \<Rightarrow> (handler option \<times> server) outcome" where
  "enter_as_host h sap rid passHash sm =
     (let r = Room\<lparr>prHost := Some h, roomID := rid, roomPassword := passHash\<rparr>;
          rs1 = (sm_rooms sm)\<lparr>room_at := (room_at (sm_rooms sm))(h \<mapsto> r)\<rparr>;
          (cRes, rs2) = createNewRoom rid h rs1;
          sm1 = sm\<lparr>sm_rooms := rs2\<rparr>
      in if \<not> cRes then reject_client h sap sm1
         else Done (Some \<lparr>hd_self = h, hd_sap = sap, hd_roomID = rid, hd_buf = encode_room_msg zero_room_msg\<rparr>, sm1))"

definition enter_as_guest ::
  "nat \<Rightarrow> socket_addr_pair \<Rightarrow> SIZE_T \<Rightarrow> SIZE_T \<Rightarrow> server \<Rightarrow> (handler option \<times> server) outcome" where
  "enter_as_guest h sap rid passHash sm =
     (let (ptr, rs1) = getRoomPtr rid (sm_rooms sm); sm1 = sm\<lparr>sm_rooms := rs1\<rparr>
      in if ptr = None then reject_client h sap sm1
         else bind_outcome (room_ptr ptr rs1) (\<lambda>r.
           if roomPassword r = passHash
           then bind_outcome (addClientToRoom rid (Some h) rs1) (\<lambda>(cRes, rs2).
             Done (Some \<lparr>hd_self = h, hd_sap = sap, hd_roomID = rid, hd_buf = encode_room_msg zero_room_msg\<rparr>,
               sm\<lparr>sm_rooms := rs2\<rparr>))
           else reject_client h sap sm1))"

definition handler_enter ::
  "(BYTE list \<Rightarrow> SIZE_T) \<Rightarrow> nat \<Rightarrow> BYTE list option \<Rightarrow> server \<Rightarrow> (handler option \<times> server) outcome" where
  "handler_enter hasher h arrived sm =
     (let sap = tData sm;
          (idRes, n1) = firstClientInteraction 0 (fst sap) arrived (sm_net sm);
          sm1 = sm\<lparr>sm_net := n1\<rparr>
      in bind_outcome (text_of idRes roomName_off) (\<lambda>roomNameStr.
         bind_outcome (text_of idRes roomPassword_off) (\<lambda>roomPassStr.
         bind_outcome (text_of idRes clientName_off) (\<lambda>name.
           let rid = hasher roomNameStr; roomPassHash = hasher roomPassStr;
               sm2 = frame_enter h (RoomClient3 sap (Some name) (fi_isHost idRes)) sm1
           in if fi_isHost idRes then enter_as_host h sap rid roomPassHash sm2
              else enter_as_guest h sap rid roomPassHash sm2))))"

text \<open>The end of the handler, after its loop.\<close>

definition handler_leave :: "handler \<Rightarrow> server \<Rightarrow> (handler option \<times> server) outcome" where
  "handler_leave hn sm = bind_outcome (snm_killThread (fst (hd_sap hn)) sm) (\<lambda>sm1.
     Done (None, frame_exit (hd_self hn) sm1))"

definition depart :: "handler \<Rightarrow> room_client \<Rightarrow> server \<Rightarrow> server outcome" where
  "depart hn self sm =
     (if rc_isHost self then bind_outcome (endRoom (hd_roomID hn) False sm) (\<lambda>(ok, sm1). Done sm1)
      else bind_outcome (removeClientFromRoom (hd_roomID hn) (hd_self hn) (sm_rooms sm)) (\<lambda>(ok, rs).
        Done (sm\<lparr>sm_rooms := rs\<rparr>)))"

text \<open>
  One round of the message loop. The result of the receive is compared with 0 only: after an
  error the buffer still holds the previous message, which is acted on again.
\<close>

definition handler_message ::
  "handler \<Rightarrow> BYTE list option \<Rightarrow> server \<Rightarrow> (handler option \<times> server) outcome" where
  "handler_message hn arrived sm =
     (let (recvRes, buf) = EncryptedServerSocket_recvData (hd_buf hn) arrived;
          hn1 = hn\<lparr>hd_buf := buf\<rparr>;
          mtype = msgType (decode_room_msg buf)
      in bind_outcome (client_ptr (Some (hd_self hn)) (sm_rooms sm)) (\<lambda>self.
         if recvRes = 0
         then if rc_isLeaving self then handler_leave hn1 sm
              else bind_outcome (depart hn1 self sm) (\<lambda>sm1.
                handler_leave hn1 (on_net (closesocket (fst (hd_sap hn))) sm1))
         else if mtype = LEAVE_MSG
         then bind_outcome (depart hn1 self sm) (handler_leave hn1)
         else if mtype = START_PUNCH_MSG \<and> rc_isHost self
         then bind_outcome (endRoom (hd_roomID hn) True sm) (\<lambda>(ok, sm1). Done (Some hn1, sm1))
         else Done (Some hn1, sm)))"

section \<open>Accepting\<close>

text \<open>
  One round of \<open>acceptFunc\<close>: \<open>clientSocket\<close> and \<open>addr\<close> are what \<^verbatim>\<open>accept\<close> delivers, \<open>q\<close> the address of the
  new \<open>Addr\<close>, \<open>stop\<close>
  and \<open>thread\<close> the new event and thread, \<open>p\<close> the address of the new \<open>ConThread\<close>.
\<close>

definition clientHandlerFunc :: nat where "clientHandlerFunc = 1"
definition tData_address :: nat where "tData_address = 0"

definition accept_round ::
  "SOCKET \<Rightarrow> sockaddr_in \<Rightarrow> nat \<Rightarrow> handle \<Rightarrow> nat \<Rightarrow> handle \<Rightarrow> server \<Rightarrow> server outcome" where
  "accept_round clientSocket addr q stop p thread sm =
     (let (sapRes, addrs1, n1) = acceptNewConnection clientSocket addr q (addr_at (sm_rooms sm)) (sm_net sm);
          sm1 = sm\<lparr>sm_net := n1, sm_rooms := (sm_rooms sm)\<lparr>addr_at := addrs1\<rparr>\<rparr>
      in if compareSocketAddrPair sapRes SAP_NULL then Done sm1
         else let _ = EncryptedServerSocket_firstEncryptionInteraction sapRes;
                  (hStopEvent, tm) = createNewEvent stop (snm_threads sm1);
                  tm1 = new_ConThread p (ConThread3 hStopEvent clientHandlerFunc tData_address) tm
              in bind_outcome (createNewThread thread (ucast (fst sapRes)) p tm1) (\<lambda>(ok, tm2).
                   Done (sm1\<lparr>tData := sapRes, snm_threads := tm2\<rparr>)))"

section \<open>The clients' receive loop\<close>

text \<open>
  The loop in which \<^verbatim>\<open>clienttest.cpp\<close> collects addresses until the server tells it to leave: the
  buffer, the addresses so far, and whether the loop is on. Each round is one receive.
\<close>

record punch_loop =
  pl_buf :: "BYTE list"
  clientAddrVec :: "sockaddr_in list"
  pl_on :: bool

definition punch_loop_init :: punch_loop where
  "punch_loop_init = \<lparr>pl_buf = encode_room_msg zero_room_msg, clientAddrVec = [], pl_on = True\<rparr>"

definition punch_round :: "BYTE list option \<Rightarrow> punch_loop \<Rightarrow> punch_loop" where
  "punch_round arrived st =
     (let (res, buf) = EncryptedClientSocket_recvData (pl_buf st) arrived;
          m = decode_room_msg buf
      in st\<lparr>pl_buf := buf,
           clientAddrVec := (if msgType m = START_PUNCH_MSG then clientAddrVec st @ [get_sockAddr4 m]
             else clientAddrVec st),
           pl_on := (if msgType m = LEAVE_MSG then False else pl_on st)\<rparr>)"

fun punch_receive :: "BYTE list list \<Rightarrow> punch_loop \<Rightarrow> punch_loop" where
  "punch_receive [] st = st"
| "punch_receive (m # ms) st = (if pl_on st then punch_receive ms (punch_round (Some m) st) else st)"


section \<open>Lemmas: what ending a room sends\<close>

definition log_sent :: "(SOCKET \<times> BYTE list) list \<Rightarrow> server \<Rightarrow> server" where
  "log_sent ms = on_net (\<lambda>n. n\<lparr>net_sent := net_sent n @ ms\<rparr>)"

definition with_rooms :: "rooms \<Rightarrow> server \<Rightarrow> server" where
  "with_rooms rs sm = sm\<lparr>sm_rooms := rs\<rparr>"

lemma log_sent_simps [simp]:
  "log_sent [] sm = sm" "log_sent ms (log_sent ms' sm) = log_sent (ms' @ ms) sm"
  "sm_rooms (log_sent ms sm) = sm_rooms sm" "snm_threads (log_sent ms sm) = snm_threads sm"
  "net_sent (sm_net (log_sent ms sm)) = net_sent (sm_net sm) @ ms" "tData (log_sent ms sm) = tData sm"
  by (simp_all add: log_sent_def on_net_def)

lemma with_rooms_simps [simp]:
  "sm_rooms (with_rooms rs sm) = rs" "with_rooms rs (with_rooms rs' sm) = with_rooms rs sm"
  "with_rooms (sm_rooms sm) sm = sm" "with_rooms rs (log_sent ms sm) = log_sent ms (with_rooms rs sm)"
  "snm_threads (with_rooms rs sm) = snm_threads sm" "sm_net (with_rooms rs sm) = sm_net sm"
  "tData (with_rooms rs sm) = tData sm"
  by (simp_all add: with_rooms_def log_sent_def on_net_def)

lemma send_room_msg_eq: "wf_room_msg m \<Longrightarrow> send_room_msg sock m = log_sent [(sock, encode_room_msg m)]"
  by (rule ext) (simp add: send_room_msg_def log_sent_def on_net_def EncryptedServerSocket_sendData_def
      ServerSocket_sendData_def sizeof_room_msg_def Let_def)

lemma room_msgs_wf [simp]: "wf_room_msg (punch_msg a)" "wf_room_msg leave_msg"
  by (simp_all add: punch_msg_def leave_msg_def)

definition is_member :: "rooms \<Rightarrow> nat \<Rightarrow> bool" where
  "is_member rs c \<longleftrightarrow> (\<exists>cl q a. client_at rs c = Some cl \<and> snd (rc_sap cl) = Some q \<and> addr_at rs q = Some a)"

definition sock_of :: "rooms \<Rightarrow> nat \<Rightarrow> SOCKET" where
  "sock_of rs c = fst (rc_sap (the (client_at rs c)))"

definition addr_of :: "rooms \<Rightarrow> nat \<Rightarrow> sockaddr_in" where
  "addr_of rs c = the (addr_at rs (the (snd (rc_sap (the (client_at rs c))))))"

definition mark_leaving :: "nat set \<Rightarrow> rooms \<Rightarrow> rooms" where
  "mark_leaving C rs = rs\<lparr>client_at := (\<lambda>c. if c \<in> C
     then map_option (\<lambda>cl. cl\<lparr>rc_isLeaving := True\<rparr>) (client_at rs c) else client_at rs c)\<rparr>"

lemma mark_leaving_simps [simp]:
  "is_member (mark_leaving C rs) c = is_member rs c"
  "roomMap (mark_leaving C rs) = roomMap rs" "room_at (mark_leaving C rs) = room_at rs"
  "addr_at (mark_leaving C rs) = addr_at rs" "mark_leaving {} rs = rs"
  by (auto simp: mark_leaving_def is_member_def)

lemma mark_leaving_twice [simp]: "mark_leaving C (mark_leaving D rs) = mark_leaving (C \<union> D) rs"
proof -
  have "client_at (mark_leaving C (mark_leaving D rs)) c = client_at (mark_leaving (C \<union> D) rs) c" for c
    by (cases "client_at rs c") (simp_all add: mark_leaving_def)
  then have "client_at (mark_leaving C (mark_leaving D rs)) = client_at (mark_leaving (C \<union> D) rs)" by (rule ext)
  then show ?thesis by (simp add: mark_leaving_def)
qed

lemma of_mark_leaving [simp]:
  assumes "is_member rs c"
  shows "sock_of (mark_leaving C rs) c = sock_of rs c" and "addr_of (mark_leaving C rs) c = addr_of rs c"
  using assms by (auto simp: mark_leaving_def is_member_def sock_of_def addr_of_def)

lemma client_at_mark_leaving:
  "client_at (mark_leaving C rs) c = Some cl \<longleftrightarrow>
    (\<exists>cl'. client_at rs c = Some cl' \<and> cl = (if c \<in> C then cl'\<lparr>rc_isLeaving := True\<rparr> else cl'))"
  by (auto simp: mark_leaving_def)

lemma set_leaving_eq: "set_leaving c sm = with_rooms (mark_leaving {c} (sm_rooms sm)) sm"
  by (cases "client_at (sm_rooms sm) c")
    (auto simp: set_leaving_def with_rooms_def mark_leaving_def Let_def fun_eq_iff intro!: server.equality rooms.equality)

lemma member_ptr:
  assumes "is_member rs c"
  shows "\<exists>cl. client_ptr (Some c) rs = Done cl \<and> addr_ptr cl rs = Done (addr_of rs c) \<and> fst (rc_sap cl) = sock_of rs c"
  using assms by (auto simp: is_member_def client_ptr_def addr_ptr_def addr_of_def sock_of_def)

lemma punch_to_host_eq:
  "is_member (sm_rooms sm) c \<Longrightarrow> punch_to_host hs c sm
    = Done (log_sent [(hs, encode_room_msg (punch_msg (addr_of (sm_rooms sm) c)))] sm)"
  using member_ptr[of "sm_rooms sm" c] by (auto simp: punch_to_host_def send_room_msg_eq simp del: bind_outcome_Done)

lemma punch_to_client_eq:
  "is_member (sm_rooms sm) c \<Longrightarrow> wf_room_msg m \<Longrightarrow> punch_to_client m c sm
    = Done (log_sent [(sock_of (sm_rooms sm) c, encode_room_msg m),
        (sock_of (sm_rooms sm) c, encode_room_msg (punch_msg (addr_of (sm_rooms sm) c)))]
      (with_rooms (mark_leaving {c} (sm_rooms sm)) sm))"
  using member_ptr[of "sm_rooms sm" c]
  by (auto simp: punch_to_client_def send_room_msg_eq set_leaving_eq Let_def simp del: bind_outcome_Done)

lemma leave_to_client_eq:
  "is_member (sm_rooms sm) c \<Longrightarrow> leave_to_client c sm
    = Done (log_sent [(sock_of (sm_rooms sm) c, encode_room_msg leave_msg)] sm)"
  using member_ptr[of "sm_rooms sm" c] by (auto simp: leave_to_client_def send_room_msg_eq simp del: bind_outcome_Done)

lemma punch_all_to_host:
  "\<forall>c \<in> set v. is_member (sm_rooms sm) c \<Longrightarrow> foreach (punch_to_host hs) v sm
    = Done (log_sent (map (\<lambda>c. (hs, encode_room_msg (punch_msg (addr_of (sm_rooms sm) c)))) v) sm)"
  by (induction v arbitrary: sm) (simp_all add: punch_to_host_eq del: bind_outcome_Done)

definition two_punches :: "rooms \<Rightarrow> server_room_msg \<Rightarrow> nat \<Rightarrow> (SOCKET \<times> BYTE list) list" where
  "two_punches rs m c = [(sock_of rs c, encode_room_msg m), (sock_of rs c, encode_room_msg (punch_msg (addr_of rs c)))]"

lemma punch_all_clients:
  "\<forall>c \<in> set v. is_member (sm_rooms sm) c \<Longrightarrow> wf_room_msg m \<Longrightarrow> foreach (punch_to_client m) v sm
    = Done (log_sent (concat (map (two_punches (sm_rooms sm) m) v)) (with_rooms (mark_leaving (set v) (sm_rooms sm)) sm))"
proof (induction v arbitrary: sm)
  case Nil
  then show ?case by simp
next
  case (Cons c v)
  have "two_punches (mark_leaving {c} (sm_rooms sm)) m d = two_punches (sm_rooms sm) m d" if "d \<in> set v" for d
    using Cons.prems(1) that by (simp add: two_punches_def)
  then have "concat (map (two_punches (mark_leaving {c} (sm_rooms sm)) m) v)
      = concat (map (two_punches (sm_rooms sm) m) v)" by (intro arg_cong[of _ _ concat]) simp
  with Cons show ?case
    by (simp add: punch_to_client_eq two_punches_def[of "sm_rooms sm" m c] insert_commute Un_commute
        insert_is_Un[of c "set v"] del: bind_outcome_Done Un_insert_left Un_insert_right)
qed

lemma leave_all_clients:
  "\<forall>c \<in> set v. is_member (sm_rooms sm) c \<Longrightarrow> foreach leave_to_client v sm
    = Done (log_sent (map (\<lambda>c. (sock_of (sm_rooms sm) c, encode_room_msg leave_msg)) v) sm)"
  by (induction v arbitrary: sm) (simp_all add: leave_to_client_eq del: bind_outcome_Done)

text \<open>
  A room that can be ended: in the map, alive, with a host, and everybody in it alive with an
  address. What is sent then, in order.
\<close>

definition endable :: "rooms \<Rightarrow> SIZE_T \<Rightarrow> room \<Rightarrow> nat \<Rightarrow> bool" where
  "endable rs rid r h \<longleftrightarrow> (\<exists>p. roomMap rs rid = Some (Some p) \<and> room_at rs p = Some r) \<and> prHost r = Some h
     \<and> (\<forall>c \<in> insert h (set (roomVector r)). is_member rs c)"

definition punches :: "rooms \<Rightarrow> nat \<Rightarrow> nat list \<Rightarrow> (SOCKET \<times> BYTE list) list" where
  "punches rs h v = [(sock_of rs h, encode_room_msg (punch_msg (addr_of rs h)))]
     @ map (\<lambda>c. (sock_of rs h, encode_room_msg (punch_msg (addr_of rs c)))) v
     @ concat (map (two_punches rs (punch_msg (addr_of rs h))) v)"

definition leaves :: "rooms \<Rightarrow> nat \<Rightarrow> nat list \<Rightarrow> (SOCKET \<times> BYTE list) list" where
  "leaves rs h v = map (\<lambda>c. (sock_of rs c, encode_room_msg leave_msg)) v @ [(sock_of rs h, encode_room_msg leave_msg)]"

definition ended :: "rooms \<Rightarrow> SIZE_T \<Rightarrow> nat set \<Rightarrow> rooms" where
  "ended rs rid C = (mark_leaving C rs)\<lparr>roomMap := (roomMap rs)(rid := None)\<rparr>"

lemma deleteRoom_ended: "snd (deleteRoom rid (mark_leaving C rs)) = ended rs rid C"
  by (simp add: deleteRoom_def ended_def)

lemma ended_marked [simp]: "ended (mark_leaving C rs) rid D = ended rs rid (D \<union> C)"
  by (simp add: ended_def)

lemma client_at_ended:
  "client_at rs c = Some cl \<Longrightarrow> \<exists>cl'. client_at (ended rs rid C) c = Some cl' \<and> rc_isHost cl' = rc_isHost cl"
  by (simp add: ended_def mark_leaving_def)

lemma endRoom_done:
  assumes "endable (sm_rooms sm) rid r h"
  shows "endRoom rid streaming sm = Done (True,
    log_sent ((if streaming then punches (sm_rooms sm) h (roomVector r) else []) @ leaves (sm_rooms sm) h (roomVector r))
      (with_rooms (ended (sm_rooms sm) rid (insert h (if streaming then set (roomVector r) else {}))) sm))"
proof -
  let ?rs = "sm_rooms sm" and ?v = "roomVector r"
  from assms obtain p where p: "roomMap ?rs rid = Some (Some p)" "room_at ?rs p = Some r"
    and host: "prHost r = Some h" and mem: "\<forall>c \<in> set ?v. is_member ?rs c" and memh: "is_member ?rs h"
    unfolding endable_def by auto
  obtain cl where cl: "client_ptr (Some h) ?rs = Done cl" "addr_ptr cl ?rs = Done (addr_of ?rs h)"
    "fst (rc_sap cl) = sock_of ?rs h" using member_ptr[OF memh] by auto
  have leave: "map (\<lambda>c. (sock_of (mark_leaving (set ?v) ?rs) c, encode_room_msg leave_msg)) ?v
      = map (\<lambda>c. (sock_of ?rs c, encode_room_msg leave_msg)) ?v" using mem by simp
  have del: "sm\<lparr>sm_rooms := rs\<rparr> = with_rooms rs sm" for rs sm by (simp add: with_rooms_def)
  show ?thesis
    using mem by (simp add: endRoom_def getRoomPtr_def room_ptr_def p host cl del Let_def punch_all_to_host
        punch_all_clients leave_all_clients send_room_msg_eq set_leaving_eq deleteRoom_ended leave
        punches_def leaves_def del: bind_outcome_Done)
qed

text \<open>
  Closing a room reads no address, so it goes through as long as the members are alive; a start that
  goes through has found all their addresses.
\<close>

definition closable :: "rooms \<Rightarrow> SIZE_T \<Rightarrow> room \<Rightarrow> nat \<Rightarrow> bool" where
  "closable rs rid r h \<longleftrightarrow> (\<exists>p. roomMap rs rid = Some (Some p) \<and> room_at rs p = Some r) \<and> prHost r = Some h
     \<and> (\<forall>c \<in> insert h (set (roomVector r)). client_at rs c \<noteq> None)"

lemma leave_objects:
  "\<forall>c \<in> set v. client_at (sm_rooms sm) c \<noteq> None \<Longrightarrow> foreach leave_to_client v sm
    = Done (log_sent (map (\<lambda>c. (sock_of (sm_rooms sm) c, encode_room_msg leave_msg)) v) sm)"
  by (induction v arbitrary: sm)
    (auto simp: leave_to_client_def client_ptr_def send_room_msg_eq sock_of_def simp del: bind_outcome_Done)

lemma closeRoom_done:
  assumes "closable (sm_rooms sm) rid r h"
  shows "endRoom rid False sm
    = Done (True, log_sent (leaves (sm_rooms sm) h (roomVector r)) (with_rooms (ended (sm_rooms sm) rid {h}) sm))"
proof -
  let ?rs = "sm_rooms sm"
  from assms obtain p host where p: "roomMap ?rs rid = Some (Some p)" "room_at ?rs p = Some r" "prHost r = Some h"
    "\<forall>c \<in> set (roomVector r). client_at ?rs c \<noteq> None" "client_at ?rs h = Some host" unfolding closable_def by auto
  have del: "sm\<lparr>sm_rooms := rs\<rparr> = with_rooms rs sm" for rs sm by (simp add: with_rooms_def)
  show ?thesis
    using p by (simp add: endRoom_def getRoomPtr_def room_ptr_def client_ptr_def del Let_def leave_objects send_room_msg_eq
        set_leaving_eq deleteRoom_ended leaves_def sock_of_def del: bind_outcome_Done)
qed

lemma punches_find_addresses:
  "foreach (punch_to_host hs) v sm = Done sm' \<Longrightarrow> sm_rooms sm' = sm_rooms sm \<and> (\<forall>c \<in> set v. is_member (sm_rooms sm) c)"
proof (induction v arbitrary: sm)
  case (Cons c v)
  then obtain sm1 where sm1: "punch_to_host hs c sm = Done sm1" "foreach (punch_to_host hs) v sm1 = Done sm'" by auto
  then have "sm_rooms sm1 = sm_rooms sm" "is_member (sm_rooms sm) c"
    by (auto simp: punch_to_host_def client_ptr_def addr_ptr_def is_member_def send_room_msg_def on_net_def split: option.splits)
  with Cons.IH[OF sm1(2)] show ?case by simp
qed simp

lemma started_endable:
  assumes "closable (sm_rooms sm) rid r h" and "endRoom rid True sm = Done res"
  shows "endable (sm_rooms sm) rid r h"
proof -
  let ?rs = "sm_rooms sm"
  from assms(1) obtain p host where p: "roomMap ?rs rid = Some (Some p)" "room_at ?rs p = Some r" "prHost r = Some h"
    "client_at ?rs h = Some host" unfolding closable_def by auto
  from assms(2) p obtain a sm1 where a: "addr_ptr host ?rs = Done a"
    "foreach (punch_to_host (fst (rc_sap host))) (roomVector r) (send_room_msg (fst (rc_sap host)) (punch_msg a) sm) = Done sm1"
    by (auto simp: endRoom_def getRoomPtr_def room_ptr_def client_ptr_def Let_def)
  from punches_find_addresses[OF a(2)] have "\<forall>c \<in> set (roomVector r). is_member ?rs c" by (simp add: send_room_msg_eq)
  moreover from a(1) p(4) have "is_member ?rs h" by (auto simp: addr_ptr_def is_member_def split: option.splits)
  ultimately show ?thesis using p by (auto simp: endable_def)
qed


section \<open>Lemmas: the clients' loop\<close>

definition messages_to :: "SOCKET \<Rightarrow> (SOCKET \<times> BYTE list) list \<Rightarrow> BYTE list list" where
  "messages_to s ms = map snd (filter (\<lambda>m. fst m = s) ms)"

lemma messages_to_simps [simp]:
  "messages_to s [] = []" "messages_to s (ms @ ms') = messages_to s ms @ messages_to s ms'"
  "messages_to s ((s', m) # ms) = (if s' = s then m # messages_to s ms else messages_to s ms)"
  by (simp_all add: messages_to_def)

lemma punch_round_msg:
  assumes "wf_room_msg m" and "length (pl_buf st) = 20"
  shows "punch_round (Some (encode_room_msg m)) st = st\<lparr>pl_buf := encode_room_msg m,
    clientAddrVec := (if msgType m = START_PUNCH_MSG then clientAddrVec st @ [get_sockAddr4 m] else clientAddrVec st),
    pl_on := (if msgType m = LEAVE_MSG then False else pl_on st)\<rparr>"
  using assms decode_encode_room_msg[OF assms(1), of "[]"]
  by (simp add: punch_round_def EncryptedClientSocket_recvData_def ClientSocket_recvData_def winsock_recv_full)

lemma punch_receive_all:
  assumes "length (pl_buf st) = 20" and "pl_on st"
  shows "clientAddrVec (punch_receive (map (\<lambda>a. encode_room_msg (punch_msg a)) as @ [encode_room_msg leave_msg]) st)
      = clientAddrVec st @ as
    \<and> \<not> pl_on (punch_receive (map (\<lambda>a. encode_room_msg (punch_msg a)) as @ [encode_room_msg leave_msg]) st)
    \<and> pl_buf (punch_receive (map (\<lambda>a. encode_room_msg (punch_msg a)) as @ [encode_room_msg leave_msg]) st)
      = encode_room_msg leave_msg"
  using assms
proof (induction as arbitrary: st)
  case Nil
  have "msgType leave_msg = LEAVE_MSG" by (simp add: leave_msg_def)
  with Nil show ?case by (simp add: punch_round_msg room_msg_types)
next
  case (Cons a as)
  have "msgType (punch_msg a) = START_PUNCH_MSG" "get_sockAddr4 (punch_msg a) = a"
    by (simp_all add: punch_msg_def)
  with Cons show ?case by (simp add: punch_round_msg room_msg_types)
qed

lemma messages_to_others:
  "s \<notin> f ` set xs \<Longrightarrow> messages_to s (map (\<lambda>x. (f x, g x)) xs) = []"
  by (induction xs) auto

lemma messages_to_one:
  "distinct (map f xs) \<Longrightarrow> x \<in> set xs \<Longrightarrow> messages_to (f x) (map (\<lambda>x. (f x, g x)) xs) = [g x]"
  by (induction xs) (auto simp: messages_to_others)

lemma messages_to_same: "messages_to s (map (\<lambda>x. (s, g x)) xs) = map g xs"
  by (induction xs) auto

lemma punches_to_others:
  "s \<notin> sock_of rs ` set xs \<Longrightarrow> messages_to s (concat (map (two_punches rs m) xs)) = []"
  by (induction xs) (auto simp: two_punches_def)

lemma punches_to_one:
  "distinct (map (sock_of rs) xs) \<Longrightarrow> x \<in> set xs \<Longrightarrow>
    messages_to (sock_of rs x) (concat (map (two_punches rs m) xs))
      = [encode_room_msg m, encode_room_msg (punch_msg (addr_of rs x))]"
  by (induction xs) (auto simp: punches_to_others two_punches_def)

lemma messages_to_host:
  assumes "distinct (map (sock_of rs) (h # v))"
  shows "messages_to (sock_of rs h) (punches rs h v @ leaves rs h v)
    = map (\<lambda>a. encode_room_msg (punch_msg a)) (addr_of rs h # map (addr_of rs) v) @ [encode_room_msg leave_msg]"
proof -
  from assms have others: "sock_of rs h \<notin> sock_of rs ` set v" by simp
  show ?thesis
    by (simp add: punches_def leaves_def messages_to_same punches_to_others[OF others] messages_to_others[OF others])
qed

lemma messages_to_guest:
  assumes "distinct (map (sock_of rs) (h # v))" and "c \<in> set v"
  shows "messages_to (sock_of rs c) (punches rs h v @ leaves rs h v)
    = map (\<lambda>a. encode_room_msg (punch_msg a)) [addr_of rs h, addr_of rs c] @ [encode_room_msg leave_msg]"
proof -
  from assms have other: "sock_of rs h \<noteq> sock_of rs c" by (auto simp: image_iff)
  then have "messages_to (sock_of rs c) (map (\<lambda>d. (sock_of rs h, encode_room_msg (punch_msg (addr_of rs d)))) v) = []"
    by (auto intro!: messages_to_others)
  moreover have "messages_to (sock_of rs c) (map (\<lambda>c. (sock_of rs c, encode_room_msg leave_msg)) v)
      = [encode_room_msg leave_msg]"
    using assms by (intro messages_to_one) simp_all
  ultimately show ?thesis
    using other assms by (simp add: punches_def leaves_def punches_to_one)
qed

section \<open>Lemmas: the handler's loop\<close>

lemma endRoom_gone: "roomMap (sm_rooms sm) rid \<in> {None, Some None} \<Longrightarrow> endRoom rid streaming sm = Fault Null_deref"
  by (auto simp: endRoom_def getRoomPtr_def room_ptr_def Let_def)

definition room_cmd :: "BYTE \<Rightarrow> BYTE list" where
  "room_cmd t = encode_room_msg (zero_room_msg\<lparr>msgType := t\<rparr>)"

lemma room_cmd_simps [simp]: "length (room_cmd t) = 20" "msgType (decode_room_msg (room_cmd t)) = t"
  using decode_encode_room_msg[of "zero_room_msg\<lparr>msgType := t\<rparr>" "[]"]
  by (simp_all add: room_cmd_def)

lemma recv_cmd:
  "length buf = 20 \<Longrightarrow> EncryptedServerSocket_recvData buf (Some (room_cmd t)) = (20, room_cmd t)"
  by (simp add: EncryptedServerSocket_recvData_def ServerSocket_recvData_def winsock_recv_full)

lemma recv_closed: "EncryptedServerSocket_recvData buf (Some []) = (0, buf)"
  by (simp add: EncryptedServerSocket_recvData_def ServerSocket_recvData_def winsock_recv_def)

lemma recv_error: "EncryptedServerSocket_recvData buf None = (SOCKET_ERROR, buf)"
  by (simp add: EncryptedServerSocket_recvData_def ServerSocket_recvData_def winsock_recv_def)

lemma handler_cmd:
  assumes "length (hd_buf hn) = 20" and "client_at (sm_rooms sm) (hd_self hn) = Some self"
  shows "handler_message hn (Some (room_cmd t)) sm =
    (let hn1 = hn\<lparr>hd_buf := room_cmd t\<rparr>
     in if t = LEAVE_MSG then bind_outcome (depart hn1 self sm) (handler_leave hn1)
        else if t = START_PUNCH_MSG \<and> rc_isHost self
        then bind_outcome (endRoom (hd_roomID hn) True sm) (\<lambda>(ok, sm1). Done (Some hn1, sm1))
        else Done (Some hn1, sm))"
  using assms by (simp add: handler_message_def recv_cmd client_ptr_def Let_def)

lemma handler_closed:
  assumes "client_at (sm_rooms sm) (hd_self hn) = Some self"
  shows "handler_message hn (Some []) sm =
    (if rc_isLeaving self then handler_leave hn sm
     else bind_outcome (depart hn self sm) (\<lambda>sm1. handler_leave hn (on_net (closesocket (fst (hd_sap hn))) sm1)))"
  using assms by (simp add: handler_message_def recv_closed client_ptr_def Let_def)

lemma handler_error:
  assumes "client_at (sm_rooms sm) (hd_self hn) = Some self" and "hd_buf hn = room_cmd t"
  shows "handler_message hn None sm = handler_message hn (Some (room_cmd t)) sm"
  using assms by (simp add: handler_message_def recv_cmd recv_error client_ptr_def Let_def SOCKET_ERROR_def)

lemma handler_leave_done:
  "killThread (ucast (fst (hd_sap hn))) (snm_threads sm) = Done (True, tm) \<Longrightarrow>
    handler_leave hn sm = Done (None, frame_exit (hd_self hn) (sm\<lparr>snm_threads := tm\<rparr>))"
  by (simp add: handler_leave_def snm_killThread_def)

text \<open>A handler in its loop whose client is \<open>self\<close>.\<close>

definition serving :: "server \<Rightarrow> handler \<Rightarrow> room_client \<Rightarrow> bool" where
  "serving sm hn self \<longleftrightarrow> length (hd_buf hn) = 20 \<and> client_at (sm_rooms sm) (hd_self hn) = Some self"

end
