(* ===== verification/Rendezvous.thy ===== *)
theory Rendezvous
  imports Server
begin

text \<open>
  What the rendezvous server promises and where it breaks: the properties of
  \<^verbatim>\<open>Server\<close> that follow a room from the first client to the end. The example server at the
  end of the first section is the one the witnesses run on.
\<close>

section \<open>The rendezvous\<close>

text \<open>
  C12: The rendezvous. When the host starts streaming, all members of the room being there with their
  addresses and with different sockets, ending the room sends every member what it
  needs for the hole punching: the host's receive loop collects its own public address and then
  those of all guests in the order they joined, each guest's loop collects the host's address and
  its own, and every loop stops. The members are marked as leaving and the room is gone.
\<close>

theorem rendezvous:
  assumes "endable (sm_rooms sm) rid r h" and "distinct (map (sock_of (sm_rooms sm)) (h # roomVector r))"
  shows "\<exists>sm' ms. endRoom rid True sm = Done (True, sm') \<and> net_sent (sm_net sm') = net_sent (sm_net sm) @ ms
    \<and> (let loop = punch_receive (messages_to (sock_of (sm_rooms sm) h) ms) punch_loop_init
       in clientAddrVec loop = map (addr_of (sm_rooms sm)) (h # roomVector r) \<and> \<not> pl_on loop)
    \<and> (\<forall>c \<in> set (roomVector r).
       let loop = punch_receive (messages_to (sock_of (sm_rooms sm) c) ms) punch_loop_init
       in clientAddrVec loop = [addr_of (sm_rooms sm) h, addr_of (sm_rooms sm) c] \<and> \<not> pl_on loop)
    \<and> (\<forall>c \<in> set (h # roomVector r). \<exists>cl. client_at (sm_rooms sm') c = Some cl \<and> rc_isLeaving cl)
    \<and> roomMap (sm_rooms sm') rid = None"
proof -
  let ?rs = "sm_rooms sm" and ?v = "roomVector r"
  let ?ms = "punches ?rs h ?v @ leaves ?rs h ?v"
  have init: "length (pl_buf punch_loop_init) = 20" "pl_on punch_loop_init" "clientAddrVec punch_loop_init = []"
    by (simp_all add: punch_loop_init_def)
  have host: "let loop = punch_receive (messages_to (sock_of ?rs h) ?ms) punch_loop_init
      in clientAddrVec loop = map (addr_of ?rs) (h # ?v) \<and> \<not> pl_on loop"
    using punch_receive_all[OF init(1,2), of "addr_of ?rs h # map (addr_of ?rs) ?v"] init(3)
    unfolding messages_to_host[OF assms(2)] Let_def by simp
  have guest: "let loop = punch_receive (messages_to (sock_of ?rs c) ?ms) punch_loop_init
      in clientAddrVec loop = [addr_of ?rs h, addr_of ?rs c] \<and> \<not> pl_on loop" if "c \<in> set ?v" for c
    using punch_receive_all[OF init(1,2), of "[addr_of ?rs h, addr_of ?rs c]"] init(3)
    unfolding messages_to_guest[OF assms(2) that] Let_def by simp
  have "\<exists>cl. client_at (ended ?rs rid (insert h (set ?v))) c = Some cl \<and> rc_isLeaving cl"
    if "c \<in> set (h # ?v)" for c
  proof -
    from assms(1) that have "is_member ?rs c" by (auto simp: endable_def)
    with that show ?thesis by (auto simp: ended_def mark_leaving_def is_member_def)
  qed
  with host guest endRoom_done[OF assms(1), of True] show ?thesis by (simp add: ended_def)
qed

text \<open>Room 5 of host 1 on socket 7 with the guests 2 and 3 on 8 and 9.\<close>

definition party_rooms :: rooms where
  "party_rooms = \<lparr>roomMap = [5 \<mapsto> Some 1],
     room_at = [1 \<mapsto> \<lparr>roomVector = [2, 3], prHost = Some 1, roomID = 5, roomPassword = 9\<rparr>],
     client_at = [1 \<mapsto> RoomClient3 (7, Some 20) (Some []) True, 2 \<mapsto> RoomClient3 (8, Some 21) (Some []) False,
       3 \<mapsto> RoomClient3 (9, Some 22) (Some []) False],
     addr_at = [20 \<mapsto> zero_sockaddr, 21 \<mapsto> zero_sockaddr\<lparr>sin_port := 3\<rparr>, 22 \<mapsto> zero_sockaddr\<lparr>sin_port := 4\<rparr>]\<rparr>"

definition party_threads :: "(nat, nat) thread_manager" where
  "party_threads = ThreadManager\<lparr>threadMap := [(7, Some 70), (8, Some 80), (9, Some 90)],
     heap := [70 \<mapsto> ConThread, 80 \<mapsto> ConThread, 90 \<mapsto> ConThread]\<rparr>"

definition party :: server where
  "party = ServerManager\<lparr>sm_rooms := party_rooms, snm_threads := party_threads\<rparr>"

definition party_room :: room where
  "party_room = \<lparr>roomVector = [2, 3], prHost = Some 1, roomID = 5, roomPassword = 9\<rparr>"

definition party_handler :: "nat \<Rightarrow> SOCKET \<Rightarrow> handler" where
  "party_handler h s = \<lparr>hd_self = h, hd_sap = (s, Some (19 + h)), hd_roomID = 5, hd_buf = room_cmd ENTRY_MSG\<rparr>"

lemmas party_defs = party_def party_rooms_def party_room_def party_threads_def party_handler_def
  RoomClient3_def ServerManager_def

lemma party_endable: "endable (sm_rooms party) 5 party_room 1"
  by (auto simp: endable_def is_member_def party_defs)

theorem rendezvous_witness:
  "\<exists>sm' ms. endRoom 5 True party = Done (True, sm') \<and> net_sent (sm_net sm') = net_sent (sm_net party) @ ms
    \<and> (let loop = punch_receive (messages_to (sock_of (sm_rooms party) 1) ms) punch_loop_init
       in clientAddrVec loop = map (addr_of (sm_rooms party)) (1 # roomVector party_room) \<and> \<not> pl_on loop)
    \<and> (\<forall>c \<in> set (roomVector party_room).
       let loop = punch_receive (messages_to (sock_of (sm_rooms party) c) ms) punch_loop_init
       in clientAddrVec loop = [addr_of (sm_rooms party) 1, addr_of (sm_rooms party) c] \<and> \<not> pl_on loop)
    \<and> (\<forall>c \<in> set (1 # roomVector party_room). \<exists>cl. client_at (sm_rooms sm') c = Some cl \<and> rc_isLeaving cl)
    \<and> roomMap (sm_rooms sm') 5 = None"
  by (rule rendezvous[OF party_endable]) (simp add: sock_of_def party_defs)

text \<open>
  After a start everybody leaves in order. Once the host's handler has served the start message,
  a member that closes its connection - as the clients do when told to leave - ends its handler
  without touching the room: the thread is taken out of the manager and nothing else happens.
\<close>

lemma members_leave_after_start:
  assumes "endable (sm_rooms sm) (hd_roomID hn) r h" and "serving sm hn self" and "rc_isHost self"
    and "c \<in> set (h # roomVector r)" and "hd_self hc = c"
    and "killThread (ucast (fst (hd_sap hc))) (snm_threads sm) = Done (True, tm)"
  shows "\<exists>hn1 sm1. handler_message hn (Some (room_cmd START_PUNCH_MSG)) sm = Done (Some hn1, sm1)
    \<and> handler_message hc (Some []) sm1 = Done (None, frame_exit c (sm1\<lparr>snm_threads := tm\<rparr>))"
proof -
  let ?rs = "ended (sm_rooms sm) (hd_roomID hn) (insert h (set (roomVector r)))"
  let ?sm1 = "log_sent (punches (sm_rooms sm) h (roomVector r) @ leaves (sm_rooms sm) h (roomVector r)) (with_rooms ?rs sm)"
  have start: "handler_message hn (Some (room_cmd START_PUNCH_MSG)) sm
      = Done (Some (hn\<lparr>hd_buf := room_cmd START_PUNCH_MSG\<rparr>), ?sm1)"
    using assms(2,3) endRoom_done[OF assms(1), of True]
    by (simp add: serving_def handler_cmd room_msg_types Let_def)
  from assms(1,4) have "is_member (sm_rooms sm) c" by (auto simp: endable_def)
  then obtain cl where "client_at (sm_rooms ?sm1) (hd_self hc) = Some cl" "rc_isLeaving cl"
    using assms(4,5) by (auto simp: ended_def mark_leaving_def is_member_def)
  then have "handler_message hc (Some []) ?sm1 = handler_leave hc ?sm1" by (simp add: handler_closed)
  also have "\<dots> = Done (None, frame_exit c (?sm1\<lparr>snm_threads := tm\<rparr>))"
    using assms(5,6) handler_leave_done[of hc ?sm1 tm] by simp
  finally show ?thesis using start by blast
qed

section \<open>Where the server fails\<close>

text \<open>
  The host can start only once. The handler of the host stays in its loop after the start; a second
  start message, or a receive error, which makes the handler act on the old message again, follows
  the null pointer that the lookup of the ended room gives.
\<close>

lemma second_start_faults:
  assumes "endable (sm_rooms sm) (hd_roomID hn) r h" and "serving sm hn self" and "rc_isHost self"
  shows "\<exists>hn1 sm1. handler_message hn (Some (room_cmd START_PUNCH_MSG)) sm = Done (Some hn1, sm1)
    \<and> handler_message hn1 (Some (room_cmd START_PUNCH_MSG)) sm1 = Fault Null_deref
    \<and> handler_message hn1 None sm1 = Fault Null_deref"
proof -
  let ?rs = "ended (sm_rooms sm) (hd_roomID hn) (insert h (set (roomVector r)))"
  let ?sm1 = "log_sent (punches (sm_rooms sm) h (roomVector r) @ leaves (sm_rooms sm) h (roomVector r)) (with_rooms ?rs sm)"
  let ?hn1 = "hn\<lparr>hd_buf := room_cmd START_PUNCH_MSG\<rparr>"
  have "handler_message hn (Some (room_cmd START_PUNCH_MSG)) sm = Done (Some ?hn1, ?sm1)"
    using assms(2,3) endRoom_done[OF assms(1), of True]
    by (simp add: serving_def handler_cmd room_msg_types Let_def)
  moreover obtain self1 where self1: "client_at (sm_rooms ?sm1) (hd_self ?hn1) = Some self1" "rc_isHost self1"
    using assms(2,3) client_at_ended[of "sm_rooms sm" "hd_self hn"] by (fastforce simp: serving_def)
  then have "handler_message ?hn1 (Some (room_cmd START_PUNCH_MSG)) ?sm1 = Fault Null_deref"
    by (simp add: handler_cmd room_msg_types endRoom_gone ended_def)
  moreover from this have "handler_message ?hn1 None ?sm1 = Fault Null_deref"
    by (simp add: handler_error[OF self1(1)])
  ultimately show ?thesis by blast
qed

lemma party_host: "serving party (party_handler 1 7) (RoomClient3 (7, Some 20) (Some []) True)"
  by (simp add: party_defs serving_def)

lemma party_guest: "serving party (party_handler 2 8) (RoomClient3 (8, Some 21) (Some []) False)"
  by (simp add: party_defs serving_def)

text \<open>
  C36: A guest who leaves an open room takes the server down. Whether it says so or closes its
  connection, its handler asks for its removal, and the exception this throws in every room that
  has its host and its guests (fewer than \<open>2 ^ 32 - 1\<close>) is caught nowhere.
\<close>

theorem guest_leaving_throws:
  assumes "serving sm hn self" and "\<not> rc_isHost self" and "\<not> rc_isLeaving self"
    and "endable (sm_rooms sm) (hd_roomID hn) r h" and "length (roomVector r) < 2 ^ 32 - 1"
  shows "handler_message hn (Some (room_cmd LEAVE_MSG)) sm = Fault Out_of_range
    \<and> handler_message hn (Some []) sm = Fault Out_of_range"
proof -
  from assms(4,5) have "removeClientFromRoom (hd_roomID hn) c (sm_rooms sm) = Fault Out_of_range" for c
    by (auto simp: endable_def intro!: removeClient_with_host)
  with assms(1-3) show ?thesis by (simp add: serving_def handler_cmd handler_closed depart_def Let_def)
qed

theorem guest_leaving_throws_witness:
  "handler_message (party_handler 2 8) (Some (room_cmd LEAVE_MSG)) party = Fault Out_of_range
    \<and> handler_message (party_handler 2 8) (Some []) party = Fault Out_of_range"
  by (rule guest_leaving_throws[OF party_guest, of party_room 1])
    (use party_endable in \<open>simp_all add: party_handler_def RoomClient3_def party_room_def\<close>)

text \<open>
  Closing a room without streaming strands its guests. When the host leaves, the guests are told
  to leave too but are not marked as leaving, so the first of them whose connection closes makes
  its handler look for the room that is gone, and follow a null pointer.
\<close>

lemma closing_strands_guests:
  assumes "endable (sm_rooms sm) (hd_roomID hn) r h" and "serving sm hn self" and "rc_isHost self"
    and "killThread (ucast (fst (hd_sap hn))) (snm_threads sm) = Done (True, tm)"
    and "serving sm hg guest" and "\<not> rc_isHost guest" and "\<not> rc_isLeaving guest"
    and "hd_roomID hg = hd_roomID hn" and "hd_self hg \<noteq> h" and "hd_self hg \<noteq> hd_self hn"
  shows "\<exists>sm1. handler_message hn (Some (room_cmd LEAVE_MSG)) sm = Done (None, sm1)
    \<and> (hd_self hg \<in> set (roomVector r) \<longrightarrow> encode_room_msg leave_msg \<in> set (messages_to (sock_of (sm_rooms sm) (hd_self hg)) (net_sent (sm_net sm1))))
    \<and> handler_message hg (Some []) sm1 = Fault Null_deref"
proof -
  let ?sm1 = "log_sent (leaves (sm_rooms sm) h (roomVector r)) (with_rooms (ended (sm_rooms sm) (hd_roomID hn) {h}) sm)"
  let ?sm2 = "frame_exit (hd_self hn) (?sm1\<lparr>snm_threads := tm\<rparr>)"
  have "depart (hn\<lparr>hd_buf := room_cmd LEAVE_MSG\<rparr>) self sm = Done ?sm1"
    using assms(3) endRoom_done[OF assms(1), of False] by (simp add: depart_def)
  moreover have "handler_leave (hn\<lparr>hd_buf := room_cmd LEAVE_MSG\<rparr>) ?sm1 = Done (None, ?sm2)"
    using assms(4) handler_leave_done[of "hn\<lparr>hd_buf := room_cmd LEAVE_MSG\<rparr>" ?sm1 tm] by simp
  ultimately have "handler_message hn (Some (room_cmd LEAVE_MSG)) sm = Done (None, ?sm2)"
    using assms(2) by (simp add: serving_def handler_cmd Let_def)
  moreover have "client_at (sm_rooms ?sm2) (hd_self hg) = Some guest"
    using assms(5,9,10) by (simp add: serving_def frame_exit_def ended_def mark_leaving_def)
  moreover have "removeClientFromRoom (hd_roomID hg) c (sm_rooms ?sm2) = Fault Null_deref" for c
    by (rule removeClient_null) (simp add: assms(8) frame_exit_def ended_def)
  ultimately have "handler_message hg (Some []) ?sm2 = Fault Null_deref"
    using assms(6,7) by (simp add: handler_closed depart_def)
  moreover have "net_sent (sm_net ?sm2) = net_sent (sm_net sm) @ leaves (sm_rooms sm) h (roomVector r)"
    by (simp add: frame_exit_def log_sent_def on_net_def with_rooms_def)
  moreover have "encode_room_msg leave_msg \<in> set (messages_to (sock_of (sm_rooms sm) c) (leaves (sm_rooms sm) h v))"
    if "c \<in> set v" for c v
    using that by (force simp: leaves_def messages_to_def)
  ultimately show ?thesis
    using \<open>handler_message hn (Some (room_cmd LEAVE_MSG)) sm = Done (None, ?sm2)\<close>
    by (intro exI[of _ ?sm2]) simp
qed

end
