(* ===== verification/PeerLibrary.thy ===== *)
theory PeerLibrary
  imports Network
begin

text \<open>
  \<^verbatim>\<open>RDIBYClient/client.h\<close> and \<^verbatim>\<open>client.cpp\<close>: the console client's own, older copy of the client
  library. It declares the structs of the first interaction and of the room messages again, and it
  must agree with the server, which is built from \<^verbatim>\<open>src/RDIBY\<close>, byte for byte. The lemmas compare
  its layouts and operations with those of \<^verbatim>\<open>Protocols\<close> and \<^verbatim>\<open>Network\<close>.
\<close>

section \<open>The structs\<close>

text \<open>\<open>first_server_interaction\<close>: the members in the order this header declares them.\<close>

record first_server_interaction =
  fsi_roomName :: "BYTE list"
  fsi_clientName :: "BYTE list"
  fsi_roomPassword :: "BYTE list"
  fsi_clientNameLength :: BYTE
  fsi_roomNameLength :: BYTE
  fsi_roomPasswordLength :: BYTE
  fsi_isHost :: bool

definition zero_interaction :: first_server_interaction where
  "zero_interaction = \<lparr>fsi_roomName = replicate 16 0, fsi_clientName = replicate 16 0,
     fsi_roomPassword = replicate 16 0, fsi_clientNameLength = 0, fsi_roomNameLength = 0,
     fsi_roomPasswordLength = 0, fsi_isHost = False\<rparr>"

definition encode_interaction :: "first_server_interaction \<Rightarrow> BYTE list" where
  "encode_interaction f = fsi_roomName f @ fsi_clientName f @ fsi_roomPassword f
     @ [fsi_clientNameLength f, fsi_roomNameLength f, fsi_roomPasswordLength f, if fsi_isHost f then 1 else 0]"

definition decode_interaction :: "BYTE list \<Rightarrow> first_server_interaction" where
  "decode_interaction bs = \<lparr>fsi_roomName = take 16 bs, fsi_clientName = take 16 (drop 16 bs),
     fsi_roomPassword = take 16 (drop 32 bs), fsi_clientNameLength = bs ! 48,
     fsi_roomNameLength = bs ! 49, fsi_roomPasswordLength = bs ! 50, fsi_isHost = (bs ! 51 \<noteq> 0)\<rparr>"

text \<open>\<open>server_room_msg_t\<close>: here the union is declared first, and the struct has no name.\<close>

record peer_room_msg =
  peer_msgType :: BYTE
  peer_msgData :: "BYTE list"

definition encode_peer_msg :: "peer_room_msg \<Rightarrow> BYTE list" where
  "encode_peer_msg m = [peer_msgType m, 0, 0, 0] @ peer_msgData m"

definition decode_peer_msg :: "BYTE list \<Rightarrow> peer_room_msg" where
  "decode_peer_msg bs = \<lparr>peer_msgType = bs ! 0, peer_msgData = take 16 (drop 4 bs)\<rparr>"

text \<open>
  \<open>Client\<close>: this constructor leaves \<open>isHost\<close> as it finds it, RDIBY's sets it to false.
\<close>

definition Client :: client where
  "Client = \<lparr>cl_name = [], cl_roomName = [], cl_roomPassword = [], cl_isHost = False\<rparr>"

definition RDIBYClient_Client :: "bool \<Rightarrow> client" where
  "RDIBYClient_Client junk = \<lparr>cl_name = [], cl_roomName = [], cl_roomPassword = [], cl_isHost = junk\<rparr>"

section \<open>Sockets\<close>

definition RDIBYClient_ClientSocket :: SOCKET where "RDIBYClient_ClientSocket = -1"

definition RDIBYClient_initTCP :: "SOCKET \<Rightarrow> bool \<Rightarrow> SOCKET \<times> net \<Rightarrow> bool \<times> SOCKET \<times> net" where
  "RDIBYClient_initTCP socketRes connectOk st =
     (let (sock, n) = st
      in if sock \<noteq> -1 then (False, sock, WSACleanup (closesocket sock n))
         else if socketRes = INVALID_SOCKET then (False, socketRes, WSACleanup n)
         else if \<not> connectOk then (False, socketRes, WSACleanup (closesocket socketRes n))
         else (True, socketRes, n))"

text \<open>The \<open>listen\<close> at its end, on a datagram socket, fails, and nobody looks.\<close>

definition RDIBYClient_initUDP :: "SOCKET \<Rightarrow> bool \<Rightarrow> SOCKET \<times> net \<Rightarrow> (bool \<times> SOCKET \<times> net) outcome" where
  "RDIBYClient_initUDP socketRes bindOk st =
     (let (sock, n) = st
      in if socketRes \<le> 1 then Fault (Exit 1)
         else if socketRes = INVALID_SOCKET then Fault (Exit 1)
         else if \<not> bindOk then Fault (Exit 1)
         else Done (True, socketRes, n))"

text \<open>Destroying the socket object does not close the socket, unlike in RDIBY and VideoClient.\<close>

definition RDIBYClient_ClientSocket_destructor :: "SOCKET \<Rightarrow> net \<Rightarrow> net" where
  "RDIBYClient_ClientSocket_destructor sock n = n"

definition RDIBYClient_sendData ::
  "DWORD \<Rightarrow> SOCKET \<Rightarrow> BYTE list \<Rightarrow> DWORD \<Rightarrow> DWORD \<Rightarrow> net \<Rightarrow> DWORD \<times> net" where
  "RDIBYClient_sendData res sock pData dwTypeSize dwLen n =
     (let dwMsgLen = dwTypeSize * dwLen
      in if dwMsgLen \<le> 0 then (-1, n)
         else (res, n\<lparr>net_sent := net_sent n @ [(sock, take (unat dwMsgLen) pData)]\<rparr>))"

definition RDIBYClient_recvData :: "BYTE list \<Rightarrow> BYTE list option \<Rightarrow> DWORD \<times> BYTE list" where
  "RDIBYClient_recvData pBuffer arrived = winsock_recv pBuffer arrived"

definition RDIBYClient_Encrypted_initTCP :: "SOCKET \<Rightarrow> bool \<Rightarrow> SOCKET \<times> net \<Rightarrow> bool \<times> SOCKET \<times> net" where
  "RDIBYClient_Encrypted_initTCP = RDIBYClient_initTCP"

definition RDIBYClient_Encrypted_initUDP :: "SOCKET \<Rightarrow> bool \<Rightarrow> SOCKET \<times> net \<Rightarrow> (bool \<times> SOCKET \<times> net) outcome" where
  "RDIBYClient_Encrypted_initUDP = RDIBYClient_initUDP"

definition RDIBYClient_Encrypted_sendData ::
  "DWORD \<Rightarrow> SOCKET \<Rightarrow> BYTE list \<Rightarrow> DWORD \<Rightarrow> DWORD \<Rightarrow> net \<Rightarrow> DWORD \<times> net" where
  "RDIBYClient_Encrypted_sendData = RDIBYClient_sendData"

definition RDIBYClient_Encrypted_recvData :: "BYTE list \<Rightarrow> BYTE list option \<Rightarrow> DWORD \<times> BYTE list" where
  "RDIBYClient_Encrypted_recvData = RDIBYClient_recvData"

definition RDIBYClient_firstHostInteraction :: DWORD where "RDIBYClient_firstHostInteraction = 1"

section \<open>The first interaction\<close>

text \<open>
  The loop that copies a name character by character; a character that does not fit into the array
  is written behind it.
\<close>

definition copy_chars :: "BYTE list \<Rightarrow> BYTE list \<Rightarrow> BYTE list outcome" where
  "copy_chars name arr =
     foreach (\<lambda>i a. if i < length a then Done (a[i := name ! i]) else Fault Mem_fault) [0..<length name] arr"

definition RDIBYClient_firstServerInteraction ::
  "DWORD \<Rightarrow> client \<Rightarrow> BYTE list option \<Rightarrow> SOCKET \<Rightarrow> net \<Rightarrow> (DWORD \<times> net) outcome" where
  "RDIBYClient_firstServerInteraction res client arrived sock n =
     (if 16 < length (cl_name client) \<or> 16 < length (cl_roomName client)
         \<or> 16 < length (cl_roomPassword client)
      then Done (-1, n)
      else let (_, buf) = RDIBYClient_Encrypted_recvData (encode_interaction zero_interaction) arrived;
               fsi = decode_interaction buf
           in bind_outcome (copy_chars (cl_name client) (fsi_clientName fsi)) (\<lambda>name.
              bind_outcome (copy_chars (cl_roomName client) (fsi_roomName fsi)) (\<lambda>room.
              bind_outcome (copy_chars (cl_roomPassword client) (fsi_roomPassword fsi)) (\<lambda>pass.
                let fsi' = fsi\<lparr>fsi_clientName := name, fsi_clientNameLength := word_of_nat (length (cl_name client)),
                      fsi_roomName := room, fsi_roomNameLength := word_of_nat (length (cl_roomName client)),
                      fsi_roomPassword := pass, fsi_roomPasswordLength := word_of_nat (length (cl_roomPassword client)),
                      fsi_isHost := cl_isHost client\<rparr>
                in Done (RDIBYClient_Encrypted_sendData res sock (encode_interaction fsi')
                     (word_of_nat (length (encode_interaction zero_interaction))) 1 n)))))"

section \<open>Lemmas: the copies agree\<close>

lemma copy_chars_from:
  assumes "i \<le> length name" and "length name \<le> length arr"
  shows "foreach (\<lambda>j a. if j < length a then Done (a[j := name ! j]) else Fault Mem_fault) [i..<length name] arr
    = Done (take i arr @ drop i name @ drop (length name) arr)"
  using assms
proof (induction "length name - i" arbitrary: i arr)
  case 0
  then show ?case by simp
next
  case (Suc k)
  then have i: "i < length name" by simp
  have "take (Suc i) (arr[i := name ! i]) = take i arr @ [name ! i]"
    using i Suc.prems by (simp add: take_Suc_conv_app_nth)
  moreover have "drop i name = name ! i # drop (Suc i) name" using i by (simp add: Cons_nth_drop_Suc)
  moreover have "drop (length name) (arr[i := name ! i]) = drop (length name) arr" using i by simp
  ultimately show ?case
    using Suc.hyps(1)[of "Suc i" "arr[i := name ! i]"] Suc.hyps(2) Suc.prems i
    by (simp add: upt_conv_Cons del: bind_outcome_Done)
qed

lemma copy_chars_fill: "length name \<le> length arr \<Longrightarrow> copy_chars name arr = Done (fill name arr)"
  using copy_chars_from[of 0 name arr] by (simp add: copy_chars_def fill_def)

text \<open>The two declarations of the struct have the same bytes.\<close>

definition as_server_reads :: "first_server_interaction \<Rightarrow> first_interaction" where
  "as_server_reads f = \<lparr>fi_roomName = fsi_roomName f, fi_clientName = fsi_clientName f,
     fi_roomPassword = fsi_roomPassword f, clientNameLength = fsi_clientNameLength f,
     roomNameLength = fsi_roomNameLength f, roomPasswordLength = fsi_roomPasswordLength f,
     fi_isHost = fsi_isHost f\<rparr>"

lemma layout_fsi [simp]:
  "encode_interaction f = encode_fsi (as_server_reads f)"
  "as_server_reads (decode_interaction bs) = decode_fsi bs"
  "as_server_reads zero_interaction = zero_fsi"
  by (simp_all add: encode_interaction_def encode_fsi_def as_server_reads_def decode_interaction_def
      decode_fsi_def zero_interaction_def zero_fsi_def)

lemma layout_room_msg:
  "encode_peer_msg m = encode_room_msg \<lparr>msgType = peer_msgType m, msgData = peer_msgData m\<rparr>"
  "decode_peer_msg bs = \<lparr>peer_msgType = msgType (decode_room_msg bs), peer_msgData = msgData (decode_room_msg bs)\<rparr>"
  by (simp_all add: encode_peer_msg_def encode_room_msg_def decode_peer_msg_def decode_room_msg_def)

lemma peer_socket_ops [simp]:
  "RDIBYClient_ClientSocket = ClientSocket"
  "RDIBYClient_Encrypted_initTCP = ClientSocket_initTCP"
  "RDIBYClient_Encrypted_initUDP = ClientSocket_initUDP"
  "RDIBYClient_Encrypted_sendData = EncryptedClientSocket_sendData"
  "RDIBYClient_Encrypted_recvData = EncryptedClientSocket_recvData"
  by (simp_all add: fun_eq_iff RDIBYClient_ClientSocket_def ClientSocket_def RDIBYClient_Encrypted_initTCP_def
      RDIBYClient_initTCP_def ClientSocket_initTCP_def RDIBYClient_Encrypted_initUDP_def RDIBYClient_initUDP_def
      ClientSocket_initUDP_def RDIBYClient_Encrypted_sendData_def RDIBYClient_sendData_def
      EncryptedClientSocket_sendData_def ClientSocket_sendData_def RDIBYClient_Encrypted_recvData_def
      RDIBYClient_recvData_def EncryptedClientSocket_recvData_def ClientSocket_recvData_def)

lemma length_received: "length (snd (winsock_recv buf arrived)) = length buf"
  by (cases arrived) (simp_all add: winsock_recv_def Let_def)

lemma first_interaction_equal:
  "RDIBYClient_firstServerInteraction res cl arrived sock n = Done (firstServerInteraction res cl arrived sock n)"
proof (cases "16 < length (cl_name cl) \<or> 16 < length (cl_roomName cl) \<or> 16 < length (cl_roomPassword cl)")
  case True
  then show ?thesis by (auto simp: RDIBYClient_firstServerInteraction_def firstServerInteraction_def)
next
  case False
  let ?buf = "snd (winsock_recv (encode_fsi zero_fsi) arrived)"
  let ?f = "decode_interaction ?buf"
  have buf: "length ?buf = 52" by (simp add: length_received)
  have len: "length (fsi_clientName ?f) = 16" "length (fsi_roomName ?f) = 16" "length (fsi_roomPassword ?f) = 16"
    using buf by (simp_all add: decode_interaction_def)
  have same: "as_server_reads (?f\<lparr>fsi_clientName := a, fsi_clientNameLength := b, fsi_roomName := c,
      fsi_roomNameLength := d, fsi_roomPassword := e, fsi_roomPasswordLength := g, fsi_isHost := h\<rparr>)
    = (decode_fsi ?buf)\<lparr>fi_clientName := a, clientNameLength := b, fi_roomName := c,
      roomNameLength := d, fi_roomPassword := e, roomPasswordLength := g, fi_isHost := h\<rparr>" for a b c d e g h
    by (simp add: as_server_reads_def decode_interaction_def decode_fsi_def)
  have members: "fi_clientName (decode_fsi ?buf) = fsi_clientName ?f" "fi_roomName (decode_fsi ?buf) = fsi_roomName ?f"
    "fi_roomPassword (decode_fsi ?buf) = fsi_roomPassword ?f"
    by (simp_all add: decode_interaction_def decode_fsi_def)
  show ?thesis
    using False
    by (simp add: RDIBYClient_firstServerInteraction_def firstServerInteraction_def copy_chars_fill len same members
        EncryptedClientSocket_recvData_def ClientSocket_recvData_def split_def Let_def sizeof_fsi_def
        del: bind_outcome_Done)
qed

section \<open>Properties\<close>

text \<open>
  C24: The two copies of the client library are interchangeable. Though the console client declares
  the structs anew and copies names character by character, its first interaction stores within
  its arrays and sends, for every client and every greeting, the bytes that RDIBY's sends; what
  it reads from a room message is what the server's struct holds; and opening sockets, sending and
  receiving do the same. They differ when the object is destroyed: only RDIBY's closes the socket.
\<close>

theorem old_library_equivalent:
  "RDIBYClient_firstServerInteraction res cl arrived sock n = Done (firstServerInteraction res cl arrived sock n)
    \<and> encode_interaction f = encode_fsi (as_server_reads f) \<and> as_server_reads (decode_interaction bs) = decode_fsi bs
    \<and> decode_peer_msg bs = \<lparr>peer_msgType = msgType (decode_room_msg bs), peer_msgData = msgData (decode_room_msg bs)\<rparr>
    \<and> RDIBYClient_Encrypted_initTCP socketRes ok (sock, n) = ClientSocket_initTCP socketRes ok (sock, n)
    \<and> RDIBYClient_Encrypted_initUDP socketRes ok (sock, n) = ClientSocket_initUDP socketRes ok (sock, n)
    \<and> RDIBYClient_Encrypted_sendData res sock bs tsize tlen n = EncryptedClientSocket_sendData res sock bs tsize tlen n
    \<and> RDIBYClient_Encrypted_recvData bs arrived = EncryptedClientSocket_recvData bs arrived
    \<and> net_closed (RDIBYClient_ClientSocket_destructor sock n) = net_closed n
    \<and> net_closed (ClientSocket_destructor sock n) = net_closed n @ [sock]"
  by (simp add: first_interaction_equal layout_room_msg RDIBYClient_ClientSocket_destructor_def
      ClientSocket_destructor_def closesocket_def)

end
