(* ===== verification/Reflector.thy ===== *)
theory Reflector
  imports Network
begin

text \<open>
  The datagram loop of the server program, at the end of \<open>test1\<close> in \<^verbatim>\<open>RDIBY/servertest1.cpp\<close>: it
  answers every datagram with a room message that holds the address the datagram came from, so
  that a client behind a NAT learns the address under which others can reach it.
\<close>

section \<open>The loop\<close>

text \<open>
  The loop's locals \<open>msg\<close>, as the bytes it is sent with, and \<open>inadr\<close>, which is not initialised, and
  the datagrams sent with their destinations.
\<close>

record reflector =
  rf_msg :: "BYTE list"
  rf_inadr :: sockaddr_in
  rf_sent :: "(sockaddr_in \<times> BYTE list) list"

definition reflector_init :: "sockaddr_in \<Rightarrow> reflector" where
  "reflector_init junk = \<lparr>rf_msg = encode_room_msg zero_room_msg, rf_inadr = junk, rf_sent = []\<rparr>"

text \<open>
  One round. \<open>arrived\<close> is the datagram with its sender; with none, \<^verbatim>\<open>recvfrom\<close> has failed. Its result
  is not looked at: a failed receive leaves message and address as they are, and the answer goes to
  the sender before once more. The address is copied over the data of the message.
\<close>

definition reflect_round :: "(sockaddr_in \<times> BYTE list) option \<Rightarrow> reflector \<Rightarrow> reflector" where
  "reflect_round arrived st =
     (let (_, buf) = winsock_recvfrom (rf_msg st) (map_option snd arrived);
          inadr = (case arrived of None \<Rightarrow> rf_inadr st | Some (from, _) \<Rightarrow> from);
          msg = take 4 buf @ encode_sockaddr inadr
      in st\<lparr>rf_msg := msg, rf_inadr := inadr, rf_sent := rf_sent st @ [(inadr, msg)]\<rparr>)"

text \<open>What a client gets back for its datagram.\<close>

definition reflection :: "sockaddr_in \<Rightarrow> BYTE list \<Rightarrow> reflector \<Rightarrow> BYTE list" where
  "reflection from dgram st = snd (last (rf_sent (reflect_round (Some (from, dgram)) st)))"

section \<open>Lemmas\<close>

lemma reflect_length: "length (rf_msg st) = 20 \<Longrightarrow> length (rf_msg (reflect_round arrived st)) = 20"
  by (simp add: reflect_round_def split_def Let_def min_def)

lemma reflect_sent:
  "rf_sent (reflect_round arrived st) = rf_sent st @ [(rf_inadr (reflect_round arrived st), rf_msg (reflect_round arrived st))]"
  by (simp add: reflect_round_def split_def Let_def)

lemma reflection_reads:
  assumes "length (rf_msg st) = 20"
  shows "get_sockAddr4 (decode_room_msg (reflection from dgram st)) = from" and "length (reflection from dgram st) = 20"
  using assms
  by (simp_all add: reflection_def reflect_round_def split_def Let_def get_sockAddr4_def decode_room_msg_def)

text \<open>
  A client that sends a whole room message gets its type back with its address.
\<close>

lemma reflection_of_msg:
  assumes "length (rf_msg st) = 20" and "wf_room_msg m"
  shows "reflection from (encode_room_msg m) st = encode_room_msg (put_sockAddr4 from m)"
  using assms
  by (simp add: reflection_def reflect_round_def split_def Let_def winsock_recvfrom_def put_sockAddr4_def encode_room_msg_def
      wf_room_msg_def)

text \<open>After a failed receive the last answer is sent again, to the last sender.\<close>

lemma reflect_repeats:
  "length (rf_msg st) = 20 \<Longrightarrow>
    rf_sent (reflect_round None (reflect_round (Some (from, dgram)) st))
      = rf_sent st @ [(from, reflection from dgram st), (from, reflection from dgram st)]"
  by (simp add: reflection_def reflect_round_def split_def Let_def winsock_recvfrom_def)

end
