(* ===== verification/Peer.thy ===== *)
theory Peer
  imports Rendezvous PeerLibrary Reflector
begin

text \<open>
  \<^verbatim>\<open>RDIBYClient/clienttest.cpp\<close>: the console client. \<open>test1\<close> opens a room as its host and starts
  the hole punching, \<open>test2\<close> joins one; both collect the addresses the server sends them and go on
  with a datagram socket, on which the server's reflector tells them their own address. Run against what the server sends at the end of a room, they show what
  the two programs do together. What the user types is the \<open>client\<close> argument.
\<close>

section \<open>The program\<close>

text \<open>
  The answers of the system calls, in the order they are made, and the server's messages.
  \<open>udp_reply\<close> is what the wait for the reflector's answer gives: nothing ever, an error, or bytes.
\<close>

record peer_answers =
  tcp_socket :: SOCKET
  tcp_connects :: bool
  sock_name :: "sockaddr_in option"
  greeting :: "BYTE list option"
  send_result :: DWORD
  server_messages :: "BYTE list list"
  udp_socket :: SOCKET
  udp_binds :: bool
  udp_reply :: "BYTE list option option"

text \<open>
  How a run goes on: \<open>main\<close> has returned, or it is in its endless loop of datagrams, with its
  socket, its own address as the server sees it, the message buffer and the others' addresses.
\<close>

datatype peer_state = Gave_up | Punching SOCKET sockaddr_in "BYTE list" "sockaddr_in list"

text \<open>
  Up to the first interaction. The result of \<open>initTCP\<close> is not looked at; any \<open>-1\<close> of the first
  interaction, also that of a failed \<^verbatim>\<open>send\<close>, ends the program.
\<close>

definition peer_connect :: "peer_answers \<Rightarrow> client \<Rightarrow> net \<Rightarrow> (SOCKET option \<times> net) outcome" where
  "peer_connect os cl n =
     (let (_, sock, n1) = RDIBYClient_Encrypted_initTCP (tcp_socket os) (tcp_connects os) (RDIBYClient_ClientSocket, n)
      in case sock_name os of
          None \<Rightarrow> Done (None, n1)
        | Some localAddr \<Rightarrow>
            bind_outcome (RDIBYClient_firstServerInteraction (send_result os) cl (greeting os) sock n1) (\<lambda>(r, n2).
              Done (if r = -1 then None else Some sock, n2)))"

text \<open>
  The receive loop until the server's leave message, on which the socket is closed; with no such
  message among \<open>server_messages\<close> the program waits.
\<close>

definition peer_collect :: "peer_answers \<Rightarrow> SOCKET \<Rightarrow> net \<Rightarrow> (punch_loop \<times> net) outcome" where
  "peer_collect os sock n =
     (let st = punch_receive (server_messages os) punch_loop_init
      in if pl_on st then Blocks else Done (st, closesocket sock n))"

text \<open>
  The change to datagrams. The program prints the first two addresses it has collected before it
  sends the server one datagram: without two of them, it reads behind the end of the vector. The
  answer is received over the message buffer, and the address is read from it, whether or not one
  has arrived.
\<close>

definition peer_to_udp ::
  "peer_answers \<Rightarrow> SOCKET \<Rightarrow> punch_loop \<Rightarrow> net \<Rightarrow> (SOCKET \<times> sockaddr_in \<times> BYTE list \<times> net) outcome" where
  "peer_to_udp os sock st n =
     bind_outcome (RDIBYClient_Encrypted_initUDP (udp_socket os) (udp_binds os) (sock, n)) (\<lambda>(ok, sock', n1).
       if length (clientAddrVec st) < 2 then Fault Mem_fault
       else let n2 = snd (ClientSocket_sendDataTo (send_result os) sock' (pl_buf st) n1)
            in (case udp_reply os of
                None \<Rightarrow> Blocks
              | Some arrived \<Rightarrow>
                  let (_, msgBuffer) = winsock_recvfrom (pl_buf st) arrived;
                      clientTest = get_sockAddr4 (decode_room_msg msgBuffer)
                  in Done (sock', clientTest, msgBuffer, n2)))"

definition start_msg :: server_room_msg where
  "start_msg = zero_room_msg\<lparr>msgType := START_PUNCH_MSG\<rparr>"

definition test1 :: "peer_answers \<Rightarrow> client \<Rightarrow> net \<Rightarrow> (peer_state \<times> net) outcome" where
  "test1 os cl n = bind_outcome (peer_connect os cl n) (\<lambda>(conn, n1). case conn of
       None \<Rightarrow> Done (Gave_up, n1)
     | Some sock \<Rightarrow>
         let (_, n2) = RDIBYClient_Encrypted_sendData (send_result os) sock (encode_room_msg start_msg)
               (word_of_nat sizeof_room_msg) 1 n1
         in bind_outcome (peer_collect os sock n2) (\<lambda>(st, n3).
              bind_outcome (peer_to_udp os sock st n3) (\<lambda>(sock', own, buf, n4).
                Done (Punching sock' own (buf[0 := 1]) (clientAddrVec st), n4))))"

definition test2 :: "peer_answers \<Rightarrow> client \<Rightarrow> net \<Rightarrow> (peer_state \<times> net) outcome" where
  "test2 os cl n = bind_outcome (peer_connect os cl n) (\<lambda>(conn, n1). case conn of
       None \<Rightarrow> Done (Gave_up, n1)
     | Some sock \<Rightarrow> bind_outcome (peer_collect os sock n1) (\<lambda>(st, n2).
         bind_outcome (peer_to_udp os sock st n2) (\<lambda>(sock', own, buf, n3).
           Done (Punching sock' own buf (clientAddrVec st), n3))))"

text \<open>One pass of the host's endless loop: its message to every address, its own first.\<close>

definition punch_pass :: "BYTE list \<Rightarrow> sockaddr_in list \<Rightarrow> (sockaddr_in \<times> BYTE list) list" where
  "punch_pass buf addrs = map (\<lambda>a. (a, buf)) addrs"

section \<open>Lemmas\<close>

text \<open>A client whose calls all succeed, and what the servers send it.\<close>

definition fine :: "peer_answers \<Rightarrow> bool" where
  "fine os \<longleftrightarrow> tcp_socket os \<noteq> INVALID_SOCKET \<and> tcp_connects os \<and> sock_name os \<noteq> None
     \<and> greeting os = Some (encode_fsi zero_fsi) \<and> send_result os \<noteq> -1
     \<and> 1 < udp_socket os \<and> udp_socket os \<noteq> INVALID_SOCKET \<and> udp_binds os"

definition told :: "sockaddr_in list \<Rightarrow> sockaddr_in \<Rightarrow> peer_answers \<Rightarrow> bool" where
  "told as own os \<longleftrightarrow> server_messages os = map (\<lambda>a. encode_room_msg (punch_msg a)) as @ [encode_room_msg leave_msg]
     \<and> udp_reply os = Some (Some (encode_room_msg (put_sockAddr4 own leave_msg)))"

lemma fine_connect:
  assumes "fine os" and "short_names cl"
  shows "\<exists>n1. peer_connect os cl n = Done (Some (tcp_socket os), n1)"
proof -
  have "names_fit cl" using assms(2) by (auto simp: short_names_def names_fit_def)
  from client_answers[OF this] assms(1) show ?thesis
    by (auto simp: peer_connect_def fine_def ClientSocket_initTCP_def ClientSocket_def first_interaction_equal)
qed

lemma collect_addresses:
  assumes "told as own os"
  shows "\<exists>st. peer_collect os sock n = Done (st, closesocket sock n) \<and> clientAddrVec st = as
    \<and> pl_buf st = encode_room_msg leave_msg"
  using punch_receive_all[of punch_loop_init as] assms by (simp add: peer_collect_def punch_loop_init_def told_def)

lemma fine_to_udp:
  assumes "fine os" and "told as own os" and "pl_buf st = encode_room_msg leave_msg"
  shows "length (clientAddrVec st) < 2 \<Longrightarrow> peer_to_udp os sock st n = Fault Mem_fault"
    and "\<not> length (clientAddrVec st) < 2 \<Longrightarrow>
      \<exists>n1. peer_to_udp os sock st n = Done (udp_socket os, own, encode_room_msg (put_sockAddr4 own leave_msg), n1)"
  using assms decode_encode_room_msg[of "put_sockAddr4 own leave_msg" "[]"]
  by (simp_all add: peer_to_udp_def ClientSocket_initUDP_def fine_def told_def not_le winsock_recvfrom_def
      del: bind_outcome_Done decode_encode_room_msg)

text \<open>The host's loop sends messages of type 1, which is the type of a leave message.\<close>

lemma punch_buffer: "(encode_room_msg (put_sockAddr4 own leave_msg))[0 := 1] = encode_room_msg (put_sockAddr4 own leave_msg)"
  by (simp add: encode_room_msg_def leave_msg_def LEAVE_MSG_def put_sockAddr4_def)

lemma fine_test1:
  assumes "fine os" and "short_names cl" and "told as own os"
  shows "\<exists>n'. test1 os cl n = (if length as < 2 then Fault Mem_fault
    else Done (Punching (udp_socket os) own (encode_room_msg (put_sockAddr4 own leave_msg)) as, n'))"
proof -
  from fine_connect[OF assms(1,2)] obtain n1 where n1: "peer_connect os cl n = Done (Some (tcp_socket os), n1)" by blast
  let ?n2 = "snd (EncryptedClientSocket_sendData (send_result os) (tcp_socket os) (encode_room_msg start_msg)
    (word_of_nat sizeof_room_msg) 1 n1)"
  from collect_addresses[OF assms(3)] obtain st where
    st: "peer_collect os (tcp_socket os) ?n2 = Done (st, closesocket (tcp_socket os) ?n2)" "clientAddrVec st = as"
      "pl_buf st = encode_room_msg leave_msg" by blast
  show ?thesis
  proof (cases "length as < 2")
    case True
    with fine_to_udp(1)[OF assms(1,3) st(3)] st show ?thesis
      by (simp add: test1_def n1 split_def Let_def del: bind_outcome_Done)
  next
    case False
    with fine_to_udp(2)[OF assms(1,3) st(3)] st(2) obtain n3 where
      "peer_to_udp os (tcp_socket os) st (closesocket (tcp_socket os) ?n2)
        = Done (udp_socket os, own, encode_room_msg (put_sockAddr4 own leave_msg), n3)" by blast
    with False st show ?thesis
      by (intro exI[of _ n3]) (simp add: test1_def n1 split_def Let_def punch_buffer del: bind_outcome_Done)
  qed
qed

lemma fine_test2:
  assumes "fine os" and "short_names cl" and "told as own os" and "2 \<le> length as"
  shows "\<exists>n'. test2 os cl n
    = Done (Punching (udp_socket os) own (encode_room_msg (put_sockAddr4 own leave_msg)) as, n')"
proof -
  from fine_connect[OF assms(1,2)] obtain n1 where n1: "peer_connect os cl n = Done (Some (tcp_socket os), n1)" by blast
  from collect_addresses[OF assms(3)] obtain st where
    st: "peer_collect os (tcp_socket os) n1 = Done (st, closesocket (tcp_socket os) n1)" "clientAddrVec st = as"
      "pl_buf st = encode_room_msg leave_msg" by blast
  from fine_to_udp(2)[OF assms(1,3) st(3)] assms(4) st(2) obtain n3 where
    "peer_to_udp os (tcp_socket os) st (closesocket (tcp_socket os) n1)
      = Done (udp_socket os, own, encode_room_msg (put_sockAddr4 own leave_msg), n3)"
    by (metis not_le)
  with st show ?thesis by (intro exI[of _ n3]) (simp add: test2_def n1 del: bind_outcome_Done)
qed

section \<open>The programs together\<close>

text \<open>
  C21: Starting a room brings its members together. When the host starts a room with guests, all
  of them there, on different sockets, with names of at most 15 characters and system calls that succeed, what the
  server sends leads the host's program to its punching loop with its own address and those of
  all guests, to each of which a pass of the loop sends; and every guest's program to its receive
  loop with the address of the host. On the way the server's reflector tells each of them the
  address its datagrams come from. A host that starts its room alone ends in a fault: it reads the
  second address it has collected, and there is only its own.
\<close>

theorem start_brings_together:
  assumes "endable (sm_rooms sm) rid r h" and "distinct (map (sock_of (sm_rooms sm)) (h # roomVector r))"
    and "\<forall>c \<in> set (h # roomVector r). fine (os c) \<and> short_names (who c)" and "length (rf_msg rf) = 20"
  shows "\<exists>sm' ms. endRoom rid True sm = Done (True, sm') \<and> net_sent (sm_net sm') = net_sent (sm_net sm) @ ms
    \<and> (let reply = (\<lambda>c. reflection (outside c) (encode_room_msg leave_msg) rf);
           received = (\<lambda>c. (os c)\<lparr>server_messages := messages_to (sock_of (sm_rooms sm) c) ms,
             udp_reply := Some (Some (reply c))\<rparr>);
           addr = addr_of (sm_rooms sm) in
         (\<exists>n'. test1 (received h) (who h) n = (if roomVector r = [] then Fault Mem_fault
            else Done (Punching (udp_socket (os h)) (outside h) (reply h) (map addr (h # roomVector r)), n')))
       \<and> (\<forall>c \<in> set (roomVector r).
            (addr c, reply h) \<in> set (punch_pass (reply h) (map addr (h # roomVector r)))
            \<and> (\<exists>n'. test2 (received c) (who c) n
                = Done (Punching (udp_socket (os c)) (outside c) (reply c) [addr h, addr c], n'))))"
proof -
  let ?rs = "sm_rooms sm" and ?v = "roomVector r"
  let ?ms = "punches ?rs h ?v @ leaves ?rs h ?v"
  let ?reply = "\<lambda>c. reflection (outside c) (encode_room_msg leave_msg) rf"
  let ?os = "\<lambda>c. (os c)\<lparr>server_messages := messages_to (sock_of ?rs c) ?ms, udp_reply := Some (Some (?reply c))\<rparr>"
  have reply: "?reply c = encode_room_msg (put_sockAddr4 (outside c) leave_msg)" for c
    by (rule reflection_of_msg[OF assms(4)]) simp
  have fine: "fine (?os c)" "short_names (who c)" if "c \<in> set (h # ?v)" for c
    using assms(3) that by (auto simp: fine_def)
  have "told (map (addr_of ?rs) (h # ?v)) (outside h) (?os h)"
    using messages_to_host[OF assms(2)] by (simp add: told_def reply)
  from fine_test1[OF fine[of h] this] have host: "\<exists>n'. test1 (?os h) (who h) n = (if ?v = [] then Fault Mem_fault
      else Done (Punching (udp_socket (os h)) (outside h) (?reply h) (map (addr_of ?rs) (h # ?v)), n'))"
    unfolding reply by (cases ?v) simp_all
  have guest: "\<exists>n'. test2 (?os c) (who c) n
      = Done (Punching (udp_socket (os c)) (outside c) (?reply c) [addr_of ?rs h, addr_of ?rs c], n')"
    if "c \<in> set ?v" for c
  proof -
    have "told [addr_of ?rs h, addr_of ?rs c] (outside c) (?os c)"
      using messages_to_guest[OF assms(2) that] by (simp add: told_def reply)
    from fine_test2[OF fine[of c] this] that show ?thesis unfolding reply by simp
  qed
  have shot: "(addr_of ?rs c, b) \<in> set (punch_pass b (map (addr_of ?rs) (h # ?v)))" if "c \<in> set ?v" for b c
    using that by (auto simp: punch_pass_def)
  let ?sm' = "log_sent ?ms (with_rooms (ended ?rs rid (insert h (set ?v))) sm)"
  have "endRoom rid True sm = Done (True, ?sm')" using endRoom_done[OF assms(1), of True] by simp
  moreover have "net_sent (sm_net ?sm') = net_sent (sm_net sm) @ ?ms" by (simp add: with_rooms_def)
  ultimately show ?thesis
    unfolding Let_def using host guest shot by (intro exI[of _ ?ms] exI[of _ ?sm'] conjI ballI)
qed

definition smooth :: peer_answers where
  "smooth = \<lparr>tcp_socket = 20, tcp_connects = True, sock_name = Some zero_sockaddr,
     greeting = Some (encode_fsi zero_fsi), send_result = 20, server_messages = [],
     udp_socket = 21, udp_binds = True, udp_reply = None\<rparr>"

theorem start_brings_together_witness:
  "\<exists>sm' ms. endRoom 5 True party = Done (True, sm') \<and> net_sent (sm_net sm') = net_sent (sm_net party) @ ms
    \<and> (let reply = (\<lambda>c :: nat. reflection zero_sockaddr (encode_room_msg leave_msg) (reflector_init zero_sockaddr));
           received = (\<lambda>c. smooth\<lparr>server_messages := messages_to (sock_of (sm_rooms party) c) ms,
             udp_reply := Some (Some (reply c))\<rparr>);
           addr = addr_of (sm_rooms party) in
         (\<exists>n'. test1 (received 1) bob empty_net = (if roomVector party_room = [] then Fault Mem_fault
            else Done (Punching (udp_socket smooth) zero_sockaddr (reply 1) (map addr (1 # roomVector party_room)), n')))
       \<and> (\<forall>c \<in> set (roomVector party_room).
            (addr c, reply 1) \<in> set (punch_pass (reply 1) (map addr (1 # roomVector party_room)))
            \<and> (\<exists>n'. test2 (received c) bob empty_net
                = Done (Punching (udp_socket smooth) zero_sockaddr (reply c) [addr 1, addr c], n'))))"
proof (rule start_brings_together[OF party_endable])
  show "distinct (map (sock_of (sm_rooms party)) (1 # roomVector party_room))"
    by (simp add: sock_of_def party_defs)
  show "\<forall>c \<in> set (1 # roomVector party_room). fine smooth \<and> short_names bob"
    by (simp add: fine_def smooth_def INVALID_SOCKET_def short_names_def bob_def word_less_nat_alt)
  show "length (rf_msg (reflector_init zero_sockaddr)) = 20" by (simp add: reflector_init_def)
qed

end
