(* ===== verification/Admission.thy ===== *)
theory Admission
  imports Server
begin

text \<open>
  Coming in: the properties of \<^verbatim>\<open>acceptFunc\<close> and of the first part of \<open>clientHandlerFunc\<close>,
  from the accepted connection to the room. The first interaction is that of
  \<^verbatim>\<open>Network\<close>: the bytes a client's \<open>firstServerInteraction\<close> answers.
\<close>

section \<open>Lemmas\<close>

lemma server_greeting:
  "snd (firstClientInteraction res sock arrived n) = n\<lparr>net_sent := net_sent n @ [(sock, encode_fsi zero_fsi)]\<rparr>"
  by (simp add: firstClientInteraction_def EncryptedServerSocket_sendData_def ServerSocket_sendData_def
      sizeof_fsi_def Let_def split_def)

definition greeted :: "server \<Rightarrow> server" where
  "greeted sm = log_sent [(fst (tData sm), encode_fsi zero_fsi)] sm"

lemma greeted_eq: "sm\<lparr>sm_net := snd (firstClientInteraction 0 (fst (tData sm)) arrived (sm_net sm))\<rparr> = greeted sm"
  by (simp add: server_greeting greeted_def log_sent_def on_net_def)

definition entering :: "nat \<Rightarrow> client \<Rightarrow> server \<Rightarrow> server" where
  "entering h c sm = frame_enter h (RoomClient3 (tData sm) (Some (cl_name c)) (cl_isHost c)) (greeted sm)"

lemma handler_enter_eq:
  assumes "short_names c"
  shows "handler_enter hasher h (Some (encode_fsi (filled_fsi c))) sm =
    (if cl_isHost c
     then enter_as_host h (tData sm) (hasher (cl_roomName c)) (hasher (cl_roomPassword c)) (entering h c sm)
     else enter_as_guest h (tData sm) (hasher (cl_roomName c)) (hasher (cl_roomPassword c)) (entering h c sm))"
proof -
  from assms have fit: "names_fit c" by (rule short_names_fit)
  have "text_of (filled_fsi c) roomName_off = Done (cl_roomName c)"
    "text_of (filled_fsi c) clientName_off = Done (cl_name c)"
    "text_of (filled_fsi c) roomPassword_off = Done (cl_roomPassword c)"
    using assms fit by (simp_all add: short_names_def text_of_def c_string_room c_string_client c_string_password)
  moreover obtain n1 where n1: "firstClientInteraction 0 (fst (tData sm)) (Some (encode_fsi (filled_fsi c))) (sm_net sm)
      = (filled_fsi c, n1)"
    using server_reads[OF wf_filled_fsi[OF fit]] by (metis prod.collapse)
  moreover have "sm\<lparr>sm_net := n1\<rparr> = greeted sm" using greeted_eq[of sm "Some (encode_fsi (filled_fsi c))"] n1 by simp
  moreover have "fi_isHost (filled_fsi c) = cl_isHost c" by (simp add: filled_fsi_def)
  ultimately show ?thesis by (simp add: handler_enter_def Let_def entering_def)
qed

lemma entering_simps [simp]:
  "roomMap (sm_rooms (entering h c sm)) = roomMap (sm_rooms sm)"
  "room_at (sm_rooms (entering h c sm)) = (room_at (sm_rooms sm))(h \<mapsto> Room)"
  "client_at (sm_rooms (entering h c sm))
     = (client_at (sm_rooms sm))(h \<mapsto> RoomClient3 (tData sm) (Some (cl_name c)) (cl_isHost c))"
  "snm_threads (entering h c sm) = snm_threads sm" "tData (entering h c sm) = tData sm"
  "addr_at (sm_rooms (entering h c sm)) = addr_at (sm_rooms sm)"
  by (simp_all add: entering_def frame_enter_def greeted_def)

definition in_loop :: "nat \<Rightarrow> socket_addr_pair \<Rightarrow> SIZE_T \<Rightarrow> handler" where
  "in_loop h sap rid = \<lparr>hd_self = h, hd_sap = sap, hd_roomID = rid, hd_buf = encode_room_msg zero_room_msg\<rparr>"

lemma in_loop_simps [simp]:
  "hd_self (in_loop h sap rid) = h" "hd_sap (in_loop h sap rid) = sap" "hd_roomID (in_loop h sap rid) = rid"
  "length (hd_buf (in_loop h sap rid)) = 20"
  by (simp_all add: in_loop_def)

text \<open>The address object of the connection to be served has not been deleted.\<close>

definition address_held :: "server \<Rightarrow> bool" where
  "address_held sm \<longleftrightarrow> (\<exists>q. snd (tData sm) = Some q \<and> addr_at (sm_rooms sm) q \<noteq> None)"

lemma reject_client_done:
  "killThread (ucast (fst sap)) (snm_threads sm) = Done (True, tm) \<Longrightarrow> snd sap = Some q \<Longrightarrow> addr_at (sm_rooms sm) q \<noteq> None \<Longrightarrow>
    reject_client h sap sm = Done (None, frame_exit h ((on_net (closesocket (fst sap)) (sm\<lparr>snm_threads := tm\<rparr>))
      \<lparr>sm_rooms := (sm_rooms sm)\<lparr>addr_at := (addr_at (sm_rooms sm))(q := None)\<rparr>\<rparr>))"
  by (auto simp: reject_client_def snm_killThread_def delete_Addr_def on_net_def Let_def)

lemma frame_exit_simps [simp]:
  "roomMap (sm_rooms (frame_exit h sm)) = roomMap (sm_rooms sm)"
  "room_at (sm_rooms (frame_exit h sm)) = (room_at (sm_rooms sm))(h := None)"
  "client_at (sm_rooms (frame_exit h sm)) = (client_at (sm_rooms sm))(h := None)"
  "snm_threads (frame_exit h sm) = snm_threads sm" "sm_net (frame_exit h sm) = sm_net sm"
  "addr_at (sm_rooms (frame_exit h sm)) = addr_at (sm_rooms sm)"
  "tData (frame_exit h sm) = tData sm"
  by (simp_all add: frame_exit_def)

lemma on_net_simps [simp]:
  "sm_rooms (on_net f sm) = sm_rooms sm" "snm_threads (on_net f sm) = snm_threads sm" "tData (on_net f sm) = tData sm"
  by (simp_all add: on_net_def)

lemma enter_as_guest_null:
  assumes "roomMap (sm_rooms sm) rid \<in> {None, Some None}"
    and "killThread (ucast (fst sap)) (snm_threads sm) = Done (True, tm)"
    and "snd sap = Some q" and "addr_at (sm_rooms sm) q \<noteq> None"
  shows "\<exists>sm'. enter_as_guest h sap rid pw sm = Done (None, sm') \<and> roomMap (sm_rooms sm') rid = Some None
    \<and> snm_threads sm' = tm"
  using assms by (auto simp: enter_as_guest_def getRoomPtr_def reject_client_done)

lemma enter_as_guest_found:
  assumes "roomMap (sm_rooms sm) rid = Some (Some p)" and "room_at (sm_rooms sm) p = Some r"
    and "client_at (sm_rooms sm) h = Some cl"
  shows "enter_as_guest h sap rid pw sm =
    (if roomPassword r = pw
     then Done (Some (in_loop h sap rid), sm\<lparr>sm_rooms := (sm_rooms sm)\<lparr>room_at :=
       (room_at (sm_rooms sm))(p \<mapsto> r\<lparr>roomVector := roomVector r @ [h]\<rparr>)\<rparr>\<rparr>)
     else reject_client h sap sm)"
  using assms by (simp add: enter_as_guest_def getRoomPtr_def room_ptr_def addClient_joins in_loop_def
      del: bind_outcome_Done)

lemma enter_as_host_done:
  "enter_as_host h sap rid pw sm = Done (Some (in_loop h sap rid), sm\<lparr>sm_rooms := (sm_rooms sm)\<lparr>
     room_at := (room_at (sm_rooms sm))(h \<mapsto> Room\<lparr>prHost := Some h, roomID := rid, roomPassword := pw\<rparr>),
     roomMap := (if roomMap (sm_rooms sm) rid = None then (roomMap (sm_rooms sm))(rid \<mapsto> Some h)
       else roomMap (sm_rooms sm))\<rparr>\<rparr>)"
  by (simp add: enter_as_host_def createNewRoom_def in_loop_def Let_def)

section \<open>Properties\<close>

text \<open>
  C22: Who gets into a room. A guest whose names have at most 15 characters and whose room exists
  (its thread known to the thread manager, its address object not yet deleted) is let in exactly if its
  password hashes to the room's: then it stands at the end of the room's vector and its handler
  serves the room; otherwise its thread is killed, its socket closed, the object with its address
  deleted, and the room is unchanged.
\<close>

theorem guest_admission:
  assumes "short_names c" and "\<not> cl_isHost c" and "rid = hasher (cl_roomName c)"
    and "roomMap (sm_rooms sm) rid = Some (Some p)" and "room_at (sm_rooms sm) p = Some r" and "h \<noteq> p"
    and "killThread (ucast (fst (tData sm))) (snm_threads sm) = Done (True, tm)" and "address_held sm"
  shows "\<exists>res sm'. handler_enter hasher h (Some (encode_fsi (filled_fsi c))) sm = Done (res, sm')
    \<and> (if roomPassword r = hasher (cl_roomPassword c)
       then res = Some (in_loop h (tData sm) rid) \<and> room_at (sm_rooms sm') p = Some (r\<lparr>roomVector := roomVector r @ [h]\<rparr>)
         \<and> addr_at (sm_rooms sm') = addr_at (sm_rooms sm)
       else res = None \<and> room_at (sm_rooms sm') p = Some r \<and> snm_threads sm' = tm
         \<and> fst (tData sm) \<in> set (net_closed (sm_net sm'))
         \<and> addr_at (sm_rooms sm') = (addr_at (sm_rooms sm))(the (snd (tData sm)) := None))
    \<and> roomMap (sm_rooms sm') = roomMap (sm_rooms sm)"
proof -
  let ?sm = "entering h c sm"
  have enter: "handler_enter hasher h (Some (encode_fsi (filled_fsi c))) sm
      = (if roomPassword r = hasher (cl_roomPassword c)
         then Done (Some (in_loop h (tData sm) rid), ?sm\<lparr>sm_rooms := (sm_rooms ?sm)\<lparr>room_at :=
           (room_at (sm_rooms ?sm))(p \<mapsto> r\<lparr>roomVector := roomVector r @ [h]\<rparr>)\<rparr>\<rparr>)
         else reject_client h (tData sm) ?sm)"
    using assms(2-6) enter_as_guest_found[of ?sm rid p r h]
    by (simp add: handler_enter_eq[OF assms(1)])
  obtain q where q: "snd (tData sm) = Some q" "addr_at (sm_rooms sm) q \<noteq> None" using assms(8) by (auto simp: address_held_def)
  have "reject_client h (tData sm) ?sm = Done (None, frame_exit h ((on_net (closesocket (fst (tData sm))) (?sm\<lparr>snm_threads := tm\<rparr>))
      \<lparr>sm_rooms := (sm_rooms ?sm)\<lparr>addr_at := (addr_at (sm_rooms ?sm))(q := None)\<rparr>\<rparr>))"
    using assms(7) q by (intro reject_client_done) simp_all
  with enter assms(5,6) q(1) show ?thesis
    by (simp add: on_net_def closesocket_def del: bind_outcome_Done)
qed

text \<open>A server with room 5 of host 1 waiting for the guest \<open>bob\<close>; names hash to their lengths plus 3.\<close>

definition length_hash :: "BYTE list \<Rightarrow> SIZE_T" where "length_hash s = word_of_nat (length s + 3)"

definition host_room :: room where
  "host_room = \<lparr>roomVector = [], prHost = Some 1, roomID = 5, roomPassword = 5\<rparr>"

definition waiting_threads :: "(nat, nat) thread_manager" where
  "waiting_threads = ThreadManager\<lparr>threadMap := [(7, Some 70), (8, Some 80)], heap := [70 \<mapsto> ConThread, 80 \<mapsto> ConThread]\<rparr>"

definition waiting :: server where
  "waiting = ServerManager\<lparr>sm_rooms := \<lparr>roomMap = [5 \<mapsto> Some 1], room_at = [1 \<mapsto> host_room],
       client_at = [1 \<mapsto> RoomClient3 (7, Some 20) (Some []) True],
       addr_at = [20 \<mapsto> zero_sockaddr, 21 \<mapsto> zero_sockaddr\<lparr>sin_port := 3\<rparr>]\<rparr>,
     snm_threads := waiting_threads, tData := (8, Some 21)\<rparr>"

definition without_thread :: "(nat, nat) thread_manager \<Rightarrow> (DWORD \<times> nat option) list \<Rightarrow> (nat, nat) thread_manager" where
  "without_thread tm m = tm\<lparr>threadMap := m, tm_os := WaitForSingleObject None (tm_os tm)\<rparr>"

lemmas waiting_defs = waiting_def host_room_def waiting_threads_def without_thread_def RoomClient3_def
  ServerManager_def ThreadManager_def ConThread_def killThread_def SetEvent_def

lemma short_bob: "short_names bob" "\<not> cl_isHost bob" "short_names (bob\<lparr>cl_isHost := True\<rparr>)"
  by (simp_all add: short_names_def bob_def)

theorem guest_admission_witness:
  "\<exists>res sm'. handler_enter length_hash 2 (Some (encode_fsi (filled_fsi bob))) waiting = Done (res, sm')
    \<and> (if roomPassword host_room = length_hash (cl_roomPassword bob)
       then res = Some (in_loop 2 (tData waiting) 5) \<and> room_at (sm_rooms sm') 1 = Some (host_room\<lparr>roomVector := roomVector host_room @ [2]\<rparr>)
         \<and> addr_at (sm_rooms sm') = addr_at (sm_rooms waiting)
       else res = None \<and> room_at (sm_rooms sm') 1 = Some host_room
         \<and> snm_threads sm' = without_thread waiting_threads [(7, Some 70)]
         \<and> fst (tData waiting) \<in> set (net_closed (sm_net sm'))
         \<and> addr_at (sm_rooms sm') = (addr_at (sm_rooms waiting))(the (snd (tData waiting)) := None))
    \<and> roomMap (sm_rooms sm') = roomMap (sm_rooms waiting)"
  by (rule guest_admission[OF short_bob(1,2)]) (simp_all add: waiting_defs length_hash_def bob_def address_held_def)

text \<open>
  C39: A guest who comes before the host spoils the room. The guest (names of at most 15 characters,
  thread known to the thread manager, address object not yet deleted) is sent away, but its lookup leaves the null entry; the host who then opens the room is told that it exists, every further guest is
  sent away as well, and the host's start message follows the null pointer.
\<close>

theorem early_guest_spoils_room:
  assumes "short_names g" and "\<not> cl_isHost g" and "short_names c" and "cl_isHost c"
    and "cl_roomName g = cl_roomName c" and "roomMap (sm_rooms sm) (hasher (cl_roomName c)) = None"
    and "killThread (ucast (fst (tData sm))) (snm_threads sm) = Done (True, tm)" and "address_held sm"
  shows "\<exists>sm1 hn sm2. handler_enter hasher h1 (Some (encode_fsi (filled_fsi g))) sm = Done (None, sm1)
    \<and> handler_enter hasher h2 (Some (encode_fsi (filled_fsi c))) (sm1\<lparr>tData := sap\<rparr>) = Done (Some hn, sm2)
    \<and> getRoomPtr (hasher (cl_roomName c)) (sm_rooms sm2) = (None, sm_rooms sm2)
    \<and> handler_message hn (Some (room_cmd START_PUNCH_MSG)) sm2 = Fault Null_deref"
proof -
  let ?rid = "hasher (cl_roomName c)"
  have "roomMap (sm_rooms (entering h1 g sm)) ?rid \<in> {None, Some None}" using assms(6) by simp
  moreover obtain q where "snd (tData sm) = Some q" "addr_at (sm_rooms sm) q \<noteq> None" using assms(8) by (auto simp: address_held_def)
  ultimately obtain sm1 where
    sm1: "enter_as_guest h1 (tData sm) ?rid (hasher (cl_roomPassword g)) (entering h1 g sm) = Done (None, sm1)"
    "roomMap (sm_rooms sm1) ?rid = Some None"
    using enter_as_guest_null[of "entering h1 g sm" ?rid "tData sm" tm q h1] assms(7) by auto
  let ?sm1 = "sm1\<lparr>tData := sap\<rparr>"
  obtain sm2 where sm2: "handler_enter hasher h2 (Some (encode_fsi (filled_fsi c))) ?sm1
      = Done (Some (in_loop h2 sap ?rid), sm2)" "roomMap (sm_rooms sm2) ?rid = Some None"
    "client_at (sm_rooms sm2) h2 = Some (RoomClient3 sap (Some (cl_name c)) True)"
    using sm1(2) assms(4) by (simp add: handler_enter_eq[OF assms(3)] enter_as_host_done)
  have "handler_message (in_loop h2 sap ?rid) (Some (room_cmd START_PUNCH_MSG)) sm2 = Fault Null_deref"
    using sm2(2,3) by (simp add: handler_cmd room_msg_types endRoom_gone RoomClient3_def)
  moreover have "handler_enter hasher h1 (Some (encode_fsi (filled_fsi g))) sm = Done (None, sm1)"
    using sm1(1) assms(2,5) by (simp add: handler_enter_eq[OF assms(1)])
  moreover have "getRoomPtr ?rid (sm_rooms sm2) = (None, sm_rooms sm2)" using sm2(2) by (simp add: getRoomPtr_def)
  ultimately show ?thesis using sm2(1) by blast
qed

theorem early_guest_spoils_room_witness:
  "\<exists>sm1 hn sm2. handler_enter length_hash 2 (Some (encode_fsi (filled_fsi bob))) (waiting\<lparr>sm_rooms := RoomManager\<lparr>addr_at := addr_at (sm_rooms waiting)\<rparr>\<rparr>) = Done (None, sm1)
    \<and> handler_enter length_hash 3 (Some (encode_fsi (filled_fsi (bob\<lparr>cl_isHost := True\<rparr>)))) (sm1\<lparr>tData := (7, Some 20)\<rparr>)
        = Done (Some hn, sm2)
    \<and> getRoomPtr (length_hash (cl_roomName (bob\<lparr>cl_isHost := True\<rparr>))) (sm_rooms sm2) = (None, sm_rooms sm2)
    \<and> handler_message hn (Some (room_cmd START_PUNCH_MSG)) sm2 = Fault Null_deref"
  by (rule early_guest_spoils_room[OF short_bob(1,2,3), where tm = "without_thread waiting_threads [(7, Some 70)]"])
    (simp_all add: waiting_defs RoomManager_def address_held_def)

text \<open>
  C40: A second host takes over the room of the first. Whoever opens a room under a name in use (of
  at most 15 characters), the first host and its guests being there, is let in without a password check as if it were its own, and when this second host leaves, the room of
  the first host is ended: its host and its guests are told to leave.
\<close>

theorem second_host_ends_room:
  assumes "short_names c" and "cl_isHost c" and "rid = hasher (cl_roomName c)"
    and "endable (sm_rooms sm) rid r h" and "room_at (sm_rooms sm) h2 = None" and "client_at (sm_rooms sm) h2 = None"
    and "killThread (ucast (fst (tData sm))) (snm_threads sm) = Done (True, tm)"
  shows "\<exists>hn sm1 sm2. handler_enter hasher h2 (Some (encode_fsi (filled_fsi c))) sm = Done (Some hn, sm1)
    \<and> endable (sm_rooms sm1) rid r h
    \<and> handler_message hn (Some (room_cmd LEAVE_MSG)) sm1 = Done (None, sm2)
    \<and> net_sent (sm_net sm2) = net_sent (sm_net sm1) @ leaves (sm_rooms sm1) h (roomVector r)
    \<and> roomMap (sm_rooms sm2) rid = None"
proof -
  let ?hn = "in_loop h2 (tData sm) rid"
  obtain p where p: "roomMap (sm_rooms sm) rid = Some (Some p)" "room_at (sm_rooms sm) p = Some r"
    using assms(4) by (auto simp: endable_def)
  have "p \<noteq> h2" using p(2) assms(5) by auto
  let ?rs1 = "(sm_rooms (entering h2 c sm))\<lparr>room_at := (room_at (sm_rooms sm))(h2 \<mapsto>
    Room\<lparr>prHost := Some h2, roomID := rid, roomPassword := hasher (cl_roomPassword c)\<rparr>),
    roomMap := roomMap (sm_rooms sm)\<rparr>"
  define sm1 where "sm1 = (entering h2 c sm)\<lparr>sm_rooms := ?rs1\<rparr>"
  have enter: "handler_enter hasher h2 (Some (encode_fsi (filled_fsi c))) sm = Done (Some ?hn, sm1)"
    using assms(2,3) p(1) by (simp add: handler_enter_eq[OF assms(1)] enter_as_host_done sm1_def)
  have self: "client_at (sm_rooms sm1) h2 = Some (RoomClient3 (tData sm) (Some (cl_name c)) True)"
    using assms(2) by (simp add: sm1_def)
  have "is_member (sm_rooms sm1) x" if "is_member (sm_rooms sm) x" for x
    using that assms(6) by (auto simp: is_member_def sm1_def)
  then have ok: "endable (sm_rooms sm1) rid r h"
    using assms(4) p \<open>p \<noteq> h2\<close> by (auto simp: endable_def sm1_def)
  let ?sm2 = "log_sent (leaves (sm_rooms sm1) h (roomVector r)) (with_rooms (ended (sm_rooms sm1) rid {h}) sm1)"
  let ?hn1 = "?hn\<lparr>hd_buf := room_cmd LEAVE_MSG\<rparr>"
  have kill: "killThread (ucast (fst (hd_sap ?hn1))) (snm_threads ?sm2) = Done (True, tm)"
    using assms(7) by (simp add: sm1_def)
  have "depart ?hn1 (RoomClient3 (tData sm) (Some (cl_name c)) True) sm1 = Done ?sm2"
    using endRoom_done[OF ok, of False] by (simp add: depart_def RoomClient3_def)
  with kill self have "handler_message ?hn (Some (room_cmd LEAVE_MSG)) sm1
      = Done (None, frame_exit (hd_self ?hn1) (?sm2\<lparr>snm_threads := tm\<rparr>))"
    by (simp add: handler_cmd handler_leave_done)
  with enter ok show ?thesis by (auto simp: ended_def)
qed

theorem second_host_ends_room_witness:
  "\<exists>hn sm1 sm2. handler_enter length_hash 3 (Some (encode_fsi (filled_fsi (bob\<lparr>cl_isHost := True\<rparr>)))) waiting = Done (Some hn, sm1)
    \<and> endable (sm_rooms sm1) 5 host_room 1
    \<and> handler_message hn (Some (room_cmd LEAVE_MSG)) sm1 = Done (None, sm2)
    \<and> net_sent (sm_net sm2) = net_sent (sm_net sm1) @ leaves (sm_rooms sm1) 1 (roomVector host_room)
    \<and> roomMap (sm_rooms sm2) 5 = None"
  by (rule second_host_ends_room[OF short_bob(3), where tm = "without_thread waiting_threads [(7, Some 70)]"])
    (simp_all add: waiting_defs length_hash_def bob_def endable_def is_member_def)

lemma accept_round_overwrites:
  assumes "accept_round s a q stop p thread sm = Done sm'" and "1 < s"
  shows "tData sm' = (s, Some q)"
  using assms by (auto simp: accept_round_def acceptNewConnection_def compareSocketAddrPair_def SAP_NULL_def
      createNewEvent_def Let_def split: if_splits)

lemma reject_sends_nothing: "reject_client h sap sm = Done (res, sm') \<Longrightarrow> net_sent (sm_net sm') = net_sent (sm_net sm)"
  by (auto simp: reject_client_def snm_killThread_def on_net_def closesocket_def)

lemma enter_sends_greeting:
  assumes "handler_enter hasher h arrived sm = Done (res, sm')"
  shows "net_sent (sm_net sm') = net_sent (sm_net sm) @ [(fst (tData sm), encode_fsi zero_fsi)]"
proof -
  have greet: "net_sent (sm_net (frame_enter h cl (greeted sm)))
      = net_sent (sm_net sm) @ [(fst (tData sm), encode_fsi zero_fsi)]" for cl
    by (simp add: frame_enter_def greeted_def)
  have host: "enter_as_host h sap rid pw sm0 = Done (res, sm') \<Longrightarrow> net_sent (sm_net sm') = net_sent (sm_net sm0)"
    for sap rid pw sm0 by (auto simp: enter_as_host_done)
  have guest: "enter_as_guest h sap rid pw sm0 = Done (res, sm') \<Longrightarrow> net_sent (sm_net sm') = net_sent (sm_net sm0)"
    for sap rid pw sm0
    by (auto simp: enter_as_guest_def Let_def split: prod.splits if_splits dest!: reject_sends_nothing)
  from assms show ?thesis
    by (auto simp: handler_enter_def Let_def split_def greeted_eq greet split: if_splits dest!: host guest)
qed

text \<open>
  Two connections in a row share one parameter. The accept loop hands its threads the address of
  its own local variable; when it accepts the next connection before the first handler has read it,
  a handler that starts now greets the second client, whichever thread it is.
\<close>

lemma next_accept_overwrites_parameter:
  assumes "accept_round s1 a1 q1 stop1 p1 thread1 sm = Done sm1" and "accept_round s2 a2 q2 stop2 p2 thread2 sm1 = Done sm2"
    and "1 < s2" and "handler_enter hasher h arrived sm2 = Done (res, sm3)"
  shows "net_sent (sm_net sm3) = net_sent (sm_net sm2) @ [(s2, encode_fsi zero_fsi)]"
  using enter_sends_greeting[OF assms(4)] accept_round_overwrites[OF assms(2,3)] by simp

definition two_accepts :: "server" where
  "two_accepts = (case accept_round 7 zero_sockaddr 20 (Some 5) 70 (Some 50) ServerManager of
     Done sm \<Rightarrow> (case accept_round 8 zero_sockaddr 21 (Some 6) 80 (Some 60) sm of Done sm' \<Rightarrow> sm' | _ \<Rightarrow> sm)
   | _ \<Rightarrow> ServerManager)"

definition one_accept :: "server" where
  "one_accept = (case accept_round 7 zero_sockaddr 20 (Some 5) 70 (Some 50) ServerManager of
     Done sm \<Rightarrow> sm | _ \<Rightarrow> ServerManager)"

lemmas accept_defs = accept_round_def acceptNewConnection_def compareSocketAddrPair_def SAP_NULL_def
  createNewEvent_def createNewThread_def new_ConThread_def HandleDeleter_def ConThread3_def
  ServerManager_def ThreadManager_def Let_def

lemma one_accept: "accept_round 7 zero_sockaddr 20 (Some 5) 70 (Some 50) ServerManager = Done one_accept"
  by (simp add: one_accept_def accept_defs word_le_nat_alt del: bind_outcome_Done)

lemma two_accepts: "accept_round 8 zero_sockaddr 21 (Some 6) 80 (Some 60) one_accept = Done two_accepts"
  by (simp add: two_accepts_def one_accept_def accept_defs word_le_nat_alt del: bind_outcome_Done)

lemma first_handler_enters:
  "\<exists>res sm3. handler_enter length_hash 1 (Some (encode_fsi (filled_fsi (bob\<lparr>cl_isHost := True\<rparr>)))) two_accepts = Done (res, sm3)"
  by (simp add: handler_enter_eq[OF short_bob(3)] enter_as_host_done)

end
