(* ===== verification/ServerSafety.thy ===== *)
theory ServerSafety
  imports Admission
begin

text \<open>
  The whole server as a step relation: connections are accepted, handlers enter and serve messages
  in any order, with any bytes arriving. The invariant ties the map of rooms to the handlers that
  run, and shows that no pointer to a room or a client is followed after its handler has returned. The
  addresses of the clients are another matter: two handlers can hold the same one, and the one that
  sends its client away deletes it.
\<close>

section \<open>Steps\<close>

type_synonym handlers = "nat \<Rightarrow> handler option"

text \<open>No room has as many guests as a \<open>DWORD\<close> can not count, the bound of \<open>getRoomSize\<close>.\<close>

definition countable_rooms :: "server \<Rightarrow> bool" where
  "countable_rooms sm \<longleftrightarrow> (\<forall>p r. room_at (sm_rooms sm) p = Some r \<longrightarrow> length (roomVector r) < 2 ^ 32 - 1)"

text \<open>
  \<open>W\<close> are the threads that an accept has started and that have not read their parameter yet. With
  \<open>prompt\<close> each of them reads it before the next accept, so that no two handlers get the same one.
  \<^verbatim>\<open>new\<close> returns an address that is not in use.
\<close>

inductive server_step :: "(BYTE list \<Rightarrow> SIZE_T) \<Rightarrow> bool \<Rightarrow> server \<times> handlers \<times> nat set \<Rightarrow> server \<times> handlers \<times> nat set \<Rightarrow> bool"
  for hasher prompt where
  accepts: "prompt \<longrightarrow> W = {} \<Longrightarrow> addr_at (sm_rooms sm) q = None \<Longrightarrow> R h = None \<Longrightarrow> h \<notin> W
    \<Longrightarrow> accept_round s a q stop p thread sm = Done sm'
    \<Longrightarrow> server_step hasher prompt (sm, R, W) (sm', R, if 1 < s \<and> thread \<noteq> None then insert h W else W)"
| enters: "h \<in> W \<Longrightarrow> handler_enter hasher h arrived sm = Done (res, sm')
    \<Longrightarrow> server_step hasher prompt (sm, R, W) (sm', R(h := res), W - {h})"
| serves: "R h = Some hn \<Longrightarrow> countable_rooms sm \<Longrightarrow> handler_message hn arrived sm = Done (res, sm')
    \<Longrightarrow> server_step hasher prompt (sm, R, W) (sm', R(h := res), W)"

inductive_cases server_stepE: "server_step hasher prompt s s'"

inductive server_reachable :: "(BYTE list \<Rightarrow> SIZE_T) \<Rightarrow> bool \<Rightarrow> server \<times> handlers \<times> nat set \<Rightarrow> bool" for hasher prompt where
  start: "server_reachable hasher prompt (ServerManager, Map.empty, {})"
| step: "server_reachable hasher prompt s \<Longrightarrow> server_step hasher prompt s s' \<Longrightarrow> server_reachable hasher prompt s'"

section \<open>Invariant\<close>

definition frames_ok :: "rooms \<Rightarrow> handlers \<Rightarrow> bool" where
  "frames_ok rs R \<longleftrightarrow> (\<forall>h. (room_at rs h = None \<longleftrightarrow> R h = None) \<and> (client_at rs h = None \<longleftrightarrow> R h = None))
     \<and> (\<forall>h hn. R h = Some hn \<longrightarrow> hd_self hn = h) \<and> (\<forall>h cl. client_at rs h = Some cl \<longrightarrow> snd (rc_sap cl) \<noteq> None)"

text \<open>A handler of room \<open>rid\<close> that is not told to leave yet.\<close>

definition present :: "rooms \<Rightarrow> handlers \<Rightarrow> SIZE_T \<Rightarrow> nat \<Rightarrow> bool" where
  "present rs R rid c \<longleftrightarrow> (\<exists>hn cl. R c = Some hn \<and> hd_roomID hn = rid \<and> client_at rs c = Some cl \<and> \<not> rc_isLeaving cl)"

definition room_alive :: "rooms \<Rightarrow> handlers \<Rightarrow> SIZE_T \<Rightarrow> nat \<Rightarrow> bool" where
  "room_alive rs R rid p \<longleftrightarrow> (\<exists>r. room_at rs p = Some r \<and> prHost r = Some p
     \<and> (\<forall>c \<in> insert p (set (roomVector r)). present rs R rid c))"

definition rooms_ok :: "rooms \<Rightarrow> handlers \<Rightarrow> bool" where
  "rooms_ok rs R \<longleftrightarrow> (\<forall>rid p. roomMap rs rid = Some (Some p) \<longrightarrow> room_alive rs R rid p)"

definition threads_ok :: "(nat, nat) thread_manager \<Rightarrow> bool" where
  "threads_ok tm \<longleftrightarrow> (\<forall>key p. map_of (threadMap tm) key = Some (Some p) \<longrightarrow> heap tm p \<noteq> None)"

definition server_inv :: "server \<Rightarrow> handlers \<Rightarrow> bool" where
  "server_inv sm R \<longleftrightarrow> frames_ok (sm_rooms sm) R \<and> rooms_ok (sm_rooms sm) R \<and> threads_ok (snm_threads sm)"

text \<open>The threads that have not read their parameter yet.\<close>

definition starting_ok :: "server \<Rightarrow> handlers \<Rightarrow> nat set \<Rightarrow> bool" where
  "starting_ok sm R W \<longleftrightarrow> (\<forall>h \<in> W. R h = None) \<and> (W \<noteq> {} \<longrightarrow> snd (tData sm) \<noteq> None)"

text \<open>No two clients, and no client and the thread about to start, have the same address object.\<close>

definition addresses_ok :: "server \<Rightarrow> nat set \<Rightarrow> bool" where
  "addresses_ok sm W \<longleftrightarrow> (\<forall>h cl. client_at (sm_rooms sm) h = Some cl \<longrightarrow> is_member (sm_rooms sm) h)
     \<and> (\<forall>h h' cl cl'. client_at (sm_rooms sm) h = Some cl \<longrightarrow> client_at (sm_rooms sm) h' = Some cl'
          \<longrightarrow> snd (rc_sap cl) = snd (rc_sap cl') \<longrightarrow> h = h')
     \<and> (\<forall>h \<in> W. W = {h} \<and> address_held sm
          \<and> (\<forall>c cl. client_at (sm_rooms sm) c = Some cl \<longrightarrow> snd (rc_sap cl) \<noteq> snd (tData sm)))"

lemma ok_addr_at [simp]:
  "frames_ok (rs\<lparr>addr_at := f\<rparr>) R = frames_ok rs R" "rooms_ok (rs\<lparr>addr_at := f\<rparr>) R = rooms_ok rs R"
  by (simp_all add: frames_ok_def rooms_ok_def room_alive_def present_def)

lemma rooms_okI:
  assumes "rooms_ok rs R"
    and "\<And>rid p. roomMap rs' rid = Some (Some p) \<Longrightarrow> roomMap rs rid = Some (Some p)"
    and "\<And>rid p. roomMap rs' rid = Some (Some p) \<Longrightarrow> room_alive rs R rid p \<Longrightarrow> room_at rs' p = room_at rs p"
    and "\<And>rid p c. roomMap rs' rid = Some (Some p) \<Longrightarrow> present rs R rid c \<Longrightarrow> present rs' R' rid c"
  shows "rooms_ok rs' R'"
proof -
  have "room_alive rs' R' rid p" if rid: "roomMap rs' rid = Some (Some p)" for rid p
  proof -
    have alive: "room_alive rs R rid p" using assms(1,2) rid by (simp add: rooms_ok_def)
    with assms(3)[OF rid alive] assms(4)[OF rid] show ?thesis unfolding room_alive_def by fastforce
  qed
  then show ?thesis by (simp add: rooms_ok_def)
qed

lemma present_runs: "present rs R rid c \<Longrightarrow> R c \<noteq> None"
  by (auto simp: present_def)

lemma inv_init: "server_inv ServerManager Map.empty"
  by (simp add: server_inv_def frames_ok_def rooms_ok_def threads_ok_def ServerManager_def RoomManager_def ThreadManager_def)

subsection \<open>Threads\<close>

lemma map_of_filter_ne: "map_of (filter (\<lambda>e. fst e \<noteq> key) m) k = (if k = key then None else map_of m k)"
  by (induction m) auto

lemma killThread_inv: "threads_ok tm \<Longrightarrow> killThread key tm = Done (ok, tm') \<Longrightarrow> threads_ok tm'"
  by (auto simp: threads_ok_def killThread_def map_of_filter_ne split: option.splits if_splits)

lemma killThread_alive: "threads_ok tm \<Longrightarrow> killThread key tm \<noteq> Fault Mem_fault"
  by (fastforce simp: threads_ok_def killThread_def split: option.splits)

lemma snm_killThread_inv:
  assumes "server_inv sm R" and "snm_killThread sock sm = Done sm'"
  shows "server_inv sm' R" and "sm_rooms sm' = sm_rooms sm"
  using assms by (auto simp: snm_killThread_def server_inv_def dest: killThread_inv)

lemma snm_killThread_alive: "server_inv sm R \<Longrightarrow> snm_killThread sock sm \<noteq> Fault Mem_fault"
  using killThread_alive[of "snm_threads sm" "ucast sock"]
  by (cases "killThread (ucast sock) (snm_threads sm)") (auto simp: snm_killThread_def server_inv_def)

lemma createNewThread_inv:
  assumes "threads_ok tm" and "createNewThread thread key p tm = Done (ok, tm')"
  shows "threads_ok tm'"
  using assms by (auto simp: threads_ok_def createNewThread_def Let_def map_add_def split: option.splits if_splits)

lemma accept_inv:
  assumes "server_inv sm R" and "accept_round s a q stop p thread sm = Done sm'"
  shows "server_inv sm' R"
proof -
  have "threads_ok (new_ConThread p ct (snm_threads sm))" for ct
    using assms(1) by (auto simp: server_inv_def threads_ok_def new_ConThread_def)
  then have "createNewThread thread key p (new_ConThread p ct (snm_threads sm)) = Done (ok, tm) \<Longrightarrow> threads_ok tm" for key ct ok tm
    by (rule createNewThread_inv)
  with assms show ?thesis
    by (auto simp: accept_round_def acceptNewConnection_def server_inv_def createNewEvent_def Let_def split: prod.splits if_splits)
qed

subsection \<open>Ending a room\<close>

lemma inv_closable:
  assumes "server_inv sm R" and "roomMap (sm_rooms sm) rid = Some (Some p)"
  obtains r where "room_at (sm_rooms sm) p = Some r" "closable (sm_rooms sm) rid r p"
    "\<forall>c \<in> insert p (set (roomVector r)). present (sm_rooms sm) R rid c"
proof -
  from assms have "room_alive (sm_rooms sm) R rid p" by (simp add: server_inv_def rooms_ok_def)
  then obtain r where r: "room_at (sm_rooms sm) p = Some r" "prHost r = Some p"
    "\<forall>c \<in> insert p (set (roomVector r)). present (sm_rooms sm) R rid c" unfolding room_alive_def by blast
  then have "client_at (sm_rooms sm) c \<noteq> None" if "c \<in> insert p (set (roomVector r))" for c
    using that by (auto simp: present_def)
  with r(1,2) assms(2) have "closable (sm_rooms sm) rid r p" unfolding closable_def by blast
  with r show thesis using that by blast
qed

lemma ended_inv:
  assumes "frames_ok rs R" and "rooms_ok rs R" and "\<forall>c \<in> C. present rs R rid c"
  shows "frames_ok (ended rs rid C) R" and "rooms_ok (ended rs rid C) R"
proof -
  have none: "client_at (ended rs rid C) h = None \<longleftrightarrow> client_at rs h = None" for h
    by (simp add: ended_def mark_leaving_def)
  have addr: "snd (rc_sap cl) \<noteq> None" if "client_at (ended rs rid C) h = Some cl" for h cl
  proof -
    from that obtain cl' where "client_at rs h = Some cl'" "rc_sap cl = rc_sap cl'"
      by (auto simp: ended_def client_at_mark_leaving)
    with assms(1) show ?thesis by (simp add: frames_ok_def)
  qed
  show "frames_ok (ended rs rid C) R"
    using assms(1) none addr unfolding frames_ok_def by (simp add: ended_def)
  have keep: "present (ended rs rid C) R rid' c" if "rid' \<noteq> rid" "present rs R rid' c" for rid' c
  proof -
    from that assms(3) have "c \<notin> C" by (auto simp: present_def)
    with that(2) show ?thesis by (simp add: present_def ended_def mark_leaving_def)
  qed
  show "rooms_ok (ended rs rid C) R"
    by (rule rooms_okI[OF assms(2)]) (auto simp: ended_def[of rs rid C] intro!: keep[unfolded ended_def] split: if_splits)
qed

lemma endRoom_inv:
  assumes inv: "server_inv sm R" and run: "endRoom rid streaming sm = Done (ok, sm')"
  shows "server_inv sm' R \<and> roomMap (sm_rooms sm') rid = None"
proof -
  have "\<exists>p. roomMap (sm_rooms sm) rid = Some (Some p)"
    using run endRoom_gone[of sm rid streaming] by (cases "roomMap (sm_rooms sm) rid") auto
  then obtain p r where r: "closable (sm_rooms sm) rid r p"
    "\<forall>c \<in> insert p (set (roomVector r)). present (sm_rooms sm) R rid c"
    using inv_closable[OF inv] by metis
  let ?C = "insert p (if streaming then set (roomVector r) else {})"
  have C: "\<forall>c \<in> ?C. present (sm_rooms sm) R rid c" using r(2) by auto
  have "endRoom rid True sm = Done x \<Longrightarrow> endable (sm_rooms sm) rid r p" for x by (rule started_endable[OF r(1)])
  with run endRoom_done[of sm rid r p True] closeRoom_done[OF r(1)] have sm': "sm_rooms sm' = ended (sm_rooms sm) rid ?C"
    "snm_threads sm' = snm_threads sm" by (cases streaming; auto)+
  show ?thesis
    using inv ended_inv[OF _ _ C] sm' by (simp add: server_inv_def) (simp add: ended_def)
qed

text \<open>The addresses of a room's members are there.\<close>

definition room_addresses :: "rooms \<Rightarrow> SIZE_T \<Rightarrow> bool" where
  "room_addresses rs rid \<longleftrightarrow> (\<forall>p r. roomMap rs rid = Some (Some p) \<longrightarrow> room_at rs p = Some r
     \<longrightarrow> (\<forall>c \<in> insert p (set (roomVector r)). is_member rs c))"

lemma endRoom_alive:
  assumes inv: "server_inv sm R" and addresses: "streaming \<longrightarrow> room_addresses (sm_rooms sm) rid"
  shows "endRoom rid streaming sm \<noteq> Fault Mem_fault"
proof (cases "roomMap (sm_rooms sm) rid \<in> {None, Some None}")
  case True
  then show ?thesis by (simp add: endRoom_gone)
next
  case False
  then obtain p where "roomMap (sm_rooms sm) rid = Some (Some p)" by auto
  with inv obtain r where r: "room_at (sm_rooms sm) p = Some r" "closable (sm_rooms sm) rid r p" by (rule inv_closable)
  show ?thesis
  proof (cases streaming)
    case True
    with addresses \<open>roomMap (sm_rooms sm) rid = Some (Some p)\<close> r have "endable (sm_rooms sm) rid r p"
      by (auto simp: room_addresses_def closable_def endable_def)
    then show ?thesis by (simp add: endRoom_done)
  next
    case False
    with closeRoom_done[OF r(2)] show ?thesis by simp
  qed
qed

text \<open>No removal succeeds: every room in the map has its host.\<close>

lemma remove_fails:
  assumes "server_inv sm R" and "countable_rooms sm"
  shows "removeClientFromRoom rid c (sm_rooms sm) \<in> {Fault Null_deref, Fault Out_of_range}"
proof (cases "roomMap (sm_rooms sm) rid \<in> {None, Some None}")
  case True
  then show ?thesis by (simp add: removeClient_null)
next
  case False
  then obtain p where p: "roomMap (sm_rooms sm) rid = Some (Some p)" by auto
  with assms(1) obtain r where "room_at (sm_rooms sm) p = Some r" "closable (sm_rooms sm) rid r p"
    by (rule inv_closable)
  with p assms(2) have "removeClientFromRoom rid c (sm_rooms sm) = Fault Out_of_range"
    by (intro removeClient_with_host) (auto simp: closable_def countable_rooms_def)
  then show ?thesis by simp
qed

subsection \<open>Leaving\<close>

lemma frame_exit_inv:
  assumes inv: "server_inv sm R" and h: "R h = Some hn"
    and gone: "roomMap (sm_rooms sm) (hd_roomID hn) \<in> {None, Some None}
      \<or> (\<exists>cl. client_at (sm_rooms sm) h = Some cl \<and> rc_isLeaving cl)"
  shows "server_inv (frame_exit h sm) (R(h := None))"
proof -
  have other: "c \<noteq> h" if "present (sm_rooms sm) R rid c" "roomMap (sm_rooms sm) rid = Some (Some p)" for rid c p
    using that gone h by (auto simp: present_def)
  have "rooms_ok (sm_rooms sm) R" using inv by (simp add: server_inv_def)
  then have "rooms_ok (sm_rooms (frame_exit h sm)) (R(h := None))"
  proof (rule rooms_okI)
    fix rid p
    assume rid: "roomMap (sm_rooms (frame_exit h sm)) rid = Some (Some p)"
    then show "roomMap (sm_rooms sm) rid = Some (Some p)" by simp
    assume "room_alive (sm_rooms sm) R rid p"
    then have "present (sm_rooms sm) R rid p" by (auto simp: room_alive_def)
    with rid other have "p \<noteq> h" by simp
    then show "room_at (sm_rooms (frame_exit h sm)) p = room_at (sm_rooms sm) p" by simp
  next
    fix rid p c
    assume "roomMap (sm_rooms (frame_exit h sm)) rid = Some (Some p)" and c: "present (sm_rooms sm) R rid c"
    with other have "c \<noteq> h" by simp
    with c show "present (sm_rooms (frame_exit h sm)) (R(h := None)) rid c" by (simp add: present_def)
  qed
  with inv show ?thesis by (simp add: server_inv_def frames_ok_def)
qed

lemma handler_leave_inv:
  assumes "server_inv sm R" and "R h = Some hn" and "hd_self hn' = h"
    and "roomMap (sm_rooms sm) (hd_roomID hn) \<in> {None, Some None}
      \<or> (\<exists>cl. client_at (sm_rooms sm) h = Some cl \<and> rc_isLeaving cl)"
    and "handler_leave hn' sm = Done (res, sm')"
  shows "res = None \<and> server_inv sm' (R(h := None))"
proof -
  from assms(5) obtain sm1 where sm1: "snm_killThread (fst (hd_sap hn')) sm = Done sm1" "res = None"
    "sm' = frame_exit h sm1" using assms(3) by (auto simp: handler_leave_def)
  note inv1 = snm_killThread_inv[OF assms(1) sm1(1)]
  with assms(4) have "server_inv (frame_exit h sm1) (R(h := None))"
    by (intro frame_exit_inv[where hn = hn]) (auto simp: assms(2))
  with sm1 show ?thesis by simp
qed

lemma on_net_inv [simp]: "server_inv (on_net f sm) R = server_inv sm R"
  by (simp add: server_inv_def)

lemma depart_inv:
  assumes "server_inv sm R" and "countable_rooms sm" and "depart hn self sm = Done sm'"
  shows "server_inv sm' R \<and> roomMap (sm_rooms sm') (hd_roomID hn) = None"
  using assms remove_fails[OF assms(1,2), of "hd_roomID hn" "hd_self hn"] endRoom_inv[OF assms(1)]
  by (auto simp: depart_def split: if_splits)

lemma update_handler_inv:
  assumes "server_inv sm R" and "R h = Some hn" and "hd_self hn' = hd_self hn" and "hd_roomID hn' = hd_roomID hn"
  shows "server_inv sm (R(h \<mapsto> hn'))"
proof -
  have "rooms_ok (sm_rooms sm) R" using assms(1) by (simp add: server_inv_def)
  then have "rooms_ok (sm_rooms sm) (R(h \<mapsto> hn'))"
    by (rule rooms_okI) (use assms(2,4) in \<open>auto simp: present_def\<close>)
  with assms show ?thesis by (auto simp: server_inv_def frames_ok_def)
qed

lemma serves_inv:
  assumes inv: "server_inv sm R" and h: "R h = Some hn" and small: "countable_rooms sm"
    and run: "handler_message hn arrived sm = Done (res, sm')"
  shows "server_inv sm' (R(h := res))"
proof -
  have self: "hd_self hn = h" using inv h by (simp add: server_inv_def frames_ok_def)
  obtain recvRes buf where recv: "EncryptedServerSocket_recvData (hd_buf hn) arrived = (recvRes, buf)"
    by (cases "EncryptedServerSocket_recvData (hd_buf hn) arrived")
  let ?hn1 = "hn\<lparr>hd_buf := buf\<rparr>"
  from run self obtain cl where cl: "client_at (sm_rooms sm) h = Some cl"
    by (auto simp: handler_message_def recv client_ptr_def split: option.splits)
  have upd: "server_inv sm1 R \<Longrightarrow> server_inv sm1 (R(h \<mapsto> ?hn1))" for sm1
    by (rule update_handler_inv[where hn = hn]) (simp_all add: h)
  have leave: "server_inv sm'' (R(h := res'))"
    if "server_inv sm1 R" "handler_leave ?hn1 sm1 = Done (res', sm'')"
      "roomMap (sm_rooms sm1) (hd_roomID hn) = None \<or> (\<exists>cl. client_at (sm_rooms sm1) h = Some cl \<and> rc_isLeaving cl)"
    for sm1 sm'' res'
    using handler_leave_inv[OF that(1) h _ _ that(2)] that(3) self by auto
  note dep = depart_inv[OF inv small, of ?hn1 cl]
  consider "recvRes = 0" "rc_isLeaving cl" "handler_leave ?hn1 sm = Done (res, sm')"
    | sm1 where "depart ?hn1 cl sm = Done sm1"
        "handler_leave ?hn1 (on_net (closesocket (fst (hd_sap hn))) sm1) = Done (res, sm')"
    | sm1 where "depart ?hn1 cl sm = Done sm1" "handler_leave ?hn1 sm1 = Done (res, sm')"
    | ok where "endRoom (hd_roomID hn) True sm = Done (ok, sm')" "res = Some ?hn1"
    | "res = Some ?hn1" "sm' = sm"
    using run cl self by (auto simp: handler_message_def recv client_ptr_def Let_def split: if_splits)
  then show ?thesis
  proof cases
    case 1
    with cl show ?thesis by (intro leave[OF inv]) auto
  next
    case 2
    with dep show ?thesis by (intro leave[OF _ 2(2)]) auto
  next
    case 3
    with dep show ?thesis by (intro leave[OF _ 3(2)]) auto
  next
    case 4
    with endRoom_inv[OF inv] upd show ?thesis by blast
  next
    case 5
    with inv upd show ?thesis by simp
  qed
qed

text \<open>Serving a message never follows a dangling pointer.\<close>

lemma handler_leave_alive: "server_inv sm R \<Longrightarrow> handler_leave hn sm \<noteq> Fault Mem_fault"
  using snm_killThread_alive[of sm R "fst (hd_sap hn)"]
  by (cases "snm_killThread (fst (hd_sap hn)) sm") (auto simp: handler_leave_def)

lemma depart_alive:
  assumes "server_inv sm R" and "countable_rooms sm"
  shows "depart hn self sm \<noteq> Fault Mem_fault"
  using remove_fails[OF assms, of "hd_roomID hn" "hd_self hn"] endRoom_alive[OF assms(1), of False "hd_roomID hn"]
  by (cases "endRoom (hd_roomID hn) False sm") (auto simp: depart_def)

lemma bind_alive: "m \<noteq> Fault e \<Longrightarrow> (\<And>x. m = Done x \<Longrightarrow> f x \<noteq> Fault e) \<Longrightarrow> bind_outcome m f \<noteq> Fault e"
  by (cases m) auto

lemma serves_alive:
  assumes inv: "server_inv sm R" and h: "R h = Some hn" and small: "countable_rooms sm"
    and addresses: "room_addresses (sm_rooms sm) (hd_roomID hn)"
  shows "handler_message hn arrived sm \<noteq> Fault Mem_fault"
proof -
  obtain recvRes buf where recv: "EncryptedServerSocket_recvData (hd_buf hn) arrived = (recvRes, buf)"
    by (cases "EncryptedServerSocket_recvData (hd_buf hn) arrived")
  have "hd_self hn = h" "client_at (sm_rooms sm) h \<noteq> None" using inv h by (auto simp: server_inv_def frames_ok_def)
  then obtain cl where cl: "client_ptr (Some (hd_self hn)) (sm_rooms sm) = Done cl" by (auto simp: client_ptr_def)
  have leave: "handler_leave hn' sm1 \<noteq> Fault Mem_fault" if "depart hn'' cl sm = Done sm1" for hn' hn'' sm1
    using depart_inv[OF inv small that] handler_leave_alive by blast
  have leave': "handler_leave hn' (on_net f sm1) \<noteq> Fault Mem_fault" if "depart hn'' cl sm = Done sm1" for hn' hn'' sm1 f
    using depart_inv[OF inv small that] handler_leave_alive[of "on_net f sm1" R] by simp
  show ?thesis
    by (simp add: handler_message_def recv cl Let_def depart_alive[OF inv small] handler_leave_alive[OF inv]
        endRoom_alive[OF inv] addresses bind_alive leave leave' split_def)
qed


subsection \<open>Entering\<close>

lemma present_other: "present rs R rid c \<Longrightarrow> R h = None \<Longrightarrow> c \<noteq> h"
  by (auto simp: present_def)

lemma enter_as_host_inv:
  assumes inv: "server_inv sm R" and h: "R h = None" and cl: "snd (rc_sap cl) \<noteq> None" "\<not> rc_isLeaving cl"
    and run: "enter_as_host h sap rid pw (frame_enter h cl sm) = Done (res, sm')"
  shows "server_inv sm' (R(h := res))"
proof -
  let ?r = "Room\<lparr>prHost := Some h, roomID := rid, roomPassword := pw\<rparr>"
  let ?rs = "sm_rooms sm"
  have at: "room_at (sm_rooms sm') = (room_at ?rs)(h \<mapsto> ?r)" "client_at (sm_rooms sm') = (client_at ?rs)(h \<mapsto> cl)"
    "roomMap (sm_rooms sm') = (if roomMap ?rs rid = None then (roomMap ?rs)(rid \<mapsto> Some h) else roomMap ?rs)"
    "snm_threads sm' = snm_threads sm" and res: "res = Some (in_loop h sap rid)"
    using run by (auto simp: enter_as_host_done frame_enter_def)
  have frames: "frames_ok (sm_rooms sm') (R(h := res))"
    using inv cl by (auto simp: server_inv_def frames_ok_def at res)
  have keep: "present (sm_rooms sm') (R(h := res)) rid' c" if "present ?rs R rid' c" for rid' c
    using that present_other[OF that h] by (simp add: present_def at)
  have "room_alive (sm_rooms sm') (R(h := res)) rid' p" if m: "roomMap (sm_rooms sm') rid' = Some (Some p)" for rid' p
  proof (cases "roomMap ?rs rid' = Some (Some p)")
    case True
    with inv have "room_alive ?rs R rid' p" by (simp add: server_inv_def rooms_ok_def)
    then obtain r where r: "room_at ?rs p = Some r" "prHost r = Some p"
      "\<forall>c \<in> insert p (set (roomVector r)). present ?rs R rid' c" unfolding room_alive_def by blast
    with present_other[of ?rs R rid' p h] h have "room_at (sm_rooms sm') p = Some r" by (simp add: at)
    with r keep show ?thesis unfolding room_alive_def by blast
  next
    case False
    with m have "rid' = rid" "p = h" by (auto simp: at split: if_splits)
    then show ?thesis using cl by (simp add: room_alive_def present_def at res Room_def)
  qed
  with inv frames show ?thesis by (simp add: server_inv_def rooms_ok_def at)
qed

lemma frame_exit_enter_inv:
  assumes "server_inv sm R" and "R h = None" and "roomMap (sm_rooms sm') = roomMap rs"
    and "\<And>rid p. roomMap rs rid = Some (Some p) \<Longrightarrow> roomMap (sm_rooms sm) rid = Some (Some p)"
    and "room_at (sm_rooms sm') = (room_at (sm_rooms sm))(h := None)"
    and "client_at (sm_rooms sm') = (client_at (sm_rooms sm))(h := None)" and "threads_ok (snm_threads sm')"
  shows "server_inv sm' R"
proof -
  have none: "room_at (sm_rooms sm) h = None" "client_at (sm_rooms sm) h = None"
    using assms(1,2) by (auto simp: server_inv_def frames_ok_def)
  then have same: "room_at (sm_rooms sm') = room_at (sm_rooms sm)" "client_at (sm_rooms sm') = client_at (sm_rooms sm)"
    using assms(5,6) by auto
  have "rooms_ok (sm_rooms sm) R" using assms(1) by (simp add: server_inv_def)
  then have "rooms_ok (sm_rooms sm') R"
    by (rule rooms_okI) (use assms(3,4) same in \<open>auto simp: present_def\<close>)
  with assms(1,7) same show ?thesis by (simp add: server_inv_def frames_ok_def)
qed

lemma getRoomPtr_map:
  "getRoomPtr rid rs = (ptr, rs1) \<Longrightarrow> (\<forall>rid' p. roomMap rs1 rid' = Some (Some p) \<longrightarrow> roomMap rs rid' = Some (Some p))
    \<and> room_at rs1 = room_at rs \<and> client_at rs1 = client_at rs \<and> (ptr \<noteq> None \<longrightarrow> rs1 = rs \<and> roomMap rs rid = Some ptr)"
  by (auto simp: getRoomPtr_def split: option.splits if_splits)

lemma reject_inv:
  assumes inv: "server_inv sm R" and h: "R h = None"
    and rs1: "getRoomPtr rid (sm_rooms (frame_enter h cl sm)) = (ptr, rs1)"
    and run: "reject_client h sap ((frame_enter h cl sm)\<lparr>sm_rooms := rs1\<rparr>) = Done (res, sm')"
  shows "res = None \<and> server_inv sm' R"
proof -
  note map = getRoomPtr_map[OF rs1]
  from run obtain ok tm addrs where tm: "killThread (ucast (fst sap)) (snm_threads sm) = Done (ok, tm)"
    and res: "res = None" and sm': "sm' = frame_exit h ((on_net (closesocket (fst sap))
      ((frame_enter h cl sm)\<lparr>sm_rooms := rs1, snm_threads := tm\<rparr>))\<lparr>sm_rooms := rs1\<lparr>addr_at := addrs\<rparr>\<rparr>)"
    by (auto simp: reject_client_def snm_killThread_def frame_enter_def Let_def)
  have "threads_ok tm" using inv tm by (auto simp: server_inv_def intro: killThread_inv)
  then have "server_inv sm' R"
    using map by (intro frame_exit_enter_inv[OF inv h, of sm' rs1]) (auto simp: sm' frame_enter_def)
  with res show ?thesis by simp
qed

lemma enter_as_guest_inv:
  assumes inv: "server_inv sm R" and h: "R h = None" and cl: "snd (rc_sap cl) \<noteq> None" "\<not> rc_isLeaving cl"
    and run: "enter_as_guest h sap rid pw (frame_enter h cl sm) = Done (res, sm')"
  shows "server_inv sm' (R(h := res))"
proof -
  let ?sm = "frame_enter h cl sm"
  obtain ptr rs1 where rs1: "getRoomPtr rid (sm_rooms ?sm) = (ptr, rs1)" by (cases "getRoomPtr rid (sm_rooms ?sm)")
  have R: "R(h := None) = R" using h by auto
  show ?thesis
  proof (cases "\<exists>sm1. sm1 = ?sm\<lparr>sm_rooms := rs1\<rparr> \<and> reject_client h sap sm1 = Done (res, sm')")
    case True
    then have "reject_client h sap (?sm\<lparr>sm_rooms := rs1\<rparr>) = Done (res, sm')" by simp
    from reject_inv[OF inv h rs1 this] R show ?thesis by simp
  next
    case False
    then obtain p where ptr: "ptr = Some p" using run rs1 by (cases ptr) (auto simp: enter_as_guest_def Let_def)
    with getRoomPtr_map[OF rs1] have same: "rs1 = sm_rooms ?sm" and m: "roomMap (sm_rooms sm) rid = Some (Some p)"
      by (auto simp: frame_enter_def)
    from inv m obtain r where r: "room_at (sm_rooms sm) p = Some r" "prHost r = Some p"
      "\<forall>c \<in> insert p (set (roomVector r)). present (sm_rooms sm) R rid c"
      unfolding server_inv_def rooms_ok_def room_alive_def by blast
    have ph: "p \<noteq> h" using r(3) present_other[of "sm_rooms sm" R rid p h] h by simp
    have "enter_as_guest h sap rid pw ?sm = (if roomPassword r = pw
       then Done (Some (in_loop h sap rid), ?sm\<lparr>sm_rooms := (sm_rooms ?sm)\<lparr>room_at :=
         (room_at (sm_rooms ?sm))(p \<mapsto> r\<lparr>roomVector := roomVector r @ [h]\<rparr>)\<rparr>\<rparr>)
       else reject_client h sap ?sm)"
      using m r(1) ph by (intro enter_as_guest_found) (simp_all add: frame_enter_def)
    moreover have "?sm\<lparr>sm_rooms := rs1\<rparr> = ?sm" by (simp add: same)
    ultimately have res: "res = Some (in_loop h sap rid)"
      and sm': "sm' = ?sm\<lparr>sm_rooms := (sm_rooms ?sm)\<lparr>room_at :=
         (room_at (sm_rooms ?sm))(p \<mapsto> r\<lparr>roomVector := roomVector r @ [h]\<rparr>)\<rparr>\<rparr>"
      using run False by (auto split: if_splits)
    have at: "room_at (sm_rooms sm') = (room_at (sm_rooms sm))(h \<mapsto> Room, p \<mapsto> r\<lparr>roomVector := roomVector r @ [h]\<rparr>)"
      "client_at (sm_rooms sm') = (client_at (sm_rooms sm))(h \<mapsto> cl)"
      "roomMap (sm_rooms sm') = roomMap (sm_rooms sm)" "snm_threads sm' = snm_threads sm"
      by (simp_all add: sm' frame_enter_def)
    have keep: "present (sm_rooms sm') (R(h := res)) rid' c" if "present (sm_rooms sm) R rid' c" for rid' c
      using that present_other[OF that h] by (simp add: present_def at)
    have new: "present (sm_rooms sm') (R(h := res)) rid h" using cl by (simp add: present_def at res)
    have "room_alive (sm_rooms sm') (R(h := res)) rid' q" if q: "roomMap (sm_rooms sm) rid' = Some (Some q)" for rid' q
    proof -
      from inv q obtain rq where rq: "room_at (sm_rooms sm) q = Some rq" "prHost rq = Some q"
        "\<forall>c \<in> insert q (set (roomVector rq)). present (sm_rooms sm) R rid' c"
        unfolding server_inv_def rooms_ok_def room_alive_def by blast
      then have qh: "q \<noteq> h" using present_other[of "sm_rooms sm" R rid' q h] h by simp
      show ?thesis
      proof (cases "q = p")
        case True
        with rq r have "present (sm_rooms sm) R rid' p" "present (sm_rooms sm) R rid p" by auto
        then have "rid' = rid" by (auto simp: present_def)
        with True r rq keep new show ?thesis by (simp add: room_alive_def at)
      next
        case False
        with rq qh keep show ?thesis by (simp add: room_alive_def at)
      qed
    qed
    moreover have "R p \<noteq> None" using r(3) by (auto simp: present_def)
    then have "frames_ok (sm_rooms sm') (R(h := res))"
      using inv cl ph r(1) by (auto simp: server_inv_def frames_ok_def at res)
    ultimately show ?thesis using inv by (simp add: server_inv_def rooms_ok_def at)
  qed
qed

lemma enters_inv:
  assumes inv: "server_inv sm R" and h: "R h = None" and addr: "snd (tData sm) \<noteq> None"
    and run: "handler_enter hasher h arrived sm = Done (res, sm')"
  shows "server_inv sm' (R(h := res))"
proof -
  obtain idRes n1 where fci: "firstClientInteraction 0 (fst (tData sm)) arrived (sm_net sm) = (idRes, n1)"
    by (cases "firstClientInteraction 0 (fst (tData sm)) arrived (sm_net sm)")
  have inv1: "server_inv (sm\<lparr>sm_net := n1\<rparr>) R" using inv by (simp add: server_inv_def)
  have cl: "snd (rc_sap (RoomClient3 (tData sm) nm b)) \<noteq> None" "\<not> rc_isLeaving (RoomClient3 (tData sm) nm b)" for nm b
    using addr by (simp_all add: RoomClient3_def)
  from run show ?thesis
    by (auto simp: handler_enter_def fci Let_def split: if_splits
        intro: enter_as_host_inv[OF inv1 h cl] enter_as_guest_inv[OF inv1 h cl])
qed

subsection \<open>Addresses\<close>

text \<open>What a message does not change: the parameter, the address objects, and which of them a client has.\<close>

definition same_saps :: "server \<Rightarrow> server \<Rightarrow> bool" where
  "same_saps sm sm' \<longleftrightarrow> tData sm' = tData sm \<and> addr_at (sm_rooms sm') = addr_at (sm_rooms sm)
     \<and> (\<forall>h cl'. client_at (sm_rooms sm') h = Some cl' \<longrightarrow> (\<exists>cl. client_at (sm_rooms sm) h = Some cl \<and> rc_sap cl' = rc_sap cl))"

lemma same_saps_refl [simp]: "same_saps sm sm"
  by (simp add: same_saps_def)

lemma same_saps_trans: "same_saps a b \<Longrightarrow> same_saps b c \<Longrightarrow> same_saps a c"
  unfolding same_saps_def by metis

lemma same_saps_on_net [simp]: "same_saps sm (on_net f sm') = same_saps sm sm'"
  by (simp add: same_saps_def on_net_def)

lemma endRoom_saps:
  assumes inv: "server_inv sm R" and run: "endRoom rid streaming sm = Done (ok, sm')"
  shows "same_saps sm sm'"
proof -
  have "\<exists>p. roomMap (sm_rooms sm) rid = Some (Some p)"
    using run endRoom_gone[of sm rid streaming] by (cases "roomMap (sm_rooms sm) rid") auto
  then obtain p r where r: "closable (sm_rooms sm) rid r p" using inv_closable[OF inv] by metis
  have "endRoom rid True sm = Done x \<Longrightarrow> endable (sm_rooms sm) rid r p" for x by (rule started_endable[OF r])
  with run endRoom_done[of sm rid r p True] closeRoom_done[OF r] obtain ms C where
    "sm' = log_sent ms (with_rooms (ended (sm_rooms sm) rid C) sm)" by (cases streaming; auto)+
  then show ?thesis by (auto simp: same_saps_def ended_def client_at_mark_leaving)
qed

lemma depart_saps:
  assumes "server_inv sm R" and "countable_rooms sm" and "depart hn self sm = Done sm'"
  shows "same_saps sm sm'"
  using assms remove_fails[OF assms(1,2), of "hd_roomID hn" "hd_self hn"] endRoom_saps[OF assms(1)]
  by (auto simp: depart_def split: if_splits)

lemma leave_saps: "handler_leave hn sm = Done (res, sm') \<Longrightarrow> same_saps sm sm'"
  by (auto simp: handler_leave_def snm_killThread_def same_saps_def frame_exit_def split: if_splits)

lemma serves_saps:
  assumes inv: "server_inv sm R" and small: "countable_rooms sm" and run: "handler_message hn arrived sm = Done (res, sm')"
  shows "same_saps sm sm'"
proof -
  obtain recvRes buf where recv: "EncryptedServerSocket_recvData (hd_buf hn) arrived = (recvRes, buf)"
    by (cases "EncryptedServerSocket_recvData (hd_buf hn) arrived")
  consider sm1 hn' where "same_saps sm sm1" "handler_leave hn' sm1 = Done (res, sm')"
    | ok where "endRoom (hd_roomID hn) True sm = Done (ok, sm')" | "sm' = sm"
    using run depart_saps[OF inv small]
    by (auto simp: handler_message_def recv Let_def simp del: on_net_def split: if_splits) (metis same_saps_on_net same_saps_refl)+
  then show ?thesis
  proof cases
    case 1
    with leave_saps same_saps_trans show ?thesis by blast
  qed (simp_all add: endRoom_saps[OF inv])
qed

text \<open>
  A client who comes in gets the address of the parameter; one who is sent away has it deleted.
\<close>

lemma enters_saps:
  assumes run: "handler_enter hasher h arrived sm = Done (res, sm')" and h: "client_at (sm_rooms sm) h = None"
  shows "tData sm' = tData sm \<and> (\<exists>cl. rc_sap cl = tData sm
    \<and> (res \<noteq> None \<and> addr_at (sm_rooms sm') = addr_at (sm_rooms sm) \<and> client_at (sm_rooms sm') = (client_at (sm_rooms sm))(h \<mapsto> cl)
      \<or> res = None \<and> (\<exists>q. addr_at (sm_rooms sm') = (addr_at (sm_rooms sm))(q := None) \<and> snd (tData sm) = Some q)
        \<and> client_at (sm_rooms sm') = client_at (sm_rooms sm)
      \<or> res = None \<and> snd (tData sm) = None))"
proof -
  have same: "(client_at (sm_rooms sm))(h := None) = client_at (sm_rooms sm)" using h by auto
  have reject: "reject_client h sap sm1 = Done (res, sm2) \<Longrightarrow> tData sm2 = tData sm1 \<and> res = None
      \<and> client_at (sm_rooms sm2) = (client_at (sm_rooms sm1))(h := None)
      \<and> (snd sap \<noteq> None \<longrightarrow> addr_at (sm_rooms sm2) = (addr_at (sm_rooms sm1))(the (snd sap) := None))" for sap sm1 sm2
    by (cases "snd sap") (auto simp: reject_client_def snm_killThread_def delete_Addr_def frame_exit_def on_net_def Let_def
        split: if_splits)
  obtain idRes n1 where fci: "firstClientInteraction 0 (fst (tData sm)) arrived (sm_net sm) = (idRes, n1)"
    by (cases "firstClientInteraction 0 (fst (tData sm)) arrived (sm_net sm)")
  obtain name rid pw where run': "(if fi_isHost idRes then enter_as_host else enter_as_guest) h (tData sm) rid pw
      (frame_enter h (RoomClient3 (tData sm) (Some name) (fi_isHost idRes)) (sm\<lparr>sm_net := n1\<rparr>)) = Done (res, sm')"
    using run by (cases "fi_isHost idRes") (auto simp: handler_enter_def fci Let_def)
  let ?cl = "RoomClient3 (tData sm) (Some name) (fi_isHost idRes)"
  let ?sm = "frame_enter h ?cl (sm\<lparr>sm_net := n1\<rparr>)"
  have cl: "rc_sap ?cl = tData sm" by (simp add: RoomClient3_def)
  have at: "tData ?sm = tData sm" "client_at (sm_rooms ?sm) = (client_at (sm_rooms sm))(h \<mapsto> ?cl)"
    "addr_at (sm_rooms ?sm) = addr_at (sm_rooms sm)" by (simp_all add: frame_enter_def)
  show ?thesis
  proof (cases "fi_isHost idRes")
    case True
    with run' cl show ?thesis by (auto simp: enter_as_host_done frame_enter_def)
  next
    case False
    obtain ptr rs1 where g: "getRoomPtr rid (sm_rooms ?sm) = (ptr, rs1)" by fastforce
    have rs1: "client_at rs1 = client_at (sm_rooms ?sm)" "addr_at rs1 = addr_at (sm_rooms ?sm)"
      using g by (auto simp: getRoomPtr_def split: option.splits)
    from run' False g have "reject_client h (tData sm) (?sm\<lparr>sm_rooms := rs1\<rparr>) = Done (res, sm')
      \<or> (\<exists>ok rs2. res \<noteq> None \<and> addClientToRoom rid (Some h) rs1 = Done (ok, rs2) \<and> sm' = ?sm\<lparr>sm_rooms := rs2\<rparr>)"
      by (auto simp: enter_as_guest_def Let_def split: if_splits)
    then show ?thesis
    proof
      assume "reject_client h (tData sm) (?sm\<lparr>sm_rooms := rs1\<rparr>) = Done (res, sm')"
      note r = reject[OF this]
      show ?thesis
      proof (cases "snd (tData sm)")
        case None
        with r at cl show ?thesis by auto
      next
        case (Some q)
        with r at rs1 cl same show ?thesis by (intro conjI exI[of _ ?cl]) auto
      qed
    next
      assume "\<exists>ok rs2. res \<noteq> None \<and> addClientToRoom rid (Some h) rs1 = Done (ok, rs2) \<and> sm' = ?sm\<lparr>sm_rooms := rs2\<rparr>"
      then obtain ok rs2 where "res \<noteq> None" "addClientToRoom rid (Some h) rs1 = Done (ok, rs2)" "sm' = ?sm\<lparr>sm_rooms := rs2\<rparr>"
        by blast
      moreover from this(2) have "client_at rs2 = client_at rs1" "addr_at rs2 = addr_at rs1"
        by (auto simp: addClientToRoom_def getRoomPtr_def Let_def split: option.splits)
      ultimately show ?thesis using at rs1 cl by auto
    qed
  qed
qed

lemma saps_addresses:
  assumes "addresses_ok sm W" and "same_saps sm sm'"
  shows "addresses_ok sm' W"
proof -
  from assms(2) have td: "tData sm' = tData sm" and ad: "addr_at (sm_rooms sm') = addr_at (sm_rooms sm)"
    and cl: "\<And>h cl'. client_at (sm_rooms sm') h = Some cl' \<Longrightarrow> \<exists>cl. client_at (sm_rooms sm) h = Some cl \<and> rc_sap cl' = rc_sap cl"
    unfolding same_saps_def by auto
  have "is_member (sm_rooms sm') h" if "client_at (sm_rooms sm') h = Some cl'" for h cl'
    using cl[OF that] assms(1) that ad unfolding addresses_ok_def is_member_def by fastforce
  moreover have "h = h'" if "client_at (sm_rooms sm') h = Some c1" "client_at (sm_rooms sm') h' = Some c2" "snd (rc_sap c1) = snd (rc_sap c2)"
    for h h' c1 c2
    using cl[OF that(1)] cl[OF that(2)] that(3) assms(1) unfolding addresses_ok_def by metis
  moreover have "snd (rc_sap cl') \<noteq> snd (tData sm')" if "h \<in> W" "client_at (sm_rooms sm') c = Some cl'" for h c cl'
    using cl[OF that(2)] that(1) assms(1) td unfolding addresses_ok_def by metis
  moreover have "W = {h} \<and> address_held sm'" if "h \<in> W" for h
    using assms(1) that td ad unfolding addresses_ok_def address_held_def by simp
  ultimately show ?thesis unfolding addresses_ok_def by blast
qed

subsection \<open>Every step\<close>

definition step_inv :: "bool \<Rightarrow> server \<times> handlers \<times> nat set \<Rightarrow> bool" where
  "step_inv prompt s = (case s of (sm, R, W) \<Rightarrow> server_inv sm R \<and> starting_ok sm R W \<and> (prompt \<longrightarrow> addresses_ok sm W))"

lemma accept_effect:
  assumes "accept_round s a q stop p thread sm = Done sm'"
  shows "client_at (sm_rooms sm') = client_at (sm_rooms sm)" "addr_at (sm_rooms sm') = (addr_at (sm_rooms sm))(q \<mapsto> a)"
    "tData sm' = (if 1 < s then (s, Some q) else tData sm)"
  using assms by (auto simp: accept_round_def acceptNewConnection_def compareSocketAddrPair_def SAP_NULL_def
      createNewEvent_def Let_def split: if_splits)

lemma accepts_keeps:
  assumes inv: "step_inv prompt (sm, R, W)" and W: "prompt \<longrightarrow> W = {}" and q: "addr_at (sm_rooms sm) q = None"
    and h: "R h = None" and run: "accept_round s a q stop p thread sm = Done sm'"
  shows "step_inv prompt (sm', R, if 1 < s \<and> (\<exists>y. thread = Some y) then insert h W else W)"
proof -
  note eff = accept_effect[OF run]
  let ?W = "if 1 < s \<and> (\<exists>y. thread = Some y) then insert h W else W"
  have "starting_ok sm' R ?W" using inv h by (auto simp: step_inv_def starting_ok_def eff(3))
  moreover have "addresses_ok sm' ?W" if prompt
  proof -
    from that W have W: "W = {}" by simp
    from inv that have ok: "addresses_ok sm W" by (simp add: step_inv_def)
    have sap: "snd (rc_sap cl) \<noteq> Some q" "is_member (sm_rooms sm') c" if "client_at (sm_rooms sm) c = Some cl" for c cl
    proof -
      have "is_member (sm_rooms sm) c" using ok that unfolding addresses_ok_def by blast
      with that q show "snd (rc_sap cl) \<noteq> Some q" "is_member (sm_rooms sm') c" by (auto simp: is_member_def eff)
    qed
    with ok W show ?thesis by (auto simp: addresses_ok_def eff address_held_def)
  qed
  ultimately show ?thesis using inv accept_inv[OF _ run] by (simp add: step_inv_def)
qed

lemma enters_keeps:
  assumes inv: "step_inv prompt (sm, R, W)" and h: "h \<in> W" and run: "handler_enter hasher h arrived sm = Done (res, sm')"
  shows "step_inv prompt (sm', R(h := res), W - {h})"
proof -
  from inv h have Rh: "R h = None" and td: "snd (tData sm) \<noteq> None" and si: "server_inv sm R"
    by (auto simp: step_inv_def starting_ok_def)
  have none: "client_at (sm_rooms sm) h = None" using si Rh by (auto simp: server_inv_def frames_ok_def)
  from enters_saps[OF run none] td obtain cl where td': "tData sm' = tData sm" and cl: "rc_sap cl = tData sm" and
    cases: "res \<noteq> None \<and> addr_at (sm_rooms sm') = addr_at (sm_rooms sm) \<and> client_at (sm_rooms sm') = (client_at (sm_rooms sm))(h \<mapsto> cl)
      \<or> res = None \<and> addr_at (sm_rooms sm') = (addr_at (sm_rooms sm))(the (snd (tData sm)) := None)
        \<and> client_at (sm_rooms sm') = client_at (sm_rooms sm)" by auto
  have "starting_ok sm' (R(h := res)) (W - {h})" using inv td' by (auto simp: step_inv_def starting_ok_def)
  moreover have "addresses_ok sm' (W - {h})" if prompt
  proof -
    from inv that have ok: "addresses_ok sm W" by (simp add: step_inv_def)
    with h have W: "W = {h}" and held: "address_held sm"
      and other: "\<And>c cl. client_at (sm_rooms sm) c = Some cl \<Longrightarrow> snd (rc_sap cl) \<noteq> snd (tData sm)"
      unfolding addresses_ok_def by blast+
    have mem: "\<And>c cl. client_at (sm_rooms sm) c = Some cl \<Longrightarrow> is_member (sm_rooms sm) c"
      and inj: "\<And>c c' k k'. client_at (sm_rooms sm) c = Some k \<Longrightarrow> client_at (sm_rooms sm) c' = Some k'
        \<Longrightarrow> snd (rc_sap k) = snd (rc_sap k') \<Longrightarrow> c = c'" using ok unfolding addresses_ok_def by blast+
    from cases show ?thesis
    proof
      assume c: "res \<noteq> None \<and> addr_at (sm_rooms sm') = addr_at (sm_rooms sm) \<and> client_at (sm_rooms sm') = (client_at (sm_rooms sm))(h \<mapsto> cl)"
      have "is_member (sm_rooms sm') d" if "client_at (sm_rooms sm') d = Some k" for d k
        using c that mem held cl by (cases "d = h") (auto simp: is_member_def address_held_def)
      moreover have "d = d'" if "client_at (sm_rooms sm') d = Some k" "client_at (sm_rooms sm') d' = Some k'"
        "snd (rc_sap k) = snd (rc_sap k')" for d d' k k'
        using c that inj other cl by (auto split: if_splits) metis+
      ultimately show ?thesis using W unfolding addresses_ok_def by blast
    next
      assume c: "res = None \<and> addr_at (sm_rooms sm') = (addr_at (sm_rooms sm))(the (snd (tData sm)) := None)
        \<and> client_at (sm_rooms sm') = client_at (sm_rooms sm)"
      have "is_member (sm_rooms sm') d" if "client_at (sm_rooms sm') d = Some k" for d k
        using c that mem[of d k] other[of d k] td by (auto simp: is_member_def)
      with c inj W show ?thesis unfolding addresses_ok_def by simp
    qed
  qed
  ultimately show ?thesis using enters_inv[OF si Rh td run] by (simp add: step_inv_def)
qed

lemma serves_keeps:
  assumes inv: "step_inv prompt (sm, R, W)" and h: "R h = Some hn" and small: "countable_rooms sm"
    and run: "handler_message hn arrived sm = Done (res, sm')"
  shows "step_inv prompt (sm', R(h := res), W)"
proof -
  from inv have si: "server_inv sm R" by (simp add: step_inv_def)
  have saps: "same_saps sm sm'" by (rule serves_saps[OF si small run])
  then have "tData sm' = tData sm" by (simp add: same_saps_def)
  with inv h have "starting_ok sm' (R(h := res)) W" by (auto simp: step_inv_def starting_ok_def)
  with inv serves_inv[OF si h small run] saps_addresses[OF _ saps] show ?thesis by (simp add: step_inv_def)
qed

lemma server_step_inv: "step_inv prompt s \<Longrightarrow> server_step hasher prompt s s' \<Longrightarrow> step_inv prompt s'"
  by (erule server_stepE) (simp_all only: accepts_keeps enters_keeps serves_keeps)

lemma server_reachable_inv: "server_reachable hasher prompt s \<Longrightarrow> step_inv prompt s"
proof (induction rule: server_reachable.induct)
  case start
  have "starting_ok ServerManager Map.empty {}" "addresses_ok ServerManager {}"
    by (simp_all add: starting_ok_def addresses_ok_def ServerManager_def RoomManager_def)
  then show ?case by (simp add: step_inv_def inv_init)
next
  case (step s s')
  then show ?case by (blast intro: server_step_inv)
qed

text \<open>With prompt threads every client has its address.\<close>

lemma prompt_addresses:
  assumes "server_inv sm R" and "addresses_ok sm W"
  shows "room_addresses (sm_rooms sm) rid"
  unfolding room_addresses_def
proof (intro allI impI ballI)
  fix p r c assume m: "roomMap (sm_rooms sm) rid = Some (Some p)" "room_at (sm_rooms sm) p = Some r" "c \<in> insert p (set (roomVector r))"
  from assms(1) m have "present (sm_rooms sm) R rid c" by (metis inv_closable option.inject)
  with assms(2) show "is_member (sm_rooms sm) c" unfolding present_def addresses_ok_def by blast
qed

section \<open>Property\<close>

text \<open>
  C13: The server follows no dangling pointer to a room or a client. In every state that accepting,
  entering and serving can reach in any order, a connection being accepted, a client entering and a
  message being handled without a break, and as long as no room has \<open>2 ^ 32 - 1\<close> guests: each room in the
  map is alive, its host and its guests are alive and serve that room; and whatever bytes a
  handler receives next, handling them does not touch freed memory if the address objects of its
  room's members have not been deleted. They have not when each new thread reads its parameter, and
  goes on to its loop or its end, before the next connection is accepted. (It can still follow a null
  pointer or throw.)
\<close>

theorem no_dangling_rooms:
  assumes "server_reachable hasher prompt (sm, R, W)" and "R h = Some hn" and "countable_rooms sm"
  shows "(prompt \<or> room_addresses (sm_rooms sm) (hd_roomID hn) \<longrightarrow> handler_message hn arrived sm \<noteq> Fault Mem_fault)
    \<and> (\<forall>rid p. roomMap (sm_rooms sm) rid = Some (Some p) \<longrightarrow>
        (\<exists>r. room_at (sm_rooms sm) p = Some r \<and> prHost r = Some p
          \<and> (\<forall>c \<in> insert p (set (roomVector r)). \<exists>hc. R c = Some hc \<and> hd_roomID hc = rid \<and> client_at (sm_rooms sm) c \<noteq> None)))"
proof -
  from server_reachable_inv[OF assms(1)] have inv: "server_inv sm R" and held: "prompt \<longrightarrow> addresses_ok sm W"
    by (simp_all add: step_inv_def)
  have alive: "\<exists>r. room_at (sm_rooms sm) p = Some r \<and> prHost r = Some p
      \<and> (\<forall>c \<in> insert p (set (roomVector r)). \<exists>hc. R c = Some hc \<and> hd_roomID hc = rid \<and> client_at (sm_rooms sm) c \<noteq> None)"
    if rid: "roomMap (sm_rooms sm) rid = Some (Some p)" for rid p
  proof -
    from inv rid have "room_alive (sm_rooms sm) R rid p" by (simp add: server_inv_def rooms_ok_def)
    then obtain r where r: "room_at (sm_rooms sm) p = Some r" "prHost r = Some p"
      "\<forall>c \<in> insert p (set (roomVector r)). present (sm_rooms sm) R rid c" unfolding room_alive_def by blast
    have "\<exists>hc. R c = Some hc \<and> hd_roomID hc = rid \<and> client_at (sm_rooms sm) c \<noteq> None"
      if "present (sm_rooms sm) R rid c" for c using that by (auto simp: present_def)
    with r show ?thesis by blast
  qed
  have "room_addresses (sm_rooms sm) (hd_roomID hn)" if prompt
    using prompt_addresses[OF inv] held that by simp
  then show ?thesis by (intro conjI allI impI serves_alive[OF inv assms(2,3)] alive) auto
qed

text \<open>One connection accepted, and its host in the loop.\<close>

definition host_entered :: "handler option \<times> server" where
  "host_entered = (case handler_enter length_hash 1 (Some (encode_fsi (filled_fsi (bob\<lparr>cl_isHost := True\<rparr>)))) one_accept of
     Done r \<Rightarrow> r | _ \<Rightarrow> (None, ServerManager))"

lemma host_entered:
  "handler_enter length_hash 1 (Some (encode_fsi (filled_fsi (bob\<lparr>cl_isHost := True\<rparr>)))) one_accept = Done host_entered"
  by (simp add: host_entered_def handler_enter_eq[OF short_bob(3)] enter_as_host_done)

lemma one_accept_rooms [simp]:
  "sm_rooms one_accept = RoomManager\<lparr>addr_at := [20 \<mapsto> zero_sockaddr]\<rparr>" "tData one_accept = (7, Some 20)"
  by (simp_all add: one_accept_def accept_defs RoomManager_def word_le_nat_alt del: bind_outcome_Done)

lemma host_entered_serves: "fst host_entered = Some (in_loop 1 (7, Some 20) (length_hash (cl_roomName bob)))"
  by (simp add: host_entered_def handler_enter_eq[OF short_bob(3)] enter_as_host_done)

lemma host_entered_rooms:
  "room_at (sm_rooms (snd host_entered)) = [1 \<mapsto> Room\<lparr>prHost := Some 1,
     roomID := length_hash (cl_roomName bob), roomPassword := length_hash (cl_roomPassword bob)\<rparr>]"
  by (simp add: host_entered_def handler_enter_eq[OF short_bob(3)] enter_as_host_done RoomManager_def)

lemma host_entered_reachable: "server_reachable length_hash True (snd host_entered, [1 \<mapsto> the (fst host_entered)], {})"
proof -
  have "server_step length_hash True (ServerManager, Map.empty, {})
      (one_accept, Map.empty, if 1 < (7 :: SOCKET) \<and> Some (50 :: nat) \<noteq> None then insert 1 {} else {})"
    by (rule accepts[OF _ _ _ _ one_accept]) (simp_all add: ServerManager_def RoomManager_def)
  then have "server_reachable length_hash True (one_accept, Map.empty, {1})"
    using server_reachable.step[OF server_reachable.start] by (simp add: word_less_nat_alt)
  moreover have "server_step length_hash True (one_accept, Map.empty, {1}) (snd host_entered, Map.empty(1 := fst host_entered), {1} - {1})"
    using host_entered by (intro enters[where arrived = "Some (encode_fsi (filled_fsi (bob\<lparr>cl_isHost := True\<rparr>)))"]) simp_all
  ultimately show ?thesis using server_reachable.step host_entered_serves by fastforce
qed

theorem no_dangling_rooms_witness:
  "\<exists>sm hn. host_entered = (Some hn, sm) \<and> handler_message hn (Some []) sm \<noteq> Fault Mem_fault
    \<and> (\<forall>rid p. roomMap (sm_rooms sm) rid = Some (Some p) \<longrightarrow>
        (\<exists>r. room_at (sm_rooms sm) p = Some r \<and> prHost r = Some p
          \<and> (\<forall>c \<in> insert p (set (roomVector r)). \<exists>hc. [1 \<mapsto> hn] c = Some hc \<and> hd_roomID hc = rid
               \<and> client_at (sm_rooms sm) c \<noteq> None)))"
proof -
  have "countable_rooms (snd host_entered)" by (auto simp: countable_rooms_def host_entered_rooms Room_def)
  note safe = no_dangling_rooms[OF host_entered_reachable _ this, of 1 "the (fst host_entered)" "Some []"]
  have "host_entered = (Some (the (fst host_entered)), snd host_entered)"
    by (simp add: host_entered_serves prod_eq_iff)
  moreover have "[1 \<mapsto> the (fst host_entered)] 1 = Some (the (fst host_entered))" by simp
  note safe[OF this]
  ultimately show ?thesis by blast
qed

end
