(* ===== verification/Mediator.thy ===== *)
theory Mediator
  imports DataStructures Concurrency
begin

text \<open>
  \<^verbatim>\<open>IActionMediator.h\<close> and \<^verbatim>\<open>IServerActionMediator.h\<close>: a \<open>Mediator\<close> owns a queue of actions
  and a critical section; its listeners hold pointers to both and request actions through them.
  The state holds every object by its address. The program flags of \<open>IClientComponent\<close> and
  \<open>IHostComponent\<close> are at the end.
\<close>

section \<open>State\<close>

text \<open>
  A pointer member: the constructor of \<open>IActionListener\<close> does not set its pointers, so they are
  indeterminate at first; following one is as bad as following a freed one.
\<close>

datatype pointer = Uninit | Null | To nat

record action =
  typeID :: DWORD
  actionID :: DWORD
  pCv :: "nat option"
  returnBuffer :: "nat option"
  pData :: "nat option"

definition Action :: action where
  "Action = \<lparr>typeID = -1, actionID = -1, pCv = None, returnBuffer = None, pData = None\<rparr>"

definition Action3 :: "DWORD \<Rightarrow> DWORD \<Rightarrow> nat option \<Rightarrow> action" where
  "Action3 tid aid data = Action\<lparr>typeID := tid, actionID := aid, pData := data\<rparr>"

definition Action5 :: "DWORD \<Rightarrow> DWORD \<Rightarrow> nat option \<Rightarrow> nat option \<Rightarrow> nat option \<Rightarrow> action" where
  "Action5 tid aid data cv buffer =
     (Action3 tid aid data)\<lparr>pCv := cv, returnBuffer := buffer\<rparr>"

record listener =
  l_section :: pointer
  l_queue :: pointer

definition IActionListener :: listener where
  "IActionListener = \<lparr>l_section = Uninit, l_queue = Uninit\<rparr>"

record mediator =
  pListenersVector :: "nat list"
  m_queue :: nat
  m_section :: nat
  run :: bool

record world =
  mediator_obj :: mediator
  listeners :: "nat \<Rightarrow> listener option"
  queues :: "nat \<Rightarrow> action tsqueue option"
  sections :: "nat \<Rightarrow> critical_section option"

text \<open>The constructor, with the addresses its three \<open>new\<close> return.\<close>

definition Mediator :: "nat \<Rightarrow> nat \<Rightarrow> world" where
  "Mediator q cs = \<lparr>mediator_obj = \<lparr>pListenersVector = [], m_queue = q, m_section = cs, run = True\<rparr>,
     listeners = Map.empty, queues = [q \<mapsto> ThreadSafeQueue], sections = [cs \<mapsto> CriticalSection]\<rparr>"

definition new_listener :: "nat \<Rightarrow> world \<Rightarrow> world" where
  "new_listener l w = w\<lparr>listeners := (listeners w)(l \<mapsto> IActionListener)\<rparr>"

section \<open>Operations\<close>

definition deref :: "pointer \<Rightarrow> (nat \<Rightarrow> 'o option) \<Rightarrow> 'o outcome" where
  "deref p objs = (case p of
       Uninit \<Rightarrow> Fault Mem_fault
     | Null \<Rightarrow> Fault Null_deref
     | To a \<Rightarrow> (case objs a of None \<Rightarrow> Fault Mem_fault | Some x \<Rightarrow> Done x))"

definition address :: "pointer \<Rightarrow> nat" where
  "address p = (case p of To a \<Rightarrow> a | _ \<Rightarrow> 0)"

definition setCriticalSection :: "nat \<Rightarrow> pointer \<Rightarrow> world \<Rightarrow> world outcome" where
  "setCriticalSection l p w = (case listeners w l of
       None \<Rightarrow> Fault Mem_fault
     | Some obj \<Rightarrow> Done (w\<lparr>listeners := (listeners w)(l \<mapsto> obj\<lparr>l_section := p\<rparr>)\<rparr>))"

definition setPtsQueue :: "nat \<Rightarrow> pointer \<Rightarrow> world \<Rightarrow> world outcome" where
  "setPtsQueue l p w = (case listeners w l of
       None \<Rightarrow> Fault Mem_fault
     | Some obj \<Rightarrow> Done (w\<lparr>listeners := (listeners w)(l \<mapsto> obj\<lparr>l_queue := p\<rparr>)\<rparr>))"

text \<open>\<open>acquireQueue\<close> and \<open>releaseQueue\<close>, by thread \<open>t\<close> on the listener \<open>obj\<close>.\<close>

definition acquireQueue :: "nat \<Rightarrow> listener \<Rightarrow> world \<Rightarrow> world outcome" where
  "acquireQueue t obj w = bind_outcome (deref (l_section obj) (sections w)) (\<lambda>cs.
     bind_outcome (enter t cs) (\<lambda>cs'. Done (w\<lparr>sections := (sections w)(address (l_section obj) \<mapsto> cs')\<rparr>)))"

definition releaseQueue :: "nat \<Rightarrow> listener \<Rightarrow> world \<Rightarrow> world outcome" where
  "releaseQueue t obj w = bind_outcome (deref (l_section obj) (sections w)) (\<lambda>cs.
     bind_outcome (release t cs) (\<lambda>cs'. Done (w\<lparr>sections := (sections w)(address (l_section obj) \<mapsto> cs')\<rparr>)))"

definition push_action :: "listener \<Rightarrow> action \<Rightarrow> world \<Rightarrow> world outcome" where
  "push_action obj a w = bind_outcome (deref (l_queue obj) (queues w)) (\<lambda>q.
     Done (w\<lparr>queues := (queues w)(address (l_queue obj) \<mapsto> snd (tsq_Push a q))\<rparr>))"

definition requestAction :: "nat \<Rightarrow> nat \<Rightarrow> action \<Rightarrow> world \<Rightarrow> world outcome" where
  "requestAction t l a w = (case listeners w l of
       None \<Rightarrow> Fault Mem_fault
     | Some obj \<Rightarrow> bind_outcome (acquireQueue t obj w) (\<lambda>w1.
         bind_outcome (push_action obj a w1) (releaseQueue t obj)))"

definition addListener :: "nat \<Rightarrow> world \<Rightarrow> world outcome" where
  "addListener l w =
     (let m = mediator_obj w;
          w1 = w\<lparr>mediator_obj := m\<lparr>pListenersVector := pListenersVector m @ [l]\<rparr>\<rparr>
      in bind_outcome (setPtsQueue l (To (m_queue m)) w1) (setCriticalSection l (To (m_section m))))"

text \<open>\<open>remove1\<close> is \<^verbatim>\<open>std::find\<close> followed by \<open>erase\<close>.\<close>

definition removeListener :: "nat \<Rightarrow> world \<Rightarrow> world outcome" where
  "removeListener l w =
     bind_outcome (bind_outcome (setPtsQueue l Null w) (setCriticalSection l Null)) (\<lambda>w1.
       let m = mediator_obj w1
       in Done (w1\<lparr>mediator_obj := m\<lparr>pListenersVector := remove1 l (pListenersVector m)\<rparr>\<rparr>))"

definition forget_mediator :: "nat \<Rightarrow> world \<Rightarrow> world outcome" where
  "forget_mediator l w = bind_outcome (setCriticalSection l Null w) (setPtsQueue l Null)"

definition Mediator_destructor :: "world \<Rightarrow> world outcome" where
  "Mediator_destructor w =
     (let m = mediator_obj w
      in bind_outcome (foreach forget_mediator (pListenersVector m) (w\<lparr>mediator_obj := m\<lparr>run := False\<rparr>\<rparr>))
           (\<lambda>w1. Done (w1\<lparr>queues := (queues w1)(m_queue m := None),
              sections := (sections w1)(m_section m := None)\<rparr>)))"

section \<open>Sequences of calls\<close>

datatype med_call = New_listener nat | Add_listener nat | Remove_listener nat | Request nat nat action

fun perform :: "med_call \<Rightarrow> world \<Rightarrow> world outcome" where
  "perform (New_listener l) w = (if listeners w l = None then Done (new_listener l w) else Fault Mem_fault)"
| "perform (Add_listener l) w = addListener l w"
| "perform (Remove_listener l) w = removeListener l w"
| "perform (Request t l a) w = requestAction t l a w"

section \<open>Invariant\<close>

text \<open>
  Every listener that points into the mediator is in its vector, and every listener in the vector
  exists; the mediator's own objects exist and its section is free between the calls.
\<close>

definition points_in :: "world \<Rightarrow> listener \<Rightarrow> bool" where
  "points_in w obj \<longleftrightarrow> l_section obj = To (m_section (mediator_obj w)) \<and> l_queue obj = To (m_queue (mediator_obj w))"

definition detached :: "listener \<Rightarrow> bool" where
  "detached obj \<longleftrightarrow> l_section obj = Null \<and> l_queue obj = Null"

definition listener_ok :: "world \<Rightarrow> nat \<Rightarrow> listener \<Rightarrow> bool" where
  "listener_ok w l obj \<longleftrightarrow> obj = IActionListener \<and> l \<notin> set (pListenersVector (mediator_obj w))
     \<or> detached obj \<or> points_in w obj \<and> l \<in> set (pListenersVector (mediator_obj w))"

definition med_inv :: "world \<Rightarrow> bool" where
  "med_inv w \<longleftrightarrow>
     (\<forall>l obj. listeners w l = Some obj \<longrightarrow> listener_ok w l obj)
     \<and> set (pListenersVector (mediator_obj w)) \<subseteq> dom (listeners w)
     \<and> (\<exists>q. queues w (m_queue (mediator_obj w)) = Some q)
     \<and> sections w (m_section (mediator_obj w)) = Some CriticalSection"

lemma med_inv_init: "med_inv (Mediator q cs)"
  by (simp add: med_inv_def Mediator_def)

lemma addListener_eq:
  "listeners w l = Some obj \<Longrightarrow> addListener l w = Done (w\<lparr>
     mediator_obj := (mediator_obj w)\<lparr>pListenersVector := pListenersVector (mediator_obj w) @ [l]\<rparr>,
     listeners := (listeners w)(l \<mapsto> \<lparr>l_section = To (m_section (mediator_obj w)),
       l_queue = To (m_queue (mediator_obj w)), \<dots> = listener.more obj\<rparr>)\<rparr>)"
  by (cases obj) (simp add: addListener_def setPtsQueue_def setCriticalSection_def Let_def)

lemma removeListener_eq:
  "listeners w l = Some obj \<Longrightarrow> removeListener l w = Done (w\<lparr>
     mediator_obj := (mediator_obj w)\<lparr>pListenersVector := remove1 l (pListenersVector (mediator_obj w))\<rparr>,
     listeners := (listeners w)(l \<mapsto> \<lparr>l_section = Null, l_queue = Null, \<dots> = listener.more obj\<rparr>)\<rparr>)"
  by (cases obj) (simp add: removeListener_def setPtsQueue_def setCriticalSection_def Let_def)

lemma enter_release_free: "\<exists>cs. enter t CriticalSection = Done cs \<and> release t cs = Done CriticalSection"
proof -
  have "wf_section CriticalSection" "section_available t CriticalSection"
    by (simp_all add: wf_section_def section_available_def CriticalSection_def)
  then show ?thesis
    using section_lock.enter_available section_lock.release_enter by blast
qed

lemma requestAction_eq:
  assumes "listeners w l = Some obj" and "points_in w obj"
    and "queues w (m_queue (mediator_obj w)) = Some q"
    and "sections w (m_section (mediator_obj w)) = Some CriticalSection"
  shows "requestAction t l a w = Done (w\<lparr>queues := (queues w)(m_queue (mediator_obj w) \<mapsto> snd (tsq_Push a q))\<rparr>)"
proof -
  from assms(2) have ptrs: "l_section obj = To (m_section (mediator_obj w))"
    "l_queue obj = To (m_queue (mediator_obj w))" by (simp_all add: points_in_def)
  obtain cs where "enter t CriticalSection = Done cs" "release t cs = Done CriticalSection"
    using enter_release_free by blast
  with assms ptrs show ?thesis
    by (simp add: requestAction_def acquireQueue_def push_action_def releaseQueue_def deref_def address_def
        map_upd_triv del: bind_outcome_Done)
qed

lemma requestAction_detached:
  "listeners w l = Some obj \<Longrightarrow> detached obj \<Longrightarrow> requestAction t l a w = Fault Null_deref"
  by (simp add: requestAction_def acquireQueue_def deref_def detached_def)

lemma requestAction_new:
  "listeners w l = Some IActionListener \<Longrightarrow> requestAction t l a w = Fault Mem_fault"
  by (simp add: requestAction_def acquireQueue_def deref_def IActionListener_def)

lemma listener_ok_cong:
  assumes "listener_ok w l obj" and "m_section (mediator_obj w') = m_section (mediator_obj w)"
    and "m_queue (mediator_obj w') = m_queue (mediator_obj w)"
    and "l \<in> set (pListenersVector (mediator_obj w')) \<longleftrightarrow> l \<in> set (pListenersVector (mediator_obj w))"
  shows "listener_ok w' l obj"
  using assms by (simp add: listener_ok_def points_in_def)

lemma addListener_inv:
  assumes inv: "med_inv w" and obj: "listeners w l = Some obj" and ok: "addListener l w = Done w'"
  shows "med_inv w'"
proof -
  from ok have w': "w' = w\<lparr>
     mediator_obj := (mediator_obj w)\<lparr>pListenersVector := pListenersVector (mediator_obj w) @ [l]\<rparr>,
     listeners := (listeners w)(l \<mapsto> \<lparr>l_section = To (m_section (mediator_obj w)),
       l_queue = To (m_queue (mediator_obj w)), \<dots> = listener.more obj\<rparr>)\<rparr>"
    by (simp add: addListener_eq[OF obj])
  have "listener_ok w' k x" if "listeners w' k = Some x" for k x
  proof (cases "k = l")
    case True
    with that show ?thesis by (auto simp: w' listener_ok_def points_in_def)
  next
    case False
    with that inv have "listener_ok w k x" by (simp add: w' med_inv_def)
    with False show ?thesis by (rule_tac listener_ok_cong) (simp_all add: w')
  qed
  with inv obj show ?thesis by (auto simp: med_inv_def w')
qed

lemma removeListener_inv:
  assumes inv: "med_inv w" and obj: "listeners w l = Some obj" and ok: "removeListener l w = Done w'"
  shows "med_inv w'"
proof -
  from ok have w': "w' = w\<lparr>
     mediator_obj := (mediator_obj w)\<lparr>pListenersVector := remove1 l (pListenersVector (mediator_obj w))\<rparr>,
     listeners := (listeners w)(l \<mapsto> \<lparr>l_section = Null, l_queue = Null, \<dots> = listener.more obj\<rparr>)\<rparr>"
    by (simp add: removeListener_eq[OF obj])
  have "listener_ok w' k x" if "listeners w' k = Some x" for k x
  proof (cases "k = l")
    case True
    with that show ?thesis by (auto simp: w' listener_ok_def detached_def)
  next
    case False
    with that inv have "listener_ok w k x" by (simp add: w' med_inv_def)
    with False show ?thesis by (rule_tac listener_ok_cong) (simp_all add: w')
  qed
  moreover have "set (pListenersVector (mediator_obj w')) \<subseteq> dom (listeners w')"
    using inv set_remove1_subset[of l "pListenersVector (mediator_obj w)"] by (auto simp: med_inv_def w')
  ultimately show ?thesis using inv by (simp add: med_inv_def w')
qed

lemma perform_inv:
  assumes inv: "med_inv w" and ok: "perform c w = Done w'"
  shows "med_inv w'"
proof (cases c)
  case (New_listener l)
  with ok have "listeners w l = None" and w': "w' = new_listener l w" by (auto split: if_splits)
  with inv have "l \<notin> set (pListenersVector (mediator_obj w))" by (auto simp: med_inv_def)
  with inv show ?thesis unfolding w' by (auto simp: med_inv_def listener_ok_def new_listener_def points_in_def)
next
  case (Add_listener l)
  with ok obtain obj where "listeners w l = Some obj"
    by (cases "listeners w l") (auto simp: addListener_def setPtsQueue_def Let_def)
  with ok Add_listener inv show ?thesis by (simp add: addListener_inv)
next
  case (Remove_listener l)
  with ok obtain obj where "listeners w l = Some obj"
    by (cases "listeners w l") (auto simp: removeListener_def setPtsQueue_def)
  with ok Remove_listener inv show ?thesis by (simp add: removeListener_inv)
next
  case (Request t l a)
  with ok obtain obj where obj: "listeners w l = Some obj"
    by (cases "listeners w l") (auto simp: requestAction_def)
  from inv obj consider "obj = IActionListener" | "detached obj" | "points_in w obj"
    unfolding med_inv_def listener_ok_def by blast
  then show ?thesis
  proof cases
    case 1
    with obj ok Request show ?thesis by (simp add: requestAction_new)
  next
    case 2
    with obj ok Request show ?thesis by (simp add: requestAction_detached)
  next
    case 3
    from inv obtain q where q: "queues w (m_queue (mediator_obj w)) = Some q"
      "sections w (m_section (mediator_obj w)) = Some CriticalSection" by (auto simp: med_inv_def)
    from ok Request have w': "w' = w\<lparr>queues := (queues w)(m_queue (mediator_obj w) \<mapsto> snd (tsq_Push a q))\<rparr>"
      by (simp add: requestAction_eq[OF obj 3 q])
    from inv show ?thesis by (simp add: med_inv_def listener_ok_def points_in_def w')
  qed
qed

lemma med_calls_inv: "med_inv w \<Longrightarrow> foreach perform cs w = Done w' \<Longrightarrow> med_inv w'"
  by (induction cs arbitrary: w) (auto dest: perform_inv)


lemma reached_inv: "foreach perform cs (Mediator q s) = Done w \<Longrightarrow> med_inv w"
  using med_inv_init by (rule med_calls_inv)

section \<open>Requests\<close>

lemma push_requests:
  assumes "med_inv w" and "\<forall>(t, l, a) \<in> set rs. \<exists>obj. listeners w l = Some obj \<and> points_in w obj"
    and "queues w (m_queue (mediator_obj w)) = Some q"
  shows "\<exists>q'. foreach (\<lambda>(t, l, a). requestAction t l a) rs w
      = Done (w\<lparr>queues := (queues w)(m_queue (mediator_obj w) \<mapsto> q')\<rparr>)
    \<and> queue q' = queue q @ map (snd \<circ> snd) rs"
  using assms
proof (induction rs arbitrary: w q)
  case Nil
  then show ?case by (intro exI[of _ q]) (simp add: map_upd_triv)
next
  case (Cons r rs)
  obtain t l a where r: "r = (t, l, a)" by (cases r) auto
  from Cons.prems(2) r obtain obj where obj: "listeners w l = Some obj" "points_in w obj" by auto
  let ?w = "w\<lparr>queues := (queues w)(m_queue (mediator_obj w) \<mapsto> snd (tsq_Push a q))\<rparr>"
  have req: "requestAction t l a w = Done ?w"
    using obj Cons.prems(1,3) by (simp add: requestAction_eq med_inv_def)
  then have "perform (Request t l a) w = Done ?w" by simp
  with Cons.prems(1) have inv: "med_inv ?w" by (rule perform_inv)
  have "\<forall>(t, l, a) \<in> set rs. \<exists>obj. listeners ?w l = Some obj \<and> points_in ?w obj"
    using Cons.prems(2) by (simp add: points_in_def)
  moreover have "queues ?w (m_queue (mediator_obj ?w)) = Some (snd (tsq_Push a q))" by simp
  ultimately obtain q' where q': "foreach (\<lambda>(t, l, a). requestAction t l a) rs ?w
      = Done (?w\<lparr>queues := (queues ?w)(m_queue (mediator_obj ?w) \<mapsto> q')\<rparr>)"
    "queue q' = queue (snd (tsq_Push a q)) @ map (snd \<circ> snd) rs"
    using Cons.IH[OF inv] by blast
  have "?w\<lparr>queues := (queues ?w)(m_queue (mediator_obj ?w) \<mapsto> q')\<rparr>
      = w\<lparr>queues := (queues w)(m_queue (mediator_obj w) \<mapsto> q')\<rparr>" by simp
  then have "foreach (\<lambda>(t, l, a). requestAction t l a) (r # rs) w
      = Done (w\<lparr>queues := (queues w)(m_queue (mediator_obj w) \<mapsto> q')\<rparr>)"
    by (simp only: foreach.simps r prod.case req bind_outcome.simps q'(1))
  moreover have "queue q' = queue q @ map (snd \<circ> snd) (r # rs)"
    using q'(2) r by (simp add: tsq.items_push)
  ultimately show ?case by blast
qed

lemma forget_mediator_eq:
  "listeners w l = Some obj \<Longrightarrow> forget_mediator l w
    = Done (w\<lparr>listeners := (listeners w)(l \<mapsto> \<lparr>l_section = Null, l_queue = Null, \<dots> = listener.more obj\<rparr>)\<rparr>)"
  by (cases obj) (simp add: forget_mediator_def setPtsQueue_def setCriticalSection_def)

lemma forget_all:
  assumes "set ls \<subseteq> dom (listeners w)"
  shows "\<exists>w'. foreach forget_mediator ls w = Done w'
    \<and> (\<forall>l. l \<notin> set ls \<longrightarrow> listeners w' l = listeners w l)
    \<and> (\<forall>l \<in> set ls. \<exists>obj. listeners w' l = Some obj \<and> detached obj)"
  using assms
proof (induction ls arbitrary: w)
  case Nil
  then show ?case by simp
next
  case (Cons l ls)
  then obtain obj where obj: "listeners w l = Some obj" by auto
  let ?w = "w\<lparr>listeners := (listeners w)(l \<mapsto> \<lparr>l_section = Null, l_queue = Null, \<dots> = listener.more obj\<rparr>)\<rparr>"
  have "set ls \<subseteq> dom (listeners ?w)" using Cons.prems by auto
  from Cons.IH[OF this] obtain w' where w': "foreach forget_mediator ls ?w = Done w'"
    "\<forall>x. x \<notin> set ls \<longrightarrow> listeners w' x = listeners ?w x"
    "\<forall>x \<in> set ls. \<exists>obj. listeners w' x = Some obj \<and> detached obj" by (elim exE conjE)
  have "\<exists>obj. listeners w' l = Some obj \<and> detached obj"
    using w'(2,3) by (cases "l \<in> set ls") (auto simp: detached_def)
  with w' obj show ?case by (intro exI[of _ w']) (auto simp: forget_mediator_eq simp del: bind_outcome_Done)
qed

section \<open>Properties\<close>

text \<open>
  Requests are queued in order. In every state that calls of the mediator can reach, requests by
  registered listeners go through, whichever threads make them; they append their actions to the
  mediator's queue in the order they are made and leave the critical section free.
\<close>

lemma requests_queued_in_order:
  assumes "foreach perform cs (Mediator qa sa) = Done w"
    and "\<forall>(t, l, a) \<in> set rs. \<exists>obj. listeners w l = Some obj \<and> points_in w obj"
  shows "\<exists>w' q q'. foreach (\<lambda>(t, l, a). requestAction t l a) rs w = Done w'
    \<and> queues w (m_queue (mediator_obj w)) = Some q \<and> queues w' (m_queue (mediator_obj w)) = Some q'
    \<and> queue q' = queue q @ map (snd \<circ> snd) rs
    \<and> sections w' (m_section (mediator_obj w)) = Some CriticalSection"
proof -
  from assms(1) have inv: "med_inv w" by (rule reached_inv)
  then obtain q where q: "queues w (m_queue (mediator_obj w)) = Some q"
    "sections w (m_section (mediator_obj w)) = Some CriticalSection" by (auto simp: med_inv_def)
  from push_requests[OF inv assms(2) q(1)] q show ?thesis by auto
qed

definition two_listeners :: "med_call list" where
  "two_listeners = [New_listener 1, New_listener 2, Add_listener 1, Add_listener 2]"

definition two_listeners_world :: world where
  "two_listeners_world = (case foreach perform two_listeners (Mediator 10 11) of Done w \<Rightarrow> w | _ \<Rightarrow> Mediator 10 11)"

lemma two_listeners_world: "foreach perform two_listeners (Mediator 10 11) = Done two_listeners_world"
  by (simp add: two_listeners_world_def two_listeners_def Mediator_def new_listener_def addListener_def
      setPtsQueue_def setCriticalSection_def del: bind_outcome_Done)

lemma two_listeners_ready: "l \<in> {1, 2} \<Longrightarrow> \<exists>obj. listeners two_listeners_world l = Some obj \<and> points_in two_listeners_world obj"
  by (auto simp: two_listeners_world_def two_listeners_def Mediator_def new_listener_def addListener_def
      setPtsQueue_def setCriticalSection_def points_in_def simp del: bind_outcome_Done)

text \<open>
  C32: The mediator leaves no dangling pointers. After any calls of a mediator, its destructor runs
  through and frees the queue and the section; every listener object then has both of its pointers
  null, or is one that was never registered and has the pointers it was made with. So a request by
  any listener that was ever registered follows a null pointer and none reaches what is freed.
\<close>

theorem mediator_leaves_no_dangling:
  assumes "foreach perform cs (Mediator qa sa) = Done w"
  shows "\<exists>w'. Mediator_destructor w = Done w'
    \<and> queues w' (m_queue (mediator_obj w)) = None \<and> sections w' (m_section (mediator_obj w)) = None
    \<and> dom (listeners w') = dom (listeners w)
    \<and> (\<forall>l obj obj'. listeners w l = Some obj \<longrightarrow> listeners w' l = Some obj' \<longrightarrow>
          (if obj = IActionListener then obj' = IActionListener else l_section obj' = Null \<and> l_queue obj' = Null))
    \<and> (\<forall>l obj t a. listeners w l = Some obj \<longrightarrow> obj \<noteq> IActionListener \<longrightarrow> requestAction t l a w' = Fault Null_deref)"
proof -
  from assms have inv: "med_inv w" by (rule reached_inv)
  let ?ls = "pListenersVector (mediator_obj w)"
  let ?w = "w\<lparr>mediator_obj := (mediator_obj w)\<lparr>run := False\<rparr>\<rparr>"
  from inv have ls: "set ?ls \<subseteq> dom (listeners ?w)" by (simp add: med_inv_def)
  from forget_all[OF this] obtain w1 where w1: "foreach forget_mediator ?ls ?w = Done w1"
    "\<forall>l. l \<notin> set ?ls \<longrightarrow> listeners w1 l = listeners w l"
    "\<forall>l \<in> set ?ls. \<exists>obj. listeners w1 l = Some obj \<and> detached obj" by auto
  let ?w' = "w1\<lparr>queues := (queues w1)(m_queue (mediator_obj w) := None),
    sections := (sections w1)(m_section (mediator_obj w) := None)\<rparr>"
  have ran: "Mediator_destructor w = Done ?w'" using w1(1) by (simp add: Mediator_destructor_def Let_def)
  have gone: "\<exists>obj'. listeners ?w' l = Some obj' \<and> detached obj'" if "listeners w l = Some obj" "obj \<noteq> IActionListener" for l obj
  proof -
    from inv that have "detached obj \<or> l \<in> set ?ls" unfolding med_inv_def listener_ok_def by blast
    with w1(2,3) that(1) show ?thesis by (cases "l \<in> set ?ls") auto
  qed
  have new: "listeners ?w' l = Some IActionListener" if "listeners w l = Some IActionListener" for l
  proof -
    from inv that have "listener_ok w l IActionListener" by (simp add: med_inv_def)
    then have "l \<notin> set ?ls" by (simp add: listener_ok_def detached_def points_in_def IActionListener_def)
    with w1(2) that show ?thesis by simp
  qed
  have dom: "dom (listeners ?w') = dom (listeners w)"
  proof (rule set_eqI)
    fix l show "l \<in> dom (listeners ?w') \<longleftrightarrow> l \<in> dom (listeners w)"
    proof (cases "l \<in> set ?ls")
      case True
      with ls w1(3) show ?thesis by auto
    next
      case False
      with w1(2) show ?thesis by (simp add: domIff)
    qed
  qed
  have ptrs: "if obj = IActionListener then obj' = IActionListener else l_section obj' = Null \<and> l_queue obj' = Null"
    if "listeners w l = Some obj" "listeners ?w' l = Some obj'" for l obj obj'
    using gone[OF that(1)] new[of l] that by (auto simp: detached_def)
  have req: "requestAction t l a ?w' = Fault Null_deref" if "listeners w l = Some obj" "obj \<noteq> IActionListener" for l obj t a
    using gone[OF that] by (auto intro: requestAction_detached)
  have "queues ?w' (m_queue (mediator_obj w)) = None" "sections ?w' (m_section (mediator_obj w)) = None" by simp_all
  then show ?thesis by (intro exI[of _ ?w'] conjI allI impI ran dom) (blast intro!: ptrs req | simp)+
qed

theorem mediator_leaves_no_dangling_witness:
  "\<exists>w' obj'. Mediator_destructor two_listeners_world = Done w'
    \<and> queues w' (m_queue (mediator_obj two_listeners_world)) = None
    \<and> listeners w' 1 = Some obj' \<and> l_section obj' = Null \<and> l_queue obj' = Null
    \<and> requestAction 0 1 Action w' = Fault Null_deref"
proof -
  from mediator_leaves_no_dangling[OF two_listeners_world] obtain w' where w': "Mediator_destructor two_listeners_world = Done w'"
    "queues w' (m_queue (mediator_obj two_listeners_world)) = None"
    "dom (listeners w') = dom (listeners two_listeners_world)"
    "\<And>l obj obj'. listeners two_listeners_world l = Some obj \<Longrightarrow> listeners w' l = Some obj' \<Longrightarrow>
      (if obj = IActionListener then obj' = IActionListener else l_section obj' = Null \<and> l_queue obj' = Null)"
    "\<And>l obj t a. listeners two_listeners_world l = Some obj \<Longrightarrow> obj \<noteq> IActionListener \<Longrightarrow> requestAction t l a w' = Fault Null_deref"
    by blast
  obtain obj where obj: "listeners two_listeners_world 1 = Some obj" "points_in two_listeners_world obj"
    using two_listeners_ready[of 1] by auto
  then have registered: "obj \<noteq> IActionListener" by (auto simp: points_in_def IActionListener_def)
  from obj(1) w'(3) obtain obj' where "listeners w' 1 = Some obj'" by (metis domD domI)
  with w'(1,2) w'(4)[OF obj(1) this] w'(5)[OF obj(1) registered] registered show ?thesis by (intro exI[of _ w'] exI[of _ obj']) simp
qed

section \<open>The program flags\<close>

text \<open>
  \<open>globalOn\<close> of \<open>IClientComponent\<close> and of \<open>IHostComponent\<close>, one flag for all components of the
  process, on at the start.
\<close>

definition globalOn :: bool where "globalOn = True"

definition isProgramOn :: "bool \<Rightarrow> bool" where "isProgramOn on = on"

definition killProgram :: "bool \<Rightarrow> bool" where "killProgram on = False"

end
