(* ===== verification/QueueThreads.thy ===== *)
theory QueueThreads
  imports DataStructures
begin

text \<open>
  \<open>ThreadSafeQueue\<close> used by any number of threads at once, as the program does with its packet
  and frame queues. A step is one thread running one atomic part of an operation of
  \<^verbatim>\<open>datastructures.h\<close>: the container access of \<open>Push\<close> in its critical section, its
  \<open>ReleaseSemaphore\<close>, the wait of \<open>Pop\<close>, its container access, or \<open>Clear\<close>. Any
  thread may take the next step. The invariant counts the threads that are between the two
  parts of an operation; the theorems are about every reachable state.
\<close>

section \<open>Threads and steps\<close>

text \<open>
  \<open>Pushing\<close>: the thread has pushed its item and not yet released the semaphore.
  \<open>Popping\<close>: it has got a permit and not yet taken an item. \<open>Crashed\<close>: the exception
  ``empty queue'' left \<open>Pop\<close>. The two logs are ghosts: what was pushed and what was popped.
\<close>

datatype qpc = Ready | Pushing | Popping | Crashed

record 'a threads =
  shared :: "'a tsqueue"
  pc :: "nat \<Rightarrow> qpc"
  pushed_log :: "'a list"
  popped_log :: "'a list"

definition init_threads :: "'a threads" where
  "init_threads = \<lparr>shared = ThreadSafeQueue, pc = (\<lambda>_. Ready), pushed_log = [], popped_log = []\<rparr>"

text \<open>\<open>clearing\<close> says whether some thread ever calls \<open>Clear\<close>.\<close>

inductive q_step :: "bool \<Rightarrow> 'a threads \<Rightarrow> 'a threads \<Rightarrow> bool" for clearing where
  enqueue: "pc s t = Ready \<Longrightarrow>
    q_step clearing s (s\<lparr>shared := tsq_enqueue x (shared s), pc := (pc s)(t := Pushing),
                         pushed_log := pushed_log s @ [x]\<rparr>)"
| release: "pc s t = Pushing \<Longrightarrow> tsq_release (shared s) = (r, q) \<Longrightarrow>
    q_step clearing s (s\<lparr>shared := q, pc := (pc s)(t := Ready)\<rparr>)"
| wait: "pc s t = Ready \<Longrightarrow> tsq_wait tsq_timeout (shared s) = (Done (), q) \<Longrightarrow>
    q_step clearing s (s\<lparr>shared := q, pc := (pc s)(t := Popping)\<rparr>)"
| take: "pc s t = Popping \<Longrightarrow> tsq_take (shared s) = (Done x, q) \<Longrightarrow>
    q_step clearing s (s\<lparr>shared := q, pc := (pc s)(t := Ready), popped_log := popped_log s @ [x]\<rparr>)"
| throw: "pc s t = Popping \<Longrightarrow> tsq_take (shared s) = (Fault e, q) \<Longrightarrow>
    q_step clearing s (s\<lparr>shared := q, pc := (pc s)(t := Crashed)\<rparr>)"
| clear: "clearing \<Longrightarrow> pc s t = Ready \<Longrightarrow>
    q_step clearing s (s\<lparr>shared := tsq_Clear (shared s)\<rparr>)"

inductive q_reachable :: "bool \<Rightarrow> 'a threads \<Rightarrow> bool" for clearing where
  start: "q_reachable clearing init_threads"
| step: "q_reachable clearing s \<Longrightarrow> q_step clearing s s' \<Longrightarrow> q_reachable clearing s'"

section \<open>Counting threads\<close>

definition count_pc :: "(nat \<Rightarrow> qpc) \<Rightarrow> qpc \<Rightarrow> nat" where
  "count_pc f a = card {t. f t = a}"

definition busy :: "(nat \<Rightarrow> qpc) \<Rightarrow> nat set" where
  "busy f = {t. f t \<noteq> Ready}"

lemma finite_pc: "finite (busy f) \<Longrightarrow> a \<noteq> Ready \<Longrightarrow> finite {t. f t = a}"
  by (rule finite_subset[of _ "busy f"]) (auto simp: busy_def)

lemma finite_pc_upd [simp]: "finite (busy (f(u := v))) \<longleftrightarrow> finite (busy f)"
proof -
  have "busy (f(u := v)) - {u} = busy f - {u}" by (auto simp: busy_def)
  then show ?thesis by (metis finite_Diff2 finite.emptyI finite_insert)
qed

lemma count_pc_enter:
  assumes "finite {t. f t = a}" and "f u \<noteq> a"
  shows "count_pc (f(u := a)) a = Suc (count_pc f a)"
proof -
  have "{t. (f(u := a)) t = a} = insert u {t. f t = a}" by auto
  then show ?thesis using assms by (simp add: count_pc_def)
qed

lemma count_pc_leave:
  assumes "finite {t. f t = a}" and "f u = a" and "v \<noteq> a"
  shows "count_pc f a = Suc (count_pc (f(u := v)) a)"
proof -
  have "{t. f t = a} = insert u {t. (f(u := v)) t = a}" "u \<notin> {t. (f(u := v)) t = a}"
    using assms by auto
  moreover have "finite {t. (f(u := v)) t = a}"
    by (rule finite_subset[OF _ assms(1)]) (use assms(3) in auto)
  ultimately show ?thesis by (simp add: count_pc_def)
qed

lemma count_pc_other: "f u \<noteq> a \<Longrightarrow> v \<noteq> a \<Longrightarrow> count_pc (f(u := v)) a = count_pc f a"
  unfolding count_pc_def by (rule arg_cong[where f = card]) auto

lemma count_pc_pos: "finite {t. f t = a} \<Longrightarrow> f u = a \<Longrightarrow> 0 < count_pc f a"
  by (auto simp: count_pc_def card_gt_0_iff)

lemmas count_pc_simps = count_pc_enter count_pc_other finite_pc

section \<open>The invariant\<close>

text \<open>
  Every item of the queue is promised to someone: to a permit of the semaphore, to a thread that
  is about to release one, or to a thread that has one. \<open>lost\<close> counts failed releases, which
  need more than \<open>MAXINT\<close> items.
\<close>

definition q_inv :: "'a threads \<Rightarrow> bool" where
  "q_inv s \<longleftrightarrow> finite (busy (pc s))
     \<and> (\<forall>t. pc s t \<noteq> Crashed)
     \<and> pushed_log s = popped_log s @ queue (shared s)
     \<and> (\<exists>lost. length (queue (shared s)) = queue_semaphore (shared s)
            + count_pc (pc s) Pushing + count_pc (pc s) Popping + lost
          \<and> (length (pushed_log s) \<le> MAXINT \<longrightarrow> lost = 0))"

lemma q_inv_init: "q_inv init_threads"
  by (simp add: q_inv_def init_threads_def ThreadSafeQueue_def count_pc_def busy_def)

lemma q_inv_enqueue:
  assumes "q_inv s" and "pc s t = Ready"
  shows "q_inv (s\<lparr>shared := tsq_enqueue x (shared s), pc := (pc s)(t := Pushing),
                 pushed_log := pushed_log s @ [x]\<rparr>)"
  using assms by (auto simp: q_inv_def tsq_enqueue_def count_pc_simps)

lemma q_inv_release:
  assumes "q_inv s" and "pc s t = Pushing" and "tsq_release (shared s) = (r, q)"
  shows "q_inv (s\<lparr>shared := q, pc := (pc s)(t := Ready)\<rparr>)"
proof -
  from assms(1) have fin: "finite {t. pc s t = Pushing}"
    by (auto simp: q_inv_def intro: finite_pc)
  note c = count_pc_leave[OF fin assms(2), of Ready]
  from assms(1) obtain lost where
    l: "length (queue (shared s)) = queue_semaphore (shared s)
          + count_pc (pc s) Pushing + count_pc (pc s) Popping + lost"
    and z: "length (pushed_log s) \<le> MAXINT \<longrightarrow> lost = 0"
    and p: "pushed_log s = popped_log s @ queue (shared s)"
    by (auto simp: q_inv_def)
  have "count_pc ((pc s)(t := Ready)) Popping = count_pc (pc s) Popping"
    using assms(2) by (simp add: count_pc_other)
  moreover have "queue q = queue (shared s)"
    "queue_semaphore q = (if queue_semaphore (shared s) < MAXINT
       then Suc (queue_semaphore (shared s)) else queue_semaphore (shared s))"
    using assms(3) by (auto simp: tsq_release_def release_semaphore_def split: if_splits)
  ultimately show ?thesis
    using assms(1) l z p c
    by (cases "queue_semaphore (shared s) < MAXINT")
       (auto simp: q_inv_def intro!: exI[of _ lost] exI[of _ "Suc lost"])
qed

lemma q_inv_wait:
  assumes "q_inv s" and "pc s t = Ready" and "tsq_wait tsq_timeout (shared s) = (Done (), q)"
  shows "q_inv (s\<lparr>shared := q, pc := (pc s)(t := Popping)\<rparr>)"
  using assms
  by (auto simp: q_inv_def tsq_wait_def wait_semaphore_def count_pc_simps split: if_splits)

lemma q_inv_take:
  assumes "q_inv s" and "pc s t = Popping" and "tsq_take (shared s) = (Done x, q)"
  shows "q_inv (s\<lparr>shared := q, pc := (pc s)(t := Ready), popped_log := popped_log s @ [x]\<rparr>)"
proof -
  from assms(1) have fin: "finite {t. pc s t = Popping}"
    by (auto simp: q_inv_def intro: finite_pc)
  show ?thesis
    using assms count_pc_leave[OF fin assms(2), of Ready]
    by (auto simp: q_inv_def tsq_take_def count_pc_other split: list.splits)
qed

lemma q_inv_no_throw:
  assumes "q_inv s" and "pc s t = Popping"
  shows "queue (shared s) \<noteq> []"
proof -
  from assms(1) have fin: "finite {t. pc s t = Popping}"
    by (auto simp: q_inv_def intro: finite_pc)
  from count_pc_pos[OF fin assms(2)] assms(1) show ?thesis
    by (auto simp: q_inv_def)
qed

lemma q_step_inv: "q_step False s s' \<Longrightarrow> q_inv s \<Longrightarrow> q_inv s'"
proof (induction rule: q_step.induct)
  case (throw s t e q)
  then have "queue (shared s) \<noteq> []" by (simp add: q_inv_no_throw)
  with throw show ?case by (simp add: tsq_take_def split: list.splits)
qed (auto intro: q_inv_enqueue q_inv_release q_inv_wait q_inv_take)

lemma q_reachable_inv: "q_reachable False s \<Longrightarrow> q_inv s"
  by (induction rule: q_reachable.induct) (auto intro: q_inv_init q_step_inv)

section \<open>Schedules\<close>

text \<open>A step as a function, to run a given schedule of threads.\<close>

datatype 'a q_action = Enqueue 'a | Release | Wait | Take | Do_clear

fun q_act :: "nat \<Rightarrow> 'a q_action \<Rightarrow> 'a threads \<Rightarrow> 'a threads option" where
  "q_act t (Enqueue x) s = (if pc s t = Ready
     then Some (s\<lparr>shared := tsq_enqueue x (shared s), pc := (pc s)(t := Pushing),
                  pushed_log := pushed_log s @ [x]\<rparr>) else None)"
| "q_act t Release s = (if pc s t = Pushing
     then Some (s\<lparr>shared := snd (tsq_release (shared s)), pc := (pc s)(t := Ready)\<rparr>) else None)"
| "q_act t Wait s = (if pc s t = Ready
     then (case tsq_wait tsq_timeout (shared s) of
         (Done _, q) \<Rightarrow> Some (s\<lparr>shared := q, pc := (pc s)(t := Popping)\<rparr>)
       | _ \<Rightarrow> None) else None)"
| "q_act t Take s = (if pc s t = Popping
     then (case tsq_take (shared s) of
         (Done x, q) \<Rightarrow> Some (s\<lparr>shared := q, pc := (pc s)(t := Ready), popped_log := popped_log s @ [x]\<rparr>)
       | (Fault e, q) \<Rightarrow> Some (s\<lparr>shared := q, pc := (pc s)(t := Crashed)\<rparr>)
       | (Blocks, q) \<Rightarrow> None) else None)"
| "q_act t Do_clear s = (if pc s t = Ready then Some (s\<lparr>shared := tsq_Clear (shared s)\<rparr>) else None)"

fun q_exec :: "(nat \<times> 'a q_action) list \<Rightarrow> 'a threads \<Rightarrow> 'a threads option" where
  "q_exec [] s = Some s"
| "q_exec ((t, a) # acts) s = (case q_act t a s of None \<Rightarrow> None | Some s' \<Rightarrow> q_exec acts s')"

lemma q_act_step: "q_act t a s = Some s' \<Longrightarrow> a = Do_clear \<longrightarrow> clearing \<Longrightarrow> q_step clearing s s'"
  by (cases a)
    (auto intro: q_step.intros q_step.release[OF _ prod.collapse[symmetric]]
      split: if_splits prod.splits outcome.splits)

lemma q_exec_reachable:
  "q_exec acts s = Some s' \<Longrightarrow> clearing \<or> Do_clear \<notin> snd ` set acts \<Longrightarrow> q_reachable clearing s \<Longrightarrow>
     q_reachable clearing s'"
  by (induction acts s rule: q_exec.induct)
    (auto intro: q_reachable.step q_act_step split: option.splits)

definition crossing :: "(nat \<times> nat q_action) list" where
  "crossing = [(0, Enqueue 7), (1, Enqueue 8), (1, Release), (2, Wait)]"


section \<open>What holds in every interleaving\<close>



text \<open>
  C29: No wake-up is lost. In every state that any interleaving of \<open>Push\<close> and \<open>Pop\<close> reaches, as long
  as at most \<open>MAXINT\<close> items have ever been pushed: each item in the queue has a permit of the semaphore,
  or belongs to a thread that has got its permit and not yet taken it, or was pushed by a thread that
  has not released the semaphore yet. So the wait of a \<open>Pop\<close> blocks exactly if no item is left for
  it, the release a pushing thread still has to do lets a waiting one go on, and when no thread is
  inside an operation a \<open>Pop\<close> blocks only on an empty queue.
\<close>

theorem no_lost_wakeup:
  assumes "q_reachable False s" and "length (pushed_log s) \<le> MAXINT"
  shows "length (queue (shared s)) = queue_semaphore (shared s) + card {t. pc s t = Pushing} + card {t. pc s t = Popping}
    \<and> (fst (tsq_wait tsq_timeout (shared s)) = Blocks
        \<longleftrightarrow> length (queue (shared s)) = card {t. pc s t = Pushing} + card {t. pc s t = Popping})
    \<and> ((\<exists>t. pc s t = Pushing) \<longrightarrow> fst (tsq_wait tsq_timeout (snd (tsq_release (shared s)))) \<noteq> Blocks)
    \<and> ((\<forall>t. pc s t = Ready) \<longrightarrow> (fst (tsq_Pop tsq_timeout (shared s)) = Blocks \<longleftrightarrow> queue (shared s) = []))"
proof -
  from assms(1) have i: "q_inv s" by (rule q_reachable_inv)
  with assms(2) have count: "length (queue (shared s)) = queue_semaphore (shared s)
      + card {t. pc s t = Pushing} + card {t. pc s t = Popping}" by (auto simp: q_inv_def count_pc_def)
  moreover have "fst (tsq_wait tsq_timeout (shared s)) = Blocks \<longleftrightarrow> queue_semaphore (shared s) = 0"
    by (simp add: tsq_defs)
  moreover have "fst (tsq_wait tsq_timeout (snd (tsq_release (shared s)))) \<noteq> Blocks"
    by (simp add: tsq_defs MAXINT_def)
  moreover have "fst (tsq_Pop tsq_timeout (shared s)) = Blocks \<longleftrightarrow> queue (shared s) = []" if "\<forall>t. pc s t = Ready"
  proof -
    from that count have "queue_semaphore (shared s) = length (queue (shared s))" by simp
    then show ?thesis by (auto simp: tsq_defs split: list.splits)
  qed
  ultimately show ?thesis by auto
qed

theorem no_lost_wakeup_witness:
  "\<exists>s :: nat threads. pc s 2 = Popping \<and> pc s 0 = Pushing \<and> queue (shared s) = [7, 8]
     \<and> length (queue (shared s)) = queue_semaphore (shared s) + card {t. pc s t = Pushing} + card {t. pc s t = Popping}
     \<and> fst (tsq_wait tsq_timeout (snd (tsq_release (shared s)))) \<noteq> Blocks"
proof -
  have "\<exists>s. q_exec crossing init_threads = Some s \<and> pc s 2 = Popping \<and> pc s 0 = Pushing
      \<and> queue (shared s) = [7, 8 :: nat] \<and> pushed_log s = [7, 8]"
    by (simp add: crossing_def init_threads_def tsq_defs MAXINT_def)
  then obtain s where s: "q_exec crossing init_threads = Some s" "pc s 2 = Popping" "pc s 0 = Pushing"
    "queue (shared s) = [7, 8 :: nat]" "pushed_log s = [7, 8]" by (elim exE conjE)
  have "q_reachable False s"
    by (rule q_exec_reachable[OF s(1) _ q_reachable.start]) (simp add: crossing_def)
  from no_lost_wakeup[OF this] s(2-5) show ?thesis by (intro exI[of _ s]) (auto simp: MAXINT_def)
qed

text \<open>
  With a thread that calls \<open>Clear\<close> this is lost: there is a schedule in which an item is
  pushed, the queue is cleared, and a \<open>Pop\<close> then gets the stale permit and throws
  ``empty queue'' instead of waiting for an item.
\<close>

lemma clear_leaves_stale_permit:
  "\<exists>s. q_reachable True s \<and> queue (shared s) = [] \<and> pushed_log s = [7 :: nat] \<and> pc s 1 = Crashed"
proof -
  let ?acts = "[(0, Enqueue 7), (0, Release), (0, Do_clear), (1, Wait), (1, Take)]"
  have "\<exists>s. q_exec ?acts init_threads = Some s \<and> queue (shared s) = []
      \<and> pushed_log s = [7 :: nat] \<and> pc s 1 = Crashed"
    by (simp add: init_threads_def tsq_defs MAXINT_def)
  then obtain s where s: "q_exec ?acts init_threads = Some s" "queue (shared s) = []"
    "pushed_log s = [7 :: nat]" "pc s 1 = Crashed"
    by (elim exE conjE)
  have "q_reachable True s"
    by (rule q_exec_reachable[OF s(1) _ q_reachable.start]) (simp add: crossing_def)
  with s(2-4) show ?thesis by (intro exI[of _ s] conjI)
qed

end
