(* ===== verification/Stream.thy ===== *)
theory Stream
  imports DataStructures
begin

text \<open>
  \<^verbatim>\<open>stream.h\<close>: the base class of all streams - a container, a type, a frame size and an
  on/off status - and the vector containers that the client's and the host's streams use. Both
  \<open>FramePacketsStreamContainer\<close> (\<^verbatim>\<open>client.cpp\<close>) and \<open>VideoStreamContainer\<close>
  (\<^verbatim>\<open>video.cpp\<close>) implement the vector operations on one \<open>ThreadSafeQueue\<close>.
\<close>

section \<open>Stream\<close>

record 'c stream =
  streamContainer :: 'c
  streamStatus :: bool
  stream_type :: BYTE
  stream_frameSize :: WORD

text \<open>The default members: off, type and frame size -1.\<close>

definition Stream :: "'c \<Rightarrow> 'c stream" where
  "Stream c = \<lparr>streamContainer = c, streamStatus = False, stream_type = -1, stream_frameSize = -1\<rparr>"

definition Stream2 :: "'c \<Rightarrow> BYTE \<Rightarrow> WORD \<Rightarrow> 'c stream" where
  "Stream2 c sType fsz = (Stream c)\<lparr>stream_type := sType, stream_frameSize := fsz\<rparr>"

definition getContainer :: "'c stream \<Rightarrow> 'c" where "getContainer s = streamContainer s"

definition setStreamType :: "BYTE \<Rightarrow> 'c stream \<Rightarrow> 'c stream" where
  "setStreamType sType s = s\<lparr>stream_type := sType\<rparr>"

definition getStreamType :: "'c stream \<Rightarrow> BYTE" where "getStreamType s = stream_type s"

definition setFrameSize :: "WORD \<Rightarrow> 'c stream \<Rightarrow> 'c stream" where
  "setFrameSize fsz s = s\<lparr>stream_frameSize := fsz\<rparr>"

definition getFrameSize :: "'c stream \<Rightarrow> WORD" where "getFrameSize s = stream_frameSize s"

definition stopStream :: "'c stream \<Rightarrow> 'c stream" where "stopStream s = s\<lparr>streamStatus := False\<rparr>"

definition continueStream :: "'c stream \<Rightarrow> 'c stream" where "continueStream s = s\<lparr>streamStatus := True\<rparr>"

definition isStreamOn :: "'c stream \<Rightarrow> bool" where "isStreamOn s = streamStatus s"

definition clearStream :: "('c \<Rightarrow> 'c) \<Rightarrow> 'c stream \<Rightarrow> 'c stream" where
  "clearStream clear s = s\<lparr>streamContainer := clear (streamContainer s)\<rparr>"

section \<open>Vector containers\<close>

text \<open>The operations of \<open>FramePacketsStreamContainer\<close> and of \<open>VideoStreamContainer\<close>.\<close>

type_synonym 'a vcontainer = "'a tsqueue"

definition vc_pop :: "'a vcontainer \<Rightarrow> 'a outcome \<times> 'a vcontainer" where
  "vc_pop c = tsq_Pop tsq_timeout c"

definition vc_popFront :: "'a vcontainer \<Rightarrow> 'a outcome \<times> 'a vcontainer" where
  "vc_popFront c = tsq_Pop tsq_timeout c"

definition vc_popBack :: "'a vcontainer \<Rightarrow> 'a outcome \<times> 'a vcontainer" where
  "vc_popBack c = tsq_Pop tsq_timeout c"

definition vc_push :: "'a \<Rightarrow> 'a vcontainer \<Rightarrow> 'a vcontainer" where
  "vc_push x c = snd (tsq_Push x c)"

definition vc_pushFront :: "'a \<Rightarrow> 'a vcontainer \<Rightarrow> 'a vcontainer" where
  "vc_pushFront x c = snd (tsq_Push x c)"

definition vc_pushBack :: "'a \<Rightarrow> 'a vcontainer \<Rightarrow> 'a vcontainer" where
  "vc_pushBack x c = snd (tsq_Push x c)"

definition vc_isEmpty :: "'a vcontainer \<Rightarrow> bool" where "vc_isEmpty c = tsq_isEmpty c"

definition vc_clear :: "'a vcontainer \<Rightarrow> 'a vcontainer" where "vc_clear c = tsq_Clear c"

text \<open>\<open>VectorStream\<close>: the first and the last frame of the container.\<close>

definition frontFrame :: "'a vcontainer stream \<Rightarrow> 'a outcome \<times> 'a vcontainer stream" where
  "frontFrame s = (let (r, c) = vc_popFront (streamContainer s) in (r, s\<lparr>streamContainer := c\<rparr>))"

definition backFrame :: "'a vcontainer stream \<Rightarrow> 'a outcome \<times> 'a vcontainer stream" where
  "backFrame s = (let (r, c) = vc_popBack (streamContainer s) in (r, s\<lparr>streamContainer := c\<rparr>))"

section \<open>Lemmas\<close>

lemmas vc_defs = vc_pop_def vc_popFront_def vc_popBack_def vc_push_def vc_pushFront_def
  vc_pushBack_def vc_isEmpty_def vc_clear_def

lemma pop_head:
  assumes "tsq.synced c" and "queue c = x # xs"
  obtains c' where "tsq_Pop tsq_timeout c = (Done x, c')" "queue c' = xs" "tsq.synced c'"
proof -
  from assms have "0 < queue_semaphore c" by (simp add: tsq.synced_def)
  then obtain c' where p: "tsq_Pop tsq_timeout c = (Done x, c')" "queue c' = xs"
    using tsq.items_pop[of c x xs] assms(2) by (metis prod.collapse)
  moreover have "tsq.synced c'" using tsq.synced_pop[OF assms(1)] p(1) assms(2) by auto
  ultimately show thesis by (rule that)
qed

section \<open>The two ends\<close>

text \<open>
  The two ends of a vector container are one. On a container with items, \<open>popBack\<close> takes the
  front item like \<open>popFront\<close> does, and an item pushed to the front is not the next one out but
  stands behind all others; so \<open>backFrame\<close> of a stream returns its oldest frame.
\<close>

lemma container_ends_coincide:
  assumes "tsq.synced c" and "queue c = x # xs" and "length (queue c) < MAXINT"
  shows "fst (vc_popBack c) = Done x \<and> queue (snd (vc_popBack c)) = xs
    \<and> fst (vc_popFront (vc_pushFront y c)) = Done x
    \<and> queue (snd (vc_popFront (vc_pushFront y c))) = xs @ [y]
    \<and> fst (backFrame (Stream c)) = Done x"
proof -
  have c1: "tsq.synced (snd (tsq_Push y c))" "queue (snd (tsq_Push y c)) = x # (xs @ [y])"
    using assms tsq.synced_push[OF assms(1), of y] by (simp_all add: tsq.items_push)
  obtain c' where c': "tsq_Pop tsq_timeout c = (Done x, c')" "queue c' = xs" "tsq.synced c'"
    by (rule pop_head[OF assms(1,2)])
  obtain c2 where c2: "tsq_Pop tsq_timeout (snd (tsq_Push y c)) = (Done x, c2)" "queue c2 = xs @ [y]" "tsq.synced c2"
    by (rule pop_head[OF c1])
  show ?thesis by (simp add: vc_defs backFrame_def Stream_def c'(1,2) c2(1,2))
qed

end
