(* ===== verification/Chunks.thy ===== *)
theory Chunks
  imports Prelude
begin

text \<open>
  A frame cut into chunks of a fixed size, and a frame buffer in which some chunks have been
  written and the rest is still zero. The sender's loop cuts with this arithmetic and the
  receivers' loops write with it; the lemmas are shared by all of them.
\<close>

definition nchunks :: "nat \<Rightarrow> nat \<Rightarrow> nat" where
  "nchunks p n = (n + p - 1) div p"

definition chunk :: "nat \<Rightarrow> 'a list \<Rightarrow> nat \<Rightarrow> 'a list" where
  "chunk p xs i = take p (drop (i * p) xs)"

definition partial_frame :: "nat \<Rightarrow> ('a :: zero) list \<Rightarrow> nat set \<Rightarrow> 'a list" where
  "partial_frame p xs S = map (\<lambda>j. if j div p \<in> S then xs ! j else 0) [0..<length xs]"

lemma length_chunk: "length (chunk p xs i) = min p (length xs - i * p)"
  by (simp add: chunk_def)

lemma nchunks_less:
  assumes "0 < p"
  shows "i < nchunks p n \<longleftrightarrow> i * p < n"
proof -
  have "i < nchunks p n \<longleftrightarrow> Suc i \<le> (n + p - 1) div p" by (simp add: nchunks_def Suc_le_eq)
  also have "\<dots> \<longleftrightarrow> Suc i * p \<le> n + p - 1" using assms by (simp add: less_eq_div_iff_mult_less_eq)
  also have "\<dots> \<longleftrightarrow> i * p < n" using assms by auto
  finally show ?thesis .
qed

lemma nchunks_0 [simp]: "nchunks p 0 = 0" if "0 < p"
  using that by (simp add: nchunks_def)

lemma chunk_nonempty: "0 < p \<Longrightarrow> i < nchunks p (length xs) \<Longrightarrow> 0 < length (chunk p xs i)"
  by (simp add: length_chunk nchunks_less)

lemma div_less_nchunks: "0 < p \<Longrightarrow> j < n \<Longrightarrow> j div p < nchunks p n"
  by (simp add: nchunks_less) (meson div_times_less_eq_dividend le_less_trans)

lemma chunk_fits: "0 < p \<Longrightarrow> i < nchunks p (length xs) \<Longrightarrow> i * p + length (chunk p xs i) \<le> length xs"
  by (simp add: length_chunk nchunks_less)

lemma div_eq_chunk:
  assumes "0 < (p :: nat)"
  shows "i * p \<le> j \<and> j < i * p + p \<longleftrightarrow> j div p = i"
proof
  assume "i * p \<le> j \<and> j < i * p + p"
  then show "j div p = i" by (simp add: div_nat_eqI mult.commute)
next
  assume "j div p = i"
  then show "i * p \<le> j \<and> j < i * p + p"
    using assms dividend_less_div_times[of p j] by (auto simp: mult.commute)
qed

lemma nth_chunk:
  assumes "0 < p" and "j div p = i" and "j < length xs"
  shows "chunk p xs i ! (j - i * p) = xs ! j"
proof -
  have "i * p \<le> j \<and> j < i * p + p" using div_eq_chunk[of p i j] assms(1,2) by blast
  then have "i * p \<le> j" "j - i * p < p" by linarith+
  then show ?thesis using assms(3) by (simp add: chunk_def)
qed

section \<open>Filling a buffer\<close>

lemma length_partial_frame [simp]: "length (partial_frame p xs S) = length xs"
  by (simp add: partial_frame_def)

lemma partial_frame_empty: "partial_frame p xs {} = replicate (length xs) 0"
  by (simp add: partial_frame_def map_replicate_const)

lemma partial_frame_full:
  assumes "0 < p" and "{..<nchunks p (length xs)} \<subseteq> S"
  shows "partial_frame p xs S = xs"
  using assms by (intro nth_equalityI) (auto simp: partial_frame_def dest!: subsetD div_less_nchunks)

text \<open>Writing a chunk at its place fills exactly that chunk, and stays inside the buffer.\<close>

lemma write_chunk:
  assumes p: "0 < p" and i: "i < nchunks p (length xs)"
  shows "mem_write (partial_frame p xs S) (i * p) (chunk p xs i) = Done (partial_frame p xs (insert i S))"
proof -
  have fits: "i * p + length (chunk p xs i) \<le> length (partial_frame p xs S)"
    using chunk_fits[OF assms] by simp
  obtain buf where buf: "mem_write (partial_frame p xs S) (i * p) (chunk p xs i) = Done buf"
    using fits mem_write_ok by blast
  have len: "length buf = length xs"
    using mem_write_length[OF buf] by simp
  have "buf = partial_frame p xs (insert i S)"
  proof (rule nth_equalityI)
    show "length buf = length (partial_frame p xs (insert i S))" using len by simp
    fix j assume "j < length buf"
    then have j: "j < length xs" using len by simp
    have in_chunk: "i * p \<le> j \<and> j < i * p + length (chunk p xs i) \<longleftrightarrow> j div p = i"
      using div_eq_chunk[OF p, of i j] j by (auto simp: length_chunk)
    have b: "buf ! j = (if j div p = i then chunk p xs i ! (j - i * p)
        else partial_frame p xs S ! j)"
      using nth_mem_write[OF buf, of j] j in_chunk by simp
    show "buf ! j = partial_frame p xs (insert i S) ! j"
      using b j nth_chunk[OF p, of j i xs] by (simp add: partial_frame_def)
  qed
  with buf show ?thesis by simp
qed

text \<open>The bytes counted: the chunks of a whole frame add up to its length.\<close>

lemma sum_chunks: "0 < p \<Longrightarrow> (\<Sum>i < nchunks p (length xs). length (chunk p xs i)) = length xs"
proof (induction "length xs" arbitrary: xs rule: less_induct)
  case less
  show ?case
  proof (cases "xs = []")
    case True
    with less.prems show ?thesis by simp
  next
    case False
    let ?ys = "drop p xs"
    from False less.prems have n: "nchunks p (length xs) = Suc (nchunks p (length ?ys))"
      by (cases "length xs \<le> p")
         (auto simp: nchunks_def div_add_self2 le_div_geq Suc_le_eq neq_Nil_conv intro!: div_nat_eqI)
    have "(\<Sum>i < nchunks p (length ?ys). length (chunk p ?ys i)) = length ?ys"
      using less.hyps[of ?ys] less.prems False by simp
    moreover have "chunk p xs (Suc i) = chunk p ?ys i" for i
      by (simp add: chunk_def add.commute)
    moreover have "length (chunk p xs 0) = min p (length xs)" by (simp add: length_chunk)
    ultimately show ?thesis
      by (simp add: n sum.lessThan_Suc_shift del: sum.lessThan_Suc)
  qed
qed

lemma sum_chunks_subset:
  assumes p: "0 < p" and S: "S \<subseteq> {..<nchunks p (length xs)}"
  shows "(\<Sum>i \<in> S. length (chunk p xs i)) \<le> length xs"
    and "(\<Sum>i \<in> S. length (chunk p xs i)) = length xs \<longleftrightarrow> S = {..<nchunks p (length xs)}"
proof -
  let ?f = "\<lambda>i. length (chunk p xs i)" and ?K = "{..<nchunks p (length xs)}"
  have eq: "sum ?f ?K = sum ?f S + sum ?f (?K - S)"
    using S by (simp add: sum.subset_diff)
  with sum_chunks[OF p, of xs] show "sum ?f S \<le> length xs" by simp
  have "sum ?f (?K - S) = 0 \<longleftrightarrow> ?K - S = {}"
    using chunk_nonempty[OF p, of _ xs] by (auto simp: subset_iff)
  with eq sum_chunks[OF p, of xs] S show "sum ?f S = length xs \<longleftrightarrow> S = ?K" by auto
qed

end
