(* ===== verification/HostStream.thy ===== *)
theory HostStream
  imports Protocols Chunks
begin

text \<open>
  \<^verbatim>\<open>VideoHost/host.h\<close> and \<^verbatim>\<open>VideoHost/host.cpp\<close>: the host's \<open>PacketManager\<close>. It cuts the
  frames of a stream into packets (\<open>sendStream\<close>), keeps each packet until the client has
  acknowledged it (\<open>addRecentPacket\<close>, \<open>removeRecentPacket\<close>), sends the kept ones again
  every 100 ms (\<open>ackPackets\<close>), and dispatches what it receives
  (\<open>handleIncomingPackets\<close>). The datagrams handed to \<^verbatim>\<open>sendto\<close> are the log \<open>sent\<close>; whether
  they arrive is up to the network.
\<close>

section \<open>State\<close>

text \<open>
  \<open>recentPackets\<close> is an \<^verbatim>\<open>unordered_map\<close> from sequence numbers to packets, kept as the list
  of its entries; the order of the list is one of the orders an iteration may take.
\<close>

type_synonym packet_map = "(DWORD \<times> BYTE list) list"

record packet_manager =
  recentPackets :: packet_map
  ackFlag :: bool
  nextSequence :: DWORD
  sent :: "BYTE list list"

definition PACKET_SIZE :: WORD where "PACKET_SIZE = 4096"
definition RECENT_PACKETS_SIZE :: nat where "RECENT_PACKETS_SIZE = 200"

text \<open>The state after the constructor, when \<^verbatim>\<open>bind\<close> succeeded.\<close>

definition PacketManager :: packet_manager where
  "PacketManager = \<lparr>recentPackets = [], ackFlag = True, nextSequence = 0, sent = []\<rparr>"

section \<open>Operations\<close>

text \<open>\<open>emplace\<close> leaves an entry with the same key as it is.\<close>

definition addRecentPacket :: "DWORD \<Rightarrow> BYTE list \<Rightarrow> packet_manager \<Rightarrow> packet_manager" where
  "addRecentPacket seqNum packet pm =
     (if seqNum \<in> fst ` set (recentPackets pm) then pm
      else pm\<lparr>recentPackets := recentPackets pm @ [(seqNum, packet)]\<rparr>)"

definition removeRecentPacket :: "DWORD \<Rightarrow> packet_manager \<Rightarrow> packet_manager" where
  "removeRecentPacket seqNum pm =
     pm\<lparr>recentPackets := filter (\<lambda>e. fst e \<noteq> seqNum) (recentPackets pm)\<rparr>"

definition sendPacket :: "rtmp_packet \<Rightarrow> BYTE list \<Rightarrow> bool \<Rightarrow> packet_manager \<Rightarrow> packet_manager" where
  "sendPacket packetHeader data savePacket pm =
     (let packet = encode_rtmp packetHeader @ data;
          pm' = pm\<lparr>sent := sent pm @ [packet]\<rparr>
      in if savePacket then addRecentPacket (sequenceNumber packetHeader) packet pm' else pm')"

text \<open>
  One frame of the stream, as the loop body of \<open>sendStream\<close> sees it: the stream's type, the
  frame's number and bytes, and the sizes computed from them with their C++ types.
\<close>

record stream_frame =
  sf_type :: BYTE
  sf_number :: DWORD
  sf_payload :: WORD
  sf_packets :: WORD
  sf_size :: DWORD
  sf_data :: "BYTE list"

definition stream_header :: "stream_frame \<Rightarrow> WORD \<Rightarrow> SIZE_T \<Rightarrow> DWORD \<Rightarrow> rtmp_packet" where
  "stream_header sf i totalPacketSize seqn = zero_packet\<lparr>
     pkt_version := 1,
     pkt_type := PACKET_TYPE_STREAM,
     pkt_size := ucast totalPacketSize,
     rtmp_data := put_rtsmp \<lparr>streamType = sf_type sf, frameNumber = sf_number sf, offset = i,
       totalPackets = sf_packets sf\<rparr> (rtmp_data zero_packet),
     slidingWindow := sf_size sf,
     sequenceNumber := seqn,
     pkt_flags := (if unat i = unat (sf_packets sf) - 1 then FLAG_LAST_PACKET else 0)\<rparr>"

text \<open>
  The body of the packet loop. \<open>i * payloadSize\<close> multiplies two promoted \<open>WORD\<close>s, a signed
  \<open>int\<close> product; \<open>totalFrameSize - dataOffset\<close> is computed in \<open>SIZE_T\<close>.
\<close>

definition send_chunk :: "stream_frame \<Rightarrow> WORD \<Rightarrow> packet_manager \<Rightarrow> packet_manager outcome" where
  "send_chunk sf i pm =
     (if 2 ^ 31 \<le> unat i * unat (sf_payload sf) then Fault Int_overflow
      else let dataOffset = (word_of_nat (unat i * unat (sf_payload sf)) :: SIZE_T);
               dataSize = min (ucast (sf_payload sf)) (ucast (sf_size sf) - dataOffset);
               totalPacketSize = dataSize + 36;
               pkt = stream_header sf i totalPacketSize (nextSequence pm);
               pm1 = pm\<lparr>nextSequence := nextSequence pm + 1\<rparr>
           in bind_outcome (mem_read (sf_data sf) (unat dataOffset) (unat dataSize))
                (\<lambda>data. Done ((sendPacket pkt data True pm1)\<lparr>ackFlag := False\<rparr>)))"

function send_chunks :: "stream_frame \<Rightarrow> WORD \<Rightarrow> packet_manager \<Rightarrow> packet_manager outcome" where
  "send_chunks sf i pm =
     (if i < sf_packets sf
      then bind_outcome (send_chunk sf i pm) (send_chunks sf (i + 1))
      else Done pm)"
  by pat_completeness auto
termination
proof (relation "measure (\<lambda>(sf, i, pm). unat (sf_packets sf) - unat i)")
  fix sf and i :: WORD and pm x
  assume "i < sf_packets sf"
  then have "unat i < unat (sf_packets sf)" by (simp add: word_less_nat_alt)
  moreover from this have "unat (i + 1) = Suc (unat i)"
    using WORD_bound[of "sf_packets sf"] by (simp add: unat_word_ariths)
  ultimately show "((sf, i + 1, x), sf, i, pm) \<in> measure (\<lambda>(sf, i, pm). unat (sf_packets sf) - unat i)"
    by simp
qed simp

declare send_chunks.simps [simp del]

text \<open>
  One round of the frame loop. \<open>payloadSize\<close> and \<open>totalPackets\<close> are truncated to
  \<open>WORD\<close>, \<open>totalFrameSize\<close> to \<open>DWORD\<close>; a stream whose frame size is that of the header
  divides by zero.
\<close>

definition send_frame ::
  "BYTE \<Rightarrow> WORD \<Rightarrow> DWORD \<Rightarrow> BYTE list \<Rightarrow> packet_manager \<Rightarrow> packet_manager outcome" where
  "send_frame sType chunkSize frameNum frame pm =
     (let payloadSize = chunkSize - 36;
          frameSize = (word_of_nat (length frame) :: SIZE_T)
      in if payloadSize = 0 then Fault Div_by_zero
         else let total = (ucast ((frameSize + ucast payloadSize - 1) div ucast payloadSize) :: WORD)
              in send_chunks \<lparr>sf_type = sType, sf_number = frameNum, sf_payload = payloadSize,
                   sf_packets = total, sf_size = ucast frameSize, sf_data = frame\<rparr> 0 pm)"

text \<open>
  The loop runs while the program is on; here over the frames it takes from the stream, each with
  the frame size the stream reports in that round.
\<close>

fun sendStream ::
  "BYTE \<Rightarrow> (WORD \<times> BYTE list) list \<Rightarrow> DWORD \<Rightarrow> packet_manager \<Rightarrow> packet_manager outcome" where
  "sendStream sType [] frameNum pm = Done pm"
| "sendStream sType ((chunkSize, frame) # frames) frameNum pm =
     bind_outcome (send_frame sType chunkSize frameNum frame pm)
       (sendStream sType frames (frameNum + 1))"

text \<open>One round of \<open>ackPackets\<close>, after its sleep.\<close>

definition ackPackets_round :: "packet_manager \<Rightarrow> packet_manager" where
  "ackPackets_round pm =
     (if recentPackets pm = [] then pm
      else let pm1 = pm\<lparr>sent := sent pm @ map snd (recentPackets pm), ackFlag := True\<rparr>
           in if RECENT_PACKETS_SIZE < length (recentPackets pm1)
              then pm1\<lparr>recentPackets := []\<rparr> else pm1)"

text \<open>
  The handlers \<^verbatim>\<open>main.cpp\<close> installs for control and event packets, and one received packet
  going through \<open>handleIncomingPackets\<close>: \<open>funcMap[pkt.type]\<close> creates a null entry for a type
  without a handler, and calling it is undefined.
\<close>

definition controlPacketHandler :: "rtmp_packet \<Rightarrow> packet_manager \<Rightarrow> packet_manager" where
  "controlPacketHandler packet pm = removeRecentPacket (sequenceNumber packet) pm"

definition eventPacketHandler :: "rtmp_packet \<Rightarrow> packet_manager \<Rightarrow> packet_manager" where
  "eventPacketHandler packet pm = pm"

type_synonym handler_map = "BYTE \<Rightarrow> (rtmp_packet \<Rightarrow> packet_manager \<Rightarrow> packet_manager) option"

definition handlerMap :: handler_map where
  "handlerMap = [PACKET_TYPE_CONTROL \<mapsto> controlPacketHandler, PACKET_TYPE_EVENT \<mapsto> eventPacketHandler]"

text \<open>
  \<open>pkt\<close> is the loop's packet buffer, which a short datagram overwrites only in part. A
  negative result of \<open>recvfrom\<close> goes on with the loop.
\<close>

definition handleIncomingPacket ::
  "handler_map \<Rightarrow> BYTE list \<Rightarrow> BYTE list option \<Rightarrow> packet_manager \<Rightarrow> (BYTE list \<times> packet_manager) outcome" where
  "handleIncomingPacket funcMap pkt arrived pm =
     (let (res, pkt') = winsock_recvfrom pkt arrived
      in if res < 0 then Done (pkt', pm)
         else case funcMap (pkt_type (decode_rtmp pkt')) of
             None \<Rightarrow> Fault Null_call
           | Some h \<Rightarrow> Done (pkt', h (decode_rtmp pkt') pm))"

section \<open>What a frame is sent as\<close>

text \<open>The datagram of packet \<open>i\<close> of a frame whose first packet has the sequence number \<open>s\<close>.\<close>

definition frame_header :: "BYTE \<Rightarrow> nat \<Rightarrow> DWORD \<Rightarrow> BYTE list \<Rightarrow> DWORD \<Rightarrow> nat \<Rightarrow> rtmp_packet" where
  "frame_header t p fnum frame s i = zero_packet\<lparr>
     pkt_version := 1, pkt_type := 1, pkt_size := word_of_nat (length (chunk p frame i) + 36),
     rtmp_data := put_rtsmp \<lparr>streamType = t, frameNumber = fnum, offset = word_of_nat i,
       totalPackets = word_of_nat (nchunks p (length frame))\<rparr> (replicate 20 0),
     slidingWindow := word_of_nat (length frame), sequenceNumber := s + word_of_nat i,
     pkt_flags := (if Suc i = nchunks p (length frame) then 1 else 0)\<rparr>"

definition frame_datagram :: "BYTE \<Rightarrow> nat \<Rightarrow> DWORD \<Rightarrow> BYTE list \<Rightarrow> DWORD \<Rightarrow> nat \<Rightarrow> BYTE list" where
  "frame_datagram t p fnum frame s i = encode_rtmp (frame_header t p fnum frame s i) @ chunk p frame i"

text \<open>
  The frames the sender can cut without overflowing any of its counters: a chunk size above the
  header's, at most 65535 packets, at most 2 GiB.
\<close>

definition sendable :: "WORD \<Rightarrow> BYTE list \<Rightarrow> bool" where
  "sendable chunkSize frame \<longleftrightarrow> 36 < unat chunkSize \<and> length frame \<le> 2 ^ 31
     \<and> nchunks (unat chunkSize - 36) (length frame) \<le> 65535"

lemma wf_frame_header [simp]: "wf_packet (frame_header t p fnum frame s i)"
  by (simp add: frame_header_def wf_packet_def)

lemma length_frame_datagram:
  "length (frame_datagram t p fnum frame s i) = 36 + length (chunk p frame i)"
  by (simp add: frame_datagram_def)

section \<open>The sender's loop\<close>

definition after_packet :: "DWORD \<Rightarrow> BYTE list \<Rightarrow> packet_manager \<Rightarrow> packet_manager" where
  "after_packet seqn d pm = (addRecentPacket seqn d
     (pm\<lparr>nextSequence := nextSequence pm + 1, sent := sent pm @ [d]\<rparr>))\<lparr>ackFlag := False\<rparr>"

lemma after_packet_simps [simp]:
  "sent (after_packet q d pm) = sent pm @ [d]"
  "nextSequence (after_packet q d pm) = nextSequence pm + 1"
  "ackFlag (after_packet q d pm) = False"
  by (simp_all add: after_packet_def addRecentPacket_def)

lemma send_chunk_done:
  assumes p: "0 < p" "p = unat (sf_payload sf)" and i: "i < nchunks p (length (sf_data sf))"
    and n: "length (sf_data sf) \<le> 2 ^ 31" "sf_size sf = word_of_nat (length (sf_data sf))"
    and k: "nchunks p (length (sf_data sf)) \<le> 65535"
      "sf_packets sf = word_of_nat (nchunks p (length (sf_data sf)))"
    and q: "nextSequence pm = q + word_of_nat i"
  shows "send_chunk sf (word_of_nat i) pm = Done (after_packet (q + word_of_nat i)
    (frame_datagram (sf_type sf) p (sf_number sf) (sf_data sf) q i) pm)"
proof -
  let ?n = "length (sf_data sf)" and ?c = "chunk p (sf_data sf) i"
  have ip: "i * p < ?n" using i p(1) by (simp add: nchunks_less)
  have i16: "unat (word_of_nat i :: WORD) = i" using i k(1) by simp
  have off: "unat (word_of_nat (i * p) :: SIZE_T) = i * p"
    by (rule unat_of_nat_64) (use ip n(1) in simp)
  have size: "unat (ucast (sf_size sf) :: SIZE_T) = ?n" using n by simp
  have "unat (ucast (sf_size sf) - word_of_nat (i * p) :: SIZE_T) = ?n - i * p"
    using ip off size by (simp add: unat_sub word_le_nat_alt)
  then have data: "unat (min (ucast (sf_payload sf)) (ucast (sf_size sf) - word_of_nat (i * p)) :: SIZE_T)
      = length ?c"
    using p(2) by (simp add: unat_min length_chunk)
  then have dw: "min (ucast (sf_payload sf)) (ucast (sf_size sf) - word_of_nat (i * p))
      = (word_of_nat (length ?c) :: SIZE_T)"
    by (rule word_eq_of_nat)
  have c16: "length ?c \<le> p" "p < 65536" using WORD_bound[of "sf_payload sf"] p(2)
    by (simp_all add: length_chunk)
  have "(ucast (word_of_nat (length ?c) + 36 :: SIZE_T) :: WORD) = word_of_nat (length ?c + 36)"
  proof (rule unsigned_word_eqI)
    have "unat (word_of_nat (length ?c) + 36 :: SIZE_T) = length ?c + 36"
      using c16 by (simp add: unat_word_ariths)
    then have "unat (ucast (word_of_nat (length ?c) + 36 :: SIZE_T) :: WORD) = (length ?c + 36) mod 65536"
      by (simp only: unat_ucast_64_16)
    moreover have "unat (word_of_nat (length ?c + 36) :: WORD) = (length ?c + 36) mod 65536"
      by (subst unat_of_nat) simp
    ultimately show "unat (ucast (word_of_nat (length ?c) + 36 :: SIZE_T) :: WORD)
        = unat (word_of_nat (length ?c + 36) :: WORD)"
      by (simp only:)
  qed
  moreover have "unat (sf_packets sf) = nchunks p ?n" using k by simp
  ultimately have hdr: "stream_header sf (word_of_nat i) (word_of_nat (length ?c) + 36) (q + word_of_nat i)
      = frame_header (sf_type sf) p (sf_number sf) (sf_data sf) q i"
    using i i16 by (auto simp: stream_header_def frame_header_def zero_packet_def n(2) k(2))
  have "take (length ?c) (drop (i * p) (sf_data sf)) = ?c"
    by (simp add: chunk_def min_def)
  then have rd: "mem_read (sf_data sf) (i * p) (length ?c) = Done ?c"
    using chunk_fits[OF p(1) i] by (simp add: mem_read_ok)
  have no: "\<not> 2 ^ 31 \<le> i * p" using ip n(1) by simp
  show ?thesis
    unfolding send_chunk_def i16 p(2)[symmetric] Let_def dw off
    using no rd c16 hdr q
    by (simp add: after_packet_def sendPacket_def Let_def frame_datagram_def frame_header_def)
qed

lemma send_chunks_done:
  assumes "0 < p" "p = unat (sf_payload sf)"
    and "length (sf_data sf) \<le> 2 ^ 31" "sf_size sf = word_of_nat (length (sf_data sf))"
    and "nchunks p (length (sf_data sf)) \<le> 65535"
      "sf_packets sf = word_of_nat (nchunks p (length (sf_data sf)))"
    and "nextSequence pm = q + word_of_nat i" and "i \<le> nchunks p (length (sf_data sf))"
  shows "send_chunks sf (word_of_nat i) pm = Done (fold (\<lambda>j. after_packet (q + word_of_nat j)
    (frame_datagram (sf_type sf) p (sf_number sf) (sf_data sf) q j))
    [i..<nchunks p (length (sf_data sf))] pm)"
  using assms(7,8)
proof (induction "nchunks p (length (sf_data sf)) - i" arbitrary: i pm)
  case 0
  with assms(5,6) show ?case
    by (simp add: send_chunks.simps[of sf "word_of_nat i" pm])
next
  case (Suc m)
  let ?k = "nchunks p (length (sf_data sf))"
  from Suc.hyps(2) have i: "i < ?k" by simp
  then have lt: "(word_of_nat i :: WORD) < sf_packets sf"
    using assms(5,6) by (simp add: word_less_nat_alt)
  have "send_chunks sf (word_of_nat (Suc i)) pm' = Done (fold (\<lambda>j. after_packet (q + word_of_nat j)
      (frame_datagram (sf_type sf) p (sf_number sf) (sf_data sf) q j)) [Suc i..<?k] pm')"
    if "nextSequence pm' = q + word_of_nat (Suc i)" for pm'
    using Suc.hyps(1)[of "Suc i" pm'] Suc.hyps(2) i that by simp
  with lt i Suc.prems(1) show ?case
    by (simp add: send_chunks.simps[of sf "word_of_nat i" pm] upt_conv_Cons add.commute
        send_chunk_done[OF assms(1,2) i assms(3-6) Suc.prems(1)])
qed

lemma sent_fold: "sent (fold (\<lambda>j. after_packet (f j) (d j)) js pm) = sent pm @ map d js"
  by (induction js arbitrary: pm) auto

lemma nextSequence_fold:
  "nextSequence (fold (\<lambda>j. after_packet (f j) (d j)) js pm) = nextSequence pm + word_of_nat (length js)"
  by (induction js arbitrary: pm) (auto simp: ac_simps)

text \<open>The number of packets of a frame that can be sent is not truncated.\<close>

lemma packet_count:
  assumes "sendable cs frame"
  shows "(ucast ((word_of_nat (length frame) + ucast (cs - 36) - 1 :: SIZE_T) div ucast (cs - 36)) :: WORD)
      = word_of_nat (nchunks (unat cs - 36) (length frame))"
    and "unat (cs - 36) = unat cs - 36" and "cs - 36 \<noteq> 0"
proof -
  let ?p = "unat cs - 36" and ?n = "length frame"
  from assms have c: "36 < unat cs" "?n \<le> 2 ^ 31" "nchunks ?p ?n \<le> 65535"
    by (auto simp: sendable_def)
  show pay: "unat (cs - 36) = ?p" using c(1) by (simp add: unat_sub word_le_nat_alt)
  then have p0: "0 < ?p" using c(1) by auto
  from pay p0 show "cs - 36 \<noteq> 0" by auto
  have pb: "?p < 65536" using WORD_bound[of cs] by simp
  have "unat (word_of_nat ?n + ucast (cs - 36) - 1 :: SIZE_T) = ?n + ?p - 1"
  proof -
    have "unat (word_of_nat ?n + ucast (cs - 36) :: SIZE_T) = ?n + ?p"
      using c(2) pb pay by (simp add: unat_word_ariths)
    with p0 show ?thesis by (simp add: unat_sub word_le_nat_alt)
  qed
  then have "unat (ucast ((word_of_nat ?n + ucast (cs - 36) - 1 :: SIZE_T) div ucast (cs - 36)) :: WORD)
      = nchunks ?p ?n"
    using c(3) pay by (simp add: unat_ucast_64_16 unat_div nchunks_def)
  then show "(ucast ((word_of_nat ?n + ucast (cs - 36) - 1 :: SIZE_T) div ucast (cs - 36)) :: WORD)
      = word_of_nat (nchunks ?p ?n)"
    by (rule word_eq_of_nat)
qed

lemma send_frame_fold:
  assumes "sendable cs frame"
  shows "send_frame t cs fnum frame pm = Done (fold (\<lambda>j. after_packet (nextSequence pm + word_of_nat j)
    (frame_datagram t (unat cs - 36) fnum frame (nextSequence pm) j))
    [0..<nchunks (unat cs - 36) (length frame)] pm)"
proof -
  let ?p = "unat cs - 36" and ?n = "length frame"
  from assms have c: "36 < unat cs" "?n \<le> 2 ^ 31" "nchunks ?p ?n \<le> 65535"
    by (auto simp: sendable_def)
  note pay = packet_count(2)[OF assms] and p0 = packet_count(3)[OF assms] and tot = packet_count(1)[OF assms]
  let ?sf = "\<lparr>sf_type = t, sf_number = fnum, sf_payload = cs - 36,
    sf_packets = word_of_nat (nchunks ?p ?n), sf_size = word_of_nat ?n, sf_data = frame\<rparr>"
  have "send_chunks ?sf (word_of_nat 0) pm = Done (fold (\<lambda>j. after_packet (nextSequence pm + word_of_nat j)
      (frame_datagram (sf_type ?sf) ?p (sf_number ?sf) (sf_data ?sf) (nextSequence pm) j))
      [0..<nchunks ?p (length (sf_data ?sf))] pm)"
    by (rule send_chunks_done) (use c p0 pay in simp_all)
  with p0 tot show ?thesis by (simp add: send_frame_def Let_def ucast_of_nat_64_32)
qed

lemma send_frame_done:
  assumes "sendable cs frame"
  shows "\<exists>pm'. send_frame t cs fnum frame pm = Done pm'
    \<and> sent pm' = sent pm @ map (frame_datagram t (unat cs - 36) fnum frame (nextSequence pm))
         [0..<nchunks (unat cs - 36) (length frame)]
    \<and> nextSequence pm' = nextSequence pm + word_of_nat (nchunks (unat cs - 36) (length frame))"
  by (simp add: send_frame_fold[OF assms] sent_fold nextSequence_fold)

text \<open>
  The sequence number of the first packet of frame \<open>n\<close>, and all datagrams of a list of frames.
\<close>

definition stream_seq :: "nat \<Rightarrow> BYTE list list \<Rightarrow> DWORD \<Rightarrow> nat \<Rightarrow> DWORD" where
  "stream_seq p frs q n = q + word_of_nat (\<Sum>l<n. nchunks p (length (frs ! l)))"

definition stream_datagrams ::
  "BYTE \<Rightarrow> nat \<Rightarrow> BYTE list list \<Rightarrow> nat \<Rightarrow> DWORD \<Rightarrow> BYTE list list" where
  "stream_datagrams t p frs m q = concat (map (\<lambda>n. map
     (frame_datagram t p (word_of_nat (m + n)) (frs ! n) (stream_seq p frs q n))
     [0..<nchunks p (length (frs ! n))]) [0..<length frs])"

lemma stream_datagrams_Cons:
  "stream_datagrams t p (fr # frs) m q =
     map (frame_datagram t p (word_of_nat m) fr q) [0..<nchunks p (length fr)]
     @ stream_datagrams t p frs (Suc m) (q + word_of_nat (nchunks p (length fr)))"
proof -
  let ?q = "q + word_of_nat (nchunks p (length fr))"
  let ?F = "\<lambda>n. map (frame_datagram t p (word_of_nat (m + n)) ((fr # frs) ! n) (stream_seq p (fr # frs) q n))
    [0..<nchunks p (length ((fr # frs) ! n))]"
  have "stream_seq p (fr # frs) q (Suc n) = stream_seq p frs ?q n" for n
  proof -
    have "(\<Sum>l<Suc n. nchunks p (length ((fr # frs) ! l)))
        = nchunks p (length fr) + (\<Sum>l<n. nchunks p (length (frs ! l)))"
      by (simp add: sum.lessThan_Suc_shift del: sum.lessThan_Suc)
    then show ?thesis unfolding stream_seq_def by (simp only: of_nat_add add.assoc)
  qed
  then have Suc: "?F (Suc n) = map (frame_datagram t p (word_of_nat (Suc m + n)) (frs ! n)
      (stream_seq p frs ?q n)) [0..<nchunks p (length (frs ! n))]" for n
    by (simp only: nth_Cons_Suc add_Suc add_Suc_right)
  have "[0..<length (fr # frs)] = 0 # map Suc [0..<length frs]"
    by (simp add: upt_conv_Cons map_Suc_upt del: upt_Suc)
  then have "stream_datagrams t p (fr # frs) m q = ?F 0 @ concat (map (\<lambda>n. ?F (Suc n)) [0..<length frs])"
    unfolding stream_datagrams_def by (simp only: list.map concat.simps map_map o_def)
  also have "\<dots> = ?F 0 @ stream_datagrams t p frs (Suc m) ?q"
    unfolding Suc stream_datagrams_def ..
  also have "?F 0 = map (frame_datagram t p (word_of_nat m) fr q) [0..<nchunks p (length fr)]"
    by (simp add: stream_seq_def)
  finally show ?thesis .
qed

lemma sendStream_done:
  assumes "\<forall>fr \<in> set frs. sendable cs fr"
  shows "\<exists>pm'. sendStream t (map (Pair cs) frs) (word_of_nat m) pm = Done pm'
    \<and> sent pm' = sent pm @ stream_datagrams t (unat cs - 36) frs m (nextSequence pm)"
  using assms
proof (induction frs arbitrary: m pm)
  case Nil
  then show ?case by (simp add: stream_datagrams_def)
next
  case (Cons fr frs)
  then obtain pm1 where pm1: "send_frame t cs (word_of_nat m) fr pm = Done pm1"
    "sent pm1 = sent pm @ map (frame_datagram t (unat cs - 36) (word_of_nat m) fr (nextSequence pm))
       [0..<nchunks (unat cs - 36) (length fr)]"
    "nextSequence pm1 = nextSequence pm + word_of_nat (nchunks (unat cs - 36) (length fr))"
    using send_frame_done[of cs fr t "word_of_nat m" pm] by auto
  from Cons.IH[of "Suc m" pm1] Cons.prems obtain pm2 where
    "sendStream t (map (Pair cs) frs) (word_of_nat (Suc m)) pm1 = Done pm2"
    "sent pm2 = sent pm1 @ stream_datagrams t (unat cs - 36) frs (Suc m) (nextSequence pm1)"
    by auto
  with pm1 show ?case by (simp add: stream_datagrams_Cons add.commute)
qed

section \<open>Retransmission\<close>

text \<open>
  The sender's loop, the acknowledgement timer and the receiver run in three threads that share
  the map under its mutex; an event is one round of one of them. The receiver keeps its packet
  buffer between rounds.
\<close>

datatype host_event =
    Send_chunk stream_frame WORD
  | Ack_timer
  | Received "BYTE list option"

type_synonym host = "BYTE list \<times> packet_manager"

fun host_step :: "host_event \<Rightarrow> host \<Rightarrow> host outcome" where
  "host_step (Send_chunk sf i) (buf, pm) =
     bind_outcome (send_chunk sf i pm) (\<lambda>pm'. Done (buf, pm'))"
| "host_step Ack_timer (buf, pm) = Done (buf, ackPackets_round pm)"
| "host_step (Received arrived) (buf, pm) = handleIncomingPacket handlerMap buf arrived pm"

fun host_run :: "host_event list \<Rightarrow> host \<Rightarrow> host outcome" where
  "host_run [] h = Done h"
| "host_run (e # es) h = bind_outcome (host_step e h) (host_run es)"

text \<open>The keys of the map are distinct, and what it holds has been sent before.\<close>

definition host_inv :: "packet_manager \<Rightarrow> bool" where
  "host_inv pm \<longleftrightarrow> distinct (map fst (recentPackets pm))
     \<and> snd ` set (recentPackets pm) \<subseteq> set (sent pm)"

lemma host_inv_init: "host_inv PacketManager"
  by (simp add: host_inv_def PacketManager_def)

lemma send_chunk_cases:
  assumes "send_chunk sf i pm = Done pm'"
  obtains d where "pm' = after_packet (nextSequence pm) d pm"
  using assms
  by (auto simp: send_chunk_def Let_def sendPacket_def after_packet_def stream_header_def
      split: if_splits)

lemma host_inv_after_packet: "host_inv pm \<Longrightarrow> host_inv (after_packet q d pm)"
  by (auto simp: host_inv_def after_packet_def addRecentPacket_def)

lemma host_inv_ack: "host_inv pm \<Longrightarrow> host_inv (ackPackets_round pm)"
  by (auto simp: host_inv_def ackPackets_round_def Let_def)

lemma distinct_map_fst_filter: "distinct (map fst xs) \<Longrightarrow> distinct (map fst (filter P xs))"
  by (rule distinct_map_filter)

lemma host_inv_remove: "host_inv pm \<Longrightarrow> host_inv (removeRecentPacket q pm)"
  by (auto simp: host_inv_def removeRecentPacket_def intro!: distinct_map_fst_filter)

lemma handle_cases:
  assumes "handleIncomingPacket handlerMap buf arrived pm = Done (buf', pm')"
  shows "pm' = pm \<or> pm' = removeRecentPacket (sequenceNumber (decode_rtmp buf')) pm
    \<and> pkt_type (decode_rtmp buf') = PACKET_TYPE_CONTROL"
  using assms
  by (auto simp: handleIncomingPacket_def handlerMap_def controlPacketHandler_def
      eventPacketHandler_def split: if_splits prod.splits option.splits)

lemma host_step_inv: "host_inv (snd h) \<Longrightarrow> host_step e h = Done h' \<Longrightarrow> host_inv (snd h')"
  by (cases e; cases h; cases h')
    (auto intro: host_inv_after_packet host_inv_ack host_inv_remove elim!: send_chunk_cases
      dest!: handle_cases)

lemma host_run_inv: "host_inv (snd h) \<Longrightarrow> host_run es h = Done h' \<Longrightarrow> host_inv (snd h')"
  by (induction es arbitrary: h) (auto intro: host_step_inv)

text \<open>One step forgets a packet only on its acknowledgement or by the clearing above 200.\<close>

definition acknowledges :: "BYTE list \<Rightarrow> DWORD \<Rightarrow> bool" where
  "acknowledges buf q \<longleftrightarrow> pkt_type (decode_rtmp buf) = PACKET_TYPE_CONTROL
     \<and> sequenceNumber (decode_rtmp buf) = q"

lemma host_step_keeps:
  assumes "(q, d) \<in> set (recentPackets pm)" and "length (recentPackets pm) \<le> RECENT_PACKETS_SIZE"
    and "host_step e (buf, pm) = Done (buf', pm')" and "\<not> acknowledges buf' q"
  shows "(q, d) \<in> set (recentPackets pm') \<or> (\<exists>a. e = Received a \<and> acknowledges buf' q)"
  using assms
  by (cases e) (auto simp: after_packet_def addRecentPacket_def ackPackets_round_def Let_def
      acknowledges_def removeRecentPacket_def elim!: send_chunk_cases dest!: handle_cases)

end
