(* ===== verification/ClientPipeline.thy ===== *)
theory ClientPipeline
  imports Protocols Chunks DataStructures
begin

text \<open>
  \<^verbatim>\<open>VideoClient/main.cpp\<close>: the threads of the viewer. The receiver acknowledges each datagram
  and queues it; the consumer puts its payload into the frame buffer of its frame and queues the
  frame's number once the bytes counted reach the frame's size; the decoder turns the buffer
  into a bitmap, queues it by frame number and drops the buffer; \<open>WM_PAINT\<close> shows the bitmap
  with the lowest number, at most one per tick of the timer. One step here is one round of a
  thread's loop.
\<close>

section \<open>State\<close>

record frame_buffer =
  chunks :: "BYTE list"
  totalChunks :: WORD
  totalSize :: DWORD
  expectedSize :: DWORD
  fb_frameNumber :: DWORD
  fb_totalPackets :: DWORD

definition FrameBuffer :: frame_buffer where
  "FrameBuffer = \<lparr>chunks = [], totalChunks = 0, totalSize = 0, expectedSize = 0,
     fb_frameNumber = 0, fb_totalPackets = 0\<rparr>"

text \<open>
  A bitmap is a pointer, \<open>None\<close> the null pointer. \<open>'bmp\<close> stands for GDI+ bitmaps.
  \<open>acks\<close> and \<open>displayed\<close> log the datagrams sent and the frames painted.
\<close>

type_synonym 'bmp num_bmp = "DWORD \<times> 'bmp option"

record 'bmp client_state =
  packetQueue :: "BYTE list tsqueue"
  frameNumQueue :: "DWORD tsqueue"
  frameNumBmpQueue :: "'bmp num_bmp tspqueue"
  activeFrames :: "DWORD \<Rightarrow> frame_buffer option"
  latestFrame :: DWORD
  loadFrame :: bool
  acks :: "BYTE list list"
  displayed :: "'bmp num_bmp list"

definition client_init :: "'bmp client_state" where
  "client_init = \<lparr>packetQueue = ThreadSafeQueue, frameNumQueue = ThreadSafeQueue,
     frameNumBmpQueue = ThreadSafePrioQueue, activeFrames = Map.empty, latestFrame = 0,
     loadFrame = False, acks = [], displayed = []\<rparr>"

definition CLIENT_PACKET_SIZE :: nat where "CLIENT_PACKET_SIZE = 4096"
definition PAYLOAD_SIZE :: nat where "PAYLOAD_SIZE = CLIENT_PACKET_SIZE - sizeof_rtmp"

section \<open>Receiver\<close>

definition ack_packet :: "rtmp_packet \<Rightarrow> rtmp_packet" where
  "ack_packet pkt = zero_packet\<lparr>pkt_type := PACKET_TYPE_CONTROL,
     sequenceNumber := sequenceNumber pkt, pkt_flags := FLAG_ACK\<rparr>"

text \<open>\<open>fresh\<close> is what the newly allocated packet buffer happens to hold.\<close>

definition receiver_step :: "BYTE list \<Rightarrow> BYTE list option \<Rightarrow> 'bmp client_state \<Rightarrow> 'bmp client_state" where
  "receiver_step fresh arrived st =
     (let (packetSize, packet) = winsock_recvfrom fresh arrived
      in if packetSize < 0 then st
         else let pkt = decode_rtmp packet
              in st\<lparr>acks := acks st @ [encode_rtmp (ack_packet pkt)],
                    packetQueue := snd (tsq_Push packet (packetQueue st))\<rparr>)"

section \<open>Consumer\<close>

text \<open>
  The buffer a packet is written to: \<open>activeFrames[frameNum]\<close> creates an empty one, and an
  empty one is sized by the packet.
\<close>

definition open_buffer :: "rtmp_packet \<Rightarrow> frame_buffer option \<Rightarrow> frame_buffer" where
  "open_buffer pkt entry =
     (let fb = (case entry of None \<Rightarrow> FrameBuffer | Some fb \<Rightarrow> fb)
      in if chunks fb = []
         then fb\<lparr>expectedSize := slidingWindow pkt,
                 fb_frameNumber := frameNumber (get_rtsmp (rtmp_data pkt)),
                 chunks := replicate (unat (slidingWindow pkt)) 0\<rparr>
         else fb)"

definition opens_buffer :: "frame_buffer option \<Rightarrow> bool" where
  "opens_buffer entry \<longleftrightarrow> (case entry of None \<Rightarrow> True | Some fb \<Rightarrow> chunks fb = [])"

text \<open>
  \<open>memcpy_s\<close> gets the same count as size of the destination and as number of bytes, so it
  checks nothing: the copy leaves the packet buffer or the frame buffer when the packet's
  \<open>size\<close> and \<open>offset\<close> say so. A \<open>size\<close> below that of the header makes the count, a
  negative \<open>int\<close> converted to \<open>size_t\<close>, larger than any buffer.
\<close>

definition copy_payload :: "nat \<Rightarrow> WORD \<Rightarrow> WORD \<Rightarrow> BYTE list \<Rightarrow> BYTE list \<Rightarrow> BYTE list outcome" where
  "copy_payload stride packetSize off packet dest =
     (if unat packetSize < sizeof_rtmp then Fault Mem_fault
      else bind_outcome (mem_read packet sizeof_rtmp (unat packetSize - sizeof_rtmp))
             (mem_write dest (unat off * stride)))"

definition consume_packet :: "BYTE list \<Rightarrow> 'bmp client_state \<Rightarrow> 'bmp client_state outcome" where
  "consume_packet packet st =
     (let pkt = decode_rtmp packet
      in if pkt_type pkt \<noteq> PACKET_TYPE_STREAM then Done st
         else let rts = get_rtsmp (rtmp_data pkt);
                  frameNum = frameNumber rts;
                  entry = activeFrames st frameNum;
                  fb = open_buffer pkt entry;
                  st1 = (if opens_buffer entry then st\<lparr>latestFrame := frameNum\<rparr> else st);
                  fb1 = fb\<lparr>fb_totalPackets := fb_totalPackets fb + 1,
                           totalSize := totalSize fb + (ucast (pkt_size pkt) - 36)\<rparr>
              in bind_outcome (copy_payload PAYLOAD_SIZE (pkt_size pkt) (offset rts) packet (chunks fb1))
                   (\<lambda>buf. let fb2 = fb1\<lparr>chunks := buf\<rparr>
                     in Done (st1\<lparr>activeFrames := (activeFrames st)(frameNum \<mapsto> fb2),
                          frameNumQueue := (if totalSize fb2 = expectedSize fb2
                             then snd (tsq_Push frameNum (frameNumQueue st)) else frameNumQueue st)\<rparr>)))"

definition consumer_step :: "'bmp client_state \<Rightarrow> 'bmp client_state outcome" where
  "consumer_step st =
     (if tsq_isEmpty (packetQueue st) then Done st
      else case tsq_Pop tsq_timeout (packetQueue st) of
          (Done packet, q) \<Rightarrow> consume_packet packet (st\<lparr>packetQueue := q\<rparr>)
        | (Fault e, q) \<Rightarrow> Fault e
        | (Blocks, q) \<Rightarrow> Blocks)"

fun consume_packets :: "BYTE list list \<Rightarrow> 'bmp client_state \<Rightarrow> 'bmp client_state outcome" where
  "consume_packets [] st = Done st"
| "consume_packets (packet # packets) st =
     bind_outcome (consume_packet packet st) (consume_packets packets)"

section \<open>Decoder, timer and painting\<close>

text \<open>
  \<open>CompareNumBmpPairs\<close>: the pair with the greater number is the smaller one, so the queue
  gives the lowest frame number first.
\<close>

definition CompareNumBmpPairs :: "'bmp num_bmp \<Rightarrow> 'bmp num_bmp \<Rightarrow> bool" where
  "CompareNumBmpPairs a b \<longleftrightarrow> fst b < fst a"

text \<open>
  \<open>decodeImage\<close> reads the buffer through a memory stream with GDI+; the function from the bytes
  to the bitmap, if they are an image, is a parameter.
\<close>

definition decoder_step ::
  "(BYTE list \<Rightarrow> 'bmp option) \<Rightarrow> 'bmp client_state \<Rightarrow> 'bmp client_state outcome" where
  "decoder_step decodeImage st =
     (if tsq_isEmpty (frameNumQueue st) then Done st
      else case tsq_Pop tsq_timeout (frameNumQueue st) of
          (Done n, q) \<Rightarrow>
            let fb = (case activeFrames st n of None \<Rightarrow> FrameBuffer | Some fb \<Rightarrow> fb);
                newBmp = decodeImage (chunks fb)
            in Done (st\<lparr>frameNumQueue := q,
                 frameNumBmpQueue := (if newBmp = None then frameNumBmpQueue st
                   else snd (tspq_Push CompareNumBmpPairs (n, newBmp) (frameNumBmpQueue st))),
                 activeFrames := (activeFrames st)(n := None)\<rparr>)
        | (Fault e, q) \<Rightarrow> Fault e
        | (Blocks, q) \<Rightarrow> Blocks)"

definition timer_step :: "'bmp client_state \<Rightarrow> 'bmp client_state" where
  "timer_step st = st\<lparr>loadFrame := True\<rparr>"

text \<open>The \<open>WM_PAINT\<close> branch of \<open>WndProc\<close>.\<close>

definition paint_step :: "'bmp client_state \<Rightarrow> 'bmp client_state outcome" where
  "paint_step st =
     (if \<not> loadFrame st \<or> tspq_isEmpty (frameNumBmpQueue st) then Done st
      else case tspq_Pop tsq_timeout (frameNumBmpQueue st) of
          (Done (n, currBmp), q) \<Rightarrow>
            Done (if currBmp \<noteq> None
                  then st\<lparr>frameNumBmpQueue := q, loadFrame := False,
                          displayed := displayed st @ [(n, currBmp)]\<rparr>
                  else st\<lparr>frameNumBmpQueue := q\<rparr>)
        | (Fault e, q) \<Rightarrow> Fault e
        | (Blocks, q) \<Rightarrow> Blocks)"

interpretation frame_order: prio_order CompareNumBmpPairs
  by unfold_locales (auto simp: CompareNumBmpPairs_def)

end
