(* ===== verification/Reassembly.thy ===== *)
theory Reassembly
  imports HostStream ClientPipeline
begin

text \<open>
  From the host's fragments to the viewer's frame buffers. The consumer is shown to implement a
  small specification: per frame the list of chunk indices that have arrived, and the list of
  frames reported complete. Everything about arrival order, loss, duplication and the mixing of
  frames is then a fact about that specification.
\<close>

section \<open>The specification\<close>

text \<open>
  \<open>frames f\<close> are the bytes the host sends as frame \<open>f\<close>. An arrival is a pair of a frame
  number and a chunk index.
\<close>

record arrivals =
  arrived :: "DWORD \<Rightarrow> nat list"
  completed :: "DWORD list"

definition no_arrivals :: arrivals where
  "no_arrivals = \<lparr>arrived = (\<lambda>_. []), completed = []\<rparr>"

definition bytes_in :: "BYTE list \<Rightarrow> nat list \<Rightarrow> nat" where
  "bytes_in frame is = (\<Sum>i \<leftarrow> is. length (chunk PAYLOAD_SIZE frame i))"

definition arrive :: "(DWORD \<Rightarrow> BYTE list) \<Rightarrow> DWORD \<times> nat \<Rightarrow> arrivals \<Rightarrow> arrivals" where
  "arrive frames fi a =
     (let is = arrived a (fst fi) @ [snd fi]; frame = frames (fst fi)
      in a\<lparr>arrived := (arrived a)(fst fi := is),
           completed := (if bytes_in frame is mod 2 ^ 32 = length frame mod 2 ^ 32
             then completed a @ [fst fi] else completed a)\<rparr>)"

text \<open>Which fragments the host can have sent: those of the frames' own chunks.\<close>

definition k_of :: "BYTE list \<Rightarrow> nat" where
  "k_of frame = nchunks PAYLOAD_SIZE (length frame)"

definition fragment :: "(DWORD \<Rightarrow> BYTE list) \<Rightarrow> DWORD \<times> nat \<Rightarrow> bool" where
  "fragment frames fi \<longleftrightarrow> sendable PACKET_SIZE (frames (fst fi)) \<and> snd fi < k_of (frames (fst fi))"

section \<open>Refinement\<close>

definition filled :: "DWORD \<Rightarrow> BYTE list \<Rightarrow> nat list \<Rightarrow> frame_buffer" where
  "filled f frame is = \<lparr>chunks = partial_frame PAYLOAD_SIZE frame (set is), totalChunks = 0,
     totalSize = word_of_nat (bytes_in frame is), expectedSize = word_of_nat (length frame),
     fb_frameNumber = f, fb_totalPackets = word_of_nat (length is)\<rparr>"

definition buffer_of :: "DWORD \<Rightarrow> BYTE list \<Rightarrow> nat list \<Rightarrow> frame_buffer option" where
  "buffer_of f frame is = (if is = [] then None else Some (filled f frame is))"

definition implements :: "(DWORD \<Rightarrow> BYTE list) \<Rightarrow> 'bmp client_state \<Rightarrow> arrivals \<Rightarrow> bool" where
  "implements frames st a \<longleftrightarrow> (\<forall>f. activeFrames st f = buffer_of f (frames f) (arrived a f))
     \<and> queue (frameNumQueue st) = completed a"

lemma PAYLOAD_pos [simp]: "PAYLOAD_SIZE = 4060"
  by (simp add: PAYLOAD_SIZE_def CLIENT_PACKET_SIZE_def)

lemma implements_init: "implements frames client_init no_arrivals"
  by (simp add: implements_def client_init_def no_arrivals_def buffer_of_def ThreadSafeQueue_def)

lemma bytes_in_simps [simp]:
  "bytes_in frame [] = 0" "bytes_in frame (is @ [i]) = bytes_in frame is + length (chunk 4060 frame i)"
  by (simp_all add: bytes_in_def)

lemma fragment_bounds:
  assumes "fragment frames (f, i)"
  shows "i < nchunks 4060 (length (frames f))" "i < 65536" "length (frames f) < 2 ^ 32"
    "frames f \<noteq> []" "length (chunk 4060 (frames f) i) \<le> 4060"
proof -
  from assms show i: "i < nchunks 4060 (length (frames f))"
    by (simp add: fragment_def k_of_def)
  with assms show "i < 65536" "length (frames f) < 2 ^ 32" "frames f \<noteq> []"
    by (auto simp: fragment_def sendable_def PACKET_SIZE_def)
  show "length (chunk 4060 (frames f) i) \<le> 4060" by (simp add: length_chunk)
qed

text \<open>Opening the buffer of a frame gives the buffer of what has arrived so far.\<close>

lemma open_buffer_filled:
  assumes "pkt_header = frame_header t 4060 f frame s i" and "frame \<noteq> []" and "length frame < 2 ^ 32"
  shows "open_buffer pkt_header (buffer_of f frame is) = filled f frame is"
proof -
  have "partial_frame 4060 frame (set is) \<noteq> []"
    using assms(2) by (metis length_0_conv length_partial_frame)
  then show ?thesis
    using assms
    by (auto simp: open_buffer_def buffer_of_def filled_def FrameBuffer_def frame_header_def
        zero_packet_def partial_frame_empty)
qed

lemma copy_fragment:
  assumes "fragment frames (f, i)"
  shows "copy_payload 4060 (word_of_nat (length (chunk 4060 (frames f) i) + 36)) (word_of_nat i)
      (frame_datagram t 4060 f (frames f) s i @ junk) (partial_frame 4060 (frames f) S)
    = Done (partial_frame 4060 (frames f) (insert i S))"
proof -
  note b = fragment_bounds[OF assms]
  let ?c = "chunk 4060 (frames f) i"
  have size: "unat (word_of_nat (length ?c + 36) :: WORD) = length ?c + 36"
    by (rule unat_of_nat_16) (use b(5) in simp)
  have "mem_read (frame_datagram t 4060 f (frames f) s i @ junk) 36 (length ?c) = Done ?c"
    by (subst mem_read_ok) (simp_all add: length_frame_datagram frame_datagram_def)
  moreover have "mem_write (partial_frame 4060 (frames f) S) (i * 4060) ?c
      = Done (partial_frame 4060 (frames f) (insert i S))"
    by (rule write_chunk) (use b(1) in simp_all)
  ultimately show ?thesis
    unfolding copy_payload_def size using b(2) by simp
qed

text \<open>What one fragment does to the viewer, given what has arrived of its frame.\<close>

definition put_fragment ::
  "DWORD \<Rightarrow> BYTE list \<Rightarrow> nat list \<Rightarrow> nat \<Rightarrow> 'bmp client_state \<Rightarrow> 'bmp client_state" where
  "put_fragment f frame is i st =
     (if is = [] then st\<lparr>latestFrame := f\<rparr> else st)
       \<lparr>activeFrames := (activeFrames st)(f \<mapsto> filled f frame (is @ [i])),
        frameNumQueue := (if bytes_in frame (is @ [i]) mod 2 ^ 32 = length frame mod 2 ^ 32
          then snd (tsq_Push f (frameNumQueue st)) else frameNumQueue st)\<rparr>"

lemma consume_fragment_at:
  assumes entry: "activeFrames st f = buffer_of f (frames f) is" and F: "fragment frames (f, i)"
  shows "consume_packet (frame_datagram t 4060 f (frames f) s i @ junk) st
    = Done (put_fragment f (frames f) is i st)"
proof -
  note b = fragment_bounds[OF F]
  let ?is = "is" and ?frame = "frames f" and ?h = "frame_header t 4060 f (frames f) s i"
  let ?c = "chunk 4060 ?frame i"
  have dec: "decode_rtmp (frame_datagram t 4060 f ?frame s i @ junk) = ?h"
    by (simp add: frame_datagram_def)
  have ob: "open_buffer ?h (buffer_of f ?frame ?is) = filled f ?frame ?is"
    by (rule open_buffer_filled[OF refl b(4,3)])
  have rts: "get_rtsmp (rtmp_data ?h) = \<lparr>streamType = t, frameNumber = f, offset = word_of_nat i,
      totalPackets = word_of_nat (nchunks 4060 (length ?frame))\<rparr>"
    by (simp add: frame_header_def)
  have ty: "pkt_type ?h = 1" "pkt_size ?h = word_of_nat (length ?c + 36)"
    by (simp_all add: frame_header_def)
  have "(ucast (word_of_nat (length ?c + 36) :: WORD) :: DWORD) = word_of_nat (length ?c + 36)"
  proof (rule word_eq_of_nat)
    show "unat (ucast (word_of_nat (length ?c + 36) :: WORD) :: DWORD) = length ?c + 36"
      unfolding unat_ucast_16_32 by (rule unat_of_nat_16) (use b(5) in simp)
  qed
  then have tot: "totalSize (filled f ?frame ?is) + (ucast (pkt_size ?h) - 36)
      = word_of_nat (bytes_in ?frame (?is @ [i]))"
    by (simp add: ty filled_def)
  have eq: "(word_of_nat (bytes_in ?frame (?is @ [i])) :: DWORD) = word_of_nat (length ?frame)
      \<longleftrightarrow> bytes_in ?frame (?is @ [i]) mod 2 ^ 32 = length ?frame mod 2 ^ 32"
    by (simp only: word_of_nat_eq_iff take_bit_eq_mod len_num0 len_of_numeral_defs) simp
  have opened: "chunks (filled f ?frame ?is) = partial_frame 4060 ?frame (set ?is)"
    "expectedSize (filled f ?frame ?is) = word_of_nat (length ?frame)"
    by (simp_all add: filled_def)
  have result: "(filled f ?frame ?is)\<lparr>fb_totalPackets := fb_totalPackets (filled f ?frame ?is) + 1,
      totalSize := word_of_nat (bytes_in ?frame (?is @ [i])),
      chunks := partial_frame 4060 ?frame (insert i (set ?is))\<rparr> = filled f ?frame (?is @ [i])"
    by (simp add: filled_def)
  have "chunks (filled f ?frame ?is) \<noteq> []"
    using b(4) opened(1) by (metis length_0_conv length_partial_frame)
  then have opens: "opens_buffer (buffer_of f ?frame ?is) \<longleftrightarrow> ?is = []"
    by (simp add: opens_buffer_def buffer_of_def)
  show ?thesis
    using result
    by (simp add: consume_packet_def Let_def dec rts ty(1) entry ob tot opened eq opens
        copy_fragment[OF F, folded ty(2)] put_fragment_def del: bytes_in_simps)
qed

lemma consume_fragment:
  assumes R: "implements frames st a" and F: "fragment frames (f, i)"
  shows "\<exists>st'. consume_packet (frame_datagram t 4060 f (frames f) s i @ junk) st = Done st'
    \<and> implements frames st' (arrive frames (f, i) a)"
proof -
  have "activeFrames st f = buffer_of f (frames f) (arrived a f)"
    using R by (simp add: implements_def)
  note consume_fragment_at[OF this F, of t s junk]
  moreover have "implements frames (put_fragment f (frames f) (arrived a f) i st) (arrive frames (f, i) a)"
    using R by (simp add: implements_def arrive_def Let_def buffer_of_def put_fragment_def tsq_Push_def
        tsq_release_def tsq_enqueue_def split_def del: bytes_in_simps)
  ultimately show ?thesis by blast
qed

text \<open>
  Any list of arrivals: fragments lost, repeated, reordered or mixed with those of other frames,
  each in a packet buffer with any bytes after it.
\<close>

definition datagram_of ::
  "BYTE \<Rightarrow> (DWORD \<Rightarrow> DWORD) \<Rightarrow> (DWORD \<Rightarrow> BYTE list) \<Rightarrow> DWORD \<times> nat \<Rightarrow> BYTE list" where
  "datagram_of t sq frames fi = frame_datagram t PAYLOAD_SIZE (fst fi) (frames (fst fi)) (sq (fst fi)) (snd fi)"

definition in_buffers :: "(BYTE list \<times> BYTE list) list \<Rightarrow> BYTE list list" where
  "in_buffers xs = map (\<lambda>(d, junk). d @ junk) xs"

lemma consume_run:
  assumes "implements frames st a" and "\<forall>x \<in> set xs. fragment frames (fst x)"
  shows "\<exists>st'. consume_packets (map (\<lambda>(fi, junk). datagram_of t sq frames fi @ junk) xs) st = Done st'
    \<and> implements frames st' (fold (arrive frames) (map fst xs) a)"
  using assms
proof (induction xs arbitrary: st a)
  case Nil
  then show ?case by simp
next
  case (Cons x xs)
  obtain f i junk where x: "x = ((f, i), junk)" by (cases x) auto
  with Cons.prems have "fragment frames (f, i)" by simp
  from consume_fragment[OF Cons.prems(1) this, of t "sq f" junk] obtain st1 where
    "consume_packet (datagram_of t sq frames (f, i) @ junk) st = Done st1"
    "implements frames st1 (arrive frames (f, i) a)"
    by (auto simp: datagram_of_def)
  with Cons.IH[of st1 "arrive frames (f, i) a"] Cons.prems(2) x show ?case by simp
qed

section \<open>Facts of the specification\<close>

lemma arrived_arrive:
  "arrived (arrive frames fi a) f = (if f = fst fi then arrived a f @ [snd fi] else arrived a f)"
  by (simp add: arrive_def Let_def)

lemma arrived_fold:
  "arrived (fold (arrive frames) xs a) f = arrived a f @ map snd (filter (\<lambda>x. fst x = f) xs)"
  by (induction xs arbitrary: a) (auto simp: arrived_arrive)

lemma bytes_in_distinct:
  assumes "distinct is" and "set is \<subseteq> {..<k_of frame}"
  shows "bytes_in frame is \<le> length frame"
    and "bytes_in frame is = length frame \<longleftrightarrow> set is = {..<k_of frame}"
  using assms sum_chunks_subset[of 4060 "set is" frame]
  by (simp_all add: bytes_in_def k_of_def sum_list_distinct_conv_sum_set)

lemma set_arrived:
  "set (arrived (fold (arrive frames) xs no_arrivals) f) = {i. (f, i) \<in> set xs}"
  by (auto simp: arrived_fold no_arrivals_def image_iff)

lemma distinct_arrived: "distinct xs \<Longrightarrow> distinct (arrived (fold (arrive frames) xs no_arrivals) f)"
  by (simp add: arrived_fold no_arrivals_def distinct_map inj_on_def)

text \<open>
  Without duplicates a frame is reported exactly when its last chunk arrives: it is in the list
  of completed frames, once, if and only if all its chunks have arrived.
\<close>

lemma completed_distinct:
  assumes "distinct xs" and "\<forall>fi \<in> set xs. fragment frames fi"
  shows "distinct (completed (fold (arrive frames) xs no_arrivals))
    \<and> (\<forall>f. frames f \<noteq> [] \<longrightarrow> (f \<in> set (completed (fold (arrive frames) xs no_arrivals))
         \<longleftrightarrow> {i. (f, i) \<in> set xs} = {..<k_of (frames f)}))
    \<and> fst ` set xs \<supseteq> set (completed (fold (arrive frames) xs no_arrivals))"
  using assms
proof (induction xs rule: rev_induct)
  case Nil
  have "k_of (frames f) \<noteq> 0" if "frames f \<noteq> []" for f
    using that nchunks_less[of 4060 0 "length (frames f)"] by (simp add: k_of_def)
  then show ?case by (auto simp: no_arrivals_def)
next
  case (snoc x xs)
  obtain f i where x: "x = (f, i)" by (cases x)
  let ?a = "fold (arrive frames) xs no_arrivals"
  let ?is = "arrived ?a f @ [i]"
  note b = fragment_bounds[of frames f i]
  have F: "fragment frames (f, i)" using snoc.prems(2) x by simp
  have new: "(f, i) \<notin> set xs" using snoc.prems(1) x by simp
  have set_is: "set ?is = {j. (f, j) \<in> set (xs @ [x])}" using x by (auto simp: set_arrived)
  have "distinct ?is"
    using distinct_arrived[of xs frames f] snoc.prems(1) new by (simp add: set_arrived)
  moreover have "set ?is \<subseteq> {..<k_of (frames f)}"
    using set_is snoc.prems(2) by (auto simp: fragment_def)
  ultimately have full: "bytes_in (frames f) ?is \<le> length (frames f)"
    "bytes_in (frames f) ?is = length (frames f) \<longleftrightarrow> set ?is = {..<k_of (frames f)}"
    by (rule bytes_in_distinct)+
  then have test: "bytes_in (frames f) ?is mod 2 ^ 32 = length (frames f) mod 2 ^ 32
      \<longleftrightarrow> {j. (f, j) \<in> set (xs @ [x])} = {..<k_of (frames f)}"
    using b(3)[OF F] set_is by simp
  have old: "f \<notin> set (completed ?a)"
  proof
    assume "f \<in> set (completed ?a)"
    with snoc.IH snoc.prems b(4)[OF F] have "{j. (f, j) \<in> set xs} = {..<k_of (frames f)}" by simp
    moreover have "i < k_of (frames f)" using F by (simp add: fragment_def)
    ultimately show False using new by auto
  qed
  have other: "{j. (g, j) \<in> set (xs @ [x])} = {j. (g, j) \<in> set xs}" if "g \<noteq> f" for g
    using that x by auto
  have comp: "completed (fold (arrive frames) (xs @ [x]) no_arrivals) =
      (if {j. (f, j) \<in> set (xs @ [x])} = {..<k_of (frames f)} then completed ?a @ [f] else completed ?a)"
    using test x by (simp add: arrive_def Let_def del: bytes_in_simps)
  have sub: "distinct xs" "\<forall>fi \<in> set xs. fragment frames fi" using snoc.prems by auto
  note IH = snoc.IH[OF sub]
  show ?case
  proof (intro conjI allI impI)
    show "distinct (completed (fold (arrive frames) (xs @ [x]) no_arrivals))"
      unfolding comp using IH old by simp
    show "set (completed (fold (arrive frames) (xs @ [x]) no_arrivals)) \<subseteq> fst ` set (xs @ [x])"
      unfolding comp using IH x by auto
    fix g assume g: "frames g \<noteq> []"
    show "g \<in> set (completed (fold (arrive frames) (xs @ [x]) no_arrivals))
        \<longleftrightarrow> {i. (g, i) \<in> set (xs @ [x])} = {..<k_of (frames g)}"
    proof (cases "g = f")
      case True
      with old show ?thesis by (simp only: comp) simp
    next
      case False
      with IH g show ?thesis by (simp only: comp other[OF False]) simp
    qed
  qed
qed

section \<open>All frames of a stream\<close>

text \<open>
  The frames of a stream by their numbers, the sequence number each starts with, and the
  fragments the host sends for them, in the order it sends them.
\<close>

definition frame_table :: "BYTE list list \<Rightarrow> DWORD \<Rightarrow> BYTE list" where
  "frame_table frs f = (if unat f < length frs then frs ! unat f else [])"

definition seq_table :: "BYTE list list \<Rightarrow> DWORD \<Rightarrow> DWORD \<Rightarrow> DWORD" where
  "seq_table frs q f = stream_seq PAYLOAD_SIZE frs q (unat f)"

definition stream_fragments :: "BYTE list list \<Rightarrow> (DWORD \<times> nat) list" where
  "stream_fragments frs = concat (map (\<lambda>n. map (Pair (word_of_nat n)) [0..<k_of (frs ! n)]) [0..<length frs])"

lemma frame_table_nth [simp]:
  "n < length frs \<Longrightarrow> length frs \<le> 2 ^ 32 \<Longrightarrow> frame_table frs (word_of_nat n) = frs ! n"
  by (simp add: frame_table_def)

lemma stream_datagrams_fragments:
  assumes "length frs \<le> 2 ^ 32"
  shows "stream_datagrams t 4060 frs 0 q
    = map (datagram_of t (seq_table frs q) (frame_table frs)) (stream_fragments frs)"
  using assms
  by (auto simp: stream_datagrams_def stream_fragments_def map_concat datagram_of_def
      seq_table_def k_of_def intro!: arg_cong[where f = concat])

lemma in_stream_fragments:
  assumes "length frs \<le> 2 ^ 32" and "n < length frs"
  shows "(word_of_nat n, i) \<in> set (stream_fragments frs) \<longleftrightarrow> i < k_of (frs ! n)"
proof -
  have "(word_of_nat n :: DWORD) = word_of_nat m \<longleftrightarrow> n = m" if "m < length frs" for m
    using assms that by (simp add: DWORD_of_nat_eq_iff)
  with assms(2) show ?thesis by (force simp: stream_fragments_def)
qed

lemma distinct_stream_fragments:
  assumes "length frs \<le> 2 ^ 32"
  shows "distinct (stream_fragments frs)"
proof -
  have inj: "inj_on (word_of_nat :: nat \<Rightarrow> DWORD) {..<length frs}"
    using assms by (auto simp: inj_on_def DWORD_of_nat_eq_iff)
  have "distinct (concat (map (\<lambda>n. map (Pair (word_of_nat n :: DWORD)) [0..<g n]) [0..<m]))"
    if "m \<le> length frs" for m and g :: "nat \<Rightarrow> nat"
    using that
  proof (induction m)
    case (Suc m)
    have ne: "\<not> n < m" if "(word_of_nat m :: DWORD) = word_of_nat n" for n
      using inj_onD[OF inj, of m n] that Suc.prems by auto
    show ?case using Suc by (auto simp: distinct_map inj_on_def dest!: ne)
  qed simp
  then show ?thesis by (simp add: stream_fragments_def)
qed

lemma fragments_sendable:
  assumes "\<forall>fr \<in> set frs. sendable PACKET_SIZE fr" and "length frs \<le> 2 ^ 32"
    and "fi \<in> set (stream_fragments frs)"
  shows "fragment (frame_table frs) fi"
  using assms by (auto simp: stream_fragments_def fragment_def)

lemma completed_stream:
  assumes "\<forall>fr \<in> set frs. sendable PACKET_SIZE fr \<and> fr \<noteq> []" and "length frs \<le> 2 ^ 32"
    and "mset fis = mset (stream_fragments frs)"
  shows "mset (completed (fold (arrive (frame_table frs)) fis no_arrivals))
    = mset (map word_of_nat [0..<length frs])"
proof -
  let ?c = "completed (fold (arrive (frame_table frs)) fis no_arrivals)"
  have d: "distinct fis" using distinct_stream_fragments[OF assms(2)] assms(3) mset_eq_imp_distinct_iff by blast
  have s: "set fis = set (stream_fragments frs)" using assms(3) by (rule mset_eq_setD)
  have fr: "\<forall>fi \<in> set fis. fragment (frame_table frs) fi"
    using fragments_sendable assms(1,2) s by blast
  note C = completed_distinct[OF d fr]
  have all: "word_of_nat n \<in> set ?c" if "n < length frs" for n
  proof -
    have "frame_table frs (word_of_nat n) \<noteq> []" using that assms(1,2) by simp
    moreover have "{i. (word_of_nat n, i) \<in> set fis} = {..<k_of (frame_table frs (word_of_nat n))}"
      using in_stream_fragments[OF assms(2) that] that assms(2) s by auto
    ultimately show ?thesis using C by blast
  qed
  have "set ?c \<subseteq> fst ` set (stream_fragments frs)" using C s by simp
  then have "set ?c = word_of_nat ` {0..<length frs}"
    using all by (auto simp: stream_fragments_def)
  moreover have "inj_on (word_of_nat :: nat \<Rightarrow> DWORD) {0..<length frs}"
    using assms(2) by (auto simp: inj_on_def DWORD_of_nat_eq_iff)
  ultimately show ?thesis
    using C by (intro set_eq_iff_mset_eq_distinct[THEN iffD1]) (auto simp: distinct_map)
qed

text \<open>The buffers after every fragment has arrived.\<close>

lemma arrived_all:
  assumes "mset fis = mset (stream_fragments frs)" and "length frs \<le> 2 ^ 32" and "n < length frs"
  shows "set (arrived (fold (arrive (frame_table frs)) fis no_arrivals) (word_of_nat n))
    = {..<k_of (frs ! n)}"
  using in_stream_fragments[OF assms(2,3)] mset_eq_setD[OF assms(1)]
  by (auto simp: set_arrived)

section \<open>What the viewer guarantees\<close>

text \<open>
  C10: The consumer thread is safe and correct on everything the network can do to the host's
  fragments. Whatever fragments of whatever frames arrive, in any order, any number of times, with
  any bytes behind them in the receive buffer, no copy leaves its buffers, and each frame's buffer
  holds exactly the bytes of the chunks that have arrived, zero elsewhere, with their sizes and
  their number counted.
\<close>

theorem consumer_refines_arrivals:
  assumes "\<forall>x \<in> set xs. fragment frames (fst x)"
  shows "\<exists>st. consume_packets (map (\<lambda>(fi, junk). datagram_of t sq frames fi @ junk) xs) client_init
      = Done (st :: 'bmp client_state)
    \<and> (\<forall>f. let is = map snd (filter (\<lambda>fi. fst fi = f) (map fst xs)) in
         activeFrames st f = (if is = [] then None else Some
           \<lparr>chunks = partial_frame PAYLOAD_SIZE (frames f) (set is), totalChunks = 0,
            totalSize = word_of_nat (\<Sum>i \<leftarrow> is. length (chunk PAYLOAD_SIZE (frames f) i)),
            expectedSize = word_of_nat (length (frames f)), fb_frameNumber = f,
            fb_totalPackets = word_of_nat (length is)\<rparr>))
    \<and> queue (frameNumQueue st) = completed (fold (arrive frames) (map fst xs) no_arrivals)"
proof -
  from consume_run[OF implements_init assms, of t sq] obtain st :: "'bmp client_state" where
    st: "consume_packets (map (\<lambda>(fi, junk). datagram_of t sq frames fi @ junk) xs) client_init = Done st"
    and R: "implements frames st (fold (arrive frames) (map fst xs) no_arrivals)"
    by (elim exE conjE)
  from R st show ?thesis
    by (intro exI[of _ st])
       (simp add: implements_def arrived_fold no_arrivals_def buffer_of_def filled_def bytes_in_def Let_def)
qed

theorem consumer_refines_arrivals_witness:
  "let frames = (\<lambda>_. [1, 2, 3]); xs = [((5, 0), [9]), ((7, 0), []), ((5, 0), [])] in
    \<exists>st. consume_packets (map (\<lambda>(fi, junk). datagram_of 1 (\<lambda>_. 0) frames fi @ junk) xs) client_init
        = Done (st :: nat client_state)
      \<and> queue (frameNumQueue st) = [5, 7]"
proof -
  let ?fr = "\<lambda>_ :: DWORD. [1, 2, 3] :: BYTE list"
  have "\<forall>x \<in> set [((5 :: DWORD, 0 :: nat), [9 :: BYTE]), ((7, 0), []), ((5, 0), [])]. fragment ?fr (fst x)"
    by (simp add: fragment_def sendable_def PACKET_SIZE_def k_of_def nchunks_def)
  note T = consumer_refines_arrivals[OF this, of 1 "\<lambda>_. 0", where ?'bmp = nat]
  have c: "completed (fold (arrive ?fr) (map fst [((5, 0), [9 :: BYTE]), ((7, 0), []), ((5, 0), [])]) no_arrivals)
      = [5, 7]"
    by (simp add: arrive_def Let_def no_arrivals_def bytes_in_def chunk_def)
  show ?thesis unfolding Let_def using T unfolding c by blast
qed

text \<open>
  Arrivals are counted by their bytes, not by which chunk they bring: of a frame of \<open>m\<close> full
  chunks, any \<open>m\<close> arrivals, duplicates among them, complete it.
\<close>

lemma full_chunk:
  assumes "length frame = m * PAYLOAD_SIZE" and "i < m"
  shows "length (chunk PAYLOAD_SIZE frame i) = 4060"
proof -
  obtain d where "m = i + Suc d" using assms(2) less_iff_Suc_add[of i m] by auto
  then show ?thesis using assms(1) by (simp add: length_chunk)
qed

lemma bytes_in_full:
  "length frame = m * PAYLOAD_SIZE \<Longrightarrow> \<forall>i \<in> set is. i < m \<Longrightarrow> bytes_in frame is = length is * 4060"
  by (induction "is") (auto simp: bytes_in_def full_chunk[unfolded PAYLOAD_pos])

lemma any_arrivals_complete:
  assumes "sendable PACKET_SIZE frame" and len: "length frame = m * PAYLOAD_SIZE" and "0 < m"
    and "\<forall>i \<in> set is. i < m" and "length is \<le> m"
  shows "arrived (fold (arrive (\<lambda>_. frame)) (map (Pair f) is) no_arrivals) f = is
    \<and> completed (fold (arrive (\<lambda>_. frame)) (map (Pair f) is) no_arrivals) = (if length is = m then [f] else [])"
  using assms(4,5)
proof (induction "is" rule: rev_induct)
  case Nil
  then show ?case using assms(3) by (simp add: no_arrivals_def)
next
  case (snoc i "is")
  have n: "m * 4060 < 2 ^ 32" using assms(1) len by (simp add: sendable_def)
  have "Suc (length is) * 4060 \<le> m * 4060" using snoc.prems(2) by (intro mult_le_mono1) simp
  then have small: "Suc (length is) * 4060 < 2 ^ 32" using n by linarith
  have "bytes_in frame (is @ [i]) = Suc (length is) * 4060" using bytes_in_full[OF len, of "is @ [i]"] snoc.prems(1) by simp
  moreover have "Suc (length is) * 4060 = m * 4060 \<longleftrightarrow> Suc (length is) = m" by (simp only: mult_cancel2) simp
  ultimately have "bytes_in frame (is @ [i]) mod 2 ^ 32 = length frame mod 2 ^ 32 \<longleftrightarrow> Suc (length is) = m"
    using n small len by (metis PAYLOAD_pos mod_less)
  with snoc show ?case by (auto simp: arrive_def Let_def simp del: bytes_in_simps)
qed

end
