(* ===== verification/ClientLibrary.thy ===== *)
theory ClientLibrary
  imports Network Stream Reassembly
begin

text \<open>
  The stream part of the client library, \<^verbatim>\<open>client.h\<close> and \<^verbatim>\<open>client.cpp\<close> of RDIBY and
  VideoClient: \<open>PacketManager\<close>, \<open>FramePacketsStream\<close>, which receives and acknowledges packets,
  and \<open>FrameBufferStream\<close>, which puts them together. One round of each loop is a step; the
  packet buffers, allocated by the one and freed by the other, are the lists of their bytes.
\<close>

section \<open>PacketManager\<close>

text \<open>\<open>sock\<close> is the socket of \<open>clientSock\<close>, \<open>res\<close> what \<^verbatim>\<open>sendto\<close> returns.\<close>

definition client_sendPacket :: "DWORD \<Rightarrow> SOCKET \<Rightarrow> rtmp_packet \<Rightarrow> BYTE list \<Rightarrow> net \<Rightarrow> net" where
  "client_sendPacket res sock packetHeader data n =
     snd (ClientSocket_sendDataTo res sock (encode_rtmp packetHeader @ data) n)"

definition ackPacket :: "DWORD \<Rightarrow> SOCKET \<Rightarrow> DWORD \<Rightarrow> net \<Rightarrow> net" where
  "ackPacket res sock seqNum n =
     (let ackPkt = zero_packet\<lparr>pkt_type := PACKET_TYPE_CONTROL, sequenceNumber := seqNum\<rparr>
      in snd (ClientSocket_sendDataTo res sock (encode_rtmp ackPkt) n))"

text \<open>
  One round of \<open>handleIncomingPackets\<close>. The comparison with 0 is on the \<open>DWORD\<close> that
  \<open>recvDataFrom\<close> returns.
\<close>

definition client_handleIncomingPacket ::
  "(BYTE \<Rightarrow> (rtmp_packet \<Rightarrow> 's \<Rightarrow> 's) option) \<Rightarrow> BYTE list \<Rightarrow> BYTE list option \<Rightarrow> 's \<Rightarrow> (BYTE list \<times> 's) outcome" where
  "client_handleIncomingPacket funcMap pkt dgram s =
     (let (res, pkt') = ClientSocket_recvDataFrom pkt dgram
      in if res < 0 then Done (pkt', s)
         else case funcMap (pkt_type (decode_rtmp pkt')) of
             None \<Rightarrow> Fault Null_call
           | Some h \<Rightarrow> Done (pkt', h (decode_rtmp pkt') s))"

section \<open>FramePacketsStream\<close>

text \<open>A packet buffer and the size received into it; without one, -1.\<close>

record frame_packet =
  fp_data :: "BYTE list"
  fp_size :: SIZE_T

definition FramePacketStreamData1 :: "BYTE list \<Rightarrow> frame_packet" where
  "FramePacketStreamData1 data = \<lparr>fp_data = data, fp_size = -1\<rparr>"

definition FramePacketStreamData2 :: "BYTE list \<Rightarrow> SIZE_T \<Rightarrow> frame_packet" where
  "FramePacketStreamData2 data n = \<lparr>fp_data = data, fp_size = n\<rparr>"

definition fp_getData :: "frame_packet \<Rightarrow> BYTE list" where "fp_getData p = fp_data p"
definition fp_getBytesDataPtr :: "frame_packet \<Rightarrow> BYTE list" where "fp_getBytesDataPtr p = fp_data p"
definition fp_getSize :: "frame_packet \<Rightarrow> SIZE_T" where "fp_getSize p = fp_size p"

type_synonym packets_stream = "frame_packet vcontainer stream"

definition FramePacketsStream :: packets_stream where
  "FramePacketsStream = continueStream (Stream ThreadSafeQueue)"

text \<open>
  One round of \<open>initStream\<close>: \<open>fresh\<close> is the new buffer of the stream's frame size. Copying
  the header reads 36 bytes of it.
\<close>

definition packets_round ::
  "DWORD \<Rightarrow> SOCKET \<Rightarrow> BYTE list \<Rightarrow> BYTE list option \<Rightarrow> packets_stream \<times> net \<Rightarrow> (packets_stream \<times> net) outcome" where
  "packets_round res sock fresh dgram st =
     (let (s, n) = st;
          (rsize, packet) = ClientSocket_recvDataFrom fresh dgram
      in if sint rsize < 0 then Done (s, n)
         else bind_outcome (mem_read packet 0 sizeof_rtmp) (\<lambda>header.
           let item = FramePacketStreamData2 packet (word_of_int (sint rsize))
           in Done (s\<lparr>streamContainer := vc_push item (streamContainer s)\<rparr>,
                ackPacket res sock (sequenceNumber (decode_rtmp header)) n)))"

section \<open>FrameBufferStream\<close>

type_synonym frame_map = "DWORD \<Rightarrow> frame_buffer option"

definition fb_get :: "DWORD \<Rightarrow> frame_map \<Rightarrow> frame_buffer \<times> frame_map" where
  "fb_get key m = (case m key of Some fb \<Rightarrow> (fb, m) | None \<Rightarrow> (FrameBuffer, m(key \<mapsto> FrameBuffer)))"

definition fb_push :: "DWORD \<Rightarrow> frame_buffer \<Rightarrow> frame_map \<Rightarrow> frame_map" where
  "fb_push key fb m = (if m key = None then m(key \<mapsto> fb) else m)"

definition fb_remove :: "DWORD \<Rightarrow> frame_map \<Rightarrow> frame_map" where
  "fb_remove key m = m(key := None)"

definition fb_clear :: "frame_map \<Rightarrow> frame_map" where
  "fb_clear m = Map.empty"

definition fb_getBytesDataPtr :: "frame_buffer \<Rightarrow> BYTE list" where "fb_getBytesDataPtr fb = chunks fb"
definition fb_getSize :: "frame_buffer \<Rightarrow> SIZE_T" where "fb_getSize fb = word_of_nat (length (chunks fb))"

text \<open>
  What a round does with a packet. The place of a chunk is \<open>offset\<close> times the frame size of the
  packet stream - the size of a whole packet -, a product of two \<open>WORD\<close>s in \<open>int\<close>.
\<close>

definition library_consume :: "WORD \<Rightarrow> BYTE list \<Rightarrow> frame_map \<Rightarrow> frame_map outcome" where
  "library_consume fsize packet m =
     bind_outcome (mem_read packet 0 sizeof_rtmp) (\<lambda>header.
       let pkt = decode_rtmp header
       in if pkt_type pkt \<noteq> PACKET_TYPE_STREAM then Done m
          else let rts = get_rtsmp (rtmp_data pkt);
                   frameNum = frameNumber rts;
                   (fb0, m1) = fb_get frameNum m;
                   fb = open_buffer pkt (Some fb0);
                   fb1 = fb\<lparr>fb_totalPackets := fb_totalPackets fb + 1,
                            totalSize := totalSize fb + (ucast (pkt_size pkt) - 36)\<rparr>
               in if 2 ^ 31 \<le> unat (offset rts) * unat fsize then Fault Int_overflow
                  else bind_outcome (copy_payload (unat fsize) (pkt_size pkt) (offset rts) packet (chunks fb1))
                         (\<lambda>buf. Done (m1(frameNum \<mapsto> fb1\<lparr>chunks := buf\<rparr>))))"

text \<open>
  A round of \<open>initStream\<close>: it spins while both streams are off, and takes the next packet.
\<close>

definition buffers_round ::
  "frame_map stream \<Rightarrow> packets_stream \<Rightarrow> (frame_map stream \<times> packets_stream) outcome" where
  "buffers_round s packetStream =
     (if \<not> isStreamOn s \<and> \<not> isStreamOn packetStream then Blocks
      else case frontFrame packetStream of
          (Done packet, packetStream') \<Rightarrow>
            bind_outcome (library_consume (getFrameSize packetStream') (fp_getBytesDataPtr packet) (streamContainer s))
              (\<lambda>m. Done (s\<lparr>streamContainer := m\<rparr>, packetStream'))
        | (Fault e, _) \<Rightarrow> Fault e
        | (Blocks, _) \<Rightarrow> Blocks)"

section \<open>Properties\<close>

lemma open_buffer_new: "open_buffer pkt (Some FrameBuffer) = open_buffer pkt None"
  by (simp add: open_buffer_def)

text \<open>The last chunk ends the frame; and what the library makes of the first packet that it gets of a frame.\<close>

lemma last_chunk:
  assumes "frame \<noteq> []"
  shows "0 < length (chunk 4060 frame (k_of frame - 1))"
    and "(k_of frame - 1) * 4060 + length (chunk 4060 frame (k_of frame - 1)) = length frame" and "0 < k_of frame"
proof -
  let ?i = "k_of frame - 1" and ?n = "length frame"
  show k: "0 < k_of frame" using assms nchunks_less[of 4060 0 ?n] by (simp add: k_of_def)
  then have "?i < nchunks 4060 ?n" "\<not> Suc ?i < nchunks 4060 ?n" by (simp_all add: k_of_def)
  then show "0 < length (chunk 4060 frame ?i)" "?i * 4060 + length (chunk 4060 frame ?i) = ?n"
    using chunk_nonempty[of 4060 ?i frame] by (auto simp: nchunks_less length_chunk min_def)
qed

lemma library_first_packet:
  assumes F: "fragment (\<lambda>_. frame) (f, i)" and m: "m f = None"
  shows "library_consume PACKET_SIZE (frame_datagram t PAYLOAD_SIZE f frame s i @ junk) m
    = bind_outcome (mem_write (partial_frame PAYLOAD_SIZE frame {}) (i * 4096) (chunk PAYLOAD_SIZE frame i)) (\<lambda>buf.
        Done (m(f \<mapsto> (filled f frame [i])\<lparr>chunks := buf\<rparr>)))"
proof -
  let ?c = "chunk 4060 frame i" and ?h = "frame_header t 4060 f frame s i"
  let ?d = "frame_datagram t 4060 f frame s i @ junk"
  note b = fragment_bounds[OF F]
  have hdr: "mem_read ?d 0 36 = Done (encode_rtmp ?h)" "decode_rtmp (encode_rtmp ?h) = ?h"
    using decode_encode_rtmp[of ?h "[]"] by (simp_all add: mem_read_def frame_datagram_def)
  have rts: "get_rtsmp (rtmp_data ?h) = \<lparr>streamType = t, frameNumber = f, offset = word_of_nat i,
      totalPackets = word_of_nat (nchunks 4060 (length frame))\<rparr>" by (simp add: frame_header_def)
  have ty: "pkt_type ?h = 1" "pkt_size ?h = word_of_nat (length ?c + 36)" by (simp_all add: frame_header_def)
  have ob: "open_buffer ?h (Some FrameBuffer) = filled f frame []"
    using open_buffer_filled[of ?h t f frame s i "[]", OF refl b(4,3)] by (simp add: open_buffer_new buffer_of_def)
  have i: "unat (word_of_nat i :: WORD) = i" "unat PACKET_SIZE = 4096" "\<not> 2 ^ 31 \<le> i * 4096"
    using b(2) by (simp_all add: PACKET_SIZE_def)
  have size: "unat (word_of_nat (length ?c + 36) :: WORD) = length ?c + 36"
    by (rule unat_of_nat_16) (use b(5) in simp)
  have rd: "mem_read ?d 36 (length ?c) = Done ?c"
    by (subst mem_read_ok) (simp_all add: length_frame_datagram frame_datagram_def)
  have "(ucast (word_of_nat (length ?c + 36) :: WORD) :: DWORD) = word_of_nat (length ?c + 36)"
    by (rule word_eq_of_nat) (simp only: unat_ucast_16_32 size)
  then have sz: "(ucast (word_of_nat (length ?c + 36) :: WORD) :: DWORD) - 36 = word_of_nat (length ?c)" by simp
  have "copy_payload 4096 (word_of_nat (length ?c + 36)) (word_of_nat i) ?d (chunks (filled f frame []))
      = mem_write (partial_frame 4060 frame {}) (i * 4096) ?c"
    unfolding copy_payload_def size using rd i by (simp add: filled_def)
  then show ?thesis
    using i rts ty ob hdr m sz
    by (cases "mem_write (partial_frame 4060 frame {}) (i * 4096) ?c")
      (simp_all add: library_consume_def Let_def fb_get_def filled_def bytes_in_def)
qed

text \<open>
  C34: The library's frame buffers hold only frames of one packet. It places a chunk at a multiple of
  the packet size, where the host cuts at the payload size: the only packet of a small frame gives
  the frame, and the last packet of any larger frame writes behind the end of the buffer.
\<close>

theorem library_overflows_large_frames:
  assumes "sendable PACKET_SIZE frame" and "frame \<noteq> []" and "m f = None"
  shows "library_consume PACKET_SIZE (frame_datagram t PAYLOAD_SIZE f frame s (k_of frame - 1) @ junk) m
    = (if k_of frame = 1 then Done (m(f \<mapsto> filled f frame [0])) else Fault Mem_fault)"
proof -
  let ?i = "k_of frame - 1"
  let ?c = "chunk 4060 frame ?i" and ?w = "mem_write (partial_frame 4060 frame {})"
  note c = last_chunk[OF assms(2)]
  have F: "fragment (\<lambda>_. frame) (f, ?i)" using assms(1) c(3) by (simp add: fragment_def)
  note first = library_first_packet[where m = m, OF F assms(3), of t s junk, unfolded PAYLOAD_pos]
  show ?thesis
  proof (cases "k_of frame = 1")
    case True
    then have "chunk 4060 frame 0 = frame" using c(2) by (simp add: chunk_def length_chunk)
    moreover have "?w 0 (chunk 4060 frame 0) = Done (partial_frame 4060 frame {0})"
      using write_chunk[of 4060 0 frame "{}"] fragment_bounds(1)[OF F] True by (simp add: k_of_def)
    ultimately show ?thesis using first True by (simp add: filled_def)
  next
    case False
    then have "length frame < ?i * 4096 + length ?c" using c by linarith
    then have "?w (?i * 4096) ?c = Fault Mem_fault" using c(1) by (auto simp: mem_write_def)
    with first False show ?thesis by simp
  qed
qed

theorem library_overflows_large_frames_witness:
  "library_consume PACKET_SIZE (frame_datagram 1 PAYLOAD_SIZE 5 (replicate 5000 7) 0 (k_of (replicate 5000 (7 :: BYTE)) - 1) @ []) Map.empty
    = (if k_of (replicate 5000 (7 :: BYTE)) = 1 then Done (Map.empty(5 \<mapsto> filled 5 (replicate 5000 7) [0])) else Fault Mem_fault)"
  by (rule library_overflows_large_frames) (simp_all add: sendable_def PACKET_SIZE_def nchunks_def)

text \<open>
  The library's receiver treats an error as a packet. When nothing can be received, \<open>recvDataFrom\<close>
  returns \<open>0xFFFFFFFF\<close>, which is not below 0, and the packet of the round before is dispatched
  again; before the first packet, the all-zero buffer is dispatched as an event.
\<close>

lemma library_dispatches_errors:
  "client_handleIncomingPacket funcMap pkt None s = (case funcMap (pkt_type (decode_rtmp pkt)) of
       None \<Rightarrow> Fault Null_call
     | Some h \<Rightarrow> Done (pkt, h (decode_rtmp pkt) s))
   \<and> pkt_type (decode_rtmp (encode_rtmp zero_packet)) = PACKET_TYPE_EVENT"
proof -
  have "decode_rtmp (encode_rtmp zero_packet) = zero_packet"
    using decode_encode_rtmp[OF wf_zero_packet, of "[]"] by simp
  then have "pkt_type (decode_rtmp (encode_rtmp zero_packet)) = PACKET_TYPE_EVENT" by (simp add: zero_packet_def)
  then show ?thesis
    by (simp add: client_handleIncomingPacket_def ClientSocket_recvDataFrom_def winsock_recvfrom_def)
qed

end
