(* ===== verification/Video.thy ===== *)
theory Video
  imports Stream HostStream
begin

text \<open>
  \<^verbatim>\<open>video.h\<close> and \<^verbatim>\<open>video.cpp\<close> (RDIBY, VideoHost): \<open>VideoCodec\<close>, \<open>VideoCapture\<close>,
  \<open>frame_data_t\<close> and \<open>VideoStream\<close>, which captures the screen into frames for the sender.
  What GDI, GDI+ and the global heap answer is an argument; the model keeps what the code must
  give back: the bitmap selected into each device context and the locks on memory blocks.
\<close>

section \<open>VideoCodec\<close>

type_synonym clsid = nat

definition CLSID_NULL :: clsid where "CLSID_NULL = 0"

text \<open>
  The encoder parameters point to the member \<open>quality\<close>, so that encoding uses its current value.
\<close>

record video_codec =
  vc_encoder :: clsid
  vc_quality :: DWORD

definition VideoCodec :: video_codec where
  "VideoCodec = \<lparr>vc_encoder = CLSID_NULL, vc_quality = 70\<rparr>"

definition setCodec :: "clsid \<Rightarrow> video_codec \<Rightarrow> video_codec" where
  "setCodec encoder c = c\<lparr>vc_encoder := encoder\<rparr>"

definition getCodec :: "video_codec \<Rightarrow> clsid" where "getCodec c = vc_encoder c"

definition setQuality :: "DWORD \<Rightarrow> video_codec \<Rightarrow> video_codec" where
  "setQuality quality c = c\<lparr>vc_quality := quality\<rparr>"

definition decodeFrame :: "nat option" where "decodeFrame = None"

text \<open>
  \<open>getEncoder\<close> searches the installed encoders (MIME type and class) from index \<open>i\<close> on.
\<close>

fun getEncoder_loop :: "(string \<times> clsid) list \<Rightarrow> string \<Rightarrow> clsid" where
  "getEncoder_loop [] encoderName = CLSID_NULL"
| "getEncoder_loop (e # enc) encoderName =
     (if fst e = encoderName then snd e else getEncoder_loop enc encoderName)"

definition getEncoder :: "(string \<times> clsid) list \<Rightarrow> string \<Rightarrow> clsid" where
  "getEncoder installed encoderName = getEncoder_loop installed encoderName"

text \<open>
  \<open>encodeFrame\<close>: a new stream, or null when none can be created. The result of \<^verbatim>\<open>Save\<close>, the
  parameter \<open>save\<close>, is not looked at: when it fails the stream is empty.
\<close>

definition encodeFrame ::
  "bool \<Rightarrow> (clsid \<Rightarrow> DWORD \<Rightarrow> BYTE list option) \<Rightarrow> video_codec \<Rightarrow> BYTE list option" where
  "encodeFrame created save c =
     (if \<not> created then None
      else Some (case save (vc_encoder c) (vc_quality c) of None \<Rightarrow> [] | Some bs \<Rightarrow> bs))"

section \<open>Capturing\<close>

record gdi =
  selected :: "nat \<Rightarrow> nat"
  locks :: "nat \<Rightarrow> nat"

definition SelectObject :: "nat \<Rightarrow> nat \<Rightarrow> gdi \<Rightarrow> nat \<times> gdi" where
  "SelectObject dc bmp g = (selected g dc, g\<lparr>selected := (selected g)(dc := bmp)\<rparr>)"

definition GlobalLock :: "nat \<Rightarrow> gdi \<Rightarrow> gdi" where
  "GlobalLock h g = g\<lparr>locks := (locks g)(h := Suc (locks g h))\<rparr>"

definition GlobalUnlock :: "nat \<Rightarrow> gdi \<Rightarrow> gdi" where
  "GlobalUnlock h g = g\<lparr>locks := (locks g)(h := locks g h - 1)\<rparr>"

text \<open>
  \<open>pFrame\<close> is the locked block's bytes, \<open>pStream\<close> the encoded bytes of the stream; \<open>None\<close> is
  the null pointer.
\<close>

record frame_data =
  pFrame :: "BYTE list option"
  hMemBuf :: "nat option"
  pStream :: "BYTE list option"
  fd_frameSize :: SIZE_T

definition frame_data_init :: frame_data where
  "frame_data_init = \<lparr>pFrame = None, hMemBuf = None, pStream = None, fd_frameSize = 0\<rparr>"

definition frame_data_destructor :: "frame_data \<Rightarrow> gdi \<Rightarrow> gdi" where
  "frame_data_destructor fd g = (case (hMemBuf fd, pFrame fd) of
       (Some h, Some _) \<Rightarrow> GlobalUnlock h g
     | _ \<Rightarrow> g)"

definition frame_data_reset :: "frame_data \<Rightarrow> gdi \<Rightarrow> frame_data \<times> gdi" where
  "frame_data_reset fd g = (case (hMemBuf fd, pFrame fd) of
       (Some h, Some _) \<Rightarrow> (fd\<lparr>pFrame := None, hMemBuf := None, pStream := None, fd_frameSize := 0\<rparr>, GlobalUnlock h g)
     | _ \<Rightarrow> (fd\<lparr>hMemBuf := None, pStream := None, fd_frameSize := 0\<rparr>, g))"

record video_capture =
  screenWidth :: int
  screenHeight :: int
  hScreen :: nat
  hMem :: nat
  hBmp :: nat
  codec :: video_codec

text \<open>\<open>init\<close>, with the metrics, device contexts and bitmap the system answers.\<close>

definition VideoCapture_init :: "int \<Rightarrow> int \<Rightarrow> nat \<Rightarrow> nat \<Rightarrow> nat \<Rightarrow> video_capture \<Rightarrow> video_capture" where
  "VideoCapture_init w h screenDC memDC bmp cap =
     cap\<lparr>screenWidth := w, screenHeight := h, hScreen := screenDC, hMem := memDC, hBmp := bmp\<rparr>"

definition VideoCapture_setCodec :: "clsid \<Rightarrow> video_capture \<Rightarrow> video_capture" where
  "VideoCapture_setCodec c cap = cap\<lparr>codec := setCodec c (codec cap)\<rparr>"

text \<open>
  The answers to one capture: of \<^verbatim>\<open>BitBlt\<close>, of creating the stream, of saving, of
  \<^verbatim>\<open>GetHGlobalFromStream\<close> (its block, when it succeeds), and the locked bytes of the block, when
  it can be locked, as many as \<^verbatim>\<open>GlobalSize\<close> says.
\<close>

record capture_answers =
  resBlt :: bool
  stream_created :: bool
  save_res :: "clsid \<Rightarrow> DWORD \<Rightarrow> BYTE list option"
  hglobal_res :: "nat option"
  lock_res :: "BYTE list option"

definition getCurrentFrame ::
  "capture_answers \<Rightarrow> video_capture \<Rightarrow> frame_data \<Rightarrow> gdi \<Rightarrow> bool \<times> frame_data \<times> gdi" where
  "getCurrentFrame os cap pFrameData g =
     (let (oldhBmp, g1) = SelectObject (hMem cap) (hBmp cap) g
      in if \<not> resBlt os then (False, pFrameData, snd (SelectObject (hMem cap) oldhBmp g1))
         else case encodeFrame (stream_created os) (save_res os) (codec cap) of
           None \<Rightarrow> (False, pFrameData, snd (SelectObject (hMem cap) oldhBmp g1))
         | Some strm \<Rightarrow> (case hglobal_res os of
             None \<Rightarrow> (False, pFrameData, snd (SelectObject (hMem cap) oldhBmp g1))
           | Some h \<Rightarrow> (case lock_res os of
               None \<Rightarrow> (False, pFrameData, snd (SelectObject (hMem cap) oldhBmp g1))
             | Some block \<Rightarrow>
                 (True, pFrameData\<lparr>pFrame := Some block, hMemBuf := Some h, pStream := Some strm,
                    fd_frameSize := word_of_nat (length block)\<rparr>,
                  snd (SelectObject (hMem cap) oldhBmp (GlobalLock h g1))))))"

section \<open>VideoStream\<close>

text \<open>\<open>VideoStreamData\<close> shares the frame; its bytes and its size are the frame's.\<close>

definition vsd_getBytesDataPtr :: "frame_data \<Rightarrow> BYTE list option" where "vsd_getBytesDataPtr d = pFrame d"
definition vsd_getSize :: "frame_data \<Rightarrow> SIZE_T" where "vsd_getSize d = fd_frameSize d"

record video_stream =
  vs_stream :: "frame_data vcontainer stream"
  videoCapture :: video_capture
  FPS :: nat

definition VideoStream :: "(string \<times> clsid) list \<Rightarrow> video_capture \<Rightarrow> video_stream" where
  "VideoStream installed initialised =
     \<lparr>vs_stream = continueStream (Stream ThreadSafeQueue),
      videoCapture = VideoCapture_setCodec (getEncoder installed ''image/jpeg'') initialised, FPS = 55\<rparr>"

text \<open>
  One round of \<open>initStream\<close>: it spins while the stream is off; a failed capture goes on with the
  next round, dropping its frame data.
\<close>

definition video_round :: "capture_answers \<Rightarrow> video_stream \<times> gdi \<Rightarrow> (video_stream \<times> gdi) outcome" where
  "video_round os st =
     (let (vs, g) = st
      in if \<not> isStreamOn (vs_stream vs) then Blocks
         else let (ok, fd, g1) = getCurrentFrame os (videoCapture vs) frame_data_init g
              in if \<not> ok then Done (vs, frame_data_destructor fd g1)
                 else Done (vs\<lparr>vs_stream := (vs_stream vs)\<lparr>streamContainer :=
                        vc_push fd (streamContainer (vs_stream vs))\<rparr>\<rparr>, g1))"

fun video_rounds :: "capture_answers list \<Rightarrow> video_stream \<times> gdi \<Rightarrow> (video_stream \<times> gdi) outcome" where
  "video_rounds [] st = Done st"
| "video_rounds (os # oss) st = bind_outcome (video_round os st) (video_rounds oss)"

section \<open>Lemmas\<close>

lemma select_back [simp]:
  "snd (SelectObject dc (selected g dc) (snd (SelectObject dc bmp g))) = g"
  by (simp add: SelectObject_def)

lemma select_back_lock [simp]:
  "snd (SelectObject dc (selected g dc) (GlobalLock h (snd (SelectObject dc bmp g)))) = GlobalLock h g"
  by (simp add: SelectObject_def GlobalLock_def)

lemma unlock_lock [simp]: "GlobalUnlock h (GlobalLock h g) = g"
  by (simp add: GlobalLock_def GlobalUnlock_def)

text \<open>The frame a capture gives, if all its steps succeed.\<close>

definition captured :: "video_capture \<Rightarrow> capture_answers \<Rightarrow> frame_data option" where
  "captured cap os =
     (case (encodeFrame (stream_created os) (save_res os) (codec cap), hglobal_res os, lock_res os) of
        (Some strm, Some h, Some block) \<Rightarrow> if resBlt os then Some \<lparr>pFrame = Some block, hMemBuf = Some h,
            pStream = Some strm, fd_frameSize = word_of_nat (length block)\<rparr> else None
      | _ \<Rightarrow> None)"

lemma getCurrentFrame_eq:
  "getCurrentFrame os cap frame_data_init g = (case captured cap os of
     None \<Rightarrow> (False, frame_data_init, g)
   | Some fd \<Rightarrow> (True, fd, GlobalLock (the (hMemBuf fd)) g))"
proof -
  obtain g1 where S: "SelectObject (hMem cap) (hBmp cap) g = (selected g (hMem cap), g1)"
    by (simp add: SelectObject_def)
  have restored: "snd (SelectObject (hMem cap) (selected g (hMem cap)) g1) = g"
    "snd (SelectObject (hMem cap) (selected g (hMem cap)) (GlobalLock h g1)) = GlobalLock h g" for h
    using select_back[of "hMem cap" g "hBmp cap"] select_back_lock[of "hMem cap" g h "hBmp cap"] by (simp_all add: S)
  show ?thesis
    by (simp add: getCurrentFrame_def S restored captured_def frame_data_init_def split: option.split)
qed

lemma video_round_eq:
  assumes "isStreamOn (vs_stream vs)"
  shows "video_round os (vs, g) = Done (case captured (videoCapture vs) os of
       None \<Rightarrow> (vs, g)
     | Some fd \<Rightarrow> (vs\<lparr>vs_stream := (vs_stream vs)\<lparr>streamContainer := vc_push fd (streamContainer (vs_stream vs))\<rparr>\<rparr>,
         GlobalLock (the (hMemBuf fd)) g))"
  using assms
  by (simp add: video_round_def getCurrentFrame_eq frame_data_destructor_def split: option.split)
    (simp add: frame_data_init_def)

section \<open>Properties\<close>

text \<open>
  C33: A capture gives back what it takes. On every path, the failures of every step included, the
  memory device context has its old bitmap selected again; a failed capture leaves no lock and no
  frame; a successful one holds one lock on the block whose bytes and size the frame has, and the
  frame's destructor, or its reset, releases exactly this lock.
\<close>

theorem capture_gives_back:
  "case getCurrentFrame os cap frame_data_init g of (ok, fd, g') \<Rightarrow>
     selected g' = selected g
     \<and> frame_data_destructor fd g' = g \<and> snd (frame_data_reset fd g') = g
     \<and> (if ok then \<exists>h block. hMemBuf fd = Some h \<and> pFrame fd = Some block \<and> lock_res os = Some block
            \<and> vsd_getSize fd = word_of_nat (length block) \<and> locks g' = (locks g)(h := Suc (locks g h))
          else fd = frame_data_init \<and> g' = g)"
  unfolding getCurrentFrame_eq
  by (auto simp: captured_def frame_data_destructor_def frame_data_reset_def frame_data_init_def vsd_getSize_def
      GlobalLock_def split: option.split)
    (simp_all add: GlobalUnlock_def)

text \<open>
  The stream holds the captured frames in order. While the stream is on, its capture loop never
  stops on a failure: after any captures the container holds exactly the frames of the successful
  ones, in the order they were made, which is the order the sender takes them in.
\<close>

lemma captures_queue_in_order:
  assumes "isStreamOn (vs_stream vs)"
  shows "\<exists>vs' g'. video_rounds oss (vs, g) = Done (vs', g') \<and> isStreamOn (vs_stream vs')
    \<and> queue (streamContainer (vs_stream vs'))
      = queue (streamContainer (vs_stream vs)) @ List.map_filter (captured (videoCapture vs)) oss"
  using assms
proof (induction oss arbitrary: vs g)
  case Nil
  then show ?case by (simp add: List.map_filter_simps)
next
  case (Cons os oss)
  show ?case
  proof (cases "captured (videoCapture vs) os")
    case None
    with Cons show ?thesis by (simp add: video_round_eq List.map_filter_simps del: bind_outcome_Done)
  next
    case (Some fd)
    let ?vs = "vs\<lparr>vs_stream := (vs_stream vs)\<lparr>streamContainer := vc_push fd (streamContainer (vs_stream vs))\<rparr>\<rparr>"
    have on: "isStreamOn (vs_stream ?vs)" using Cons.prems by (simp add: isStreamOn_def)
    have q: "queue (streamContainer (vs_stream ?vs)) = queue (streamContainer (vs_stream vs)) @ [fd]"
      by (simp add: vc_push_def tsq.items_push)
    from Cons.IH[OF on, of "GlobalLock (the (hMemBuf fd)) g"] q Cons.prems Some show ?thesis
      by (simp add: video_round_eq List.map_filter_simps del: bind_outcome_Done)
  qed
qed

definition one_capture :: "bool \<Rightarrow> capture_answers" where
  "one_capture blt = \<lparr>resBlt = blt, stream_created = True, save_res = (\<lambda>c q. Some [1, 2]), hglobal_res = Some 4,
     lock_res = Some [1, 2, 0]\<rparr>"

definition jpeg_stream :: video_stream where
  "jpeg_stream = VideoStream [(''image/bmp'', 3), (''image/jpeg'', 9)]
     \<lparr>screenWidth = 2, screenHeight = 1, hScreen = 1, hMem = 2, hBmp = 3, codec = VideoCodec\<rparr>"

end
