(* ===== verification/Events.thy ===== *)
theory Events
  imports Protocols DataStructures
begin

text \<open>
  Remote control. \<^verbatim>\<open>VideoClient/main.cpp\<close>: the hooks queue mouse and keyboard messages and
  \<open>eventSenderThread\<close> turns them into event packets. \<^verbatim>\<open>VideoHost/main.cpp\<close>:
  \<open>convertPacketToINPUT\<close> turns an event packet into the \<open>INPUT\<close> that the host would inject.
  \<^verbatim>\<open>events.h\<close> and \<^verbatim>\<open>events.cpp\<close> (RDIBY): the filters that map a message to its flags.
\<close>

section \<open>Windows messages and flags\<close>

definition WM_KEYDOWN :: DWORD where "WM_KEYDOWN = 0x100"
definition WM_KEYUP :: DWORD where "WM_KEYUP = 0x101"
definition WM_SYSKEYDOWN :: DWORD where "WM_SYSKEYDOWN = 0x104"
definition WM_SYSKEYUP :: DWORD where "WM_SYSKEYUP = 0x105"
definition WM_MOUSEMOVE :: DWORD where "WM_MOUSEMOVE = 0x200"
definition WM_LBUTTONDOWN :: DWORD where "WM_LBUTTONDOWN = 0x201"
definition WM_LBUTTONUP :: DWORD where "WM_LBUTTONUP = 0x202"
definition WM_RBUTTONDOWN :: DWORD where "WM_RBUTTONDOWN = 0x204"
definition WM_RBUTTONUP :: DWORD where "WM_RBUTTONUP = 0x205"
definition WM_MOUSEWHEEL :: DWORD where "WM_MOUSEWHEEL = 0x20A"
definition MOUSEEVENTF_MOVE :: DWORD where "MOUSEEVENTF_MOVE = 0x1"
definition MOUSEEVENTF_LEFTDOWN :: DWORD where "MOUSEEVENTF_LEFTDOWN = 0x2"
definition MOUSEEVENTF_LEFTUP :: DWORD where "MOUSEEVENTF_LEFTUP = 0x4"
definition MOUSEEVENTF_RIGHTDOWN :: DWORD where "MOUSEEVENTF_RIGHTDOWN = 0x8"
definition MOUSEEVENTF_RIGHTUP :: DWORD where "MOUSEEVENTF_RIGHTUP = 0x10"
definition MOUSEEVENTF_WHEEL :: DWORD where "MOUSEEVENTF_WHEEL = 0x800"
definition MOUSEEVENTF_ABSOLUTE :: DWORD where "MOUSEEVENTF_ABSOLUTE = 0x8000"
definition KEYEVENTF_KEYUP :: DWORD where "KEYEVENTF_KEYUP = 0x2"
definition INPUT_MOUSE :: BYTE where "INPUT_MOUSE = 0"
definition INPUT_KEYBOARD :: BYTE where "INPUT_KEYBOARD = 1"

lemmas wm_defs = WM_KEYDOWN_def WM_KEYUP_def WM_SYSKEYDOWN_def WM_SYSKEYUP_def WM_MOUSEMOVE_def
  WM_LBUTTONDOWN_def WM_LBUTTONUP_def WM_RBUTTONDOWN_def WM_RBUTTONUP_def WM_MOUSEWHEEL_def

section \<open>The filters\<close>

definition KeyboardFilter_findMatchingFlag :: "DWORD \<Rightarrow> DWORD" where
  "KeyboardFilter_findMatchingFlag flag =
     (if flag = WM_KEYDOWN then 0
      else if flag = WM_SYSKEYDOWN then 0
      else if flag = WM_KEYUP then KEYEVENTF_KEYUP
      else if flag = WM_SYSKEYUP then KEYEVENTF_KEYUP
      else 0)"

definition MouseFilter_findMatchingFlag :: "DWORD \<Rightarrow> DWORD" where
  "MouseFilter_findMatchingFlag flag =
     (if flag = WM_LBUTTONDOWN then MOUSEEVENTF_LEFTDOWN
      else if flag = WM_LBUTTONUP then MOUSEEVENTF_LEFTUP
      else if flag = WM_MOUSEWHEEL then MOUSEEVENTF_WHEEL
      else if flag = WM_RBUTTONDOWN then MOUSEEVENTF_RIGHTDOWN
      else if flag = WM_RBUTTONUP then MOUSEEVENTF_RIGHTUP
      else MOUSEEVENTF_MOVE)"

section \<open>The hooks\<close>

text \<open>
  What a hook is told about: the structures Windows passes to it, at an address. The hook queues
  the address, the message and the kind; the sender reads the structure later.
\<close>

record ms_hook_struct =
  pt_x :: LONG
  pt_y :: LONG
  mouseData :: DWORD

record kbd_hook_struct =
  hook_vkCode :: DWORD

datatype hook_struct = Ms ms_hook_struct | Kbd kbd_hook_struct

record event_hook_data =
  ev_lParam :: nat
  ev_wParam :: "64 word"
  ev_type :: BYTE

text \<open>
  A callback puts the event into the queue and returns what \<^verbatim>\<open>CallNextHookEx\<close> gives for the rest of
  the chain, here the argument \<open>next\<close> with the queue as it is then; \<^verbatim>\<open>HC_ACTION\<close> is the code 0.
\<close>

type_synonym 'r next_hook = "int \<Rightarrow> 64 word \<Rightarrow> nat \<Rightarrow> event_hook_data tsqueue \<Rightarrow> 'r"

definition MouseHookCallback ::
  "int \<Rightarrow> 64 word \<Rightarrow> nat \<Rightarrow> 'r next_hook \<Rightarrow> event_hook_data tsqueue \<Rightarrow> 'r" where
  "MouseHookCallback nCode wParam lParam next q = next nCode wParam lParam
     (if 0 \<le> nCode then snd (tsq_Push \<lparr>ev_lParam = lParam, ev_wParam = wParam, ev_type = INPUT_MOUSE\<rparr> q) else q)"

definition KeyboardHookCallback ::
  "int \<Rightarrow> 64 word \<Rightarrow> nat \<Rightarrow> 'r next_hook \<Rightarrow> event_hook_data tsqueue \<Rightarrow> 'r" where
  "KeyboardHookCallback nCode wParam lParam next q = next nCode wParam lParam
     (if 0 \<le> nCode then snd (tsq_Push \<lparr>ev_lParam = lParam, ev_wParam = wParam, ev_type = INPUT_KEYBOARD\<rparr> q) else q)"

text \<open>The end of the chain: only the queue is left.\<close>

definition last_hook :: "event_hook_data tsqueue next_hook" where
  "last_hook nCode wParam lParam q = q"

section \<open>The sender\<close>

text \<open>
  The sender's locals \<open>packet\<close> and \<open>flags\<close>, which keep their values from event to event, the
  memory the hooks' structures are in, the queue, and the datagrams sent.
\<close>

record event_sender =
  es_packet :: rtmp_packet
  es_flags :: DWORD
  es_memory :: "nat \<Rightarrow> hook_struct option"
  es_queue :: "event_hook_data tsqueue"
  es_sent :: "BYTE list list"

definition event_sender_init :: "(nat \<Rightarrow> hook_struct option) \<Rightarrow> event_hook_data tsqueue \<Rightarrow> event_sender" where
  "event_sender_init mem q = \<lparr>es_packet = zero_packet\<lparr>pkt_type := PACKET_TYPE_EVENT\<rparr>, es_flags = 0,
     es_memory = mem, es_queue = q, es_sent = []\<rparr>"

definition mouse_flags_of :: "64 word \<Rightarrow> DWORD" where
  "mouse_flags_of wParam =
     (if wParam = ucast WM_LBUTTONDOWN then or MOUSEEVENTF_LEFTDOWN MOUSEEVENTF_ABSOLUTE
      else if wParam = ucast WM_LBUTTONUP then or MOUSEEVENTF_LEFTUP MOUSEEVENTF_ABSOLUTE
      else if wParam = ucast WM_MOUSEWHEEL then or MOUSEEVENTF_WHEEL MOUSEEVENTF_ABSOLUTE
      else if wParam = ucast WM_RBUTTONDOWN then or MOUSEEVENTF_RIGHTDOWN MOUSEEVENTF_ABSOLUTE
      else if wParam = ucast WM_RBUTTONUP then or MOUSEEVENTF_RIGHTUP MOUSEEVENTF_ABSOLUTE
      else or MOUSEEVENTF_MOVE MOUSEEVENTF_ABSOLUTE)"

text \<open>The keyboard's switch has no default: any other message keeps the flags of the event before.\<close>

definition keyboard_flags_of :: "DWORD \<Rightarrow> 64 word \<Rightarrow> DWORD" where
  "keyboard_flags_of old wParam =
     (if wParam = ucast WM_KEYDOWN then 0
      else if wParam = ucast WM_SYSKEYDOWN then 0
      else if wParam = ucast WM_KEYUP then KEYEVENTF_KEYUP
      else if wParam = ucast WM_SYSKEYUP then KEYEVENTF_KEYUP
      else old)"

text \<open>
  One event. \<open>scaleX\<close> and \<open>scaleY\<close> are the multiplication with the screen's scale in
  \<open>float\<close> and the conversion back; the mouse structure is changed in place. A structure of the
  other kind, or none, at the address is a memory fault.
\<close>

definition send_event ::
  "(LONG \<Rightarrow> LONG) \<Rightarrow> (LONG \<Rightarrow> LONG) \<Rightarrow> event_hook_data \<Rightarrow> event_sender \<Rightarrow> event_sender outcome" where
  "send_event scaleX scaleY data es =
     bind_outcome
       (if ev_type data = 0
        then (case es_memory es (ev_lParam data) of
            Some (Ms ms) \<Rightarrow>
              let ms' = ms\<lparr>pt_x := scaleX (pt_x ms), pt_y := scaleY (pt_y ms)\<rparr>;
                  flags = mouse_flags_of (ev_wParam data);
                  u = put_msData 0 \<lparr>dx = pt_x ms', dy = pt_y ms', mouse_flags = flags,
                    mouse_wheel_data = mouseData ms'\<rparr> (rtmp_data (es_packet es))
              in Done (es\<lparr>es_memory := (es_memory es)(ev_lParam data \<mapsto> Ms ms'), es_flags := flags,
                   es_packet := (es_packet es)\<lparr>rtmp_data := u\<rparr>\<rparr>)
          | _ \<Rightarrow> Fault Mem_fault)
        else if ev_type data = 1
        then (case es_memory es (ev_lParam data) of
            Some (Kbd k) \<Rightarrow>
              let flags = keyboard_flags_of (es_flags es) (ev_wParam data);
                  u = put_kbdData 1 \<lparr>vkCode = hook_vkCode k, keyboard_flags = flags\<rparr> (rtmp_data (es_packet es))
              in Done (es\<lparr>es_flags := flags, es_packet := (es_packet es)\<lparr>rtmp_data := u\<rparr>\<rparr>)
          | _ \<Rightarrow> Fault Mem_fault)
        else Done es)
       (\<lambda>es1. Done (es1\<lparr>es_sent := es_sent es1 @ [encode_rtmp (es_packet es1)]\<rparr>))"

definition sender_step ::
  "(LONG \<Rightarrow> LONG) \<Rightarrow> (LONG \<Rightarrow> LONG) \<Rightarrow> event_sender \<Rightarrow> event_sender outcome" where
  "sender_step scaleX scaleY es =
     (if tsq_isEmpty (es_queue es) then Done es
      else case tsq_Pop tsq_timeout (es_queue es) of
          (Done data, q) \<Rightarrow> send_event scaleX scaleY data (es\<lparr>es_queue := q\<rparr>)
        | (Fault e, _) \<Rightarrow> Fault e
        | (Blocks, _) \<Rightarrow> Blocks)"

section \<open>The host's conversion\<close>

record mouse_input =
  mi_dx :: LONG
  mi_dy :: LONG
  mi_mouseData :: DWORD
  mi_dwFlags :: DWORD
  mi_time :: DWORD

record keybd_input =
  ki_wVk :: WORD
  ki_wScan :: WORD
  ki_dwFlags :: DWORD
  ki_time :: DWORD

text \<open>\<open>INPUT\<close>: a type and a union, empty while the zeroed struct has not been written.\<close>

datatype input_union = Zeroed | Mouse_input mouse_input | Keybd_input keybd_input

record windows_input =
  input_type :: DWORD
  input_union :: input_union

definition zero_input :: windows_input where
  "zero_input = \<lparr>input_type = 0, input_union = Zeroed\<rparr>"

text \<open>
  The event type is a signed \<open>CHAR\<close>, the key code is cut to 16 bits; \<open>mapVK\<close> is
  \<^verbatim>\<open>MapVirtualKeyA\<close> to scan codes.
\<close>

definition convertPacketToINPUT :: "(DWORD \<Rightarrow> DWORD) \<Rightarrow> BYTE list \<Rightarrow> windows_input \<Rightarrow> windows_input" where
  "convertPacketToINPUT mapVK packet input =
     (let input1 = input\<lparr>input_type := scast (get_eventType packet)\<rparr>
      in if input_type input1 = 0
         then let ms = get_msData packet
              in input1\<lparr>input_union := Mouse_input \<lparr>mi_dx = dx ms, mi_dy = dy ms,
                   mi_mouseData = mouse_wheel_data ms, mi_dwFlags = mouse_flags ms, mi_time = 0\<rparr>\<rparr>
         else if input_type input1 = 1
         then let k = get_kbdData packet; wVk = (ucast (vkCode k) :: WORD)
              in input1\<lparr>input_union := Keybd_input \<lparr>ki_wVk = wVk, ki_wScan = ucast (mapVK (ucast wVk)),
                   ki_dwFlags = keyboard_flags k, ki_time = 0\<rparr>\<rparr>
         else input1)"

section \<open>Lemmas\<close>

lemma push_to_empty:
  "tsq_Pop tsq_timeout (snd (tsq_Push x ThreadSafeQueue)) = (Done x, ThreadSafeQueue)"
  "\<not> tsq_isEmpty (snd (tsq_Push x ThreadSafeQueue))"
  by (simp_all add: tsq_defs MAXINT_def)

lemma host_reads_event:
  assumes "wf_packet p" and "length u = 20"
  shows "rtmp_data (decode_rtmp (encode_rtmp (p\<lparr>rtmp_data := u\<rparr>))) = u"
  using decode_encode_rtmp[of "p\<lparr>rtmp_data := u\<rparr>" "[]"] assms by (simp add: wf_packet_def)

lemma flags_match:
  "mouse_flags_of (ucast m) = or (MouseFilter_findMatchingFlag m) MOUSEEVENTF_ABSOLUTE"
  "m \<in> {WM_KEYDOWN, WM_KEYUP, WM_SYSKEYDOWN, WM_SYSKEYUP} \<Longrightarrow>
    keyboard_flags_of old (ucast m) = KeyboardFilter_findMatchingFlag m"
  by (auto simp: mouse_flags_of_def MouseFilter_findMatchingFlag_def keyboard_flags_of_def
      KeyboardFilter_findMatchingFlag_def)


lemma mouse_step:
  assumes "mem a = Some (Ms ms)" and "0 \<le> nCode"
  shows "\<exists>es. sender_step scaleX scaleY (event_sender_init mem (MouseHookCallback nCode w a last_hook ThreadSafeQueue)) = Done es
    \<and> es_sent es = [encode_rtmp (zero_packet\<lparr>pkt_type := 0, rtmp_data := put_msData 0 \<lparr>dx = scaleX (pt_x ms),
        dy = scaleY (pt_y ms), mouse_flags = mouse_flags_of w, mouse_wheel_data = mouseData ms\<rparr> (replicate 20 0)\<rparr>)]"
  using assms
  by (simp add: sender_step_def MouseHookCallback_def last_hook_def event_sender_init_def push_to_empty send_event_def
      INPUT_MOUSE_def Let_def zero_packet_def)

lemma keyboard_step:
  assumes "mem a = Some (Kbd k)" and "0 \<le> nCode"
  shows "\<exists>es. sender_step scaleX scaleY (event_sender_init mem (KeyboardHookCallback nCode w a last_hook ThreadSafeQueue)) = Done es
    \<and> es_sent es = [encode_rtmp (zero_packet\<lparr>pkt_type := 0, rtmp_data := put_kbdData 1 \<lparr>vkCode = hook_vkCode k,
        keyboard_flags = keyboard_flags_of 0 w\<rparr> (replicate 20 0)\<rparr>)]"
  using assms
  by (simp add: sender_step_def KeyboardHookCallback_def last_hook_def event_sender_init_def push_to_empty send_event_def
      INPUT_KEYBOARD_def Let_def zero_packet_def)

lemma wf_event_packet: "wf_packet (zero_packet\<lparr>pkt_type := 0\<rparr>)"
  by (simp add: wf_packet_def zero_packet_def)

section \<open>Properties\<close>

text \<open>
  The event functions fit together, though the program does not run them as one: \<open>wWinMain\<close> does not
  start \<open>eventSenderThread\<close> and the host's \<open>eventPacketHandler\<close> has no body. What a hook queues, the
  sender turns into one datagram, provided that the structure the hook was given is still there, and
  the host's conversion turns that into the input of the same kind with the scaled position and wheel
  data, or the key and its scan code, and with the flags that the filters assign to the message.
\<close>

lemma event_roundtrip:
  assumes "mem a = Some (Ms ms)" and "mem b = Some (Kbd k)" and "0 \<le> nCode"
    and "mk \<in> {WM_KEYDOWN, WM_KEYUP, WM_SYSKEYDOWN, WM_SYSKEYUP}"
  shows "\<exists>es d es' d'.
    sender_step scaleX scaleY (event_sender_init mem (MouseHookCallback nCode (ucast mm) a last_hook ThreadSafeQueue)) = Done es
    \<and> es_sent es = [d] \<and> pkt_type (decode_rtmp d) = PACKET_TYPE_EVENT
    \<and> convertPacketToINPUT mapVK (rtmp_data (decode_rtmp d)) zero_input = \<lparr>input_type = 0,
        input_union = Mouse_input \<lparr>mi_dx = scaleX (pt_x ms), mi_dy = scaleY (pt_y ms), mi_mouseData = mouseData ms,
          mi_dwFlags = or (MouseFilter_findMatchingFlag mm) MOUSEEVENTF_ABSOLUTE, mi_time = 0\<rparr>\<rparr>
    \<and> sender_step scaleX scaleY (event_sender_init mem (KeyboardHookCallback nCode (ucast mk) b last_hook ThreadSafeQueue)) = Done es'
    \<and> es_sent es' = [d']
    \<and> convertPacketToINPUT mapVK (rtmp_data (decode_rtmp d')) zero_input = \<lparr>input_type = 1,
        input_union = Keybd_input \<lparr>ki_wVk = ucast (hook_vkCode k),
          ki_wScan = ucast (mapVK (ucast (ucast (hook_vkCode k) :: WORD))),
          ki_dwFlags = KeyboardFilter_findMatchingFlag mk, ki_time = 0\<rparr>\<rparr>"
proof -
  let ?p = "zero_packet\<lparr>pkt_type := 0\<rparr>"
  let ?u = "put_msData 0 \<lparr>dx = scaleX (pt_x ms), dy = scaleY (pt_y ms), mouse_flags = mouse_flags_of (ucast mm),
    mouse_wheel_data = mouseData ms\<rparr> (replicate 20 0)"
  let ?v = "put_kbdData 1 \<lparr>vkCode = hook_vkCode k, keyboard_flags = keyboard_flags_of 0 (ucast mk)\<rparr> (replicate 20 0)"
  obtain es where es: "sender_step scaleX scaleY (event_sender_init mem (MouseHookCallback nCode (ucast mm) a last_hook ThreadSafeQueue)) = Done es"
    "es_sent es = [encode_rtmp (?p\<lparr>rtmp_data := ?u\<rparr>)]" using mouse_step[of mem a ms nCode] assms(1,3) by blast
  obtain es' where es': "sender_step scaleX scaleY (event_sender_init mem (KeyboardHookCallback nCode (ucast mk) b last_hook ThreadSafeQueue)) = Done es'"
    "es_sent es' = [encode_rtmp (?p\<lparr>rtmp_data := ?v\<rparr>)]" using keyboard_step[of mem b k nCode] assms(2,3) by blast
  have u: "rtmp_data (decode_rtmp (encode_rtmp (?p\<lparr>rtmp_data := ?u\<rparr>))) = ?u"
    "rtmp_data (decode_rtmp (encode_rtmp (?p\<lparr>rtmp_data := ?v\<rparr>))) = ?v"
    by (rule host_reads_event[OF wf_event_packet]; simp)+
  have "wf_packet (?p\<lparr>rtmp_data := ?u\<rparr>)" by (simp add: wf_packet_def)
  from decode_encode_rtmp[OF this, of "[]"] have ty: "pkt_type (decode_rtmp (encode_rtmp (?p\<lparr>rtmp_data := ?u\<rparr>))) = 0"
    by simp
  have mouse: "convertPacketToINPUT mapVK ?u zero_input = \<lparr>input_type = 0,
      input_union = Mouse_input \<lparr>mi_dx = scaleX (pt_x ms), mi_dy = scaleY (pt_y ms), mi_mouseData = mouseData ms,
        mi_dwFlags = or (MouseFilter_findMatchingFlag mm) MOUSEEVENTF_ABSOLUTE, mi_time = 0\<rparr>\<rparr>"
    by (simp add: convertPacketToINPUT_def zero_input_def flags_match(1) Let_def)
  have keyboard: "convertPacketToINPUT mapVK ?v zero_input = \<lparr>input_type = 1,
      input_union = Keybd_input \<lparr>ki_wVk = ucast (hook_vkCode k),
        ki_wScan = ucast (mapVK (ucast (ucast (hook_vkCode k) :: WORD))),
        ki_dwFlags = KeyboardFilter_findMatchingFlag mk, ki_time = 0\<rparr>\<rparr>"
    by (simp add: convertPacketToINPUT_def zero_input_def flags_match(2)[OF assms(4)] Let_def)
  show ?thesis
    using es es' ty mouse keyboard u by (intro exI[of _ es] exI[of _ es']) auto
qed

text \<open>
  The sender's switch is not the keyboard filter. For the four key messages the flags it sends are
  the filter's; for any other message the filter gives none, while the sender repeats the flags of
  the event before, so that after a mouse event they are flags of the mouse.
\<close>

lemma sender_keeps_stale_flags:
  assumes "es_memory es (ev_lParam ev) = Some (Kbd k)" and "ev_type ev = 1" and "ev_wParam ev = ucast m"
    and "wf_packet (es_packet es)"
  shows "\<exists>es'. send_event scaleX scaleY ev es = Done es'
    \<and> es_sent es' = es_sent es @ [encode_rtmp (es_packet es')]
    \<and> keyboard_flags (get_kbdData (rtmp_data (es_packet es'))) =
        (if m \<in> {WM_KEYDOWN, WM_KEYUP, WM_SYSKEYDOWN, WM_SYSKEYUP}
         then KeyboardFilter_findMatchingFlag m else es_flags es)
    \<and> (m \<notin> {WM_KEYDOWN, WM_KEYUP, WM_SYSKEYDOWN, WM_SYSKEYUP} \<longrightarrow> KeyboardFilter_findMatchingFlag m = 0)"
proof -
  have "length (rtmp_data (es_packet es)) = 20" using assms(4) by (simp add: wf_packet_def)
  moreover have "keyboard_flags_of old (ucast m) = (if m \<in> {WM_KEYDOWN, WM_KEYUP, WM_SYSKEYDOWN, WM_SYSKEYUP}
      then KeyboardFilter_findMatchingFlag m else old)" for old
    by (auto simp: keyboard_flags_of_def KeyboardFilter_findMatchingFlag_def)
  moreover have "m \<notin> {WM_KEYDOWN, WM_KEYUP, WM_SYSKEYDOWN, WM_SYSKEYUP} \<Longrightarrow> KeyboardFilter_findMatchingFlag m = 0"
    by (simp add: KeyboardFilter_findMatchingFlag_def)
  ultimately show ?thesis using assms(1-3) by (simp add: send_event_def Let_def)
qed

end
