(* ===== verification/Hooks.thy ===== *)
theory Hooks
  imports Events
begin

text \<open>
  Installing and removing the low-level hooks: \<open>SetKeyboardHook\<close>, \<open>SetMouseHook\<close>,
  \<open>ReleaseKeyboardHook\<close> and \<open>ReleaseMouseHook\<close> of \<^verbatim>\<open>VideoClient/main.cpp\<close>, and the event managers of
  \<^verbatim>\<open>events.h\<close> and \<^verbatim>\<open>events.cpp\<close> (RDIBY). Windows keeps a chain of hooks, the newest first; an event
  goes to the first hook of its kind, which passes it on with \<^verbatim>\<open>CallNextHookEx\<close> or not. The viewer's
  own callbacks are those of \<^verbatim>\<open>Events\<close>.
\<close>

section \<open>The hook chain\<close>

definition WH_KEYBOARD_LL :: nat where "WH_KEYBOARD_LL = 13"
definition WH_MOUSE_LL :: nat where "WH_MOUSE_LL = 14"

text \<open>
  The procedures that can be hooked in: the two of the viewer, the defaults of the event managers,
  and those of other programs, known by a number.
\<close>

datatype hook_proc = Viewer_keyboard | Viewer_mouse | Default_keyboard | Default_mouse | Foreign nat

type_synonym hook_chain = "(nat \<times> nat \<times> hook_proc) list"

text \<open>
  \<open>chain\<close> are the installed hooks (handle, kind, procedure), \<open>boxes\<close> counts the message boxes;
  \<open>kbd_hook\<close> and \<open>ms_hook\<close> are the program's variables, \<open>None\<close> the null handle.
\<close>

record hooks =
  chain :: hook_chain
  kbd_hook :: "nat option"
  ms_hook :: "nat option"
  boxes :: nat

text \<open>\<open>answer\<close> is the handle that \<^verbatim>\<open>SetWindowsHookEx\<close> returns, if it succeeds.\<close>

definition SetWindowsHookEx :: "nat option \<Rightarrow> nat \<Rightarrow> hook_proc \<Rightarrow> hook_chain \<Rightarrow> hook_chain" where
  "SetWindowsHookEx answer kind proc ch = (case answer of None \<Rightarrow> ch | Some h \<Rightarrow> (h, kind, proc) # ch)"

definition UnhookWindowsHookEx :: "nat option \<Rightarrow> hook_chain \<Rightarrow> hook_chain" where
  "UnhookWindowsHookEx hook ch = filter (\<lambda>e. Some (fst e) \<noteq> hook) ch"

section \<open>The viewer's hooks\<close>

definition SetKeyboardHook :: "nat option \<Rightarrow> hooks \<Rightarrow> hooks" where
  "SetKeyboardHook answer st =
     (let st1 = st\<lparr>chain := SetWindowsHookEx answer WH_KEYBOARD_LL Viewer_keyboard (chain st), kbd_hook := answer\<rparr>
      in if answer = None then st1\<lparr>boxes := Suc (boxes st1)\<rparr> else st1)"

definition SetMouseHook :: "nat option \<Rightarrow> hooks \<Rightarrow> hooks" where
  "SetMouseHook answer st =
     (let st1 = st\<lparr>chain := SetWindowsHookEx answer WH_MOUSE_LL Viewer_mouse (chain st), ms_hook := answer\<rparr>
      in if answer = None then st1\<lparr>boxes := Suc (boxes st1)\<rparr> else st1)"

definition ReleaseKeyboardHook :: "hooks \<Rightarrow> hooks" where
  "ReleaseKeyboardHook st = st\<lparr>chain := UnhookWindowsHookEx (kbd_hook st) (chain st)\<rparr>"

definition ReleaseMouseHook :: "hooks \<Rightarrow> hooks" where
  "ReleaseMouseHook st = st\<lparr>chain := UnhookWindowsHookEx (ms_hook st) (chain st)\<rparr>"

section \<open>The event managers\<close>

text \<open>
  The two managers share nothing but the chain; their \<open>static\<close> handles are one record here. They
  have no operation that removes a hook. The default callbacks do nothing with the event.
\<close>

record hook_managers =
  keyboardHook :: "nat option"
  mouseHook :: "nat option"
  mgr_chain :: hook_chain
  mgr_boxes :: nat

definition KeyboardEventManager_SetKeyboardHook :: "nat option \<Rightarrow> hook_proc \<Rightarrow> hook_managers \<Rightarrow> hook_managers" where
  "KeyboardEventManager_SetKeyboardHook answer HookFunction st =
     (let st1 = st\<lparr>mgr_chain := SetWindowsHookEx answer WH_KEYBOARD_LL HookFunction (mgr_chain st), keyboardHook := answer\<rparr>
      in if answer = None then st1\<lparr>mgr_boxes := Suc (mgr_boxes st1)\<rparr> else st1)"

definition InitiateDefaultKeyboardHook :: "nat option \<Rightarrow> hook_managers \<Rightarrow> hook_managers" where
  "InitiateDefaultKeyboardHook answer = KeyboardEventManager_SetKeyboardHook answer Default_keyboard"

definition MouseEventManager_SetMouseHook :: "nat option \<Rightarrow> hook_proc \<Rightarrow> hook_managers \<Rightarrow> hook_managers" where
  "MouseEventManager_SetMouseHook answer HookFunction st =
     (let st1 = st\<lparr>mgr_chain := SetWindowsHookEx answer WH_MOUSE_LL HookFunction (mgr_chain st), mouseHook := answer\<rparr>
      in if answer = None then st1\<lparr>mgr_boxes := Suc (mgr_boxes st1)\<rparr> else st1)"

definition InitiateDefaultMouseHook :: "nat option \<Rightarrow> hook_managers \<Rightarrow> hook_managers" where
  "InitiateDefaultMouseHook answer = MouseEventManager_SetMouseHook answer Default_mouse"

definition KeyboardEventManager_KeyboardHookCallback ::
  "int \<Rightarrow> 64 word \<Rightarrow> nat \<Rightarrow> 'r next_hook \<Rightarrow> event_hook_data tsqueue \<Rightarrow> 'r" where
  "KeyboardEventManager_KeyboardHookCallback nCode wParam lParam next q = next nCode wParam lParam q"

definition MouseEventManager_MouseHookCallback ::
  "int \<Rightarrow> 64 word \<Rightarrow> nat \<Rightarrow> 'r next_hook \<Rightarrow> event_hook_data tsqueue \<Rightarrow> 'r" where
  "MouseEventManager_MouseHookCallback nCode wParam lParam next q = next nCode wParam lParam q"

section \<open>Delivering an event\<close>

text \<open>
  What Windows does with an event: it calls the newest hook of the kind, and \<^verbatim>\<open>CallNextHookEx\<close> in a
  procedure calls the next older one. So whether an event goes on, and with which arguments, is up
  to the procedures: those of the program are the definitions above, for one of another program
  \<open>foreign\<close> says whether it passes the event on and what it answers if not. At the end of the chain the
  answer is 0. The second component is the viewer's event queue, the third the procedures that were
  called with their arguments.
\<close>

type_synonym hook_call = "hook_proc \<times> int \<times> 64 word \<times> nat"
type_synonym hook_answer = "int \<times> event_hook_data tsqueue \<times> hook_call list"

definition call_hook :: "(nat \<Rightarrow> bool \<times> int) \<Rightarrow> hook_proc \<Rightarrow> hook_answer next_hook \<Rightarrow> hook_answer next_hook" where
  "call_hook foreign p next nCode wParam lParam q =
     (let (r, q1, called) = (case p of
            Viewer_keyboard \<Rightarrow> KeyboardHookCallback nCode wParam lParam next q
          | Viewer_mouse \<Rightarrow> MouseHookCallback nCode wParam lParam next q
          | Default_keyboard \<Rightarrow> KeyboardEventManager_KeyboardHookCallback nCode wParam lParam next q
          | Default_mouse \<Rightarrow> MouseEventManager_MouseHookCallback nCode wParam lParam next q
          | Foreign n \<Rightarrow> if fst (foreign n) then next nCode wParam lParam q else (snd (foreign n), q, []))
      in (r, q1, (p, nCode, wParam, lParam) # called))"

primrec call_hooks :: "(nat \<Rightarrow> bool \<times> int) \<Rightarrow> hook_proc list \<Rightarrow> hook_answer next_hook" where
  "call_hooks foreign [] = (\<lambda>nCode wParam lParam q. (0, q, []))"
| "call_hooks foreign (p # ps) = call_hook foreign p (call_hooks foreign ps)"

definition hooked :: "nat \<Rightarrow> hook_chain \<Rightarrow> hook_proc list" where
  "hooked kind ch = map (snd \<circ> snd) (filter (\<lambda>e. fst (snd e) = kind) ch)"

definition deliver ::
  "(nat \<Rightarrow> bool \<times> int) \<Rightarrow> nat \<Rightarrow> int \<Rightarrow> 64 word \<Rightarrow> nat \<Rightarrow> hook_chain \<Rightarrow> event_hook_data tsqueue \<Rightarrow> hook_answer" where
  "deliver foreign kind nCode wParam lParam ch = call_hooks foreign (hooked kind ch) nCode wParam lParam"

section \<open>Lemmas\<close>

lemma hooked_simps [simp]:
  "hooked kind [] = []"
  "hooked kind (e # ch) = (if fst (snd e) = kind then snd (snd e) # hooked kind ch else hooked kind ch)"
  by (simp_all add: hooked_def)

lemma WH_distinct [simp]: "WH_KEYBOARD_LL \<noteq> WH_MOUSE_LL" "WH_MOUSE_LL \<noteq> WH_KEYBOARD_LL"
  by (simp_all add: WH_KEYBOARD_LL_def WH_MOUSE_LL_def)

lemma Unhook_simps [simp]:
  "UnhookWindowsHookEx hook (a @ b) = UnhookWindowsHookEx hook a @ UnhookWindowsHookEx hook b"
  "UnhookWindowsHookEx hook (e # ch) = (if Some (fst e) = hook then [] else [e]) @ UnhookWindowsHookEx hook ch"
  "UnhookWindowsHookEx hook [] = []"
  by (simp_all add: UnhookWindowsHookEx_def)

lemma Unhook_other: "\<forall>h \<in> set_option hook. h \<notin> fst ` set ch \<Longrightarrow> UnhookWindowsHookEx hook ch = ch"
  by (induction ch) (auto split: if_splits)

text \<open>Procedures of others leave the viewer's queue alone.\<close>

lemma call_others:
  assumes "Viewer_keyboard \<notin> set ps" and "Viewer_mouse \<notin> set ps"
  shows "call_hooks foreign ps n w l q
    = (fst (call_hooks foreign ps n w l q'), q, snd (snd (call_hooks foreign ps n w l q')))"
  using assms
proof (induction ps)
  case Nil
  then show ?case by simp
next
  case (Cons p ps)
  then have "call_hooks foreign ps n w l q
    = (fst (call_hooks foreign ps n w l q'), q, snd (snd (call_hooks foreign ps n w l q')))" by simp
  with Cons.prems show ?case
    by (cases p) (simp_all add: call_hook_def KeyboardEventManager_KeyboardHookCallback_def
        MouseEventManager_MouseHookCallback_def Let_def split_def)
qed

definition viewer_free :: "hook_chain \<Rightarrow> bool" where
  "viewer_free ch \<longleftrightarrow> Viewer_keyboard \<notin> (snd \<circ> snd) ` set ch \<and> Viewer_mouse \<notin> (snd \<circ> snd) ` set ch"

lemma deliver_others:
  assumes "viewer_free ch"
  shows "deliver foreign kind n w l ch q
    = (fst (deliver foreign kind n w l ch q'), q, snd (snd (deliver foreign kind n w l ch q')))"
  unfolding deliver_def
  by (rule call_others) (use assms in \<open>auto simp: hooked_def viewer_free_def\<close>)

text \<open>The chain while the viewer runs.\<close>

definition viewer_hooks :: "nat option \<Rightarrow> nat option \<Rightarrow> hook_chain" where
  "viewer_hooks k m = SetWindowsHookEx m WH_MOUSE_LL Viewer_mouse (SetWindowsHookEx k WH_KEYBOARD_LL Viewer_keyboard [])"

lemma both_hooks_set:
  "SetMouseHook m (SetKeyboardHook k st) = st\<lparr>chain := viewer_hooks k m @ chain st, kbd_hook := k, ms_hook := m,
     boxes := boxes st + (if k = None then 1 else 0) + (if m = None then 1 else 0)\<rparr>"
  by (cases k; cases m; simp add: SetMouseHook_def SetKeyboardHook_def viewer_hooks_def SetWindowsHookEx_def)

text \<open>What a callback of the viewer does to the queue: one \<open>Push\<close> of the event for an action, else nothing.\<close>

definition queued :: "int \<Rightarrow> event_hook_data \<Rightarrow> event_hook_data tsqueue \<Rightarrow> event_hook_data tsqueue" where
  "queued nCode ev q = (if 0 \<le> nCode then snd (tsq_Push ev q) else q)"

lemma queue_queued: "queue (queued nCode ev q) = queue q @ (if 0 \<le> nCode then [ev] else [])"
  by (simp add: queued_def tsq.items_push)

lemma deliver_viewer:
  "deliver foreign WH_KEYBOARD_LL n w l (viewer_hooks k m @ ch) q =
     (if k = None then deliver foreign WH_KEYBOARD_LL n w l ch q
      else case deliver foreign WH_KEYBOARD_LL n w l ch (queued n \<lparr>ev_lParam = l, ev_wParam = w, ev_type = INPUT_KEYBOARD\<rparr> q) of
        (r, q', called) \<Rightarrow> (r, q', (Viewer_keyboard, n, w, l) # called))"
  "deliver foreign WH_MOUSE_LL n w l (viewer_hooks k m @ ch) q =
     (if m = None then deliver foreign WH_MOUSE_LL n w l ch q
      else case deliver foreign WH_MOUSE_LL n w l ch (queued n \<lparr>ev_lParam = l, ev_wParam = w, ev_type = INPUT_MOUSE\<rparr> q) of
        (r, q', called) \<Rightarrow> (r, q', (Viewer_mouse, n, w, l) # called))"
  by (cases k; cases m; simp add: deliver_def viewer_hooks_def SetWindowsHookEx_def call_hook_def KeyboardHookCallback_def
      MouseHookCallback_def queued_def split_def Let_def)+

lemma both_hooks_released:
  assumes "\<forall>h \<in> set_option k \<union> set_option m. h \<notin> fst ` set (newer @ ch)"
  shows "UnhookWindowsHookEx k (UnhookWindowsHookEx m (newer @ viewer_hooks k m @ ch)) = newer @ ch"
proof -
  have "UnhookWindowsHookEx m newer = newer" "UnhookWindowsHookEx m ch = ch"
    "UnhookWindowsHookEx k newer = newer" "UnhookWindowsHookEx k ch = ch"
    using assms by (auto intro!: Unhook_other)
  then show ?thesis
    by (cases k; cases m; simp add: viewer_hooks_def SetWindowsHookEx_def)
qed

text \<open>
  The event managers never take a hook out: setting one twice leaves the first in the chain, and
  its handle is lost.
\<close>

lemma managers_lose_first_hook:
  "KeyboardEventManager_SetKeyboardHook (Some b) g (KeyboardEventManager_SetKeyboardHook (Some a) f st)
     = st\<lparr>mgr_chain := (b, WH_KEYBOARD_LL, g) # (a, WH_KEYBOARD_LL, f) # mgr_chain st, keyboardHook := Some b\<rparr>"
  by (simp add: KeyboardEventManager_SetKeyboardHook_def SetWindowsHookEx_def)

section \<open>Properties\<close>

text \<open>
  C31: The viewer's hooks are transparent and leave no trace. While they are installed, an event that
  reaches one of them is put into the event queue exactly once, behind what is there, with its message,
  the address of its structure and its kind, if its code says that it is an action, and not at all
  otherwise; in both cases it goes on with the same arguments to all hooks of its kind that were there
  before (which are not the viewer's), and these answer as they would without the viewer. When the
  hooks are released, whatever other programs have hooked in since, the chain is what it would be
  without them, provided that Windows gave the hooks handles of their own. A hook whose installation
  fails shows a message box and takes no part.
\<close>

theorem hooks_are_transparent:
  assumes "\<forall>h \<in> set_option k \<union> set_option m. h \<notin> fst ` set (newer @ chain st)"
    and "viewer_free (chain st)"
  shows "let st1 = SetMouseHook m (SetKeyboardHook k st); st2 = st1\<lparr>chain := newer @ chain st1\<rparr>;
      before = (\<lambda>kind. deliver foreign kind nCode wParam lParam (chain st) q);
      now = (\<lambda>kind. deliver foreign kind nCode wParam lParam (chain st1) q);
      entry = (\<lambda>type. if 0 \<le> nCode then [\<lparr>ev_lParam = lParam, ev_wParam = wParam, ev_type = type\<rparr>] else []) in
    (if k = None then now WH_KEYBOARD_LL = before WH_KEYBOARD_LL
     else fst (now WH_KEYBOARD_LL) = fst (before WH_KEYBOARD_LL)
        \<and> queue (fst (snd (now WH_KEYBOARD_LL))) = queue q @ entry INPUT_KEYBOARD
        \<and> snd (snd (now WH_KEYBOARD_LL)) = (Viewer_keyboard, nCode, wParam, lParam) # snd (snd (before WH_KEYBOARD_LL)))
    \<and> (if m = None then now WH_MOUSE_LL = before WH_MOUSE_LL
     else fst (now WH_MOUSE_LL) = fst (before WH_MOUSE_LL)
        \<and> queue (fst (snd (now WH_MOUSE_LL))) = queue q @ entry INPUT_MOUSE
        \<and> snd (snd (now WH_MOUSE_LL)) = (Viewer_mouse, nCode, wParam, lParam) # snd (snd (before WH_MOUSE_LL)))
    \<and> chain (ReleaseKeyboardHook (ReleaseMouseHook st2)) = newer @ chain st
    \<and> boxes st1 = boxes st + (if k = None then 1 else 0) + (if m = None then 1 else 0)"
proof -
  note others = deliver_others[OF assms(2), of foreign _ nCode wParam lParam _ q]
  let ?kbd = "queued nCode \<lparr>ev_lParam = lParam, ev_wParam = wParam, ev_type = INPUT_KEYBOARD\<rparr> q"
    and ?ms = "queued nCode \<lparr>ev_lParam = lParam, ev_wParam = wParam, ev_type = INPUT_MOUSE\<rparr> q"
  have "UnhookWindowsHookEx k (UnhookWindowsHookEx m (newer @ viewer_hooks k m @ chain st)) = newer @ chain st"
    by (rule both_hooks_released[OF assms(1)])
  then show ?thesis
    using others[of WH_KEYBOARD_LL ?kbd] others[of WH_MOUSE_LL ?ms]
    by (simp add: both_hooks_set Let_def ReleaseKeyboardHook_def ReleaseMouseHook_def deliver_viewer queue_queued split_def)
qed

text \<open>Another program's hook, older than the viewer's, and one that is installed later.\<close>

definition other_hooks :: hooks where
  "other_hooks = \<lparr>chain = [(3, WH_KEYBOARD_LL, Foreign 1)], kbd_hook = None, ms_hook = None, boxes = 0\<rparr>"

theorem hooks_are_transparent_witness:
  "let st1 = SetMouseHook None (SetKeyboardHook (Some 5) other_hooks);
      st2 = st1\<lparr>chain := [(9, WH_MOUSE_LL, Foreign 2)] @ chain st1\<rparr>;
      before = deliver (\<lambda>n. (False, 7)) WH_KEYBOARD_LL 0 256 40 (chain other_hooks) ThreadSafeQueue;
      now = deliver (\<lambda>n. (False, 7)) WH_KEYBOARD_LL 0 256 40 (chain st1) ThreadSafeQueue in
    fst now = fst before \<and> queue (fst (snd now)) = [\<lparr>ev_lParam = 40, ev_wParam = 256, ev_type = INPUT_KEYBOARD\<rparr>]
    \<and> snd (snd now) = (Viewer_keyboard, 0, 256, 40) # snd (snd before)
    \<and> chain (ReleaseKeyboardHook (ReleaseMouseHook st2)) = [(9, WH_MOUSE_LL, Foreign 2)] @ chain other_hooks"
proof -
  have "\<forall>h \<in> set_option (Some 5) \<union> set_option None. h \<notin> fst ` set ([(9, WH_MOUSE_LL, Foreign 2)] @ chain other_hooks)"
    "viewer_free (chain other_hooks)" by (simp_all add: other_hooks_def viewer_free_def)
  from hooks_are_transparent[OF this, of "\<lambda>n. (False, 7)" 0 256 40 ThreadSafeQueue] show ?thesis
    by (simp add: Let_def ThreadSafeQueue_def)
qed

end
