(* ===== verification/Viewer.thy ===== *)
theory Viewer
  imports Reassembly
begin

text \<open>
  All threads of the viewer together: the receiver, the consumer, the decoder, the timer and the
  window run their rounds in any order. The invariant relates the three queues and the frame
  buffers to the fragments received so far, and gives what the window can show.
\<close>

section \<open>Rounds\<close>

datatype viewer_round =
    Receive "BYTE list" "BYTE list option"
  | Consume
  | Decode
  | Tick
  | Paint

fun viewer_step :: "(BYTE list \<Rightarrow> 'bmp option) \<Rightarrow> viewer_round \<Rightarrow> 'bmp client_state \<Rightarrow> 'bmp client_state outcome" where
  "viewer_step decodeImage (Receive fresh dgram) st = Done (receiver_step fresh dgram st)"
| "viewer_step decodeImage Consume st = consumer_step st"
| "viewer_step decodeImage Decode st = decoder_step decodeImage st"
| "viewer_step decodeImage Tick st = Done (timer_step st)"
| "viewer_step decodeImage Paint st = paint_step st"

definition viewer_run ::
  "(BYTE list \<Rightarrow> 'bmp option) \<Rightarrow> viewer_round list \<Rightarrow> 'bmp client_state \<Rightarrow> 'bmp client_state outcome" where
  "viewer_run decodeImage = foreach (viewer_step decodeImage)"

lemma viewer_run_simps [simp]:
  "viewer_run decodeImage [] st = Done st"
  "viewer_run decodeImage (e # es) st = bind_outcome (viewer_step decodeImage e st) (viewer_run decodeImage es)"
  by (simp_all add: viewer_run_def)

lemma viewer_run_append:
  "viewer_run decodeImage (es @ fs) st = bind_outcome (viewer_run decodeImage es st) (viewer_run decodeImage fs)"
proof (induction es arbitrary: st)
  case Nil
  then show ?case by (simp del: bind_outcome_Done)
next
  case (Cons e es)
  then show ?case by (cases "viewer_step decodeImage e st") (simp_all del: bind_outcome_Done)
qed

text \<open>The datagrams that reach the receiver.\<close>

fun received :: "viewer_round \<Rightarrow> BYTE list list" where
  "received (Receive fresh (Some d)) = [d]"
| "received _ = []"

definition ticks :: "viewer_round list \<Rightarrow> nat" where
  "ticks es = length (filter (\<lambda>e. e = Tick) es)"

lemma ticks_simps [simp]:
  "ticks [] = 0" "ticks (e # es) = (if e = Tick then Suc (ticks es) else ticks es)"
  by (simp_all add: ticks_def)

section \<open>Painting\<close>

lemma decoder_cases:
  assumes "decoder_step decodeImage st = Done st'"
  shows "displayed st' = displayed st" "loadFrame st' = loadFrame st"
  using assms by (auto simp: decoder_step_def Let_def split: if_splits outcome.splits prod.splits)

lemma consume_packet_keeps:
  assumes "consume_packet packet st = Done st'"
  shows "displayed st' = displayed st" "loadFrame st' = loadFrame st"
    "frameNumBmpQueue st' = frameNumBmpQueue st"
  using assms by (auto simp: consume_packet_def Let_def split: if_splits)

lemma consumer_keeps:
  assumes "consumer_step st = Done st'"
  shows "displayed st' = displayed st" "loadFrame st' = loadFrame st"
    "frameNumBmpQueue st' = frameNumBmpQueue st"
  using assms by (auto simp: consumer_step_def split: if_splits outcome.splits prod.splits
      dest: consume_packet_keeps)

lemma receiver_keeps [simp]:
  "displayed (receiver_step fresh d st) = displayed st"
  "loadFrame (receiver_step fresh d st) = loadFrame st"
  "frameNumBmpQueue (receiver_step fresh d st) = frameNumBmpQueue st"
  by (simp_all add: receiver_step_def Let_def split: prod.splits)

lemma paint_cases:
  assumes "paint_step st = Done st'"
  shows "displayed st' = displayed st \<and> loadFrame st' = loadFrame st
    \<or> loadFrame st \<and> \<not> loadFrame st'
      \<and> (\<exists>x q. pqueue (frameNumBmpQueue st) = x # q \<and> displayed st' = displayed st @ [x])"
  using assms
  by (auto simp: paint_step_def tspq_defs INFINITE_def split: if_splits outcome.splits prod.splits list.splits)

lemma at_most_one_per_tick:
  "viewer_run decodeImage es st = Done st' \<Longrightarrow>
    length (displayed st') + (if loadFrame st' then 1 else 0)
      \<le> length (displayed st) + (if loadFrame st then 1 else 0) + ticks es"
proof (induction es arbitrary: st)
  case Nil
  then show ?case by simp
next
  case (Cons e es)
  then obtain st1 where st1: "viewer_step decodeImage e st = Done st1" "viewer_run decodeImage es st1 = Done st'"
    by auto
  have "length (displayed st1) + (if loadFrame st1 then 1 else 0)
      \<le> length (displayed st) + (if loadFrame st then 1 else 0) + ticks [e]"
  proof (cases e)
    case Paint
    with st1(1) paint_cases[of st st1] show ?thesis by auto
  qed (use st1(1) in \<open>auto simp: timer_step_def dest: decoder_cases consumer_keeps\<close>)
  with Cons.IH[OF st1(2)] show ?case by (cases "e = Tick") auto
qed

text \<open>The bitmaps are queued by frame number.\<close>

lemma ordered_step:
  assumes "frame_order.ordered (frameNumBmpQueue st)" and "viewer_step decodeImage e st = Done st'"
  shows "frame_order.ordered (frameNumBmpQueue st')"
proof (cases e)
  case Decode
  with assms show ?thesis
    by (auto simp: decoder_step_def Let_def frame_order.ordered_push split: if_splits outcome.splits prod.splits)
next
  case Paint
  have "frame_order.ordered (snd (tspq_Pop tsq_timeout (frameNumBmpQueue st)))"
    using assms(1) by (rule frame_order.ordered_pop)
  with Paint assms show ?thesis
    by (auto simp: paint_step_def split: if_splits outcome.splits prod.splits)
qed (use assms in \<open>auto simp: timer_step_def dest: consumer_keeps\<close>)

lemma ordered_run:
  "frame_order.ordered (frameNumBmpQueue st) \<Longrightarrow> viewer_run decodeImage es st = Done st' \<Longrightarrow>
    frame_order.ordered (frameNumBmpQueue st')"
  by (induction es arbitrary: st) (auto dest: ordered_step)

text \<open>
  The window paints in frame order and no faster than the timer. In any run of the viewer, a
  paint either shows nothing, or it uses up the tick and shows the bitmap with the lowest frame
  number of all that are queued; and never are more frames shown than the timer has ticked.
\<close>

lemma paint_shows_lowest:
  assumes "viewer_run decodeImage es client_init = Done st" and "paint_step st = Done st'"
  shows "length (displayed st') \<le> ticks es
    \<and> (displayed st' = displayed st \<or>
       loadFrame st \<and> \<not> loadFrame st' \<and> (\<exists>n bmp. displayed st' = displayed st @ [(n, bmp)]
         \<and> (\<forall>(m, b) \<in> set (pqueue (frameNumBmpQueue st)). n \<le> m)))"
proof -
  have "viewer_run decodeImage (es @ [Paint]) client_init = Done st'"
    using assms by (simp add: viewer_run_append)
  from at_most_one_per_tick[OF this] have "length (displayed st') \<le> ticks es"
    by (simp add: client_init_def ticks_def split: if_splits)
  moreover have "frame_order.ordered (frameNumBmpQueue st)"
    by (rule ordered_run[OF _ assms(1)]) (simp add: client_init_def frame_order.ordered_empty)
  ultimately show ?thesis
    using paint_cases[OF assms(2)]
    by (fastforce simp: frame_order.ordered_def CompareNumBmpPairs_def not_less)
qed

section \<open>Whole frames\<close>

text \<open>
  The invariant of a run in which fragments of \<open>frames\<close> arrive: \<open>taken\<close> have been consumed,
  \<open>pending\<close> are queued, the frames \<open>decoded\<close> have been handed to the decoder. A fragment of
  a decoded frame cannot come again, so its buffer stays dropped.
\<close>

definition decodes :: "(DWORD \<Rightarrow> BYTE list) \<Rightarrow> (BYTE list \<Rightarrow> 'bmp option) \<Rightarrow> 'bmp num_bmp \<Rightarrow> bool" where
  "decodes frames decodeImage x \<longleftrightarrow> snd x \<noteq> None \<and> snd x = decodeImage (frames (fst x))"

definition viewer_inv :: "(DWORD \<Rightarrow> BYTE list) \<Rightarrow> (BYTE list \<Rightarrow> 'bmp option) \<Rightarrow> BYTE \<Rightarrow> (DWORD \<Rightarrow> DWORD) \<Rightarrow>
    (DWORD \<times> nat) list \<Rightarrow> ((DWORD \<times> nat) \<times> BYTE list) list \<Rightarrow> DWORD list \<Rightarrow> 'bmp client_state \<Rightarrow> bool" where
  "viewer_inv frames decodeImage t sq taken pending decoded st \<longleftrightarrow>
     (let a = fold (arrive frames) taken no_arrivals in
      queue (packetQueue st) = map (\<lambda>(fi, junk). datagram_of t sq frames fi @ junk) pending
    \<and> queue_semaphore (packetQueue st) = length (queue (packetQueue st))
    \<and> completed a = decoded @ queue (frameNumQueue st)
    \<and> queue_semaphore (frameNumQueue st) = length (queue (frameNumQueue st))
    \<and> (\<forall>f. activeFrames st f = (if f \<in> set decoded then None else buffer_of f (frames f) (arrived a f)))
    \<and> pqueue_semaphore (frameNumBmpQueue st) = length (pqueue (frameNumBmpQueue st))
    \<and> (\<forall>x \<in> set (displayed st) \<union> set (pqueue (frameNumBmpQueue st)). decodes frames decodeImage x)
    \<and> mset (map fst (displayed st)) + mset (map fst (pqueue (frameNumBmpQueue st))) \<subseteq># mset decoded
    \<and> (\<forall>f \<in> set decoded. decodeImage (frames f) \<noteq> None \<longrightarrow>
         f \<in> fst ` (set (displayed st) \<union> set (pqueue (frameNumBmpQueue st)))))"

definition fragments_ok :: "(DWORD \<Rightarrow> BYTE list) \<Rightarrow> (DWORD \<times> nat) list \<Rightarrow> bool" where
  "fragments_ok frames fis \<longleftrightarrow> distinct fis \<and> (\<forall>fi \<in> set fis. fragment frames fi)"

lemma viewer_inv_init: "viewer_inv frames decodeImage t sq [] [] [] client_init"
  by (simp add: viewer_inv_def client_init_def no_arrivals_def buffer_of_def ThreadSafeQueue_def
      ThreadSafePrioQueue_def)

lemma completed_length: "length (completed (fold (arrive frames) xs a)) \<le> length (completed a) + length xs"
proof (induction xs arbitrary: a)
  case (Cons x xs)
  have "length (completed (arrive frames x a)) \<le> Suc (length (completed a))"
    by (simp add: arrive_def Let_def)
  with Cons[of "arrive frames x a"] show ?case by simp
qed simp

lemma completed_prefix: "\<exists>zs. completed (fold (arrive frames) xs a) = completed a @ zs"
proof (induction xs arbitrary: a)
  case (Cons x xs)
  have "\<exists>z. completed (arrive frames x a) = completed a @ z" by (simp add: arrive_def Let_def)
  with Cons[of "arrive frames x a"] show ?case by auto
qed simp

text \<open>A frame that is complete has no further fragment to come.\<close>

lemma not_complete:
  assumes "fragments_ok frames (taken @ [(f, i)])"
  shows "f \<notin> set (completed (fold (arrive frames) taken no_arrivals))"
proof
  assume c: "f \<in> set (completed (fold (arrive frames) taken no_arrivals))"
  have F: "fragment frames (f, i)" and new: "(f, i) \<notin> set taken" and ok: "distinct taken"
    "\<forall>fi \<in> set taken. fragment frames fi"
    using assms by (auto simp: fragments_ok_def)
  have "{j. (f, j) \<in> set taken} = {..<k_of (frames f)}"
    using completed_distinct[OF ok] c fragment_bounds(4)[OF F] by blast
  moreover have "i < k_of (frames f)" using F by (simp add: fragment_def)
  ultimately show False using new by auto
qed

lemma receive_inv:
  assumes I: "viewer_inv frames decodeImage t sq taken pending decoded st"
    and F: "fragment frames fi" and fresh: "length fresh = CLIENT_PACKET_SIZE"
    and small: "length pending < MAXINT"
  shows "\<exists>junk. viewer_inv frames decodeImage t sq taken (pending @ [(fi, junk)]) decoded
    (receiver_step fresh (Some (datagram_of t sq frames fi)) st)"
proof -
  let ?d = "datagram_of t sq frames fi"
  have "length ?d \<le> length fresh"
    using fragment_bounds(5)[of frames "fst fi" "snd fi"] F fresh
    by (simp add: datagram_of_def length_frame_datagram CLIENT_PACKET_SIZE_def)
  then have "\<exists>ack. receiver_step fresh (Some ?d) st = st\<lparr>acks := ack,
      packetQueue := snd (tsq_Push (?d @ drop (length ?d) fresh) (packetQueue st))\<rparr>"
    by (auto simp: receiver_step_def winsock_recvfrom_def Let_def)
  then show ?thesis
    using I small
    by (auto simp: viewer_inv_def Let_def tsq_defs intro!: exI[of _ "drop (length ?d) fresh"])
qed

lemma consume_inv:
  assumes I: "viewer_inv frames decodeImage t sq taken (((f, i), junk) # pending) decoded st"
    and ok: "fragments_ok frames (taken @ [(f, i)])" and small: "length taken < MAXINT"
  shows "\<exists>st'. consumer_step st = Done st'
    \<and> viewer_inv frames decodeImage t sq (taken @ [(f, i)]) pending decoded st'"
proof -
  let ?a = "fold (arrive frames) taken no_arrivals"
  let ?q = "packetQueue st\<lparr>queue := map (\<lambda>(fi, junk). datagram_of t sq frames fi @ junk) pending,
    queue_semaphore := length pending\<rparr>"
  let ?st = "st\<lparr>packetQueue := ?q\<rparr>"
  let ?st' = "put_fragment f (frames f) (arrived ?a f) i ?st"
  have notdone: "f \<notin> set (completed ?a)" by (rule not_complete[OF ok])
  then have entry: "activeFrames ?st f = buffer_of f (frames f) (arrived ?a f)"
    using I by (simp add: viewer_inv_def Let_def)
  have F: "fragment frames (f, i)" using ok by (simp add: fragments_ok_def)
  have "tsq_Pop tsq_timeout (packetQueue st) = (Done (datagram_of t sq frames (f, i) @ junk), ?q)"
    using I by (simp add: viewer_inv_def Let_def tsq_defs)
  moreover have "\<not> tsq_isEmpty (packetQueue st)" using I by (simp add: viewer_inv_def Let_def tsq_defs)
  ultimately have step: "consumer_step st = Done ?st'"
    using consume_fragment_at[OF entry F, of t "sq f" junk] by (simp add: consumer_step_def datagram_of_def)
  have "length (queue (frameNumQueue st)) < MAXINT"
    using I completed_length[of frames taken no_arrivals] small
    by (simp add: viewer_inv_def Let_def no_arrivals_def)
  then have "viewer_inv frames decodeImage t sq (taken @ [(f, i)]) pending decoded ?st'"
    using I notdone
    by (auto simp: viewer_inv_def Let_def put_fragment_def arrive_def buffer_of_def tsq_defs simp del: bytes_in_simps)
  with step show ?thesis by blast
qed

text \<open>A frame that is complete and not yet decoded has all its bytes in its buffer.\<close>

lemma complete_buffer:
  assumes ok: "fragments_ok frames taken" and n: "n \<in> set (completed (fold (arrive frames) taken no_arrivals))"
  shows "\<exists>fb. buffer_of n (frames n) (arrived (fold (arrive frames) taken no_arrivals) n) = Some fb
    \<and> chunks fb = frames n"
proof -
  let ?a = "fold (arrive frames) taken no_arrivals"
  have d: "distinct taken" "\<forall>fi \<in> set taken. fragment frames fi" using ok by (simp_all add: fragments_ok_def)
  note C = completed_distinct[OF d]
  from C n obtain i where i: "(n, i) \<in> set taken" by force
  with d(2) have F: "fragment frames (n, i)" by blast
  then have "{j. (n, j) \<in> set taken} = {..<k_of (frames n)}"
    using C n fragment_bounds(4)[OF F] by blast
  then have full: "set (arrived ?a n) = {..<k_of (frames n)}" by (simp add: set_arrived)
  moreover have "i \<in> set (arrived ?a n)" using i by (simp add: set_arrived)
  then have "arrived ?a n \<noteq> []" by (metis empty_iff empty_set)
  ultimately show ?thesis
    by (simp add: buffer_of_def filled_def k_of_def partial_frame_full)
qed

lemma decode_inv:
  assumes I: "viewer_inv frames decodeImage t sq taken pending decoded st"
    and ok: "fragments_ok frames taken" and q: "queue (frameNumQueue st) = n # rest"
    and small: "length (pqueue (frameNumBmpQueue st)) < MAXINT"
  shows "\<exists>st'. decoder_step decodeImage st = Done st'
    \<and> viewer_inv frames decodeImage t sq taken pending (decoded @ [n]) st'
    \<and> displayed st' = displayed st
    \<and> frameNumBmpQueue st' = (if decodeImage (frames n) = None then frameNumBmpQueue st
         else snd (tspq_Push CompareNumBmpPairs (n, decodeImage (frames n)) (frameNumBmpQueue st)))"
proof -
  let ?a = "fold (arrive frames) taken no_arrivals"
  have c: "completed ?a = decoded @ n # rest" using I q by (simp add: viewer_inv_def Let_def)
  moreover have "distinct (completed ?a)"
    using ok completed_distinct[of taken frames] by (simp add: fragments_ok_def)
  ultimately have new: "n \<notin> set decoded" "n \<in> set (completed ?a)" by auto
  from complete_buffer[OF ok new(2)] obtain fb where
    fb: "buffer_of n (frames n) (arrived ?a n) = Some fb" "chunks fb = frames n" by blast
  then have entry: "activeFrames st n = Some fb" using I new by (simp add: viewer_inv_def Let_def)
  let ?q = "\<lparr>queue = rest, queue_semaphore = length rest\<rparr>"
  let ?bmp = "decodeImage (frames n)"
  let ?st' = "st\<lparr>frameNumQueue := ?q, frameNumBmpQueue := (if ?bmp = None then frameNumBmpQueue st
      else snd (tspq_Push CompareNumBmpPairs (n, ?bmp) (frameNumBmpQueue st))),
    activeFrames := (activeFrames st)(n := None)\<rparr>"
  have "tsq_Pop tsq_timeout (frameNumQueue st) = (Done n, ?q)"
    using I q by (cases "frameNumQueue st") (simp add: viewer_inv_def Let_def tsq_defs)
  moreover have "\<not> tsq_isEmpty (frameNumQueue st)" using q by (simp add: tsq_defs)
  ultimately have step: "decoder_step decodeImage st = Done ?st'"
    by (simp add: decoder_step_def Let_def entry fb)
  have sub: "mset (map fst (displayed ?st')) + mset (map fst (pqueue (frameNumBmpQueue ?st')))
      \<subseteq># mset (decoded @ [n])"
  proof -
    let ?m = "mset (map fst (displayed st)) + mset (map fst (pqueue (frameNumBmpQueue st)))"
    have m: "?m \<subseteq># mset decoded" using I by (simp add: viewer_inv_def Let_def)
    then have "?m \<subseteq># add_mset n (mset decoded)" by (rule subset_mset.order_trans) simp
    with m show ?thesis by (cases ?bmp) (simp_all add: tspq_Push_def split_def Let_def)
  qed
  have all: "\<forall>x \<in> set (displayed ?st') \<union> set (pqueue (frameNumBmpQueue ?st')). decodes frames decodeImage x"
  proof -
    have "decodes frames decodeImage (n, ?bmp)" if "?bmp \<noteq> None" using that by (simp add: decodes_def)
    then show ?thesis using I by (cases ?bmp) (auto simp: viewer_inv_def Let_def tspq_Push_def split_def)
  qed
  have len: "pqueue_semaphore (frameNumBmpQueue ?st') = length (pqueue (frameNumBmpQueue ?st'))"
    using I small by (cases ?bmp)
      (simp_all add: viewer_inv_def Let_def tspq_Push_def split_def release_semaphore_def flip: size_mset)
  have kept: "\<forall>f \<in> set (decoded @ [n]). decodeImage (frames f) \<noteq> None \<longrightarrow>
      f \<in> fst ` (set (displayed ?st') \<union> set (pqueue (frameNumBmpQueue ?st')))"
    using I by (cases ?bmp) (auto simp: viewer_inv_def Let_def tspq_Push_def split_def image_Un)
  have "viewer_inv frames decodeImage t sq taken pending (decoded @ [n]) ?st'"
    unfolding viewer_inv_def Let_def
    using I c sub all len new kept by (intro conjI) (simp_all add: viewer_inv_def Let_def)
  with step show ?thesis by (intro exI[of _ ?st']) simp
qed

lemma paint_inv:
  assumes I: "viewer_inv frames decodeImage t sq taken pending decoded st"
  shows "\<exists>st'. paint_step st = Done st' \<and> viewer_inv frames decodeImage t sq taken pending decoded st'"
proof (cases "\<not> loadFrame st \<or> pqueue (frameNumBmpQueue st) = []")
  case True
  with I show ?thesis by (auto simp: paint_step_def tspq_isEmpty_def)
next
  case False
  then obtain x q where q: "pqueue (frameNumBmpQueue st) = x # q" by (cases "pqueue (frameNumBmpQueue st)") auto
  have "decodes frames decodeImage x" using I q by (simp add: viewer_inv_def Let_def)
  then obtain n b where x: "x = (n, Some b)" by (cases x) (auto simp: decodes_def)
  let ?st' = "st\<lparr>frameNumBmpQueue := \<lparr>pqueue = q, pqueue_semaphore = length q\<rparr>, loadFrame := False,
    displayed := displayed st @ [x]\<rparr>"
  have "tspq_Pop tsq_timeout (frameNumBmpQueue st) = (Done x, \<lparr>pqueue = q, pqueue_semaphore = length q\<rparr>)"
    using I q by (cases "frameNumBmpQueue st") (simp add: viewer_inv_def Let_def tspq_defs)
  then have "paint_step st = Done ?st'" using False x by (simp add: paint_step_def tspq_isEmpty_def)
  moreover have "viewer_inv frames decodeImage t sq taken pending decoded ?st'"
    using I q by (simp add: viewer_inv_def Let_def)
  ultimately show ?thesis by blast
qed

text \<open>The run: no round faults or blocks, and the invariant holds for what has arrived.\<close>

lemma inv_lengths:
  assumes "viewer_inv frames decodeImage t sq taken pending decoded st"
  shows "length (pqueue (frameNumBmpQueue st)) \<le> length decoded" "length decoded \<le> length taken"
proof -
  have "mset (map fst (displayed st)) + mset (map fst (pqueue (frameNumBmpQueue st))) \<subseteq># mset decoded"
    using assms by (simp add: viewer_inv_def Let_def)
  from size_mset_mono[OF this] show "length (pqueue (frameNumBmpQueue st)) \<le> length decoded" by simp
  have "length decoded \<le> length (completed (fold (arrive frames) taken no_arrivals))"
    using assms by (simp add: viewer_inv_def Let_def)
  also have "\<dots> \<le> length taken" using completed_length[of frames taken no_arrivals] by (simp add: no_arrivals_def)
  finally show "length decoded \<le> length taken" .
qed

lemma round_inv:
  assumes I: "viewer_inv frames decodeImage t sq taken pending decoded st"
    and ok: "fragments_ok frames (taken @ map fst pending @ fis)"
    and ev: "received e = map (datagram_of t sq frames) fis"
      "\<forall>fresh d. e = Receive fresh d \<longrightarrow> length fresh = CLIENT_PACKET_SIZE"
    and small: "length taken + length pending < MAXINT"
  shows "\<exists>st' taken' pending' decoded'. viewer_step decodeImage e st = Done st'
    \<and> viewer_inv frames decodeImage t sq taken' pending' decoded' st'
    \<and> taken' @ map fst pending' = taken @ map fst pending @ fis"
proof (cases e)
  case (Receive fresh d)
  show ?thesis
  proof (cases d)
    case None
    with Receive I ev show ?thesis by (auto simp: receiver_step_def winsock_recvfrom_def)
  next
    case (Some dgram)
    then obtain fi where fi: "fis = [fi]" "dgram = datagram_of t sq frames fi"
      using ev(1) Receive by (cases fis) auto
    have "fragment frames fi" using ok fi by (simp add: fragments_ok_def)
    from receive_inv[OF I this ev(2)[rule_format, OF Receive]] small obtain junk where
      "viewer_inv frames decodeImage t sq taken (pending @ [(fi, junk)]) decoded (receiver_step fresh d st)"
      by (auto simp: Some fi)
    then show ?thesis
      using Receive fi
      by (intro exI[of _ "receiver_step fresh d st"] exI[of _ taken] exI[of _ "pending @ [(fi, junk)]"] exI) auto
  qed
next
  case Consume
  then have fis: "fis = []" using ev(1) by simp
  show ?thesis
  proof (cases pending)
    case Nil
    then have "consumer_step st = Done st"
      using I by (simp add: consumer_step_def viewer_inv_def Let_def tsq_isEmpty_def)
    with Consume I fis show ?thesis by auto
  next
    case (Cons p rest)
    obtain f i junk where p: "p = ((f, i), junk)" by (metis surj_pair)
    have "fragments_ok frames (taken @ [(f, i)])" using ok Cons p by (auto simp: fragments_ok_def)
    from consume_inv[OF I[unfolded Cons p] this] small obtain st' where
      "consumer_step st = Done st'" "viewer_inv frames decodeImage t sq (taken @ [(f, i)]) rest decoded st'"
      by auto
    with Consume fis Cons p show ?thesis
      by (intro exI[of _ st'] exI[of _ "taken @ [(f, i)]"] exI[of _ rest] exI) auto
  qed
next
  case Decode
  then have fis: "fis = []" using ev(1) by simp
  have okt: "fragments_ok frames taken" using ok by (simp add: fragments_ok_def)
  show ?thesis
  proof (cases "queue (frameNumQueue st)")
    case Nil
    then have "decoder_step decodeImage st = Done st" by (simp add: decoder_step_def tsq_isEmpty_def)
    with Decode I fis show ?thesis by auto
  next
    case (Cons n rest)
    have "length (pqueue (frameNumBmpQueue st)) < MAXINT" using inv_lengths[OF I] small by linarith
    from decode_inv[OF I okt Cons this] show ?thesis using Decode fis by auto
  qed
next
  case Tick
  have "viewer_inv frames decodeImage t sq taken pending decoded (timer_step st)"
    using I by (simp add: viewer_inv_def Let_def timer_step_def)
  with Tick ev(1) show ?thesis by auto
next
  case Paint
  with paint_inv[OF I] ev(1) show ?thesis by auto
qed

lemma run_inv:
  assumes "viewer_inv frames decodeImage t sq taken pending decoded st"
    and "fragments_ok frames (taken @ map fst pending @ fis)"
    and "concat (map received es) = map (datagram_of t sq frames) fis"
    and "\<forall>e \<in> set es. \<forall>fresh d. e = Receive fresh d \<longrightarrow> length fresh = CLIENT_PACKET_SIZE"
    and "length taken + length pending + length fis < MAXINT"
  shows "\<exists>st' taken' pending' decoded'. viewer_run decodeImage es st = Done st'
    \<and> viewer_inv frames decodeImage t sq taken' pending' decoded' st'
    \<and> taken' @ map fst pending' = taken @ map fst pending @ fis"
  using assms
proof (induction es arbitrary: st taken pending decoded fis)
  case Nil
  then show ?case by (auto simp del: bind_outcome_Done)
next
  case (Cons e es)
  let ?k = "length (received e)"
  have e: "received e = map (datagram_of t sq frames) (take ?k fis)"
    and rest: "concat (map received es) = map (datagram_of t sq frames) (drop ?k fis)"
    using Cons.prems(3) by (simp_all add: append_eq_conv_conj take_map drop_map)
  have sub: "fragments_ok frames (taken @ map fst pending @ take ?k fis)"
    using Cons.prems(2) append_take_drop_id[of ?k fis]
    by (auto simp: fragments_ok_def dest: in_set_takeD distinct_take)
  have fresh: "\<forall>fresh d. e = Receive fresh d \<longrightarrow> length fresh = CLIENT_PACKET_SIZE"
    using Cons.prems(4) by simp
  have small: "length taken + length pending < MAXINT" using Cons.prems(5) by simp
  from round_inv[OF Cons.prems(1) sub e fresh small] obtain st1 taken1 pending1 decoded1 where
    s1: "viewer_step decodeImage e st = Done st1"
      "viewer_inv frames decodeImage t sq taken1 pending1 decoded1 st1"
      "taken1 @ map fst pending1 = taken @ map fst pending @ take ?k fis" by (elim exE conjE)
  then have all: "taken1 @ map fst pending1 @ drop ?k fis = taken @ map fst pending @ fis"
    by (metis append.assoc append_take_drop_id)
  have "length taken1 + length pending1 + length (drop ?k fis) = length taken + length pending + length fis"
    using arg_cong[OF all, of length] by simp
  with Cons.IH[OF s1(2), of "drop ?k fis"] Cons.prems(2,4,5) rest all s1(1)
  show ?case by (simp del: bind_outcome_Done length_drop)
qed

text \<open>The consumer drains the packet queue, one packet per round.\<close>

lemma drain_packets:
  assumes "viewer_inv frames decodeImage t sq taken pending decoded st"
    and "fragments_ok frames (taken @ map fst pending)" and "length taken + length pending < MAXINT"
  shows "\<exists>st'. viewer_run decodeImage (replicate (length pending) Consume) st = Done st'
    \<and> viewer_inv frames decodeImage t sq (taken @ map fst pending) [] decoded st'"
  using assms
proof (induction pending arbitrary: taken st)
  case Nil
  then show ?case by simp
next
  case (Cons x pending)
  obtain f i junk where x: "x = ((f, i), junk)" by (metis surj_pair)
  have ok: "fragments_ok frames (taken @ [(f, i)])" using Cons.prems(2) x by (auto simp: fragments_ok_def)
  from consume_inv[OF Cons.prems(1)[unfolded x] ok] Cons.prems(3) obtain st1 where st1:
    "consumer_step st = Done st1" "viewer_inv frames decodeImage t sq (taken @ [(f, i)]) pending decoded st1"
    by auto
  from Cons.IH[OF st1(2)] Cons.prems(2,3) x st1(1) show ?case by (simp del: bind_outcome_Done)
qed

lemma receives_inv:
  assumes "viewer_inv frames decodeImage t sq taken pending decoded st"
    and "fragments_ok frames (taken @ map fst pending @ fis)" and "length fresh = CLIENT_PACKET_SIZE"
    and "length taken + length pending + length fis < MAXINT"
  shows "\<exists>st' pending'. viewer_run decodeImage (map (\<lambda>fi. Receive fresh (Some (datagram_of t sq frames fi))) fis) st = Done st'
    \<and> viewer_inv frames decodeImage t sq taken pending' decoded st' \<and> map fst pending' = map fst pending @ fis"
  using assms
proof (induction fis arbitrary: pending st)
  case Nil
  then show ?case by auto
next
  case (Cons fi fis)
  have "fragment frames fi" using Cons.prems(2) by (simp add: fragments_ok_def)
  from receive_inv[OF Cons.prems(1) this Cons.prems(3)] Cons.prems(4) obtain junk where
    "viewer_inv frames decodeImage t sq taken (pending @ [(fi, junk)]) decoded
      (receiver_step fresh (Some (datagram_of t sq frames fi)) st)" by auto
  from Cons.IH[OF this] Cons.prems show ?case by (simp del: bind_outcome_Done)
qed

text \<open>A single complete frame goes through the decoder to the next paint after a tick.\<close>

lemma show_only_frame:
  assumes I: "viewer_inv frames decodeImage t sq taken pending [] st" and ok: "fragments_ok frames taken"
    and q: "queue (frameNumQueue st) = [n]" and bmp: "decodeImage (frames n) = Some b"
  shows "\<exists>st'. viewer_run decodeImage [Decode, Tick, Paint] st = Done st' \<and> displayed st' = [(n, Some b)]"
proof -
  have none: "pqueue (frameNumBmpQueue st) = []" "displayed st = []" "pqueue_semaphore (frameNumBmpQueue st) = 0"
    using I by (auto simp: viewer_inv_def Let_def)
  have "length (pqueue (frameNumBmpQueue st)) < MAXINT" using none by (simp add: MAXINT_def)
  from decode_inv[OF I ok q this] obtain st1 where st1: "decoder_step decodeImage st = Done st1"
    "displayed st1 = []" "frameNumBmpQueue st1 = \<lparr>pqueue = [(n, Some b)], pqueue_semaphore = 1\<rparr>"
    using none bmp by (auto simp: tspq_Push_def release_semaphore_def MAXINT_def split_def)
  then show ?thesis
    by (simp add: timer_step_def paint_step_def tspq_isEmpty_def tspq_Pop_def wait_semaphore_def)
qed

text \<open>A frame all of whose fragments were taken is the only complete one.\<close>

lemma one_frame_completes:
  assumes "fragments_ok (\<lambda>_. frame) fis" and "frame \<noteq> []"
    and "set fis = Pair f ` {..<k_of frame}"
  shows "completed (fold (arrive (\<lambda>_. frame)) fis no_arrivals) = [f]"
proof -
  let ?c = "completed (fold (arrive (\<lambda>_. frame)) fis no_arrivals)"
  have d: "distinct fis" "\<forall>fi \<in> set fis. fragment (\<lambda>_. frame) fi" using assms(1) by (simp_all add: fragments_ok_def)
  note C = completed_distinct[OF d]
  have "{i. (f, i) \<in> set fis} = {..<k_of frame}" using assms(3) by auto
  then have "f \<in> set ?c" using C assms(2) by blast
  moreover have "set ?c \<subseteq> {f}" using C assms(3) by auto
  ultimately have one: "set ?c = {f}" by blast
  show ?thesis by (rule distinct_singleton[OF C[THEN conjunct1] one])
qed

text \<open>The viewer's part: a frame received in two portions is decoded and shown.\<close>

lemma shown_in_two_portions:
  assumes ok: "fragments_ok (\<lambda>_. frame) (map (Pair f) (xs @ ys))" and full: "set (xs @ ys) = {..<k_of frame}"
    and "frame \<noteq> []" and "length (xs @ ys) < MAXINT" and fresh: "length fresh = CLIENT_PACKET_SIZE"
    and bmp: "decodeImage frame = Some b"
    and receive: "receive = (\<lambda>i. Receive fresh (Some (frame_datagram t 4060 f frame q i)))"
  shows "\<exists>st1 st2. viewer_run decodeImage (map receive xs) client_init = Done st1
    \<and> viewer_run decodeImage (map receive ys @ replicate (length (xs @ ys)) Consume @ [Decode, Tick, Paint]) st1 = Done st2
    \<and> displayed st2 = [(f, Some b)]"
proof -
  let ?fr = "\<lambda>_ :: DWORD. frame" and ?sq = "\<lambda>_ :: DWORD. q"
  have rcv: "map (\<lambda>fi. Receive fresh (Some (datagram_of t ?sq ?fr fi))) (map (Pair f) js) = map receive js" for js
    by (simp add: datagram_of_def receive)
  have ok1: "fragments_ok ?fr ([] @ map fst [] @ map (Pair f) xs)" using ok by (auto simp: fragments_ok_def)
  have "length [] + length [] + length (map (Pair f) xs) < MAXINT" using assms(4) by simp
  from receives_inv[OF viewer_inv_init[of ?fr decodeImage t ?sq] ok1 fresh this, unfolded rcv list.map append_Nil]
  obtain st1 p1 where st1: "viewer_run decodeImage (map receive xs) client_init = Done st1"
    "viewer_inv ?fr decodeImage t ?sq [] p1 [] st1" "map fst p1 = map (Pair f) xs" by (elim exE conjE)
  have ok2: "fragments_ok ?fr ([] @ map fst p1 @ map (Pair f) ys)" using ok st1(3) by simp
  have "length p1 = length xs" using arg_cong[OF st1(3), of length] by simp
  then have "length [] + length p1 + length (map (Pair f) ys) < MAXINT" using assms(4) by simp
  from receives_inv[OF st1(2) ok2 fresh this, unfolded rcv]
  obtain st2 p2 where st2: "viewer_run decodeImage (map receive ys) st1 = Done st2"
    "viewer_inv ?fr decodeImage t ?sq [] p2 [] st2" "map fst p2 = map fst p1 @ map (Pair f) ys" by (elim exE conjE)
  have p2: "map fst p2 = map (Pair f) (xs @ ys)" using st1(3) st2(3) by simp
  then have len: "length p2 = length (xs @ ys)" by (metis length_map)
  have "fragments_ok ?fr ([] @ map fst p2)" using ok p2 by simp
  from drain_packets[OF st2(2) this] obtain st3 where
    st3: "viewer_run decodeImage (replicate (length (xs @ ys)) Consume) st2 = Done st3"
      "viewer_inv ?fr decodeImage t ?sq (map (Pair f) (xs @ ys)) [] [] st3"
    using assms(4) unfolding len p2 by auto
  have "set (map (Pair f) (xs @ ys)) = Pair f ` {..<k_of frame}" using full by auto
  from one_frame_completes[OF ok assms(3) this] have "queue (frameNumQueue st3) = [f]"
    using st3(2) by (simp add: viewer_inv_def Let_def)
  from show_only_frame[OF st3(2) ok this bmp] obtain st4 where
    "viewer_run decodeImage [Decode, Tick, Paint] st3 = Done st4" "displayed st4 = [(f, Some b)]" by blast
  with st1(1) st2(1) st3(1) show ?thesis
    by (simp add: viewer_run_append del: bind_outcome_Done viewer_run_simps)
qed

text \<open>What has been shown in such a state.\<close>

lemma inv_shown:
  assumes I: "viewer_inv frames decodeImage t sq taken pending decoded st"
    and ok: "fragments_ok frames taken"
  shows "distinct (map fst (displayed st))"
    and "(n, bmp) \<in> set (displayed st) \<Longrightarrow> frames n \<noteq> [] \<and> {j. (n, j) \<in> set taken} = {..<k_of (frames n)}"
proof -
  let ?c = "completed (fold (arrive frames) taken no_arrivals)"
  have d: "distinct taken" "\<forall>fi \<in> set taken. fragment frames fi" using ok by (simp_all add: fragments_ok_def)
  note C = completed_distinct[OF d, THEN conjunct1] completed_distinct[OF d, THEN conjunct2, THEN conjunct1, rule_format]
    completed_distinct[OF d, THEN conjunct2, THEN conjunct2]
  have c: "?c = decoded @ queue (frameNumQueue st)" using I by (simp add: viewer_inv_def Let_def)
  have "mset (map fst (displayed st)) + mset (map fst (pqueue (frameNumBmpQueue st))) \<subseteq># mset decoded"
    using I by (simp add: viewer_inv_def Let_def)
  then have sub: "mset (map fst (displayed st)) \<subseteq># mset decoded"
    by (rule subset_mset.order_trans[OF mset_subset_eq_add_left])
  obtain rest where "mset decoded = mset (map fst (displayed st)) + rest"
    using sub by (rule subset_mset.less_eqE)
  moreover obtain others where "mset others = rest" using ex_mset by blast
  ultimately have "mset decoded = mset (map fst (displayed st) @ others)" by simp
  moreover have "distinct decoded" using C(1) unfolding c by simp
  ultimately have "distinct (map fst (displayed st) @ others)"
    using mset_eq_imp_distinct_iff by blast
  then show "distinct (map fst (displayed st))" by simp
  assume n: "(n, bmp) \<in> set (displayed st)"
  have "set (map fst (displayed st)) \<subseteq> set decoded"
    using set_mset_mono[OF sub] by (simp only: set_mset_mset)
  moreover have "n \<in> set (map fst (displayed st))" using n by force
  ultimately have n': "n \<in> set ?c" unfolding c by auto
  then have "n \<in> fst ` set taken" using C(3) by blast
  then obtain i where "(n, i) \<in> set taken" by force
  then have "frames n \<noteq> []" using d(2) fragment_bounds(4)[of frames n i] by blast
  then show "frames n \<noteq> [] \<and> {j. (n, j) \<in> set taken} = {..<k_of (frames n)}" using C(2) n' by blast
qed

text \<open>So every frame shown in it is whole.\<close>

lemma inv_whole:
  assumes I: "viewer_inv frames decodeImage t sq taken pending decoded st"
    and ok: "fragments_ok frames (taken @ map fst pending)"
  shows "distinct (map fst (displayed st))
    \<and> (\<forall>(n, bmp) \<in> set (displayed st). bmp \<noteq> None \<and> bmp = decodeImage (frames n) \<and> frames n \<noteq> []
         \<and> (\<forall>i < k_of (frames n). (n, i) \<in> set (taken @ map fst pending)))"
proof -
  have "fragments_ok frames taken" using ok by (auto simp: fragments_ok_def)
  note shown = inv_shown[OF I this]
  have bmps: "\<forall>x \<in> set (displayed st). decodes frames decodeImage x"
    using I by (simp add: viewer_inv_def Let_def)
  have "case x of (n, bmp) \<Rightarrow> bmp \<noteq> None \<and> bmp = decodeImage (frames n) \<and> frames n \<noteq> []
      \<and> (\<forall>i < k_of (frames n). (n, i) \<in> set (taken @ map fst pending))" if x: "x \<in> set (displayed st)" for x
  proof -
    obtain n bmp where nb: "x = (n, bmp)" by fastforce
    have "(n, i) \<in> set (taken @ map fst pending)" if "i < k_of (frames n)" for i
      using shown(2)[OF x[unfolded nb]] that by auto
    with bspec[OF bmps x] shown(2)[OF x[unfolded nb]] show ?thesis by (auto simp: nb decodes_def)
  qed
  with shown(1) show ?thesis by blast
qed

text \<open>
  The viewer never shows a torn frame. Let its five threads run their rounds in any order while
  fragments of the host's frames arrive in any order, some perhaps never, but none twice. Then no
  round faults or blocks, every frame shown is the picture of all the bytes the host sent for it,
  and no frame is shown twice.
\<close>

lemma shows_whole_frames:
  assumes "concat (map received es) = map (datagram_of t sq frames) fis"
    and "distinct fis" and "\<forall>fi \<in> set fis. fragment frames fi"
    and "\<forall>e \<in> set es. \<forall>fresh d. e = Receive fresh d \<longrightarrow> length fresh = CLIENT_PACKET_SIZE"
    and "length fis < MAXINT"
  shows "\<exists>st. viewer_run decodeImage es client_init = Done st
    \<and> distinct (map fst (displayed st))
    \<and> (\<forall>(n, bmp) \<in> set (displayed st). bmp \<noteq> None \<and> bmp = decodeImage (frames n) \<and> frames n \<noteq> []
         \<and> (\<forall>i < k_of (frames n). (n, i) \<in> set fis))"
proof -
  have ok: "fragments_ok frames ([] @ map fst [] @ fis)" using assms(2,3) by (simp add: fragments_ok_def)
  have small: "length [] + length [] + length fis < MAXINT" using assms(5) by simp
  from run_inv[OF viewer_inv_init[of frames decodeImage] ok assms(1,4) small, unfolded list.map append_Nil]
  obtain st taken pending decoded where
    st: "viewer_run decodeImage es client_init = Done st"
    and I: "viewer_inv frames decodeImage t sq taken pending decoded st" and xs: "taken @ map fst pending = fis"
    by (elim exE conjE)
  have "fragments_ok frames (taken @ map fst pending)" using ok xs by simp
  from inv_whole[OF I this, unfolded xs] st show ?thesis by (intro exI[of _ st] conjI) simp_all
qed

end
