(* ===== verification/ViewerMain.thy ===== *)
theory ViewerMain
  imports Viewer Hooks Network
begin

text \<open>
  The viewer as a process, \<^verbatim>\<open>VideoClient/main.cpp\<close>: the start in \<open>wWinMain\<close> (\<open>MyRegisterClass\<close>,
  \<open>InitInstance\<close>, the datagram socket, the threads and the hooks), the window procedure and the message
  loop, and the shut-down, in which the main thread turns \<open>globalOn\<close> off, destroys the socket and
  joins the four threads. The rounds of the threads are those of \<^verbatim>\<open>ClientPipeline\<close>; here they
  interleave with the main thread, and the question is whether the program ends.
\<close>

section \<open>The window\<close>

text \<open>
  \<open>WNDCLASSEXW\<close> as \<open>MyRegisterClass\<close> fills it in: the members that are not resources of the program.
\<close>

record wndclassex =
  wc_style :: DWORD
  wc_wndProc :: string
  wc_instance :: nat
  wc_background :: nat
  wc_className :: string

definition CS_HREDRAW :: DWORD where "CS_HREDRAW = 2"
definition CS_VREDRAW :: DWORD where "CS_VREDRAW = 1"
definition COLOR_WINDOW :: nat where "COLOR_WINDOW = 5"

text \<open>\<open>atom\<close> is the answer of \<^verbatim>\<open>RegisterClassExW\<close>, 0 when it fails.\<close>

definition MyRegisterClass :: "nat \<Rightarrow> nat \<Rightarrow> string \<Rightarrow> nat \<times> wndclassex" where
  "MyRegisterClass atom hInstance szWindowClass =
     (atom, \<lparr>wc_style = or CS_HREDRAW CS_VREDRAW, wc_wndProc = ''WndProc'', wc_instance = hInstance,
        wc_background = COLOR_WINDOW + 1, wc_className = szWindowClass\<rparr>)"

text \<open>\<open>InitInstance\<close> returns whether there is a window, and sets \<open>hwndMain\<close> to it.\<close>

definition InitInstance :: "nat option \<Rightarrow> bool \<times> nat option" where
  "InitInstance created = (let hwndMain = created in if hwndMain = None then (False, hwndMain) else (True, hwndMain))"

text \<open>
  \<open>WndProc\<close>. \<open>def_result\<close> is the answer of \<^verbatim>\<open>DefWindowProc\<close>; the result is the return value, the
  new state, and whether \<^verbatim>\<open>PostQuitMessage\<close> was called.
\<close>

definition WM_DESTROY :: DWORD where "WM_DESTROY = 0x2"
definition WM_PAINT :: DWORD where "WM_PAINT = 0xF"
definition WM_INITDIALOG :: DWORD where "WM_INITDIALOG = 0x110"
definition WM_COMMAND :: DWORD where "WM_COMMAND = 0x111"

definition WndProc :: "int \<Rightarrow> DWORD \<Rightarrow> 'bmp client_state \<Rightarrow> (int \<times> 'bmp client_state \<times> bool) outcome" where
  "WndProc def_result uMsg st =
     (if uMsg = WM_PAINT then bind_outcome (paint_step st) (\<lambda>st'. Done (0, st', False))
      else if uMsg = WM_DESTROY then Done (0, st, True)
      else Done (def_result, st, False))"

text \<open>
  \<open>About\<close>: the result and the value \<^verbatim>\<open>EndDialog\<close> is called with, if it is. No menu command reaches it:
  \<open>WndProc\<close> has no branch for \<open>WM_COMMAND\<close>.
\<close>

definition IDOK :: WORD where "IDOK = 1"
definition IDCANCEL :: WORD where "IDCANCEL = 2"

definition About :: "DWORD \<Rightarrow> 64 word \<Rightarrow> bool \<times> WORD option" where
  "About message wParam =
     (if message = WM_INITDIALOG then (True, None)
      else if message = WM_COMMAND \<and> (ucast wParam = IDOK \<or> ucast wParam = IDCANCEL)
      then (True, Some (ucast wParam))
      else (False, None))"

section \<open>The process\<close>

datatype viewer_thread = Receiver | Consumer | Decoder | Timer

text \<open>
  Where a thread is: at the test of its loop, in \<^verbatim>\<open>recvfrom\<close> (the receiver), blocked for good in a
  \<open>Pop\<close>, or at its end.
\<close>

datatype thread_pc = At_test | In_recv | Stuck | Ended

text \<open>
  Where the main thread is: in the message loop, at one of the statements after it, blocked in a
  \<open>Pop\<close> of the window procedure, or returned. \<open>Died\<close>: a fault has ended the process.
\<close>

datatype main_pc =
    Pumping
  | Destroying
  | Joining viewer_thread
  | Releasing
  | Cleaning
  | Leaving_scope
  | Returned int
  | Main_stuck
  | Died

text \<open>
  \<open>closes\<close> counts how often the datagram socket was closed, \<open>gdi\<close> says whether GDI+ is up,
  \<open>wsa_down\<close> whether \<^verbatim>\<open>WSACleanup\<close> was called, \<open>quitting\<close> whether \<^verbatim>\<open>WM_QUIT\<close> is posted.
\<close>

record 'bmp process =
  pipeline :: "'bmp client_state"
  globalOn :: bool
  tpc :: "viewer_thread \<Rightarrow> thread_pc"
  mpc :: main_pc
  quitting :: bool
  closes :: nat
  pr_hooks :: hooks
  gdi :: bool
  wsa_down :: bool

section \<open>The start\<close>

text \<open>
  The answers of the system while \<open>wWinMain\<close> starts: the window class, the window, the datagram socket
  and the two hooks. The result of registering the class is not looked at; without a window the
  program returns, without a socket it exits, and hooks that cannot be installed only show a box.
\<close>

record main_answers =
  ma_atom :: nat
  ma_window :: "nat option"
  ma_socket :: SOCKET
  ma_binds :: bool
  ma_kbd :: "nat option"
  ma_ms :: "nat option"

definition wWinMain_start :: "main_answers \<Rightarrow> hooks \<Rightarrow> 'bmp process outcome" where
  "wWinMain_start os hs =
     (let p = \<lparr>pipeline = client_init, globalOn = True, tpc = (\<lambda>_. At_test), mpc = Pumping, quitting = False,
            closes = 0, pr_hooks = hs, gdi = False, wsa_down = False\<rparr>;
          _ = MyRegisterClass (ma_atom os) 0 ''CLIENT'';
          (ok, hwndMain) = InitInstance (ma_window os)
      in if \<not> ok then Done (p\<lparr>mpc := Returned 0, tpc := (\<lambda>_. Ended)\<rparr>)
         else bind_outcome (ClientSocket_initUDP (ma_socket os) (ma_binds os) (ClientSocket, empty_net)) (\<lambda>_.
           Done (p\<lparr>gdi := True, pr_hooks := SetMouseHook (ma_ms os) (SetKeyboardHook (ma_kbd os) hs)\<rparr>)))"

section \<open>The steps\<close>

text \<open>
  \<open>proc_step decode own p p'\<close>: one step of the process. \<open>own\<close> steps are those the program takes by
  itself; the others need something from outside: a message for the window, a datagram, an error of
  the network. A \<^verbatim>\<open>recvfrom\<close> that waits on a socket that is then closed returns with an error. A
  round of a thread that would wait in \<open>Pop\<close> leaves it stuck there, and a fault ends the process.
\<close>

definition running :: "'bmp process \<Rightarrow> bool" where
  "running p \<longleftrightarrow> mpc p \<noteq> Died \<and> (\<forall>r. mpc p \<noteq> Returned r)"

definition set_tpc :: "viewer_thread \<Rightarrow> thread_pc \<Rightarrow> 'bmp process \<Rightarrow> 'bmp process" where
  "set_tpc t a p = p\<lparr>tpc := (tpc p)(t := a)\<rparr>"

fun after_join :: "viewer_thread \<Rightarrow> main_pc" where
  "after_join Timer = Joining Decoder"
| "after_join Decoder = Joining Consumer"
| "after_join Consumer = Joining Receiver"
| "after_join Receiver = Releasing"

fun thread_round ::
  "(BYTE list \<Rightarrow> 'bmp option) \<Rightarrow> viewer_thread \<Rightarrow> 'bmp client_state \<Rightarrow> 'bmp client_state outcome" where
  "thread_round decode Receiver st = Done st"
| "thread_round decode Consumer st = consumer_step st"
| "thread_round decode Decoder st = decoder_step decode st"
| "thread_round decode Timer st = Done (timer_step st)"

inductive proc_step :: "(BYTE list \<Rightarrow> 'bmp option) \<Rightarrow> bool \<Rightarrow> 'bmp process \<Rightarrow> 'bmp process \<Rightarrow> bool"
  for decode where
  message: "mpc p = Pumping \<Longrightarrow> WndProc r uMsg (pipeline p) = Done (r', st, quit) \<Longrightarrow>
    proc_step decode False p (p\<lparr>pipeline := st, quitting := quitting p \<or> quit\<rparr>)"
| message_blocks: "mpc p = Pumping \<Longrightarrow> WndProc r uMsg (pipeline p) = Blocks \<Longrightarrow>
    proc_step decode False p (p\<lparr>mpc := Main_stuck\<rparr>)"
| message_faults: "mpc p = Pumping \<Longrightarrow> WndProc r uMsg (pipeline p) = Fault e \<Longrightarrow>
    proc_step decode False p (p\<lparr>mpc := Died\<rparr>)"
| no_message: "mpc p = Pumping \<Longrightarrow> proc_step decode False p (p\<lparr>globalOn := False, mpc := Destroying\<rparr>)"
| quits: "mpc p = Pumping \<Longrightarrow> quitting p \<Longrightarrow>
    proc_step decode True p (p\<lparr>globalOn := False, mpc := Destroying\<rparr>)"
| destroys: "mpc p = Destroying \<Longrightarrow> proc_step decode True p (p\<lparr>closes := Suc (closes p), mpc := Joining Timer\<rparr>)"
| joins: "mpc p = Joining t \<Longrightarrow> tpc p t = Ended \<Longrightarrow> proc_step decode True p (p\<lparr>mpc := after_join t\<rparr>)"
| releases: "mpc p = Releasing \<Longrightarrow>
    proc_step decode True p (p\<lparr>pr_hooks := ReleaseKeyboardHook (ReleaseMouseHook (pr_hooks p)), mpc := Cleaning\<rparr>)"
| cleans: "mpc p = Cleaning \<Longrightarrow> proc_step decode True p (p\<lparr>wsa_down := True, gdi := False, mpc := Leaving_scope\<rparr>)"
| leaves_scope: "mpc p = Leaving_scope \<Longrightarrow>
    proc_step decode True p (p\<lparr>closes := Suc (closes p), mpc := Returned 0\<rparr>)"
| ends: "running p \<Longrightarrow> tpc p t = At_test \<Longrightarrow> \<not> globalOn p \<Longrightarrow> proc_step decode True p (set_tpc t Ended p)"
| round: "running p \<Longrightarrow> tpc p t = At_test \<Longrightarrow> globalOn p \<Longrightarrow> t \<noteq> Receiver \<Longrightarrow>
    thread_round decode t (pipeline p) = Done st \<Longrightarrow> proc_step decode True p (p\<lparr>pipeline := st\<rparr>)"
| round_blocks: "running p \<Longrightarrow> tpc p t = At_test \<Longrightarrow> globalOn p \<Longrightarrow>
    thread_round decode t (pipeline p) = Blocks \<Longrightarrow> proc_step decode True p (set_tpc t Stuck p)"
| round_faults: "running p \<Longrightarrow> tpc p t = At_test \<Longrightarrow> globalOn p \<Longrightarrow>
    thread_round decode t (pipeline p) = Fault e \<Longrightarrow> proc_step decode True p (p\<lparr>mpc := Died\<rparr>)"
| waits: "running p \<Longrightarrow> tpc p Receiver = At_test \<Longrightarrow> globalOn p \<Longrightarrow>
    proc_step decode True p (set_tpc Receiver In_recv p)"
| receives: "running p \<Longrightarrow> tpc p Receiver = In_recv \<Longrightarrow> closes p = 0 \<Longrightarrow> length fresh = CLIENT_PACKET_SIZE \<Longrightarrow>
    proc_step decode False p (set_tpc Receiver At_test (p\<lparr>pipeline := receiver_step fresh dgram (pipeline p)\<rparr>))"
| recv_closed: "running p \<Longrightarrow> tpc p Receiver = In_recv \<Longrightarrow> 0 < closes p \<Longrightarrow>
    proc_step decode True p (set_tpc Receiver At_test p)"

text \<open>\<open>p'\<close> after \<open>n\<close> steps from \<open>p\<close>.\<close>

inductive steps :: "(BYTE list \<Rightarrow> 'bmp option) \<Rightarrow> 'bmp process \<Rightarrow> nat \<Rightarrow> 'bmp process \<Rightarrow> bool" for decode p where
  none: "steps decode p 0 p"
| more: "steps decode p n p1 \<Longrightarrow> proc_step decode own p1 p2 \<Longrightarrow> steps decode p (Suc n) p2"

section \<open>No thread waits on its queue for good\<close>

text \<open>
  The threads look into their queue before they take from it, and each queue has one thread that
  takes. So a \<open>Pop\<close> waits only if permits are lost, which takes more than \<open>MAXINT\<close> items.
\<close>

definition queues_synced :: "nat \<Rightarrow> 'bmp client_state \<Rightarrow> bool" where
  "queues_synced n st \<longleftrightarrow> queue_semaphore (packetQueue st) = length (queue (packetQueue st))
     \<and> queue_semaphore (frameNumQueue st) = length (queue (frameNumQueue st))
     \<and> pqueue_semaphore (frameNumBmpQueue st) = length (pqueue (frameNumBmpQueue st))
     \<and> length (queue (packetQueue st)) \<le> n \<and> length (queue (frameNumQueue st)) \<le> n
     \<and> length (pqueue (frameNumBmpQueue st)) \<le> n"

lemma push_synced:
  assumes "queue_semaphore q = length (queue q)" and "length (queue q) \<le> n" and "n < MAXINT"
  shows "queue_semaphore (snd (tsq_Push x q)) = length (queue (snd (tsq_Push x q)))"
    and "length (queue (snd (tsq_Push x q))) \<le> Suc n"
  using assms by (simp_all add: tsq_defs)

lemma pq_push_synced:
  assumes "pqueue_semaphore q = length (pqueue q)" and "length (pqueue q) \<le> n" and "n < MAXINT"
  shows "pqueue_semaphore (snd (tspq_Push cmp x q)) = length (pqueue (snd (tspq_Push cmp x q)))"
    and "length (pqueue (snd (tspq_Push cmp x q))) \<le> Suc n"
proof -
  have "length (pq_insert cmp x xs) = Suc (length xs)" for xs by (induction xs) auto
  with assms show "pqueue_semaphore (snd (tspq_Push cmp x q)) = length (pqueue (snd (tspq_Push cmp x q)))"
    and "length (pqueue (snd (tspq_Push cmp x q))) \<le> Suc n"
    by (simp_all add: tspq_Push_def release_semaphore_def)
qed

lemma pop_synced:
  assumes "queue_semaphore q = length (queue q)" and "\<not> tsq_isEmpty q"
  shows "\<exists>x q'. tsq_Pop tsq_timeout q = (Done x, q') \<and> queue_semaphore q' = length (queue q')
    \<and> length (queue q') \<le> length (queue q)"
  using assms by (cases "queue q") (simp_all add: tsq_defs)

lemma pq_pop_synced:
  assumes "pqueue_semaphore q = length (pqueue q)" and "\<not> tspq_isEmpty q"
  shows "\<exists>x q'. tspq_Pop tsq_timeout q = (Done x, q') \<and> pqueue_semaphore q' = length (pqueue q')
    \<and> length (pqueue q') \<le> length (pqueue q)"
  using assms by (cases "pqueue q") (simp_all add: tspq_Pop_def tspq_isEmpty_def wait_semaphore_def)

lemma synced_mono: "queues_synced n st \<Longrightarrow> queues_synced (Suc n) st"
  by (simp add: queues_synced_def)

lemma receiver_synced:
  "queues_synced n st \<Longrightarrow> n < MAXINT \<Longrightarrow> queues_synced (Suc n) (receiver_step fresh dgram st)"
  by (auto simp: queues_synced_def receiver_step_def Let_def push_synced split: prod.splits)

lemma consumer_synced:
  assumes "queues_synced n st" and "n < MAXINT"
  shows "consumer_step st \<noteq> Blocks \<and> (\<forall>st'. consumer_step st = Done st' \<longrightarrow> queues_synced (Suc n) st')"
proof (cases "tsq_isEmpty (packetQueue st)")
  case True
  then show ?thesis using assms(1) by (simp add: consumer_step_def synced_mono)
next
  case False
  from pop_synced[OF _ this] assms(1) obtain x q' where q: "tsq_Pop tsq_timeout (packetQueue st) = (Done x, q')"
    "queue_semaphore q' = length (queue q')" "length (queue q') \<le> length (queue (packetQueue st))"
    by (auto simp: queues_synced_def)
  let ?st = "st\<lparr>packetQueue := q'\<rparr>"
  have s: "queues_synced n ?st" using assms(1) q(2,3) by (simp add: queues_synced_def)
  have "consume_packet x ?st \<noteq> Blocks"
    by (auto simp: consume_packet_def copy_payload_def mem_read_def mem_write_def Let_def)
  moreover have "queues_synced (Suc n) st'" if "consume_packet x ?st = Done st'" for st'
    using that s assms(2) by (auto simp: consume_packet_def queues_synced_def Let_def push_synced split: if_splits)
  ultimately show ?thesis using False q(1) by (simp add: consumer_step_def)
qed

lemma decoder_synced:
  assumes "queues_synced n st" and "n < MAXINT"
  shows "\<exists>st'. decoder_step decode st = Done st' \<and> queues_synced (Suc n) st'"
proof (cases "tsq_isEmpty (frameNumQueue st)")
  case True
  then show ?thesis using assms(1) by (simp add: decoder_step_def synced_mono)
next
  case False
  from pop_synced[OF _ this] assms(1) obtain x q' where "tsq_Pop tsq_timeout (frameNumQueue st) = (Done x, q')"
    "queue_semaphore q' = length (queue q')" "length (queue q') \<le> length (queue (frameNumQueue st))"
    by (auto simp: queues_synced_def)
  with assms False show ?thesis
    by (auto simp: decoder_step_def queues_synced_def Let_def pq_push_synced)
qed

lemma paint_synced:
  assumes "queues_synced n st"
  shows "\<exists>st'. paint_step st = Done st' \<and> queues_synced n st'"
proof (cases "\<not> loadFrame st \<or> tspq_isEmpty (frameNumBmpQueue st)")
  case True
  then show ?thesis using assms by (simp add: paint_step_def)
next
  case False
  with pq_pop_synced[of "frameNumBmpQueue st"] assms obtain x q' where
    "tspq_Pop tsq_timeout (frameNumBmpQueue st) = (Done x, q')"
    "pqueue_semaphore q' = length (pqueue q')" "length (pqueue q') \<le> length (pqueue (frameNumBmpQueue st))"
    by (auto simp: queues_synced_def)
  with assms False show ?thesis by (cases x) (auto simp: paint_step_def queues_synced_def)
qed

lemma WndProc_synced:
  assumes "queues_synced n st"
  shows "\<exists>r' st' quit. WndProc r uMsg st = Done (r', st', quit) \<and> queues_synced n st'"
  using assms paint_synced[OF assms] by (auto simp: WndProc_def)

lemma WndProc_returns:
  assumes "queues_synced n st"
  shows "WndProc r uMsg st \<noteq> Blocks" and "WndProc r uMsg st \<noteq> Fault e"
  using WndProc_synced[OF assms, of r uMsg] by auto

lemma round_synced:
  assumes "queues_synced n st" and "n < MAXINT"
  shows "thread_round decode t st \<noteq> Blocks"
    and "thread_round decode t st = Done st' \<Longrightarrow> queues_synced (Suc n) st'"
  using consumer_synced[OF assms] decoder_synced[OF assms, of decode] synced_mono[OF assms(1)] assms(1)
  by (cases t; auto simp: timer_step_def queues_synced_def)+

section \<open>The order of the shut-down\<close>

text \<open>
  What holds of the main thread's progress: \<open>globalOn\<close> is on as long as it pumps messages, the socket is
  closed before the first join, the threads it has joined are at their end, and the clean-up is
  done in order.
\<close>

fun joined :: "main_pc \<Rightarrow> viewer_thread set" where
  "joined Pumping = {}"
| "joined Destroying = {}"
| "joined (Joining Timer) = {}"
| "joined (Joining Decoder) = {Timer}"
| "joined (Joining Consumer) = {Timer, Decoder}"
| "joined (Joining Receiver) = {Timer, Decoder, Consumer}"
| "joined Main_stuck = {}"
| "joined Died = {}"
| "joined _ = UNIV"

fun socket_closes :: "main_pc \<Rightarrow> nat" where
  "socket_closes Pumping = 0"
| "socket_closes Destroying = 0"
| "socket_closes (Returned r) = 2"
| "socket_closes _ = 1"

definition order_ok :: "hooks \<Rightarrow> 'bmp process \<Rightarrow> bool" where
  "order_ok hs p \<longleftrightarrow> mpc p \<noteq> Main_stuck \<and> (globalOn p \<longleftrightarrow> mpc p = Pumping)
     \<and> closes p = socket_closes (mpc p)
     \<and> (\<forall>t. tpc p t \<noteq> Stuck) \<and> (\<forall>t. tpc p t = In_recv \<longrightarrow> t = Receiver) \<and> (\<forall>t \<in> joined (mpc p). tpc p t = Ended)
     \<and> (\<forall>r. mpc p = Returned r \<longrightarrow> r = 0)
     \<and> pr_hooks p = (if mpc p = Cleaning \<or> mpc p = Leaving_scope \<or> (\<exists>r. mpc p = Returned r)
          then ReleaseKeyboardHook (ReleaseMouseHook hs) else hs)
     \<and> gdi p = (mpc p \<noteq> Leaving_scope \<and> (\<forall>r. mpc p \<noteq> Returned r)) \<and> wsa_down p = (\<not> gdi p)"

text \<open>The invariant: a process that has not died is in order, and its queues are synchronised.\<close>

definition proc_inv :: "hooks \<Rightarrow> nat \<Rightarrow> 'bmp process \<Rightarrow> bool" where
  "proc_inv hs n p \<longleftrightarrow> mpc p = Died \<and> globalOn p \<or> mpc p \<noteq> Died \<and> order_ok hs p \<and> queues_synced n (pipeline p)"

lemma proc_inv_start:
  assumes "wWinMain_start os hs = Done p" and "ma_window os \<noteq> None"
  shows "proc_inv (SetMouseHook (ma_ms os) (SetKeyboardHook (ma_kbd os) hs)) 0 p"
  using assms
  by (auto simp: wWinMain_start_def InitInstance_def Let_def proc_inv_def order_ok_def queues_synced_def client_init_def
      ThreadSafeQueue_def ThreadSafePrioQueue_def MyRegisterClass_def)

lemma joined_after: "joined (after_join t) \<subseteq> insert t (joined (Joining t))"
proof -
  have "UNIV = {Receiver, Consumer, Decoder, Timer}" using viewer_thread.exhaust by auto
  then show ?thesis by (cases t) auto
qed

lemma after_join_pc [simp]:
  "after_join t \<noteq> Died" "after_join t \<noteq> Main_stuck" "after_join t \<noteq> Pumping" "after_join t \<noteq> Cleaning"
  "after_join t \<noteq> Leaving_scope" "after_join t \<noteq> Returned r" "socket_closes (after_join t) = 1"
  by (cases t; simp)+

lemma proc_step_inv:
  assumes "proc_step decode own p p'" and "proc_inv hs n p" and "n < MAXINT"
  shows "proc_inv hs (Suc n) p'"
proof (cases "mpc p = Died")
  case True
  with assms(1) show ?thesis by (cases rule: proc_step.cases) (auto simp: running_def)
next
  case False
  with assms(2) have ok: "order_ok hs p" and s: "queues_synced n (pipeline p)" by (auto simp: proc_inv_def)
  note s1 = synced_mono[OF s] and rounds = round_synced[OF s assms(3)] and rcv = receiver_synced[OF s assms(3)]
  from assms(1) show ?thesis
  proof (cases rule: proc_step.cases)
    case (message r uMsg r' st quit)
    with WndProc_synced[OF s, of r uMsg] have "queues_synced (Suc n) st" by (auto intro: synced_mono)
    with message ok show ?thesis by (simp add: proc_inv_def order_ok_def)
  next
    case (joins t)
    with ok joined_after[of t] have "\<forall>u \<in> joined (after_join t). tpc p u = Ended"
      by (auto simp: order_ok_def)
    with joins ok s1 show ?thesis by (simp add: proc_inv_def order_ok_def)
  next
    case (round t st)
    with ok rounds(2)[of decode t st] show ?thesis by (simp add: proc_inv_def order_ok_def)
  next
    case (round_blocks t)
    with rounds(1) show ?thesis by simp
  next
    case (receives fresh dgram)
    with ok rcv[of fresh dgram] show ?thesis by (auto simp: proc_inv_def order_ok_def set_tpc_def)
  qed (use ok s1 WndProc_returns[OF s] in \<open>auto simp: proc_inv_def order_ok_def set_tpc_def running_def\<close>)
qed

lemma steps_inv: "steps decode p n p' \<Longrightarrow> proc_inv hs m p \<Longrightarrow> m + n \<le> MAXINT \<Longrightarrow> proc_inv hs (m + n) p'"
  by (induction rule: steps.induct) (auto dest: proc_step_inv)

section \<open>The shut-down ends\<close>

text \<open>What is left to do: statements of the main thread, and tests and receives of the others.\<close>

fun main_left :: "main_pc \<Rightarrow> nat" where
  "main_left Destroying = 8"
| "main_left (Joining Timer) = 7"
| "main_left (Joining Decoder) = 6"
| "main_left (Joining Consumer) = 5"
| "main_left (Joining Receiver) = 4"
| "main_left Releasing = 3"
| "main_left Cleaning = 2"
| "main_left Leaving_scope = 1"
| "main_left _ = 0"

fun thread_left :: "thread_pc \<Rightarrow> nat" where
  "thread_left At_test = 1"
| "thread_left In_recv = 2"
| "thread_left _ = 0"

definition left :: "'bmp process \<Rightarrow> nat" where
  "left p = main_left (mpc p) + thread_left (tpc p Receiver) + thread_left (tpc p Consumer)
     + thread_left (tpc p Decoder) + thread_left (tpc p Timer)"

lemma left_bound:
  assumes "order_ok hs p"
  shows "left p \<le> 13"
proof -
  have "main_left (mpc p) \<le> 8" by (cases "mpc p" rule: main_left.cases) simp_all
  moreover have "thread_left (tpc p t) \<le> (if t = Receiver then 2 else 1)" for t
    using assms by (cases "tpc p t") (auto simp: order_ok_def)
  from this[of Receiver] this[of Consumer] this[of Decoder] this[of Timer] have
    "thread_left (tpc p Receiver) + thread_left (tpc p Consumer) + thread_left (tpc p Decoder)
      + thread_left (tpc p Timer) \<le> 5" by simp
  ultimately show ?thesis by (simp add: left_def)
qed

lemma left_set_tpc: "thread_left a < thread_left (tpc p t) \<Longrightarrow> left (set_tpc t a p) < left p"
  by (cases t) (auto simp: left_def set_tpc_def)

text \<open>Once \<open>globalOn\<close> is off, every step leaves less to do, and leaves it off.\<close>

lemma off_step:
  assumes "proc_step decode own p p'" and "order_ok hs p" and "\<not> globalOn p"
  shows "left p' < left p \<and> \<not> globalOn p'"
  using assms(1)
proof (cases rule: proc_step.cases)
  case (joins t)
  then show ?thesis using assms(3) by (cases t) (simp_all add: left_def)
next
  case (ends t)
  then show ?thesis using assms(3) left_set_tpc[of Ended p t] by (simp add: set_tpc_def)
next
  case (receives fresh dgram)
  then show ?thesis
    using assms(3) left_set_tpc[of At_test "p\<lparr>pipeline := receiver_step fresh dgram (pipeline p)\<rparr>" Receiver]
    by (simp add: set_tpc_def left_def)
next
  case recv_closed
  then show ?thesis using assms(3) left_set_tpc[of At_test p Receiver] by (simp add: set_tpc_def)
qed (use assms(2,3) in \<open>auto simp: order_ok_def left_def\<close>)

text \<open>And until it has returned, the program can always go on by itself.\<close>

lemma off_progress:
  assumes "order_ok hs p" and "\<not> globalOn p" and "mpc p \<noteq> Died" and "mpc p \<noteq> Returned 0"
  shows "\<exists>p'. proc_step decode True p p'"
proof (cases "mpc p")
  case (Joining t)
  with assms have run: "running p" and closed: "0 < closes p" by (auto simp: running_def order_ok_def)
  show ?thesis
  proof (cases "tpc p t")
    case At_test
    with run assms(2) show ?thesis by (blast intro: proc_step.ends)
  next
    case In_recv
    then have "t = Receiver" using assms(1) by (simp add: order_ok_def)
    with run closed In_recv show ?thesis by (blast intro: proc_step.recv_closed)
  next
    case Stuck
    with assms(1) show ?thesis by (simp add: order_ok_def)
  next
    case Ended
    with Joining show ?thesis by (blast intro: proc_step.joins)
  qed
qed (use assms in \<open>auto simp: order_ok_def intro: proc_step.intros\<close>)

lemma off_steps:
  assumes "steps decode p k p'" and "proc_inv hs n p" and "n + k \<le> MAXINT" and "\<not> globalOn p"
  shows "left p' + k \<le> left p \<and> \<not> globalOn p'"
  using assms
proof (induction rule: steps.induct)
  case none
  then show ?case by simp
next
  case (more k p1 own p2)
  then have IH: "left p1 + k \<le> left p" "\<not> globalOn p1" by simp_all
  have "proc_inv hs (n + k) p1" using steps_inv[OF more.hyps(1) more.prems(1)] more.prems(2) by simp
  with IH(2) have "order_ok hs p1" by (auto simp: proc_inv_def)
  from off_step[OF more.hyps(2) this IH(2)] IH(1) show ?case by simp
qed

section \<open>Properties\<close>

text \<open>
  C16: Closing the viewer ends it. Start the program with a window and let its threads run in any
  order, whatever messages, datagrams and errors arrive. Once the message loop has ended, at most 13
  more steps are taken, in any schedule, and as long as \<open>wWinMain\<close> has not returned the program can
  take one by itself: it never hangs in a join, because the socket on which the receiver waits is
  closed before the first one. When it has returned, all four threads are at their end, the
  hooks are released, GDI+ and winsock shut down. The socket, though, has been closed twice.
\<close>

theorem shutdown_ends:
  assumes "wWinMain_start os hs = Done p0" and "ma_window os \<noteq> None"
    and "steps decode p0 n p" and "\<not> globalOn p" and "n + 13 < MAXINT" and "steps decode p k p'"
  shows "k \<le> 13
    \<and> (mpc p' \<noteq> Returned 0 \<longrightarrow> (\<exists>p''. proc_step decode True p' p''))
    \<and> (mpc p' = Returned 0 \<longrightarrow> (\<forall>t. tpc p' t = Ended) \<and> closes p' = 2 \<and> \<not> gdi p' \<and> wsa_down p'
        \<and> pr_hooks p' = ReleaseKeyboardHook (ReleaseMouseHook (SetMouseHook (ma_ms os) (SetKeyboardHook (ma_kbd os) hs))))"
proof -
  let ?hs = "SetMouseHook (ma_ms os) (SetKeyboardHook (ma_kbd os) hs)"
  have inv: "proc_inv ?hs n p" using steps_inv[OF assms(3) proc_inv_start[OF assms(1,2)]] assms(5) by simp
  with assms(4) have ok: "order_ok ?hs p" by (auto simp: proc_inv_def)
  have bound: "k' \<le> 13 \<and> proc_inv ?hs (n + k') p2 \<and> \<not> globalOn p2" if "steps decode p k' p2" for k' p2
    using that
  proof (induction rule: steps.induct)
    case none
    with inv assms(4) show ?case by simp
  next
    case (more k' p1 own p2)
    then have "n + Suc k' \<le> MAXINT" using assms(5) by simp
    moreover have s: "steps decode p (Suc k') p2" using more.hyps by (rule steps.more)
    ultimately show ?case
      using off_steps[OF s inv _ assms(4)] steps_inv[OF s inv] left_bound[OF ok] by simp
  qed
  from bound[OF assms(6)] have k: "k \<le> 13" and inv': "proc_inv ?hs (n + k) p'" and off: "\<not> globalOn p'" by simp_all
  from inv' off have ok': "order_ok ?hs p'" and alive: "mpc p' \<noteq> Died" by (auto simp: proc_inv_def)
  from off_progress[OF ok' off alive] have "mpc p' \<noteq> Returned 0 \<longrightarrow> (\<exists>p''. proc_step decode True p' p'')" by blast
  moreover have "mpc p' = Returned 0 \<longrightarrow> (\<forall>t. tpc p' t = Ended) \<and> closes p' = 2 \<and> \<not> gdi p' \<and> wsa_down p'
      \<and> pr_hooks p' = ReleaseKeyboardHook (ReleaseMouseHook ?hs)"
    using ok' by (simp add: order_ok_def)
  ultimately show ?thesis using k by blast
qed

text \<open>A start without other hooks, closed by the user while the receiver waits.\<close>

definition plain_start :: main_answers where
  "plain_start = \<lparr>ma_atom = 1, ma_window = Some 9, ma_socket = 20, ma_binds = True, ma_kbd = Some 5, ma_ms = Some 6\<rparr>"

definition no_hooks :: hooks where
  "no_hooks = \<lparr>chain = [], kbd_hook = None, ms_hook = None, boxes = 0\<rparr>"

lemma closing_run:
  fixes decode :: "BYTE list \<Rightarrow> nat option"
  shows "\<exists>p0 p p'. wWinMain_start plain_start no_hooks = Done p0 \<and> steps decode p0 3 p \<and> \<not> globalOn p
    \<and> steps decode p 1 p' \<and> mpc p' = Joining Timer \<and> tpc p' Receiver = In_recv"
proof -
  obtain p0 :: "nat process" where p0: "wWinMain_start plain_start no_hooks = Done p0" "mpc p0 = Pumping" "globalOn p0"
    "tpc p0 Receiver = At_test" "pipeline p0 = client_init"
    by (simp add: wWinMain_start_def plain_start_def InitInstance_def MyRegisterClass_def ClientSocket_initUDP_def
        INVALID_SOCKET_def word_le_nat_alt)
  let ?p1 = "set_tpc Receiver In_recv p0"
  let ?p2 = "?p1\<lparr>pipeline := client_init, quitting := quitting ?p1 \<or> True\<rparr>"
  let ?p3 = "?p2\<lparr>globalOn := False, mpc := Destroying\<rparr>"
  have "proc_step decode True p0 ?p1" using p0 by (intro proc_step.waits) (simp_all add: running_def)
  moreover have "WndProc 0 WM_DESTROY (pipeline ?p1) = Done (0, client_init, True)"
    using p0 by (simp add: WndProc_def WM_DESTROY_def WM_PAINT_def set_tpc_def)
  then have "proc_step decode False ?p1 ?p2" using p0 by (intro proc_step.message) (simp_all add: set_tpc_def)
  moreover have "proc_step decode True ?p2 ?p3" using p0 by (intro proc_step.quits) (simp_all add: set_tpc_def)
  ultimately have "steps decode p0 (Suc (Suc (Suc 0))) ?p3" by (blast intro: steps.intros)
  moreover have "proc_step decode True ?p3 (?p3\<lparr>closes := Suc (closes ?p3), mpc := Joining Timer\<rparr>)"
    by (rule proc_step.destroys) simp
  then have "steps decode ?p3 (Suc 0) (?p3\<lparr>closes := Suc (closes ?p3), mpc := Joining Timer\<rparr>)"
    by (blast intro: steps.intros)
  ultimately show ?thesis
    using p0(1) by (intro exI[of _ p0] exI[of _ ?p3] exI[of _ "?p3\<lparr>closes := Suc (closes ?p3), mpc := Joining Timer\<rparr>"])
      (simp add: set_tpc_def numeral_3_eq_3)
qed

theorem shutdown_ends_witness:
  "\<exists>(p :: nat process) p'. steps (\<lambda>_. None) p 1 p' \<and> \<not> globalOn p \<and> mpc p' = Joining Timer
    \<and> tpc p' Receiver = In_recv \<and> (\<exists>p''. proc_step (\<lambda>_. None) True p' p'')"
proof -
  from closing_run[of "\<lambda>_. None"] obtain p0 p p' :: "nat process" where
    run: "wWinMain_start plain_start no_hooks = Done p0" "steps (\<lambda>_. None) p0 3 p" "\<not> globalOn p"
      "steps (\<lambda>_. None) p 1 p'" "mpc p' = Joining Timer" "tpc p' Receiver = In_recv" by (elim exE conjE)
  have "ma_window plain_start \<noteq> None" "3 + 13 < MAXINT" by (simp_all add: plain_start_def MAXINT_def)
  from shutdown_ends[OF run(1) this(1) run(2,3) this(2) run(4)] run show ?thesis
    by (intro exI[of _ p] exI[of _ p']) simp
qed

end
