(* ===== verification/Display.thy ===== *)
theory Display
  imports ClientPipeline
begin

text \<open>
  The GDI side of the viewer, \<^verbatim>\<open>VideoClient/main.cpp\<close>: \<open>decodeImage\<close> makes a bitmap of a frame's
  bytes through a memory stream, \<open>displayFrame\<close> draws a bitmap into the window, and \<open>WM_PAINT\<close>
  frees it. The state says which of the objects exist that the code has to free itself; what the
  system calls answer is an argument. The bitmaps, their queue and \<open>loadFrame\<close> are those of
  \<^verbatim>\<open>ClientPipeline\<close>, here with the addresses of the \<open>Bitmap\<close> objects.
\<close>

section \<open>State\<close>

text \<open>
  \<open>pStream\<close> is the global stream pointer; the sets hold the addresses and handles of the memory
  streams, \<open>Bitmap\<close> objects, memory device contexts and \<open>HBITMAP\<close>s that exist, and \<open>drawn\<close>
  logs the bitmaps drawn, each with the width and height it is stretched to.
\<close>

record display =
  dp_stream :: "nat option"
  dp_streams :: "nat set"
  dp_bitmaps :: "nat set"
  dp_dcs :: "nat set"
  dp_hbitmaps :: "nat set"
  dp_queue :: "nat num_bmp tspqueue"
  dp_loadFrame :: bool
  drawn :: "(nat \<times> int \<times> int) list"

definition display_init :: display where
  "display_init = \<lparr>dp_stream = None, dp_streams = {}, dp_bitmaps = {}, dp_dcs = {}, dp_hbitmaps = {},
     dp_queue = ThreadSafePrioQueue, dp_loadFrame = False, drawn = []\<rparr>"

section \<open>Decoding\<close>

text \<open>
  \<open>new_stream\<close> is the answer of \<^verbatim>\<open>SHCreateMemStream\<close>, \<open>new_bitmap\<close> the address of the new
  \<open>Bitmap\<close>, \<open>bitmap_ok\<close> whether its status is \<open>Ok\<close>: whether the bytes are an image.
\<close>

record decode_answers =
  new_stream :: "nat option"
  new_bitmap :: nat
  bitmap_ok :: bool

definition createBitmapFromImageStream ::
  "decode_answers \<Rightarrow> nat option \<Rightarrow> display \<Rightarrow> nat option \<times> display" where
  "createBitmapFromImageStream os strm st = (case strm of
       None \<Rightarrow> (None, st)
     | Some _ \<Rightarrow>
         let st1 = st\<lparr>dp_bitmaps := insert (new_bitmap os) (dp_bitmaps st)\<rparr>
         in if bitmap_ok os then (Some (new_bitmap os), st1)
            else (None, st1\<lparr>dp_bitmaps := dp_bitmaps st1 - {new_bitmap os}\<rparr>))"

definition decodeImage :: "decode_answers \<Rightarrow> display \<Rightarrow> nat option \<times> display" where
  "decodeImage os st =
     (let st1 = st\<lparr>dp_streams := dp_streams st - set_option (dp_stream st), dp_stream := None\<rparr>
      in case new_stream os of
          None \<Rightarrow> (None, st1)
        | Some s \<Rightarrow> createBitmapFromImageStream os (Some s)
            (st1\<lparr>dp_stream := Some s, dp_streams := insert s (dp_streams st1)\<rparr>))"

text \<open>What \<open>decoderThread\<close> does with the frame \<open>n\<close>.\<close>

definition decode_frame :: "decode_answers \<Rightarrow> DWORD \<Rightarrow> display \<Rightarrow> display" where
  "decode_frame os n st =
     (let (newBmp, st1) = decodeImage os st
      in if newBmp = None then st1
         else st1\<lparr>dp_queue := snd (tspq_Push CompareNumBmpPairs (n, newBmp) (dp_queue st1))\<rparr>)"

section \<open>Drawing\<close>

text \<open>
  \<open>has_dc\<close>: \<^verbatim>\<open>BeginPaint\<close> gave a device context; \<open>still_ok\<close>: the bitmap's status; \<open>client_size\<close>:
  the window's client area; \<open>mem_dc\<close> and \<open>hbitmap\<close>: what \<^verbatim>\<open>CreateCompatibleDC\<close> and
  \<^verbatim>\<open>GetHBITMAP\<close> give.
\<close>

record draw_answers =
  has_dc :: bool
  still_ok :: bool
  client_size :: "int \<times> int"
  mem_dc :: "nat option"
  hbitmap :: "nat option"

definition displayFrame :: "draw_answers \<Rightarrow> nat option \<Rightarrow> display \<Rightarrow> display" where
  "displayFrame os bmp st = (case bmp of
       None \<Rightarrow> st
     | Some b \<Rightarrow>
         if \<not> has_dc os then st
         else if \<not> still_ok os then st
         else (case mem_dc os of
             None \<Rightarrow> st
           | Some dc \<Rightarrow>
               let st1 = st\<lparr>dp_dcs := insert dc (dp_dcs st)\<rparr>
               in (case hbitmap os of
                   None \<Rightarrow> st1\<lparr>dp_dcs := dp_dcs st1 - {dc}\<rparr>
                 | Some hb \<Rightarrow>
                     let st2 = st1\<lparr>dp_hbitmaps := insert hb (dp_hbitmaps st1),
                           drawn := drawn st1 @ [(b, fst (client_size os), snd (client_size os))]\<rparr>;
                         st3 = st2\<lparr>dp_dcs := dp_dcs st2 - {dc}\<rparr>
                     in st3\<lparr>dp_hbitmaps := dp_hbitmaps st3 - {hb}\<rparr>)))"

text \<open>\<open>WM_PAINT\<close>: the bitmap is freed whether it could be drawn or not.\<close>

definition wm_paint :: "draw_answers \<Rightarrow> display \<Rightarrow> display outcome" where
  "wm_paint os st =
     (if \<not> dp_loadFrame st \<or> tspq_isEmpty (dp_queue st) then Done st
      else case tspq_Pop tsq_timeout (dp_queue st) of
          (Done (n, currBmp), q) \<Rightarrow>
            let st1 = st\<lparr>dp_queue := q\<rparr>
            in Done (case currBmp of
                 None \<Rightarrow> st1
               | Some b \<Rightarrow> let st2 = displayFrame os currBmp st1
                   in st2\<lparr>dp_loadFrame := False, dp_bitmaps := dp_bitmaps st2 - {b}\<rparr>)
        | (Fault e, q) \<Rightarrow> Fault e
        | (Blocks, q) \<Rightarrow> Blocks)"

datatype display_event = Decode_frame decode_answers DWORD | Next_tick | Wm_paint draw_answers

fun display_step :: "display_event \<Rightarrow> display \<Rightarrow> display outcome" where
  "display_step (Decode_frame os n) st = Done (decode_frame os n st)"
| "display_step Next_tick st = Done (st\<lparr>dp_loadFrame := True\<rparr>)"
| "display_step (Wm_paint os) st = wm_paint os st"

section \<open>Nothing is lost\<close>

text \<open>
  What the allocators promise: a new object is at an address where none exists. Said of a run, it
  is said of every decoding and drawing in it.
\<close>

fun fresh_objects :: "display_event \<Rightarrow> display \<Rightarrow> bool" where
  "fresh_objects (Decode_frame os n) st \<longleftrightarrow> new_bitmap os \<notin> dp_bitmaps st
     \<and> (\<forall>s. new_stream os = Some s \<longrightarrow> s \<notin> dp_streams st - set_option (dp_stream st))"
| "fresh_objects Next_tick st \<longleftrightarrow> True"
| "fresh_objects (Wm_paint os) st \<longleftrightarrow> (\<forall>dc. mem_dc os = Some dc \<longrightarrow> dc \<notin> dp_dcs st)
     \<and> (\<forall>hb. hbitmap os = Some hb \<longrightarrow> hb \<notin> dp_hbitmaps st)"

fun fresh_run :: "display_event list \<Rightarrow> display \<Rightarrow> bool" where
  "fresh_run [] st \<longleftrightarrow> True"
| "fresh_run (e # es) st \<longleftrightarrow> fresh_objects e st
     \<and> (case display_step e st of Done st' \<Rightarrow> fresh_run es st' | _ \<Rightarrow> True)"

definition queued_bitmaps :: "display \<Rightarrow> nat option list" where
  "queued_bitmaps st = map snd (pqueue (dp_queue st))"

text \<open>The bitmaps that exist are those in the queue, each there once, and one stream is open at most.\<close>

definition display_inv :: "display \<Rightarrow> bool" where
  "display_inv st \<longleftrightarrow> Some ` dp_bitmaps st = set (queued_bitmaps st) \<and> distinct (queued_bitmaps st)
     \<and> pqueue_semaphore (dp_queue st) = length (pqueue (dp_queue st))
     \<and> dp_streams st = set_option (dp_stream st) \<and> dp_dcs st = {} \<and> dp_hbitmaps st = {}"

lemma display_inv_init: "display_inv display_init"
  by (simp add: display_inv_def display_init_def queued_bitmaps_def ThreadSafePrioQueue_def)

lemma display_inv_decode:
  assumes "display_inv st" and "fresh_objects (Decode_frame os n) st"
    and "length (pqueue (dp_queue st)) < MAXINT"
  shows "display_inv (decode_frame os n st)
    \<and> length (pqueue (dp_queue (decode_frame os n st))) \<le> Suc (length (pqueue (dp_queue st)))"
proof (cases "new_stream os = None \<or> \<not> bitmap_ok os")
  case True
  then show ?thesis
    using assms by (auto simp: decode_frame_def decodeImage_def createBitmapFromImageStream_def Let_def
        display_inv_def queued_bitmaps_def split: option.splits)
next
  case False
  then obtain s where s: "new_stream os = Some s" "bitmap_ok os" by auto
  let ?b = "new_bitmap os" and ?q = "snd (tspq_Push CompareNumBmpPairs (n, Some (new_bitmap os)) (dp_queue st))"
  have q: "mset (map snd (pqueue ?q)) = add_mset (Some ?b) (mset (queued_bitmaps st))"
    by (simp add: tspq_Push_def Let_def split_def queued_bitmaps_def)
  have new: "Some ?b \<notin> set (queued_bitmaps st)" using assms by (auto simp: display_inv_def)
  have "set (map snd (pqueue ?q)) = insert (Some ?b) (set (queued_bitmaps st))"
    using mset_eq_setD[of "map snd (pqueue ?q)" "Some ?b # queued_bitmaps st"] q by simp
  moreover have "distinct (map snd (pqueue ?q))"
    using mset_eq_imp_distinct_iff[of "map snd (pqueue ?q)" "Some ?b # queued_bitmaps st"] q new assms(1)
    by (simp add: display_inv_def)
  moreover have "length (pqueue ?q) = Suc (length (pqueue (dp_queue st)))"
    using arg_cong[OF q, of size] by (simp add: queued_bitmaps_def)
  moreover have "pqueue_semaphore ?q = Suc (length (pqueue (dp_queue st)))"
    using assms(1,3) by (simp add: display_inv_def tspq_Push_def release_semaphore_def)
  moreover have "decode_frame os n st = st\<lparr>dp_stream := Some s, dp_streams := {s},
      dp_bitmaps := insert ?b (dp_bitmaps st), dp_queue := ?q\<rparr>"
    using s assms(1) by (simp add: decode_frame_def decodeImage_def createBitmapFromImageStream_def Let_def
        display_inv_def)
  ultimately show ?thesis
    using assms(1) by (simp add: display_inv_def queued_bitmaps_def)
qed

lemma displayFrame_keeps:
  assumes "fresh_objects (Wm_paint os) st"
  shows "\<exists>ds. displayFrame os bmp st = st\<lparr>drawn := drawn st @ ds\<rparr> \<and> length ds \<le> 1"
proof (cases "\<exists>b dc hb. bmp = Some b \<and> has_dc os \<and> still_ok os \<and> mem_dc os = Some dc \<and> hbitmap os = Some hb")
  case True
  then obtain b where "displayFrame os bmp st = st\<lparr>drawn := drawn st @ [(b, client_size os)]\<rparr>"
    using assms by (auto simp: displayFrame_def Let_def)
  then show ?thesis by (intro exI[of _ "[(b, client_size os)]"]) simp
next
  case False
  then have "displayFrame os bmp st = st"
    using assms by (auto simp: displayFrame_def Let_def split: option.splits)
  then show ?thesis by (intro exI[of _ "[]"]) simp
qed

lemma display_inv_paint:
  assumes I: "display_inv st" and fresh: "fresh_objects (Wm_paint os) st"
  shows "\<exists>st'. wm_paint os st = Done st' \<and> display_inv st'
    \<and> length (pqueue (dp_queue st')) \<le> length (pqueue (dp_queue st))"
proof (cases "\<not> dp_loadFrame st \<or> pqueue (dp_queue st) = []")
  case True
  with I show ?thesis by (auto simp: wm_paint_def tspq_isEmpty_def)
next
  case False
  then obtain n v xs where q: "pqueue (dp_queue st) = (n, v) # xs"
    by (metis list.exhaust surj_pair)
  have "v \<in> Some ` dp_bitmaps st" using I q by (simp add: display_inv_def queued_bitmaps_def)
  then obtain b where b: "v = Some b" "b \<in> dp_bitmaps st" by auto
  let ?q = "\<lparr>pqueue = xs, pqueue_semaphore = length xs\<rparr>"
  have pop: "tspq_Pop tsq_timeout (dp_queue st) = (Done (n, Some b), ?q)"
    using I q b(1) by (cases "dp_queue st") (simp add: display_inv_def tspq_defs)
  from fresh have "fresh_objects (Wm_paint os) (st\<lparr>dp_queue := ?q\<rparr>)" by simp
  from displayFrame_keeps[OF this, of "Some b"] obtain ds where
    ds: "displayFrame os (Some b) (st\<lparr>dp_queue := ?q\<rparr>) = st\<lparr>dp_queue := ?q, drawn := drawn st @ ds\<rparr>" by auto
  let ?st' = "st\<lparr>dp_queue := ?q, drawn := drawn st @ ds, dp_loadFrame := False, dp_bitmaps := dp_bitmaps st - {b}\<rparr>"
  have "wm_paint os st = Done ?st'"
    using False pop ds by (simp add: wm_paint_def tspq_isEmpty_def Let_def)
  moreover have "Some ` (dp_bitmaps st - {b}) = Some ` dp_bitmaps st - {Some b}" by auto
  then have "Some ` (dp_bitmaps st - {b}) = set (map snd xs)"
    using I q b by (auto simp: display_inv_def queued_bitmaps_def)
  ultimately show ?thesis
    using I q by (intro exI[of _ ?st']) (simp add: display_inv_def queued_bitmaps_def)
qed

lemma display_run_inv:
  "display_inv st \<Longrightarrow> fresh_run es st \<Longrightarrow> length (pqueue (dp_queue st)) + length es \<le> MAXINT \<Longrightarrow>
    \<exists>st'. foreach display_step es st = Done st' \<and> display_inv st'"
proof (induction es arbitrary: st)
  case Nil
  then show ?case by simp
next
  case (Cons e es)
  have "\<exists>st1. display_step e st = Done st1 \<and> display_inv st1
      \<and> length (pqueue (dp_queue st1)) \<le> Suc (length (pqueue (dp_queue st)))"
  proof (cases e)
    case (Decode_frame os n)
    with Cons.prems display_inv_decode[of st os n] show ?thesis by simp
  next
    case Next_tick
    with Cons.prems show ?thesis by (simp add: display_inv_def queued_bitmaps_def)
  next
    case (Wm_paint os)
    with Cons.prems display_inv_paint[of st os] show ?thesis by fastforce
  qed
  then obtain st1 where st1: "display_step e st = Done st1" "display_inv st1"
    "length (pqueue (dp_queue st1)) \<le> Suc (length (pqueue (dp_queue st)))" by blast
  with Cons.IH[OF st1(2)] Cons.prems show ?case by (simp del: bind_outcome_Done)
qed

text \<open>
  C28: The viewer frees what it makes. However decodings, ticks and paints follow each other, and
  whatever the graphics calls in them answer - no stream, bytes that are no image, no device
  context, a bitmap gone bad -, the bitmaps that exist are exactly those queued for display, each
  queued once, every device context and every \<open>HBITMAP\<close> of a drawing has been given back, and
  one memory stream at most is open.
\<close>

theorem viewer_frees_objects:
  assumes "fresh_run es display_init" and "length es \<le> MAXINT"
  shows "\<exists>st. foreach display_step es display_init = Done st
    \<and> Some ` dp_bitmaps st = set (queued_bitmaps st) \<and> distinct (queued_bitmaps st)
    \<and> dp_dcs st = {} \<and> dp_hbitmaps st = {} \<and> dp_streams st = set_option (dp_stream st)"
proof -
  have "length (pqueue (dp_queue display_init)) + length es \<le> MAXINT"
    using assms(2) by (simp add: display_init_def ThreadSafePrioQueue_def)
  from display_run_inv[OF display_inv_init assms(1) this] show ?thesis by (auto simp: display_inv_def)
qed

text \<open>One frame decoded and drawn, and one whose bytes are no image.\<close>

definition two_frames :: "display_event list" where
  "two_frames =
     [Decode_frame \<lparr>new_stream = Some 1, new_bitmap = 2, bitmap_ok = True\<rparr> 7,
      Decode_frame \<lparr>new_stream = Some 1, new_bitmap = 3, bitmap_ok = False\<rparr> 8, Next_tick,
      Wm_paint \<lparr>has_dc = True, still_ok = True, client_size = (640, 480), mem_dc = Some 4, hbitmap = Some 5\<rparr>]"

theorem viewer_frees_objects_witness:
  "\<exists>st. foreach display_step two_frames display_init = Done st
    \<and> Some ` dp_bitmaps st = set (queued_bitmaps st) \<and> distinct (queued_bitmaps st)
    \<and> dp_dcs st = {} \<and> dp_hbitmaps st = {} \<and> dp_streams st = set_option (dp_stream st)"
  by (rule viewer_frees_objects)
    (simp_all add: two_frames_def display_init_def decode_frame_def decodeImage_def
      createBitmapFromImageStream_def Let_def tspq_defs MAXINT_def split: outcome.splits)

end
