(* ===== verification/PacketBounds.thy ===== *)
theory PacketBounds
  imports ClientPipeline
begin

text \<open>
  The consumer of the viewer and datagrams of any content: the frame number, the sizes and the
  offset of a packet come from the network and are used unchecked for the copy into the frame
  buffer. Exactly which packets are copied within bounds, and what the consumer keeps.
\<close>

section \<open>The frame buffers\<close>

text \<open>
  \<open>expectedSize\<close> is the size of the buffer, for every frame that is being rebuilt.
\<close>

definition wf_buffer :: "frame_buffer \<Rightarrow> bool" where
  "wf_buffer fb \<longleftrightarrow> length (chunks fb) = unat (expectedSize fb)"

definition wf_frames :: "'bmp client_state \<Rightarrow> bool" where
  "wf_frames st \<longleftrightarrow> (\<forall>n fb. activeFrames st n = Some fb \<longrightarrow> wf_buffer fb)"

text \<open>
  The size of the buffer a packet is copied into: that of its frame, or what the packet itself
  announces when the frame has none yet.
\<close>

definition capacity :: "rtmp_packet \<Rightarrow> 'bmp client_state \<Rightarrow> nat" where
  "capacity pkt st = (case activeFrames st (frameNumber (get_rtsmp (rtmp_data pkt))) of
       None \<Rightarrow> unat (slidingWindow pkt)
     | Some fb \<Rightarrow> if expectedSize fb = 0 then unat (slidingWindow pkt) else unat (expectedSize fb))"

definition copies_within :: "BYTE list \<Rightarrow> 'bmp client_state \<Rightarrow> bool" where
  "copies_within packet st \<longleftrightarrow> (let pkt = decode_rtmp packet; size = unat (pkt_size pkt)
     in sizeof_rtmp \<le> size
       \<and> (size = sizeof_rtmp \<or> size \<le> length packet \<and> unat (offset (get_rtsmp (rtmp_data pkt))) * PAYLOAD_SIZE + (size - sizeof_rtmp)
            \<le> capacity pkt st))"

text \<open>One byte for a frame of no bytes, as anyone can send it.\<close>

definition forged :: "DWORD \<Rightarrow> BYTE list" where
  "forged n = encode_rtmp (zero_packet\<lparr>pkt_type := PACKET_TYPE_STREAM, pkt_size := 37,
     rtmp_data := put_rtsmp \<lparr>streamType = 0, frameNumber = n, offset = 0, totalPackets = 1\<rparr> (replicate 20 0)\<rparr>) @ [0]"

section \<open>Lemmas\<close>

lemma open_buffer_wf:
  assumes "\<forall>fb. entry = Some fb \<longrightarrow> wf_buffer fb"
  shows "wf_buffer (open_buffer pkt entry)"
    and "length (chunks (open_buffer pkt entry)) = (case entry of None \<Rightarrow> unat (slidingWindow pkt)
      | Some fb \<Rightarrow> if expectedSize fb = 0 then unat (slidingWindow pkt) else unat (expectedSize fb))"
proof -
  have "chunks fb = [] \<longleftrightarrow> expectedSize fb = 0" if "entry = Some fb" for fb
    using assms that by (metis length_0_conv unat_eq_zero wf_buffer_def)
  then show "wf_buffer (open_buffer pkt entry)"
    and "length (chunks (open_buffer pkt entry)) = (case entry of None \<Rightarrow> unat (slidingWindow pkt)
      | Some fb \<Rightarrow> if expectedSize fb = 0 then unat (slidingWindow pkt) else unat (expectedSize fb))"
    using assms by (auto simp: open_buffer_def wf_buffer_def FrameBuffer_def Let_def split: option.split)
qed

lemma copy_payload_cases:
  "copy_payload stride psize off packet dest =
    (if unat psize < 36 \<or> 36 < unat psize \<and> (length packet < unat psize \<or> length dest < unat off * stride + (unat psize - 36))
     then Fault Mem_fault
     else Done (take (unat off * stride) dest @ take (unat psize - 36) (drop 36 packet)
       @ drop (unat off * stride + (unat psize - 36)) dest))"
proof (cases "unat psize \<le> 36 \<or> length packet < unat psize")
  case True
  then show ?thesis
    by (cases "unat psize < 36"; cases "unat psize = 36") (auto simp: copy_payload_def mem_read_def mem_write_def simp del: bind_outcome_Done)
next
  case False
  moreover have "min (length packet - 36) (unat psize - 36) = unat psize - 36" using False by (auto simp: min_def)
  moreover have "take (unat psize - 36) (drop 36 packet) \<noteq> []" using False by auto
  ultimately show ?thesis
    by (simp add: copy_payload_def mem_read_def mem_write_def del: bind_outcome_Done)
qed

lemma copy_payload_length: "copy_payload stride psize off packet dest = Done buf \<Longrightarrow> length buf = length dest"
  by (auto simp: copy_payload_def dest: mem_write_length split: if_splits)

lemma consume_within:
  assumes "wf_frames st" and "pkt_type (decode_rtmp packet) = PACKET_TYPE_STREAM"
  shows "if copies_within packet st then \<exists>st'. consume_packet packet st = Done st' \<and> wf_frames st'
    else consume_packet packet st = Fault Mem_fault"
proof -
  let ?pkt = "decode_rtmp packet"
  let ?n = "frameNumber (get_rtsmp (rtmp_data ?pkt))" and ?off = "offset (get_rtsmp (rtmp_data ?pkt))"
  let ?fb = "open_buffer ?pkt (activeFrames st ?n)"
  have wf: "\<forall>fb. activeFrames st ?n = Some fb \<longrightarrow> wf_buffer fb" using assms(1) by (simp add: wf_frames_def)
  have cap: "length (chunks ?fb) = capacity ?pkt st"
    unfolding capacity_def by (rule open_buffer_wf(2)[OF wf])
  have exp: "length (chunks ?fb) = unat (expectedSize ?fb)" using open_buffer_wf(1)[OF wf] by (simp add: wf_buffer_def)
  have copy: "copy_payload PAYLOAD_SIZE (pkt_size ?pkt) ?off packet (chunks ?fb) = Fault Mem_fault
      \<longleftrightarrow> \<not> copies_within packet st"
    unfolding copy_payload_cases copies_within_def cap by (auto simp: Let_def)
  show ?thesis
  proof (cases "copies_within packet st")
    case False
    then show ?thesis using copy assms(2) by (simp add: consume_packet_def Let_def)
  next
    case True
    then have "\<exists>buf. copy_payload PAYLOAD_SIZE (pkt_size ?pkt) ?off packet (chunks ?fb) = Done buf"
      unfolding copy_payload_cases copies_within_def cap by (auto simp: Let_def)
    then obtain buf where buf: "copy_payload PAYLOAD_SIZE (pkt_size ?pkt) ?off packet (chunks ?fb) = Done buf" ..
    have "length buf = unat (expectedSize ?fb)" using copy_payload_length[OF buf] exp by simp
    then show ?thesis
      using True assms buf by (auto simp: consume_packet_def wf_frames_def wf_buffer_def Let_def)
  qed
qed

lemma forged_reads [simp]:
  "decode_rtmp (forged n @ junk) = zero_packet\<lparr>pkt_type := PACKET_TYPE_STREAM, pkt_size := 37,
     rtmp_data := put_rtsmp \<lparr>streamType = 0, frameNumber = n, offset = 0, totalPackets = 1\<rparr> (replicate 20 0)\<rparr>"
  unfolding forged_def append_assoc by (rule decode_encode_rtmp) (simp add: wf_packet_def)

lemma length_forged: "length (forged n) = 37"
  by (simp add: forged_def wf_packet_def)

section \<open>Properties\<close>

text \<open>
  C20: The bounds of the viewer's copies. Whatever datagram the consumer gets, in a state whose frame
  buffers have the sizes announced for their frames, it returns or leaves
  its buffers, and it returns exactly if the packet is no stream packet, or its size is that of the
  header at least, that of the received buffer at most, and the payload, placed at its offset, fits
  into the frame's buffer; then every buffer keeps the size announced for its frame. Nothing checks
  this: one datagram of 37 bytes, for a frame that is not being rebuilt, writes out of bounds.
\<close>

theorem consumer_bounds:
  assumes "wf_frames st"
  shows "(if pkt_type (decode_rtmp packet) \<noteq> PACKET_TYPE_STREAM \<or> copies_within packet st
      then \<exists>st'. consume_packet packet st = Done st' \<and> wf_frames st'
      else consume_packet packet st = Fault Mem_fault)
    \<and> length (forged n) = 37
    \<and> (activeFrames st n = None \<longrightarrow> consume_packet (forged n @ junk) st = Fault Mem_fault)"
proof -
  have "consume_packet packet st = Done st" if "pkt_type (decode_rtmp packet) \<noteq> PACKET_TYPE_STREAM"
    using that by (simp add: consume_packet_def)
  then have "if pkt_type (decode_rtmp packet) \<noteq> PACKET_TYPE_STREAM \<or> copies_within packet st
      then \<exists>st'. consume_packet packet st = Done st' \<and> wf_frames st' else consume_packet packet st = Fault Mem_fault"
    using consume_within[OF assms, of packet] assms
    by (cases "pkt_type (decode_rtmp packet) = PACKET_TYPE_STREAM") auto
  moreover have "consume_packet (forged n @ junk) st = Fault Mem_fault" if "activeFrames st n = None"
  proof -
    have "\<not> copies_within (forged n @ junk) st"
      using that by (simp add: copies_within_def capacity_def zero_packet_def Let_def)
    with consume_within[OF assms, of "forged n @ junk"] show ?thesis by simp
  qed
  ultimately show ?thesis using length_forged by blast
qed

theorem consumer_bounds_witness:
  "(if pkt_type (decode_rtmp (forged 7)) \<noteq> PACKET_TYPE_STREAM \<or> copies_within (forged 7) (client_init :: nat client_state)
      then \<exists>st'. consume_packet (forged 7) client_init = Done (st' :: nat client_state) \<and> wf_frames st'
      else consume_packet (forged 7) (client_init :: nat client_state) = Fault Mem_fault)
    \<and> consume_packet (forged 7 @ [1, 2]) (client_init :: nat client_state) = Fault Mem_fault"
proof -
  have "wf_frames (client_init :: nat client_state)" "activeFrames (client_init :: nat client_state) 7 = None"
    by (simp_all add: wf_frames_def client_init_def)
  from consumer_bounds[OF this(1), of "forged 7" 7 "[1, 2]"] this(2) show ?thesis by blast
qed

end
