(* ===== verification/Retransmission.thy ===== *)
theory Retransmission
  imports Reassembly
begin

text \<open>
  The host's side of reliability: what \<open>recentPackets\<close>, the timer thread and the acknowledgements
  of the viewer guarantee together, and what they do not.
\<close>

section \<open>Acknowledgements\<close>

lemma host_receives_ack:
  assumes "length buf = 36" and "pkt_type p = PACKET_TYPE_CONTROL" and "wf_packet p"
  shows "handleIncomingPacket handlerMap buf (Some (encode_rtmp p)) pm
    = Done (encode_rtmp p, removeRecentPacket (sequenceNumber p) pm)"
proof -
  have "decode_rtmp (encode_rtmp p) = p" using decode_encode_rtmp[OF assms(3), of "[]"] by simp
  with assms show ?thesis
    by (simp add: handleIncomingPacket_def winsock_recvfrom_def handlerMap_def controlPacketHandler_def)
qed

text \<open>What the receiver does with a fragment, and what the acknowledgement says.\<close>

definition fragment_ack :: "BYTE \<Rightarrow> nat \<Rightarrow> DWORD \<Rightarrow> BYTE list \<Rightarrow> DWORD \<Rightarrow> nat \<Rightarrow> BYTE list" where
  "fragment_ack t p f frame s i = encode_rtmp (ack_packet (frame_header t p f frame s i))"

lemma receiver_fragment:
  assumes "length fresh = CLIENT_PACKET_SIZE" and "length (chunk p frame i) \<le> CLIENT_PACKET_SIZE - sizeof_rtmp"
    and d: "d = frame_datagram t p f frame s i"
  shows "receiver_step fresh (Some d) st = st\<lparr>acks := acks st @ [fragment_ack t p f frame s i],
      packetQueue := snd (tsq_Push (d @ drop (length d) fresh) (packetQueue st))\<rparr>"
proof -
  have len: "length d \<le> length fresh"
    using assms(1,2) by (simp add: d length_frame_datagram CLIENT_PACKET_SIZE_def)
  have dec: "decode_rtmp (d @ junk) = frame_header t p f frame s i" for junk
    by (simp add: d frame_datagram_def)
  show ?thesis
    using len by (simp add: receiver_step_def winsock_recvfrom_def dec Let_def fragment_ack_def)
qed

lemma host_receives_fragment_ack:
  assumes "length buf = 36"
  shows "handleIncomingPacket handlerMap buf (Some (fragment_ack t p f frame s i)) pm
    = Done (fragment_ack t p f frame s i, removeRecentPacket (s + word_of_nat i) pm)"
proof -
  let ?h = "frame_header t p f frame s i"
  have "pkt_type (ack_packet ?h) = PACKET_TYPE_CONTROL" "wf_packet (ack_packet ?h)"
    "sequenceNumber (ack_packet ?h) = s + word_of_nat i"
    by (simp_all add: ack_packet_def wf_packet_def zero_packet_def frame_header_def)
  with host_receives_ack[OF assms] show ?thesis by (simp add: fragment_ack_def)
qed

text \<open>A list of acknowledgements leaves the packets they do not name.\<close>

lemma host_receives_acks:
  assumes "length buf = 36"
  shows "\<exists>buf' pm'. host_run (map (\<lambda>i. Received (Some (fragment_ack t p f frame s i))) is) (buf, pm) = Done (buf', pm')
    \<and> recentPackets pm' = filter (\<lambda>e. \<forall>i \<in> set is. fst e \<noteq> s + word_of_nat i) (recentPackets pm)
    \<and> sent pm' = sent pm \<and> length buf' = 36"
  using assms
proof (induction "is" arbitrary: buf pm)
  case Nil
  then show ?case by simp
next
  case (Cons i "is")
  let ?pm1 = "removeRecentPacket (s + word_of_nat i) pm"
  have "length (fragment_ack t p f frame s i) = 36"
    by (simp add: fragment_ack_def ack_packet_def wf_packet_def zero_packet_def frame_header_def)
  from Cons.IH[OF this, of ?pm1] obtain buf' pm' where IH:
    "host_run (map (\<lambda>i. Received (Some (fragment_ack t p f frame s i))) is) (fragment_ack t p f frame s i, ?pm1)
      = Done (buf', pm')"
    "recentPackets pm' = filter (\<lambda>e. \<forall>i \<in> set is. fst e \<noteq> s + word_of_nat i) (recentPackets ?pm1)"
    "sent pm' = sent ?pm1" "length buf' = 36" by (elim exE conjE)
  have "recentPackets pm' = filter (\<lambda>e. \<forall>j \<in> set (i # is). fst e \<noteq> s + word_of_nat j) (recentPackets pm)"
    unfolding IH(2) removeRecentPacket_def by (auto intro: filter_cong)
  moreover have "sent pm' = sent pm" using IH(3) by (simp add: removeRecentPacket_def)
  ultimately show ?case
    using IH(1,4) by (simp add: host_receives_fragment_ack[OF Cons.prems] del: bind_outcome_Done)
qed

text \<open>
  An acknowledgement clears the packet it is for. Whatever packet of whatever frame the viewer's
  receiver takes in, the datagram it answers with makes the host forget the packet of exactly this
  sequence number and keep all others; the receiver passes the whole packet on.
\<close>

lemma ack_clears_packet:
  assumes "length fresh = CLIENT_PACKET_SIZE" and "length (chunk p frame i) \<le> CLIENT_PACKET_SIZE - sizeof_rtmp"
    and "length buf = 36"
  shows "\<exists>ack packet. receiver_step fresh (Some (frame_datagram t p f frame s i)) st
      = st\<lparr>acks := acks st @ [ack], packetQueue := snd (tsq_Push packet (packetQueue st))\<rparr>
    \<and> take (length (frame_datagram t p f frame s i)) packet = frame_datagram t p f frame s i
    \<and> (\<exists>buf' pm'. handleIncomingPacket handlerMap buf (Some ack) pm = Done (buf', pm')
         \<and> recentPackets pm' = filter (\<lambda>e. fst e \<noteq> s + word_of_nat i) (recentPackets pm) \<and> sent pm' = sent pm)"
proof -
  let ?d = "frame_datagram t p f frame s i"
  let ?packet = "?d @ drop (length ?d) fresh"
  have "\<exists>buf' pm'. handleIncomingPacket handlerMap buf (Some (fragment_ack t p f frame s i)) pm = Done (buf', pm')
      \<and> recentPackets pm' = filter (\<lambda>e. fst e \<noteq> s + word_of_nat i) (recentPackets pm) \<and> sent pm' = sent pm"
    using host_receives_fragment_ack[OF assms(3)] by (simp add: removeRecentPacket_def)
  moreover have "take (length ?d) ?packet = ?d" by simp
  ultimately show ?thesis using receiver_fragment[OF assms(1,2) refl, of t f s st] by blast
qed

section \<open>Keeping packets\<close>

text \<open>
  A run in which nothing acknowledges \<open>q\<close> and never more than 200 packets are outstanding.
\<close>

fun quiet :: "DWORD \<Rightarrow> host_event list \<Rightarrow> host \<Rightarrow> bool" where
  "quiet q [] h \<longleftrightarrow> True"
| "quiet q (e # es) h \<longleftrightarrow> length (recentPackets (snd h)) \<le> RECENT_PACKETS_SIZE
     \<and> (case host_step e h of
          Done h' \<Rightarrow> ((\<exists>a. e = Received a) \<longrightarrow> \<not> acknowledges (fst h') q) \<and> quiet q es h'
        | _ \<Rightarrow> False)"

lemma kept_run:
  "(q, d) \<in> set (recentPackets (snd h)) \<Longrightarrow> quiet q es h \<Longrightarrow>
    \<exists>h'. host_run es h = Done h' \<and> (q, d) \<in> set (recentPackets (snd h'))"
proof (induction es arbitrary: h)
  case Nil
  then show ?case by simp
next
  case (Cons e es)
  then obtain h1 where h1: "host_step e h = Done h1" "(\<exists>a. e = Received a) \<longrightarrow> \<not> acknowledges (fst h1) q" "quiet q es h1"
    by (auto split: outcome.splits)
  have "(q, d) \<in> set (recentPackets (snd h1))"
  proof (cases "acknowledges (fst h1) q")
    case False
    then show ?thesis
      using host_step_keeps[of q d "snd h" e "fst h" "fst h1" "snd h1"] Cons.prems h1 by auto
  next
    case True
    then have "\<nexists>a. e = Received a" using h1(2) by blast
    then show ?thesis
      using Cons.prems h1(1)
      by (cases e; cases h; cases h1) (auto simp: after_packet_def addRecentPacket_def ackPackets_round_def Let_def
          elim!: send_chunk_cases)
  qed
  with Cons.IH[OF _ h1(3)] h1(1) show ?case by (simp del: bind_outcome_Done)
qed

text \<open>
  What is not acknowledged is sent again. From any state in which a packet is kept, and whatever
  the sender, the timer and the receiver do next, as long as no acknowledgement of its sequence
  number arrives and no more than 200 packets are outstanding, the packet is still kept, and the
  next round of the timer sends it once more.
\<close>

lemma unacknowledged_is_resent:
  assumes "(q, d) \<in> set (recentPackets (snd h))" and "quiet q es h"
  shows "\<exists>buf pm again. host_run es h = Done (buf, pm) \<and> (q, d) \<in> set (recentPackets pm)
    \<and> host_step Ack_timer (buf, pm) = Done (buf, ackPackets_round pm)
    \<and> sent (ackPackets_round pm) = sent pm @ again \<and> d \<in> set again"
proof -
  from kept_run[OF assms] obtain h' where h': "host_run es h = Done h'" "(q, d) \<in> set (recentPackets (snd h'))"
    by blast
  let ?pm = "snd h'"
  have "sent (ackPackets_round ?pm) = sent ?pm @ map snd (recentPackets ?pm)"
    by (auto simp: ackPackets_round_def Let_def)
  moreover have "d \<in> set (map snd (recentPackets ?pm))" using h'(2) by force
  moreover have "host_run es h = Done (fst h', ?pm)" using h'(1) by simp
  ultimately show ?thesis using h'(2) by (metis host_step.simps(2))
qed

section \<open>Losing packets\<close>

lemma recent_fold:
  assumes "distinct (map fst (recentPackets pm) @ map f js)"
  shows "recentPackets (fold (\<lambda>j. after_packet (f j) (d j)) js pm)
    = recentPackets pm @ map (\<lambda>j. (f j, d j)) js"
  using assms
proof (induction js arbitrary: pm)
  case Nil
  then show ?case by simp
next
  case (Cons j js)
  then have "f j \<notin> fst ` set (recentPackets pm)" by auto
  then have "recentPackets (after_packet (f j) (d j) pm) = recentPackets pm @ [(f j, d j)]"
    by (simp add: after_packet_def addRecentPacket_def)
  with Cons show ?case by simp
qed

lemma first_frame_recent:
  assumes "sendable PACKET_SIZE frame" and "send_frame t PACKET_SIZE f frame PacketManager = Done pm"
  shows "recentPackets pm = map (\<lambda>j. (word_of_nat j, frame_datagram t 4060 f frame 0 j)) [0..<k_of frame]"
    and "sent pm = map (frame_datagram t 4060 f frame 0) [0..<k_of frame]"
proof -
  have k: "k_of frame \<le> 65535" and p: "unat PACKET_SIZE - 36 = 4060"
    using assms(1) by (simp_all add: sendable_def k_of_def PACKET_SIZE_def)
  have "(word_of_nat i :: DWORD) = word_of_nat j \<longleftrightarrow> i = j" if "i < k_of frame" "j < k_of frame" for i j
    using k that by (intro DWORD_of_nat_eq_iff) simp_all
  then have dist: "distinct (map (word_of_nat :: nat \<Rightarrow> DWORD) [0..<k_of frame])"
    by (auto simp: distinct_map inj_on_def)
  have pm: "pm = fold (\<lambda>j. after_packet (word_of_nat j) (frame_datagram t 4060 f frame 0 j)) [0..<k_of frame] PacketManager"
    using send_frame_fold[OF assms(1), of t f PacketManager] assms(2)
    by (simp add: p k_of_def PacketManager_def)
  show "recentPackets pm = map (\<lambda>j. (word_of_nat j, frame_datagram t 4060 f frame 0 j)) [0..<k_of frame]"
    unfolding pm by (subst recent_fold) (use dist in \<open>simp_all add: PacketManager_def\<close>)
  show "sent pm = map (frame_datagram t 4060 f frame 0) [0..<k_of frame]"
    unfolding pm by (simp add: sent_fold PacketManager_def)
qed

text \<open>
  Once the acknowledgements of what arrived are in, a round of the timer sends what is missing, and
  only that.
\<close>

lemma resends_missing:
  assumes "sendable PACKET_SIZE frame" and "send_frame t PACKET_SIZE f frame PacketManager = Done pm"
    and "length buf = 36"
  shows "\<exists>buf' pm1. host_run (map (\<lambda>i. Received (Some (fragment_ack t 4060 f frame 0 i))) (filter (\<lambda>i. i \<notin> lost) [0..<k_of frame]))
      (buf, pm) = Done (buf', pm1)
    \<and> sent (ackPackets_round pm1) = sent pm @ map (frame_datagram t 4060 f frame 0) (filter (\<lambda>i. i \<in> lost) [0..<k_of frame])"
proof -
  let ?k = "k_of frame" and ?d = "frame_datagram t 4060 f frame 0"
  let ?got = "filter (\<lambda>i. i \<notin> lost) [0..<?k]" and ?missing = "filter (\<lambda>i. i \<in> lost) [0..<?k]"
  note r = first_frame_recent[OF assms(1,2)]
  from host_receives_acks[OF assms(3), of t 4060 f frame 0 ?got pm] obtain buf' pm1 where h:
    "host_run (map (\<lambda>i. Received (Some (fragment_ack t 4060 f frame 0 i))) ?got) (buf, pm) = Done (buf', pm1)"
    "recentPackets pm1 = filter (\<lambda>e. \<forall>i \<in> set ?got. fst e \<noteq> 0 + word_of_nat i) (recentPackets pm)"
    "sent pm1 = sent pm" by (elim exE conjE)
  have k: "?k \<le> 65535" using assms(1) by (simp add: sendable_def k_of_def PACKET_SIZE_def)
  have eq: "(word_of_nat i :: DWORD) = word_of_nat j \<longleftrightarrow> i = j" if "i < ?k" "j < ?k" for i j
    using k that by (intro DWORD_of_nat_eq_iff) simp_all
  have "recentPackets pm1 = map (\<lambda>j. (word_of_nat j, ?d j)) ?missing"
    unfolding h(2) r(1) filter_map by (rule arg_cong[where f = "map _"], rule filter_cong) (auto simp: eq)
  then have "map snd (recentPackets pm1) = map ?d ?missing" by simp
  then have "sent (ackPackets_round pm1) = sent pm @ map ?d ?missing"
    using h(3) by (auto simp: ackPackets_round_def Let_def)
  with h(1) show ?thesis by blast
qed

text \<open>
  A large frame is retried once. A frame of more than 200 packets leaves more than 200 entries
  behind; the first round of the timer sends all its packets a second time and then forgets every
  one of them, acknowledged or not, and no later round sends anything.
\<close>

lemma large_frame_retried_once:
  assumes "sendable PACKET_SIZE frame" and "RECENT_PACKETS_SIZE < k_of frame"
  shows "\<exists>pm. send_frame t PACKET_SIZE f frame PacketManager = Done pm
    \<and> sent pm = map (frame_datagram t 4060 f frame 0) [0..<k_of frame]
    \<and> sent (ackPackets_round pm) = sent pm @ sent pm
    \<and> recentPackets (ackPackets_round pm) = []
    \<and> (ackPackets_round ^^ n) (ackPackets_round pm) = ackPackets_round pm"
proof -
  from send_frame_fold[OF assms(1)] obtain pm where pm: "send_frame t PACKET_SIZE f frame PacketManager = Done pm"
    by blast
  note r = first_frame_recent[OF assms(1) pm]
  have len: "RECENT_PACKETS_SIZE < length (recentPackets pm)" using r(1) assms(2) by simp
  then have ne: "recentPackets pm \<noteq> []" by auto
  have resent: "map snd (recentPackets pm) = sent pm" unfolding r by simp
  have one: "sent (ackPackets_round pm) = sent pm @ sent pm" "recentPackets (ackPackets_round pm) = []"
    using ne len by (simp_all add: ackPackets_round_def Let_def resent)
  then have "ackPackets_round (ackPackets_round pm) = ackPackets_round pm"
    by (simp add: ackPackets_round_def[of "ackPackets_round pm"])
  then have "(ackPackets_round ^^ n) (ackPackets_round pm) = ackPackets_round pm" by (induction n) auto
  with pm r(2) one show ?thesis by blast
qed

text \<open>
  One stray packet ends the host. The host installs handlers for events and control packets only; a
  datagram of any other type - such as one of its own stream packets coming back - makes it call
  the null pointer that the lookup of the handler has just created.
\<close>

lemma host_faults_on_other_types:
  assumes "length buf = 36" and "36 \<le> length dgram" and "length dgram \<le> 36"
    and "pkt_type (decode_rtmp dgram) \<notin> {PACKET_TYPE_EVENT, PACKET_TYPE_CONTROL}"
  shows "handleIncomingPacket handlerMap buf (Some dgram) pm = Fault Null_call"
  using assms by (simp add: handleIncomingPacket_def winsock_recvfrom_def handlerMap_def)

end
