(* ===== verification/TornFrame.thy ===== *)
theory TornFrame
  imports ViewerMain Retransmission
begin

text \<open>
  Host and viewer when an acknowledgement is lost: the host sends a packet again that the viewer has
  already, and the viewer's consumer counts its bytes once more.
\<close>

section \<open>Receiving and consuming, duplicates included\<close>







section \<open>A lost acknowledgement\<close>



end
