(* ===== verification/HostMain.thy ===== *)
theory HostMain
  imports Video Retransmission
begin

text \<open>
  The start of the host program, \<^verbatim>\<open>VideoHost/main.cpp\<close>: \<open>main\<close> starts the three threads first and
  then sets the type and the packet size of \<open>screenStream\<close>, while the sender thread already runs.
\<close>

section \<open>Configuration and sending\<close>

text \<open>What \<open>main\<close> sets before it runs the capture loop.\<close>

definition configure :: "video_stream \<Rightarrow> video_stream" where
  "configure vs = vs\<lparr>vs_stream := setFrameSize PACKET_SIZE (setStreamType PACKET_TYPE_STREAM (vs_stream vs))\<rparr>"

text \<open>
  One round of \<open>sendStream\<close> on the captured stream. It reads the packet size at its start and
  then waits for a frame, so the size is that of the stream \<open>early\<close>, the frame and the type those
  of the stream \<open>late\<close> in which a frame has come.
\<close>

definition sender_round ::
  "video_stream \<Rightarrow> video_stream \<Rightarrow> DWORD \<Rightarrow> packet_manager \<Rightarrow> (video_stream \<times> packet_manager) outcome" where
  "sender_round early late frameNum pm =
     (let chunkSize = getFrameSize (vs_stream early)
      in case frontFrame (vs_stream late) of
          (Done fd, s) \<Rightarrow> (case vsd_getBytesDataPtr fd of
              None \<Rightarrow> Fault Null_deref
            | Some bytes \<Rightarrow> bind_outcome (send_frame (getStreamType s) chunkSize frameNum bytes pm)
                (\<lambda>pm'. Done (late\<lparr>vs_stream := s\<rparr>, pm')))
        | (Fault e, s) \<Rightarrow> Fault e
        | (Blocks, s) \<Rightarrow> Blocks)"

section \<open>The first frame\<close>

text \<open>The stream after a capture has queued the frame \<open>fd\<close>.\<close>

definition with_frame :: "frame_data \<Rightarrow> video_stream \<Rightarrow> video_stream" where
  "with_frame fd vs = vs\<lparr>vs_stream := (vs_stream vs)\<lparr>streamContainer := vc_push fd (streamContainer (vs_stream vs))\<rparr>\<rparr>"

lemma sender_round_first:
  assumes "pFrame fd = Some frame"
  shows "sender_round early (with_frame fd (configure (VideoStream installed cap))) n pm
    = bind_outcome (send_frame PACKET_TYPE_STREAM (getFrameSize (vs_stream early)) n frame pm)
        (\<lambda>pm'. Done (configure (VideoStream installed cap), pm'))"
  using assms
  by (simp add: sender_round_def with_frame_def configure_def VideoStream_def frontFrame_def vc_defs tsq_defs
      vsd_getBytesDataPtr_def getStreamType_def setStreamType_def setFrameSize_def continueStream_def Stream_def
      MAXINT_def Let_def del: bind_outcome_Done)

lemma resent_forever:
  assumes "recentPackets pm = [(q, d)]"
  shows "sent ((ackPackets_round ^^ n) pm) = sent pm @ replicate n d \<and> recentPackets ((ackPackets_round ^^ n) pm) = [(q, d)]"
proof (induction n)
  case 0
  then show ?case using assms by simp
next
  case (Suc n)
  then show ?case
    by (simp add: ackPackets_round_def Let_def RECENT_PACKETS_SIZE_def flip: replicate_append_same)
qed

lemma receiver_drops_long:
  "length fresh < length d \<Longrightarrow> receiver_step fresh (Some d) st = st"
  by (simp add: receiver_step_def winsock_recvfrom_def Let_def)

lemma early_size: "getFrameSize (vs_stream (VideoStream installed cap)) = 65535"
  by (simp add: VideoStream_def getFrameSize_def continueStream_def Stream_def)

lemma configured_size: "getFrameSize (vs_stream (with_frame fd (configure vs))) = PACKET_SIZE"
  by (simp add: with_frame_def configure_def getFrameSize_def setFrameSize_def)

text \<open>
  C26: The first frame is lost when the sender thread is quick. If its first round begins before
  \<open>main\<close> has set the packet size, the round cuts the first frame at the initial size of 65535
  instead of 4096. So a first frame of 4061 to 65471 bytes (more than one packet of 4096, not more than
  one of 65535) goes out as one datagram that no receive buffer of the viewer can take. The viewer drops
  it without an acknowledgement, and as long as the host keeps nothing else every round of the timer
  sends it again. A round that begins after the configuration sends the frame in packets that fit.
\<close>

theorem quick_sender_loses_first_frame:
  fixes st :: "'bmp client_state"
  assumes "vs = VideoStream installed cap" and "late = with_frame fd (configure vs)"
    and "pFrame fd = Some frame" and "4060 < length frame" and "length frame \<le> 65471"
  shows "\<exists>late' pm d pm'. sender_round vs late 0 PacketManager = Done (late', pm)
    \<and> sent pm = [d] \<and> (\<forall>fresh. length fresh = CLIENT_PACKET_SIZE \<longrightarrow> receiver_step fresh (Some d) st = st)
    \<and> (\<forall>n. sent ((ackPackets_round ^^ n) pm) = replicate (Suc n) d)
    \<and> sender_round late late 0 PacketManager = Done (late', pm')
    \<and> sent pm' = map (frame_datagram PACKET_TYPE_STREAM 4060 0 frame 0) [0..<k_of frame]
    \<and> (\<forall>d \<in> set (sent pm'). length d \<le> CLIENT_PACKET_SIZE)"
proof -
  let ?d = "frame_datagram PACKET_TYPE_STREAM 65499 0 frame 0 0"
  have one: "nchunks 65499 (length frame) = 1"
    unfolding nchunks_def by (rule div_nat_eqI) (use assms(4,5) in simp_all)
  then have "sendable 65535 frame" using assms(5) by (simp add: sendable_def)
  from send_frame_fold[OF this, of PACKET_TYPE_STREAM 0 PacketManager] one
  have send: "send_frame PACKET_TYPE_STREAM 65535 0 frame PacketManager = Done (after_packet 0 ?d PacketManager)"
    by (simp add: PacketManager_def)
  have kept: "recentPackets (after_packet 0 ?d PacketManager) = [(0, ?d)]" "sent (after_packet 0 ?d PacketManager) = [?d]"
    by (simp_all add: after_packet_def addRecentPacket_def PacketManager_def)
  have long: "receiver_step fresh (Some ?d) st = st" if "length fresh = CLIENT_PACKET_SIZE" for fresh
    using that assms(4,5) by (intro receiver_drops_long) (simp add: length_frame_datagram length_chunk CLIENT_PACKET_SIZE_def)
  have again: "sent ((ackPackets_round ^^ n) (after_packet 0 ?d PacketManager)) = replicate (Suc n) ?d" for n
    using resent_forever[OF kept(1), of n] kept(2) by simp
  have ok: "sendable PACKET_SIZE frame" using assms(5) by (simp add: sendable_def PACKET_SIZE_def nchunks_def)
  from send_frame_fold[OF this] obtain pm' where pm': "send_frame PACKET_TYPE_STREAM PACKET_SIZE 0 frame PacketManager = Done pm'"
    by blast
  note pieces = first_frame_recent(2)[OF ok pm']
  have fit: "\<forall>d \<in> set (sent pm'). length d \<le> CLIENT_PACKET_SIZE"
    unfolding pieces by (auto simp: length_frame_datagram length_chunk CLIENT_PACKET_SIZE_def)
  show ?thesis
    unfolding assms(1,2) sender_round_first[OF assms(3)] early_size configured_size send pm'
    using kept(2) long again pieces fit
    by (intro exI[of _ "configure (VideoStream installed cap)"] exI[of _ "after_packet 0 ?d PacketManager"]
        exI[of _ ?d] exI[of _ pm'] conjI allI impI) simp_all
qed

theorem quick_sender_loses_first_frame_witness:
  "\<exists>late' pm d pm'. sender_round jpeg_stream
      (with_frame (frame_data_init\<lparr>pFrame := Some (replicate 9000 7)\<rparr>) (configure jpeg_stream)) 0 PacketManager = Done (late', pm)
    \<and> sent pm = [d]
    \<and> (\<forall>fresh. length fresh = CLIENT_PACKET_SIZE \<longrightarrow> receiver_step fresh (Some d) (client_init :: nat client_state) = client_init)
    \<and> (\<forall>n. sent ((ackPackets_round ^^ n) pm) = replicate (Suc n) d)
    \<and> sender_round (with_frame (frame_data_init\<lparr>pFrame := Some (replicate 9000 7)\<rparr>) (configure jpeg_stream))
        (with_frame (frame_data_init\<lparr>pFrame := Some (replicate 9000 7)\<rparr>) (configure jpeg_stream)) 0 PacketManager = Done (late', pm')
    \<and> sent pm' = map (frame_datagram PACKET_TYPE_STREAM 4060 0 (replicate 9000 7) 0) [0..<k_of (replicate 9000 7)]
    \<and> (\<forall>d \<in> set (sent pm'). length d \<le> CLIENT_PACKET_SIZE)"
  by (rule quick_sender_loses_first_frame[OF _ refl]) (simp_all add: jpeg_stream_def)

end
