(* ===== verification/HostProcess.thy ===== *)
theory HostProcess
  imports HostMain
begin

text \<open>
  The host as a process, \<^verbatim>\<open>VideoHost/main.cpp\<close>: the main thread, which configures the stream and then
  captures frames, and the three threads that send, receive and retransmit. Each step of a thread is
  what it does between two points at which the others can be seen: a packet is sent and then kept
  in \<open>recentPackets\<close> in two steps, so that an acknowledgement can come in between, and the timer sends
  packet by packet inside \<open>recentPacketsMutex\<close>, where the others wait for it. The lemmas keep
  one invariant of all reachable states, and the properties read from it what the network gets to
  see, how it compares with the sequential \<open>sendStream\<close>, and that the program does not end.
\<close>

section \<open>The process\<close>

text \<open>
  The sender: at the test of its loop, in \<open>frontFrame\<close> with the packet size it has read, about to
  send packet \<open>i\<close> of a frame, about to keep the packet it has sent, or at its end. It holds on to the
  frame's data, \<open>frame\<close>, until it has sent all of it.
\<close>

datatype sender_pc =
    Sender_test
  | Sender_waits WORD
  | Sender_sends stream_frame WORD frame_data
  | Sender_keeps stream_frame WORD frame_data DWORD "BYTE list"
  | Sender_ended

text \<open>
  The receiver: at the test, in \<^verbatim>\<open>recvfrom\<close>, about to call the handler of the packet in its buffer, ended.
  The timer: at the test, in the sleep or before \<open>recentPacketsMutex\<close>, about to send the first of the
  packets that are left to send, ended.
\<close>

datatype receiver_loop = Receiver_test | Receiver_waits | Receiver_handles | Receiver_ended

datatype timer_loop = Timer_test | Timer_sleeps | Timer_sends "(DWORD \<times> BYTE list) list" | Timer_ended

text \<open>
  \<open>recentPacketsMutex\<close> is held by the timer while it sends. The other threads hold it only within a
  step, to add or remove an entry.
\<close>

fun holds_packets :: "timer_loop \<Rightarrow> bool" where
  "holds_packets (Timer_sends rest) = True" | "holds_packets t = False"

datatype host_main =
    Set_type
  | Set_size
  | Capturing
  | Killing
  | Joining_receiver
  | Joining_acker
  | Joining_sender
  | Shutting_down
  | Main_returned

text \<open>
  \<open>hp_fresh\<close> is the log of the sender thread's datagrams, which in \<open>sent\<close> stand among the ones sent
  again by the timer.
\<close>

record host_process =
  hp_stream :: video_stream
  hp_gdi :: gdi
  hp_packets :: packet_manager
  hp_buf :: "BYTE list"
  hp_on :: bool
  hp_main :: host_main
  hp_sender :: sender_pc
  hp_frameNum :: DWORD
  hp_receiver :: receiver_loop
  hp_acker :: timer_loop
  hp_gdiplus :: bool
  hp_fresh :: "BYTE list list"

text \<open>
  The start: the static object \<open>_gdiBootstrap\<close> starts GDI+ and ends the program when that fails, the
  global stream and packet manager are constructed, and \<open>main\<close> creates the threads.
\<close>

definition GdiPlusBootstrap :: "bool \<Rightarrow> bool outcome" where
  "GdiPlusBootstrap gdiOk = (if \<not> gdiOk then Fault (Exit 3) else Done True)"

definition host_start :: "bool \<Rightarrow> (string \<times> clsid) list \<Rightarrow> video_capture \<Rightarrow> gdi \<Rightarrow> host_process outcome" where
  "host_start gdiOk installed initialised g = bind_outcome (GdiPlusBootstrap gdiOk) (\<lambda>up.
     Done \<lparr>hp_stream = VideoStream installed initialised, hp_gdi = g, hp_packets = PacketManager,
       hp_buf = replicate 36 0, hp_on = True, hp_main = Set_type, hp_sender = Sender_test, hp_frameNum = 0,
       hp_receiver = Receiver_test, hp_acker = Timer_test, hp_gdiplus = up, hp_fresh = []\<rparr>)"

section \<open>The main thread\<close>

text \<open>A join waits until its thread has ended. The capture loop is left only when the program is off.\<close>

definition main_step :: "capture_answers \<Rightarrow> host_process \<Rightarrow> host_process outcome" where
  "main_step os p = (case hp_main p of
       Set_type \<Rightarrow> Done (p\<lparr>hp_stream := (hp_stream p)
         \<lparr>vs_stream := setStreamType PACKET_TYPE_STREAM (vs_stream (hp_stream p))\<rparr>, hp_main := Set_size\<rparr>)
     | Set_size \<Rightarrow> Done (p\<lparr>hp_stream := (hp_stream p)
         \<lparr>vs_stream := setFrameSize PACKET_SIZE (vs_stream (hp_stream p))\<rparr>, hp_main := Capturing\<rparr>)
     | Capturing \<Rightarrow> if \<not> hp_on p then Done (p\<lparr>hp_main := Killing\<rparr>)
         else bind_outcome (video_round os (hp_stream p, hp_gdi p)) (\<lambda>(vs, g).
           Done (p\<lparr>hp_stream := vs, hp_gdi := g\<rparr>))
     | Killing \<Rightarrow> Done (p\<lparr>hp_on := False, hp_main := Joining_receiver\<rparr>)
     | Joining_receiver \<Rightarrow> if hp_receiver p = Receiver_ended then Done (p\<lparr>hp_main := Joining_acker\<rparr>) else Blocks
     | Joining_acker \<Rightarrow> if hp_acker p = Timer_ended then Done (p\<lparr>hp_main := Joining_sender\<rparr>) else Blocks
     | Joining_sender \<Rightarrow> if hp_sender p = Sender_ended then Done (p\<lparr>hp_main := Shutting_down\<rparr>) else Blocks
     | Shutting_down \<Rightarrow> Done (p\<lparr>hp_gdiplus := False, hp_main := Main_returned\<rparr>)
     | Main_returned \<Rightarrow> Blocks)"

section \<open>The sender thread\<close>

text \<open>
  What \<open>sendStream\<close> computes when it has a frame, with the packet size it has read before; and the
  header and data of one packet, as in \<open>send_chunk\<close>.
\<close>

definition frame_of :: "BYTE \<Rightarrow> WORD \<Rightarrow> DWORD \<Rightarrow> frame_data \<Rightarrow> stream_frame" where
  "frame_of sType chunkSize frameNum fd =
     (let payloadSize = chunkSize - 36; frameSize = vsd_getSize fd
      in \<lparr>sf_type = sType, sf_number = frameNum, sf_payload = payloadSize,
          sf_packets = ucast ((frameSize + ucast payloadSize - 1) div ucast payloadSize), sf_size = ucast frameSize,
          sf_data = (case vsd_getBytesDataPtr fd of None \<Rightarrow> [] | Some bytes \<Rightarrow> bytes)\<rparr>)"

definition chunk_packet :: "stream_frame \<Rightarrow> WORD \<Rightarrow> DWORD \<Rightarrow> (rtmp_packet \<times> BYTE list) outcome" where
  "chunk_packet sf i seqn =
     (if 2 ^ 31 \<le> unat i * unat (sf_payload sf) then Fault Int_overflow
      else let dataOffset = (word_of_nat (unat i * unat (sf_payload sf)) :: SIZE_T);
               dataSize = min (ucast (sf_payload sf)) (ucast (sf_size sf) - dataOffset)
           in bind_outcome (mem_read (sf_data sf) (unat dataOffset) (unat dataSize))
                (\<lambda>data. Done (stream_header sf i (dataSize + 36) seqn, data)))"

text \<open>
  Sending a packet takes its sequence number and hands it to \<^verbatim>\<open>sendto\<close>, outside of the mutex;
  keeping it enters the mutex. The stream's type is read for every packet. When the frame is sent its
  data is released.
\<close>

definition sender_thread_step :: "host_process \<Rightarrow> host_process outcome" where
  "sender_thread_step p = (case hp_sender p of
       Sender_test \<Rightarrow> Done (p\<lparr>hp_sender := if hp_on p then Sender_waits (getFrameSize (vs_stream (hp_stream p)))
         else Sender_ended\<rparr>)
     | Sender_waits chunkSize \<Rightarrow> (case frontFrame (vs_stream (hp_stream p)) of
           (Fault e, _) \<Rightarrow> Fault e
         | (Blocks, _) \<Rightarrow> Blocks
         | (Done fd, s) \<Rightarrow> if chunkSize - 36 = 0 then Fault Div_by_zero
             else Done (p\<lparr>hp_stream := (hp_stream p)\<lparr>vs_stream := s\<rparr>,
               hp_sender := Sender_sends (frame_of (getStreamType s) chunkSize (hp_frameNum p) fd) 0 fd\<rparr>))
     | Sender_sends sf i fd \<Rightarrow>
         if i < sf_packets sf
         then let seqn = nextSequence (hp_packets p);
                  sf' = sf\<lparr>sf_type := getStreamType (vs_stream (hp_stream p))\<rparr>
              in bind_outcome (chunk_packet sf' i seqn) (\<lambda>(pkt, data).
                Done (p\<lparr>hp_packets := sendPacket pkt data False ((hp_packets p)\<lparr>nextSequence := seqn + 1\<rparr>),
                  hp_sender := Sender_keeps sf' i fd seqn (encode_rtmp pkt @ data),
                  hp_fresh := hp_fresh p @ [encode_rtmp pkt @ data]\<rparr>))
         else Done (p\<lparr>hp_gdi := frame_data_destructor fd (hp_gdi p), hp_frameNum := hp_frameNum p + 1,
                hp_sender := Sender_test\<rparr>)
     | Sender_keeps sf i fd seqn packet \<Rightarrow> if holds_packets (hp_acker p) then Blocks
         else Done (p\<lparr>hp_packets := (addRecentPacket seqn packet (hp_packets p))\<lparr>ackFlag := False\<rparr>,
           hp_sender := Sender_sends sf (i + 1) fd\<rparr>)
     | Sender_ended \<Rightarrow> Blocks)"

section \<open>The receiver and the timer\<close>

text \<open>
  A short datagram overwrites the receiver's buffer only in part, a failed \<^verbatim>\<open>recvfrom\<close> goes on with the
  loop. The handler of a control packet enters the mutex. A round of the timer finds the map empty, or
  sends its packets one by one and clears it when there are too many, all of it inside the mutex.
\<close>

definition receiver_thread_step :: "BYTE list option \<Rightarrow> host_process \<Rightarrow> host_process outcome" where
  "receiver_thread_step dgram p = (case hp_receiver p of
       Receiver_test \<Rightarrow> Done (p\<lparr>hp_receiver := if hp_on p then Receiver_waits else Receiver_ended\<rparr>)
     | Receiver_waits \<Rightarrow> (let (res, buf) = winsock_recvfrom (hp_buf p) dgram
         in Done (p\<lparr>hp_buf := buf, hp_receiver := if res < 0 then Receiver_test else Receiver_handles\<rparr>))
     | Receiver_handles \<Rightarrow> (let pkt = decode_rtmp (hp_buf p) in case handlerMap (pkt_type pkt) of
           None \<Rightarrow> Fault Null_call
         | Some h \<Rightarrow> if pkt_type pkt = PACKET_TYPE_CONTROL \<and> holds_packets (hp_acker p) then Blocks
             else Done (p\<lparr>hp_packets := h pkt (hp_packets p), hp_receiver := Receiver_test\<rparr>))
     | Receiver_ended \<Rightarrow> Blocks)"

definition timer_clears :: "packet_manager \<Rightarrow> packet_manager" where
  "timer_clears pm = (if RECENT_PACKETS_SIZE < length (recentPackets pm) then pm\<lparr>recentPackets := []\<rparr> else pm)"

definition acker_thread_step :: "host_process \<Rightarrow> host_process outcome" where
  "acker_thread_step p = (let pm = hp_packets p in case hp_acker p of
       Timer_test \<Rightarrow> Done (p\<lparr>hp_acker := if hp_on p then Timer_sleeps else Timer_ended\<rparr>)
     | Timer_sleeps \<Rightarrow> Done (p\<lparr>hp_acker := if recentPackets pm = [] then Timer_test else Timer_sends (recentPackets pm)\<rparr>)
     | Timer_sends [] \<Rightarrow> Done (p\<lparr>hp_packets := timer_clears pm, hp_acker := Timer_test\<rparr>)
     | Timer_sends (e # rest) \<Rightarrow>
         Done (p\<lparr>hp_packets := pm\<lparr>sent := sent pm @ [snd e], ackFlag := True\<rparr>, hp_acker := Timer_sends rest\<rparr>)
     | Timer_ended \<Rightarrow> Blocks)"

section \<open>Runs\<close>

text \<open>
  An action is a step of one thread, with what the system answers to it. \<open>Blocks\<close> says that the thread
  waits and cannot take it now, \<open>Fault\<close> that the process dies of it.
\<close>

datatype host_action =
    By_main capture_answers
  | By_sender
  | By_receiver "BYTE list option"
  | By_acker

fun host_act :: "host_action \<Rightarrow> host_process \<Rightarrow> host_process outcome" where
  "host_act (By_main os) p = main_step os p"
| "host_act By_sender p = sender_thread_step p"
| "host_act (By_receiver dgram) p = receiver_thread_step dgram p"
| "host_act By_acker p = acker_thread_step p"

text \<open>A run: any number of actions of the threads in any order.\<close>

inductive host_reaches :: "host_process \<Rightarrow> host_action list \<Rightarrow> host_process \<Rightarrow> bool" for p0 where
  at_start: "host_reaches p0 [] p0"
| and_act: "host_reaches p0 as p \<Longrightarrow> host_act a p = Done p' \<Longrightarrow> host_reaches p0 (as @ [a]) p'"

text \<open>The frames that the captures of a run have given, the first two steps of \<open>main\<close> being none.\<close>

fun capture_of :: "host_action \<Rightarrow> capture_answers option" where
  "capture_of (By_main os) = Some os"
| "capture_of _ = None"

definition captures :: "host_action list \<Rightarrow> capture_answers list" where
  "captures as = drop 2 (List.map_filter capture_of as)"

definition captured_frames :: "video_capture \<Rightarrow> host_action list \<Rightarrow> frame_data list" where
  "captured_frames cap as = List.map_filter (captured cap) (captures as)"

definition frame_bytes :: "frame_data \<Rightarrow> BYTE list" where
  "frame_bytes fd = (case pFrame fd of None \<Rightarrow> [] | Some b \<Rightarrow> b)"

section \<open>Undisturbed rounds\<close>

text \<open>
  When no other thread gets between its steps, a round of the receiver is \<open>handleIncomingPacket\<close>, and
  one of the timer \<open>ackPackets_round\<close>, as the sequential model of the host has them.
\<close>

lemma receiver_round_in_steps:
  assumes "hp_receiver p = Receiver_waits" and "\<not> holds_packets (hp_acker p)"
  shows "bind_outcome (receiver_thread_step dgram p) (\<lambda>p1.
      if hp_receiver p1 = Receiver_handles then receiver_thread_step None p1 else Done p1)
    = bind_outcome (handleIncomingPacket handlerMap (hp_buf p) dgram (hp_packets p)) (\<lambda>(buf, pm).
        Done (p\<lparr>hp_buf := buf, hp_packets := pm, hp_receiver := Receiver_test\<rparr>))"
  using assms
  by (auto simp: receiver_thread_step_def handleIncomingPacket_def Let_def split: prod.split option.split)

fun timer_steps :: "nat \<Rightarrow> host_process \<Rightarrow> host_process outcome" where
  "timer_steps 0 p = Done p"
| "timer_steps (Suc n) p = bind_outcome (acker_thread_step p) (timer_steps n)"

lemma timer_sends_all:
  assumes "hp_acker p = Timer_sends rest" and "rest \<noteq> [] \<or> ackFlag (hp_packets p)"
  shows "timer_steps (Suc (length rest)) p = Done (p\<lparr>hp_packets :=
    timer_clears ((hp_packets p)\<lparr>sent := sent (hp_packets p) @ map snd rest, ackFlag := True\<rparr>), hp_acker := Timer_test\<rparr>)"
  using assms
proof (induction rest arbitrary: p)
  case Nil
  then show ?case by (simp add: acker_thread_step_def timer_clears_def Let_def)
next
  case (Cons e rest)
  let ?p = "p\<lparr>hp_packets := (hp_packets p)\<lparr>sent := sent (hp_packets p) @ [snd e], ackFlag := True\<rparr>, hp_acker := Timer_sends rest\<rparr>"
  have "acker_thread_step p = Done ?p" using Cons.prems by (simp add: acker_thread_step_def Let_def)
  then have "timer_steps (Suc (length (e # rest))) p = timer_steps (Suc (length rest)) ?p" by simp
  also have "\<dots> = Done (?p\<lparr>hp_packets := timer_clears ((hp_packets ?p)\<lparr>sent := sent (hp_packets ?p) @ map snd rest, ackFlag := True\<rparr>),
      hp_acker := Timer_test\<rparr>)" by (rule Cons.IH) simp_all
  finally show ?case by simp
qed

lemma timer_round_in_steps:
  assumes "hp_acker p = Timer_sleeps"
  shows "timer_steps (if recentPackets (hp_packets p) = [] then 1 else length (recentPackets (hp_packets p)) + 2) p
    = Done (p\<lparr>hp_packets := ackPackets_round (hp_packets p), hp_acker := Timer_test\<rparr>)"
proof (cases "recentPackets (hp_packets p) = []")
  case True
  with assms show ?thesis by (simp add: acker_thread_step_def ackPackets_round_def Let_def)
next
  case False
  let ?r = "recentPackets (hp_packets p)" and ?p = "p\<lparr>hp_acker := Timer_sends (recentPackets (hp_packets p))\<rparr>"
  have "acker_thread_step p = Done ?p" using assms False by (simp add: acker_thread_step_def Let_def)
  then have "timer_steps (length ?r + 2) p = timer_steps (Suc (length ?r)) ?p" by (simp add: numeral_2_eq_2)
  also have "\<dots> = Done (?p\<lparr>hp_packets := timer_clears ((hp_packets ?p)\<lparr>sent := sent (hp_packets ?p) @ map snd ?r, ackFlag := True\<rparr>),
      hp_acker := Timer_test\<rparr>)" by (rule timer_sends_all) (use False in simp_all)
  finally show ?thesis using False by (simp add: timer_clears_def ackPackets_round_def Let_def)
qed

text \<open>Wherever the timer is, when it goes on by itself it sends every kept packet, as long as they are not too many.\<close>

lemma timer_steps_add: "timer_steps (m + n) p = bind_outcome (timer_steps m p) (timer_steps n)"
proof (induction m arbitrary: p)
  case (Suc m)
  then show ?case by (cases "acker_thread_step p") simp_all
qed (simp del: bind_outcome_Done)

lemma timer_leaves_mutex:
  assumes "hp_acker p = Timer_sends rest" and "length (recentPackets (hp_packets p)) \<le> RECENT_PACKETS_SIZE"
  shows "\<exists>p'. timer_steps (Suc (length rest)) p = Done p' \<and> hp_acker p' = Timer_test \<and> hp_on p' = hp_on p
    \<and> recentPackets (hp_packets p') = recentPackets (hp_packets p) \<and> sent (hp_packets p') = sent (hp_packets p) @ map snd rest"
  using assms
proof (induction rest arbitrary: p)
  case (Cons e rest)
  let ?p = "p\<lparr>hp_packets := (hp_packets p)\<lparr>sent := sent (hp_packets p) @ [snd e], ackFlag := True\<rparr>, hp_acker := Timer_sends rest\<rparr>"
  have "acker_thread_step p = Done ?p" using Cons.prems by (simp add: acker_thread_step_def Let_def)
  with Cons.IH[of ?p] Cons.prems(2) show ?case by auto
qed (simp add: acker_thread_step_def timer_clears_def Let_def)

lemma timer_sends_kept:
  assumes "hp_on p" and "hp_acker p \<noteq> Timer_ended" and "length (recentPackets (hp_packets p)) \<le> RECENT_PACKETS_SIZE"
  shows "\<exists>n p' before. timer_steps n p = Done p' \<and> recentPackets (hp_packets p') = recentPackets (hp_packets p)
    \<and> sent (hp_packets p') = sent (hp_packets p) @ before @ map snd (recentPackets (hp_packets p))"
proof -
  have sleeps: "\<exists>n p'. timer_steps n p = Done p' \<and> recentPackets (hp_packets p') = recentPackets (hp_packets p)
      \<and> sent (hp_packets p') = sent (hp_packets p) @ map snd (recentPackets (hp_packets p))"
    if "hp_acker p = Timer_sleeps" "length (recentPackets (hp_packets p)) \<le> RECENT_PACKETS_SIZE" for p
    using timer_round_in_steps[OF that(1)] that(2)
    by (intro exI[of _ "if recentPackets (hp_packets p) = [] then 1 else length (recentPackets (hp_packets p)) + 2"])
      (auto simp: ackPackets_round_def Let_def simp del: timer_steps.simps)
  have test: "\<exists>n p'. timer_steps n p = Done p' \<and> recentPackets (hp_packets p') = recentPackets (hp_packets p)
      \<and> sent (hp_packets p') = sent (hp_packets p) @ map snd (recentPackets (hp_packets p))"
    if "hp_on p" "hp_acker p = Timer_test" "length (recentPackets (hp_packets p)) \<le> RECENT_PACKETS_SIZE" for p
  proof -
    have step: "acker_thread_step p = Done (p\<lparr>hp_acker := Timer_sleeps\<rparr>)" using that by (simp add: acker_thread_step_def Let_def)
    from sleeps[of "p\<lparr>hp_acker := Timer_sleeps\<rparr>"] that(3) obtain n p' where
      "timer_steps n (p\<lparr>hp_acker := Timer_sleeps\<rparr>) = Done p'" "recentPackets (hp_packets p') = recentPackets (hp_packets p)"
      "sent (hp_packets p') = sent (hp_packets p) @ map snd (recentPackets (hp_packets p))" by auto
    with step show ?thesis by (intro exI[of _ "Suc n"] exI[of _ p']) simp
  qed
  show ?thesis
  proof (cases "hp_acker p")
    case (Timer_sends rest)
    from timer_leaves_mutex[OF this assms(3)] obtain p1 where
      p1: "timer_steps (Suc (length rest)) p = Done p1" "hp_acker p1 = Timer_test" "hp_on p1"
        "recentPackets (hp_packets p1) = recentPackets (hp_packets p)" "sent (hp_packets p1) = sent (hp_packets p) @ map snd rest"
      using assms(1) by auto
    from test[OF p1(3,2)] assms(3) p1(4) obtain n p' where "timer_steps n p1 = Done p'"
      "recentPackets (hp_packets p') = recentPackets (hp_packets p)"
      "sent (hp_packets p') = sent (hp_packets p1) @ map snd (recentPackets (hp_packets p))" by auto
    with p1(1,5) show ?thesis
      by (intro exI[of _ "Suc (length rest) + n"] exI[of _ p'] exI[of _ "map snd rest"]) (simp only: timer_steps_add bind_outcome.simps append_assoc)
  qed (use test[OF assms(1) _ assms(3)] sleeps[OF _ assms(3)] assms(2) in fastforce)+
qed

section \<open>The sender's steps and sendStream\<close>

text \<open>Sending and keeping a packet are together the packet loop's body.\<close>

lemma send_chunk_steps:
  "send_chunk sf i pm = bind_outcome (chunk_packet sf i (nextSequence pm)) (\<lambda>(pkt, data).
     Done ((addRecentPacket (sequenceNumber pkt) (encode_rtmp pkt @ data)
       (sendPacket pkt data False (pm\<lparr>nextSequence := nextSequence pm + 1\<rparr>)))\<lparr>ackFlag := False\<rparr>))"
  by (cases "mem_read (sf_data sf) (unat (word_of_nat (unat i * unat (sf_payload sf)) :: SIZE_T))
        (unat (min (ucast (sf_payload sf)) (ucast (sf_size sf) - word_of_nat (unat i * unat (sf_payload sf)) :: SIZE_T)))")
    (simp_all add: send_chunk_def chunk_packet_def sendPacket_def Let_def)

lemma stream_header_seq [simp]: "sequenceNumber (stream_header sf i n q) = q"
  by (simp add: stream_header_def)

lemma chunk_packet_seq: "chunk_packet sf i q = Done (pkt, data) \<Longrightarrow> sequenceNumber pkt = q"
  unfolding chunk_packet_def Let_def by (auto split: if_splits)

lemma addRecentPacket_simps [simp]:
  "sent (addRecentPacket q d pm) = sent pm" "nextSequence (addRecentPacket q d pm) = nextSequence pm"
  by (simp_all add: addRecentPacket_def)

text \<open>The record of a frame that can be sent.\<close>

definition sends_frame :: "WORD \<Rightarrow> DWORD \<Rightarrow> BYTE list \<Rightarrow> stream_frame \<Rightarrow> bool" where
  "sends_frame cs n frame sf \<longleftrightarrow> sf_number sf = n \<and> sf_payload sf = cs - 36
     \<and> sf_packets sf = word_of_nat (nchunks (unat cs - 36) (length frame))
     \<and> sf_size sf = word_of_nat (length frame) \<and> sf_data sf = frame"

lemma frame_of_sends:
  assumes "sendable cs frame" and "pFrame fd = Some frame" and "fd_frameSize fd = word_of_nat (length frame)"
  shows "sends_frame cs n frame (frame_of t cs n fd)"
  using assms packet_count(1)[OF assms(1)]
  by (simp add: sends_frame_def frame_of_def vsd_getSize_def vsd_getBytesDataPtr_def Let_def ucast_of_nat_64_32)

lemma sends_frame_type [simp]: "sends_frame cs n frame (sf\<lparr>sf_type := t\<rparr>) = sends_frame cs n frame sf"
  by (simp add: sends_frame_def)

lemma chunk_packet_done:
  assumes "sendable cs frame" and "sends_frame cs n frame sf" and "i < nchunks (unat cs - 36) (length frame)"
  shows "\<exists>pkt data. chunk_packet sf (word_of_nat i) (q + word_of_nat i) = Done (pkt, data)
    \<and> encode_rtmp pkt @ data = frame_datagram (sf_type sf) (unat cs - 36) n frame q i"
proof -
  define pm where "pm = PacketManager\<lparr>nextSequence := q + word_of_nat i\<rparr>"
  have pm: "nextSequence pm = q + word_of_nat i" "sent pm = []" by (simp_all add: pm_def PacketManager_def)
  note sf = assms(2)[unfolded sends_frame_def]
  have cs: "36 < unat cs" "length frame \<le> 2 ^ 31" "nchunks (unat cs - 36) (length frame) \<le> 65535"
    using assms(1) by (auto simp: sendable_def)
  have "send_chunk sf (word_of_nat i) pm = Done (after_packet (q + word_of_nat i)
      (frame_datagram (sf_type sf) (unat cs - 36) (sf_number sf) (sf_data sf) q i) pm)"
    by (rule send_chunk_done) (use sf cs pm(1) assms(3) packet_count(2)[OF assms(1)] in simp_all)
  then obtain x where x: "chunk_packet sf (word_of_nat i) (nextSequence pm) = Done x"
    and eq: "(case x of (pkt, data) \<Rightarrow> Done ((addRecentPacket (sequenceNumber pkt) (encode_rtmp pkt @ data)
       (sendPacket pkt data False (pm\<lparr>nextSequence := nextSequence pm + 1\<rparr>)))\<lparr>ackFlag := False\<rparr>))
      = Done (after_packet (q + word_of_nat i)
        (frame_datagram (sf_type sf) (unat cs - 36) (sf_number sf) (sf_data sf) q i) pm)"
    unfolding send_chunk_steps bind_outcome_Done by (elim exE conjE)
  obtain pkt data where x2: "x = (pkt, data)" by fastforce
  from arg_cong[OF eq, of "map_outcome sent"] have
    "encode_rtmp pkt @ data = frame_datagram (sf_type sf) (unat cs - 36) n frame q i"
    using sf pm(2) by (simp add: x2 sendPacket_def Let_def)
  with x x2 pm(1) show ?thesis by (intro exI[of _ pkt] exI[of _ data]) simp
qed

text \<open>Frames with their packet sizes: \<open>sendStream\<close> on one more frame, and what it sends of it.\<close>

lemma sendStream_snoc:
  "sendStream t (xs @ [x]) n pm
    = bind_outcome (sendStream t xs n pm) (send_frame t (fst x) (n + word_of_nat (length xs)) (snd x))"
proof (induction xs arbitrary: n pm)
  case Nil
  show ?case by (cases x; cases "send_frame t (fst x) n (snd x) pm") simp_all
next
  case (Cons y ys)
  show ?case by (cases y; cases "send_frame t (fst y) n (snd y) pm") (simp_all add: Cons.IH ac_simps)
qed

lemma sendStream_extends:
  assumes "\<forall>(cs, frame) \<in> set ys. sendable cs frame" and "sendStream t xs n pm = Done pm1"
  shows "\<exists>pm2 ds. sendStream t (xs @ ys) n pm = Done pm2 \<and> sent pm2 = sent pm1 @ ds"
  using assms
proof (induction ys rule: rev_induct)
  case Nil
  then show ?case by simp
next
  case (snoc y ys)
  then obtain pm2 ds where pm2: "sendStream t (xs @ ys) n pm = Done pm2" "sent pm2 = sent pm1 @ ds" by auto
  have "sendable (fst y) (snd y)" using snoc.prems(1) by (cases y) simp
  from send_frame_done[OF this, of t "n + word_of_nat (length (xs @ ys))" pm2] pm2 show ?case
    unfolding append_assoc[symmetric] sendStream_snoc by auto
qed

section \<open>The invariant\<close>

text \<open>
  Configuration: what the main thread has set after \<open>k\<close> of its steps, the program is on and no
  thread is at its end.
\<close>

definition waiting_frames :: "host_process \<Rightarrow> frame_data list" where
  "waiting_frames p = queue (streamContainer (vs_stream (hp_stream p)))"

definition config_ok :: "video_capture \<Rightarrow> nat \<Rightarrow> host_process \<Rightarrow> bool" where
  "config_ok cap k p \<longleftrightarrow> hp_on p \<and> hp_gdiplus p \<and> hp_receiver p \<noteq> Receiver_ended \<and> hp_acker p \<noteq> Timer_ended
     \<and> hp_sender p \<noteq> Sender_ended \<and> isStreamOn (vs_stream (hp_stream p)) \<and> videoCapture (hp_stream p) = cap
     \<and> queue_semaphore (streamContainer (vs_stream (hp_stream p))) \<le> length (waiting_frames p)
     \<and> hp_main p = (if k = 0 then Set_type else if k = 1 then Set_size else Capturing)
     \<and> getStreamType (vs_stream (hp_stream p)) = (if k = 0 then -1 else PACKET_TYPE_STREAM)
     \<and> getFrameSize (vs_stream (hp_stream p)) = (if k \<le> 1 then -1 else PACKET_SIZE)"

text \<open>
  The sender: it has sent the first \<open>n\<close> of the captured frames \<open>fs\<close> as \<open>sendStream\<close> does, the first with
  the packet size \<open>c\<close>, has perhaps sent some packets of the next, and the others wait in the stream.
\<close>

definition sized :: "WORD \<Rightarrow> frame_data list \<Rightarrow> (WORD \<times> BYTE list) list" where
  "sized c fs = zip (c # replicate (length fs) PACKET_SIZE) (map frame_bytes fs)"

definition size_at :: "WORD \<Rightarrow> nat \<Rightarrow> WORD" where "size_at c n = (if n = 0 then c else PACKET_SIZE)"

definition next_datagram :: "WORD \<Rightarrow> nat \<Rightarrow> frame_data \<Rightarrow> DWORD \<Rightarrow> nat \<Rightarrow> BYTE list" where
  "next_datagram c n fd = frame_datagram PACKET_TYPE_STREAM (unat (size_at c n) - 36) (word_of_nat n) (frame_bytes fd)"

fun sender_ok :: "WORD \<Rightarrow> frame_data list \<Rightarrow> nat \<Rightarrow> BYTE list list \<Rightarrow> DWORD \<Rightarrow> DWORD \<Rightarrow> BYTE list list \<Rightarrow> frame_data list
    \<Rightarrow> sender_pc \<Rightarrow> bool" where
  "sender_ok c fs n ds q seqn fresh waiting Sender_test \<longleftrightarrow> fresh = ds \<and> seqn = q \<and> waiting = drop n fs"
| "sender_ok c fs n ds q seqn fresh waiting (Sender_waits cs) \<longleftrightarrow>
     fresh = ds \<and> seqn = q \<and> waiting = drop n fs \<and> cs = size_at c n"
| "sender_ok c fs n ds q seqn fresh waiting (Sender_sends sf i fd) \<longleftrightarrow>
     drop n fs = fd # waiting \<and> sends_frame (size_at c n) (word_of_nat n) (frame_bytes fd) sf
     \<and> unat i \<le> nchunks (unat (size_at c n) - 36) (length (frame_bytes fd))
     \<and> fresh = ds @ map (next_datagram c n fd q) [0..<unat i] \<and> seqn = q + word_of_nat (unat i)"
| "sender_ok c fs n ds q seqn fresh waiting (Sender_keeps sf i fd seqn' d) \<longleftrightarrow>
     drop n fs = fd # waiting \<and> sends_frame (size_at c n) (word_of_nat n) (frame_bytes fd) sf
     \<and> unat i < nchunks (unat (size_at c n) - 36) (length (frame_bytes fd))
     \<and> fresh = ds @ map (next_datagram c n fd q) [0..<Suc (unat i)] \<and> seqn = q + word_of_nat (Suc (unat i))
     \<and> seqn' = q + word_of_nat (unat i) \<and> d = next_datagram c n fd q (unat i)"
| "sender_ok c fs n ds q seqn fresh waiting Sender_ended \<longleftrightarrow> False"

definition progress_ok :: "frame_data list \<Rightarrow> host_process \<Rightarrow> bool" where
  "progress_ok fs p \<longleftrightarrow> (\<exists>c n pm. c \<in> {-1, PACKET_SIZE} \<and> n \<le> length fs \<and> hp_frameNum p = word_of_nat n
     \<and> sendStream PACKET_TYPE_STREAM (take n (sized c fs)) 0 PacketManager = Done pm
     \<and> sender_ok c fs n (sent pm) (nextSequence pm) (nextSequence (hp_packets p)) (hp_fresh p) (waiting_frames p) (hp_sender p))"

text \<open>A well-formed packet of a stream.\<close>

definition stream_datagram :: "BYTE list \<Rightarrow> bool" where
  "stream_datagram d \<longleftrightarrow> (let h = decode_rtmp d; s = get_rtsmp (rtmp_data h) in
     36 < length d \<and> unat (pkt_size h) = length d \<and> pkt_version h = 1 \<and> pkt_type h = PACKET_TYPE_STREAM
     \<and> streamType s = PACKET_TYPE_STREAM \<and> offset s < totalPackets s
     \<and> (pkt_flags h = FLAG_LAST_PACKET \<longleftrightarrow> unat (offset s) = unat (totalPackets s) - 1)
     \<and> length d - 36 \<le> unat (slidingWindow h))"

text \<open>
  The packets: all of them are well-formed, what is kept has been sent, and what the timer is about to
  send is still kept.
\<close>

fun timer_rest :: "timer_loop \<Rightarrow> (DWORD \<times> BYTE list) list" where
  "timer_rest (Timer_sends rest) = rest" | "timer_rest t = []"

definition packets_ok :: "host_process \<Rightarrow> bool" where
  "packets_ok p \<longleftrightarrow> (\<forall>d \<in> set (hp_fresh p). stream_datagram d) \<and> set (sent (hp_packets p)) \<subseteq> set (hp_fresh p)
     \<and> distinct (map fst (recentPackets (hp_packets p)))
     \<and> (\<forall>(q, d) \<in> set (recentPackets (hp_packets p)). d \<in> set (sent (hp_packets p)) \<and> sequenceNumber (decode_rtmp d) = q)
     \<and> (\<forall>sf i fd q d. hp_sender p = Sender_keeps sf i fd q d \<longrightarrow> d \<in> set (sent (hp_packets p)) \<and> sequenceNumber (decode_rtmp d) = q)
     \<and> set (timer_rest (hp_acker p)) \<subseteq> set (recentPackets (hp_packets p))"

text \<open>The memory blocks: locked are those of the frames that wait and of the one that is being sent.\<close>

fun sending :: "sender_pc \<Rightarrow> frame_data list" where
  "sending (Sender_sends sf i fd) = [fd]"
| "sending (Sender_keeps sf i fd q d) = [fd]"
| "sending _ = []"

definition locks_ok :: "gdi \<Rightarrow> host_process \<Rightarrow> bool" where
  "locks_ok g p \<longleftrightarrow> selected (hp_gdi p) = selected g
     \<and> (\<forall>h. locks (hp_gdi p) h = locks g h
          + length (filter (\<lambda>fd. hMemBuf fd = Some h) (sending (hp_sender p) @ waiting_frames p)))"

definition frame_ok :: "frame_data \<Rightarrow> bool" where
  "frame_ok fd \<longleftrightarrow> (\<exists>h b. hMemBuf fd = Some h \<and> pFrame fd = Some b \<and> fd_frameSize fd = word_of_nat (length b)
     \<and> sendable PACKET_SIZE b)"

definition hp_inv :: "video_capture \<Rightarrow> gdi \<Rightarrow> host_action list \<Rightarrow> host_process \<Rightarrow> bool" where
  "hp_inv cap g as p \<longleftrightarrow> config_ok cap (length (List.map_filter capture_of as)) p
     \<and> progress_ok (captured_frames cap as) p \<and> packets_ok p \<and> locks_ok g p
     \<and> (\<forall>fd \<in> set (captured_frames cap as). frame_ok fd)"

section \<open>Lemmas\<close>

lemma take_sized:
  assumes "n \<le> length fs"
  shows "take n (sized c fs) = map (\<lambda>m. (size_at c m, frame_bytes (fs ! m))) [0..<n]"
  using assms by (intro nth_equalityI) (auto simp: sized_def size_at_def nth_Cons')

lemma take_Suc_sized:
  "n < length fs \<Longrightarrow> take (Suc n) (sized c fs) = take n (sized c fs) @ [(size_at c n, frame_bytes (fs ! n))]"
  by (simp add: take_sized)

lemma take_sized_snoc: "n \<le> length fs \<Longrightarrow> take n (sized c (fs @ gs)) = take n (sized c fs)"
  by (simp add: take_sized nth_append cong: map_cong)

lemma nchunks_antimono:
  assumes "0 < p" and "p \<le> p'"
  shows "nchunks p' n \<le> nchunks p n"
proof (rule ccontr)
  assume "\<not> nchunks p' n \<le> nchunks p n"
  then have "nchunks p n * p' < n" using assms nchunks_less[of p' "nchunks p n" n] by simp
  moreover have "nchunks p n * p \<le> nchunks p n * p'" using assms(2) by simp
  moreover have "n \<le> nchunks p n * p" using assms(1) nchunks_less[of p "nchunks p n" n] by simp
  ultimately show False by linarith
qed

lemma unat_sizes [simp]: "unat PACKET_SIZE = 4096" "unat (-1 :: WORD) = 65535"
  by (simp_all add: PACKET_SIZE_def unsigned_minus_1_eq_mask mask_eq_exp_minus_1)

lemma sendable_size:
  assumes "frame_ok fd" and "c \<in> {-1, PACKET_SIZE}"
  shows "sendable (size_at c n) (frame_bytes fd)"
  using assms nchunks_antimono[of 4060 65499 "length (frame_bytes fd)"]
  by (auto simp: frame_ok_def frame_bytes_def sendable_def size_at_def)

lemma frame_datagram_ok:
  assumes "sendable cs frame" and "i < nchunks (unat cs - 36) (length frame)"
  shows "stream_datagram (frame_datagram PACKET_TYPE_STREAM (unat cs - 36) n frame q i)"
    and "sequenceNumber (decode_rtmp (frame_datagram PACKET_TYPE_STREAM (unat cs - 36) n frame q i)) = q + word_of_nat i"
proof -
  let ?p = "unat cs - 36" and ?d = "frame_datagram PACKET_TYPE_STREAM (unat cs - 36) n frame q i"
  let ?h = "frame_header PACKET_TYPE_STREAM ?p n frame q i"
  have cs: "0 < ?p" "length frame \<le> 2 ^ 31" "nchunks ?p (length frame) \<le> 65535" "?p + 36 < 65536"
    using assms(1) WORD_bound[of cs] by (auto simp: sendable_def)
  have h: "decode_rtmp ?d = ?h" by (simp add: frame_datagram_def)
  have c: "0 < length (chunk ?p frame i)" "length (chunk ?p frame i) \<le> ?p" "length (chunk ?p frame i) \<le> length frame"
    using chunk_nonempty[OF cs(1) assms(2)] by (simp_all add: length_chunk)
  have "unat (word_of_nat (length (chunk ?p frame i) + 36) :: WORD) = length ?d"
    using c(2) cs(4) by (simp add: unat_word_ariths unat_of_nat length_frame_datagram)
  moreover have "unat (word_of_nat i :: WORD) = i" "unat (word_of_nat (nchunks ?p (length frame)) :: WORD) = nchunks ?p (length frame)"
    using assms(2) cs(3) by (simp_all add: unat_of_nat)
  moreover have "unat (word_of_nat (length frame) :: DWORD) = length frame" using cs(2) by (simp add: unat_of_nat)
  moreover have "Suc i = nchunks ?p (length frame) \<longleftrightarrow> i = nchunks ?p (length frame) - 1" using assms(2) by auto
  ultimately show "stream_datagram ?d"
    using c assms(2) unfolding stream_datagram_def h Let_def
    by (auto simp: frame_header_def zero_packet_def word_less_nat_alt PACKET_TYPE_STREAM_def FLAG_LAST_PACKET_def
        length_frame_datagram Suc_pred)
  show "sequenceNumber (decode_rtmp ?d) = q + word_of_nat i" unfolding h by (simp add: frame_header_def)
qed

text \<open>What a capture adds.\<close>

lemma captured_frames_snoc:
  "captured_frames cap (as @ [a]) = captured_frames cap as @
     (case capture_of a of None \<Rightarrow> [] | Some os \<Rightarrow>
        if length (List.map_filter capture_of as) < 2 then [] else case captured cap os of None \<Rightarrow> [] | Some fd \<Rightarrow> [fd])"
  by (cases a) (auto simp: captured_frames_def captures_def List.map_filter_def split: option.split)

lemma captured_frame:
  "captured cap os = Some fd \<Longrightarrow> \<exists>h b. hMemBuf fd = Some h \<and> lock_res os = Some b \<and> pFrame fd = Some b
     \<and> fd_frameSize fd = word_of_nat (length b)"
  by (auto simp: captured_def split: option.splits if_splits)

lemma vc_push_queue:
  "queue (vc_push x c) = queue c @ [x]"
  "queue_semaphore c \<le> length (queue c) \<Longrightarrow> queue_semaphore (vc_push x c) \<le> length (queue (vc_push x c))"
  by (simp_all add: vc_push_def tsq_defs)


subsection \<open>The main thread\<close>

lemma main_keeps_pc:
  assumes "main_step os p = Done p'" and "config_ok cap k p"
  shows "config_ok cap (Suc k) p'"
  using assms vc_push_queue(2)[of "streamContainer (vs_stream (hp_stream p))"]
  by (auto simp: main_step_def config_ok_def setStreamType_def getStreamType_def setFrameSize_def getFrameSize_def
      isStreamOn_def waiting_frames_def video_round_eq split: if_splits option.splits)

lemma main_frames:
  assumes "main_step os p = Done p'" and "config_ok cap k p"
  shows "waiting_frames p' = waiting_frames p @ (if k < 2 then [] else case captured cap os of None \<Rightarrow> [] | Some fd \<Rightarrow> [fd])"
    and "hp_gdi p' = (if k < 2 then hp_gdi p else case captured cap os of None \<Rightarrow> hp_gdi p
      | Some fd \<Rightarrow> GlobalLock (the (hMemBuf fd)) (hp_gdi p))"
    and "hp_packets p' = hp_packets p" and "hp_sender p' = hp_sender p" and "hp_frameNum p' = hp_frameNum p"
    and "hp_fresh p' = hp_fresh p" and "hp_acker p' = hp_acker p"
  using assms
  by (auto simp: main_step_def config_ok_def setStreamType_def setFrameSize_def isStreamOn_def waiting_frames_def
      video_round_eq vc_push_queue(1) split: if_splits option.splits)

lemma main_never_waits:
  assumes "config_ok cap k p"
  shows "\<exists>p'. main_step os p = Done p'"
  using assms by (auto simp: main_step_def config_ok_def video_round_eq split: option.split)

lemma sender_ok_more:
  assumes "sender_ok c fs n ds q seqn fresh waiting pc" and "n \<le> length fs"
  shows "sender_ok c (fs @ gs) n ds q seqn fresh (waiting @ gs) pc"
  using assms by (cases pc) auto

lemma progress_more:
  assumes "progress_ok fs p" and "waiting_frames p' = waiting_frames p @ gs" and "hp_packets p' = hp_packets p"
    and "hp_sender p' = hp_sender p" and "hp_frameNum p' = hp_frameNum p" and "hp_fresh p' = hp_fresh p"
  shows "progress_ok (fs @ gs) p'"
proof -
  from assms(1) obtain c n pm where "c \<in> {-1, PACKET_SIZE}" "n \<le> length fs" "hp_frameNum p = word_of_nat n"
    "sendStream PACKET_TYPE_STREAM (take n (sized c fs)) 0 PacketManager = Done pm"
    "sender_ok c fs n (sent pm) (nextSequence pm) (nextSequence (hp_packets p)) (hp_fresh p) (waiting_frames p) (hp_sender p)"
    unfolding progress_ok_def by (elim exE conjE)
  then show ?thesis
    unfolding progress_ok_def assms(2-6)
    by (intro exI[of _ c] exI[of _ n] exI[of _ pm]) (simp add: take_sized_snoc sender_ok_more)
qed

lemma main_inv:
  assumes "main_step os p = Done p'" and "hp_inv cap g as p"
    and "\<forall>b. lock_res os = Some b \<longrightarrow> sendable PACKET_SIZE b"
  shows "hp_inv cap g (as @ [By_main os]) p'"
proof -
  let ?k = "length (List.map_filter capture_of as)"
  let ?new = "if ?k < 2 then [] else case captured cap os of None \<Rightarrow> [] | Some fd \<Rightarrow> [fd]"
  from assms(2) have config: "config_ok cap ?k p" and fs: "\<forall>fd \<in> set (captured_frames cap as). frame_ok fd"
    by (simp_all add: hp_inv_def)
  note frames = main_frames[OF assms(1) config]
  have new: "captured_frames cap (as @ [By_main os]) = captured_frames cap as @ ?new"
    by (simp add: captured_frames_snoc)
  have "length (List.map_filter capture_of (as @ [By_main os])) = Suc ?k" by (simp add: List.map_filter_def)
  with main_keeps_pc[OF assms(1) config] have "config_ok cap (length (List.map_filter capture_of (as @ [By_main os]))) p'"
    by simp
  moreover have "progress_ok (captured_frames cap (as @ [By_main os])) p'"
    unfolding new using assms(2) frames by (intro progress_more[of _ p]) (simp_all add: hp_inv_def)
  moreover have "packets_ok p'" using assms(2) frames by (simp add: hp_inv_def packets_ok_def)
  moreover have "\<forall>fd \<in> set (captured_frames cap (as @ [By_main os])). frame_ok fd"
    using fs assms(3) captured_frame[of cap os] unfolding new by (cases "captured cap os") (auto simp: frame_ok_def)
  moreover have "locks_ok g p'"
    using assms(2) frames
    by (auto simp: hp_inv_def locks_ok_def GlobalLock_def split: option.splits dest!: captured_frame)
  ultimately show ?thesis by (simp add: hp_inv_def)
qed

subsection \<open>The receiver and the timer\<close>

text \<open>They change nothing that the other threads rely on but \<open>recentPackets\<close>, \<open>sent\<close> and \<open>ackFlag\<close>.\<close>

lemma other_inv:
  assumes "hp_inv cap g as p" and "capture_of a = None"
    and "hp_stream p' = hp_stream p" and "hp_gdi p' = hp_gdi p" and "hp_on p' = hp_on p" and "hp_main p' = hp_main p"
    and "hp_sender p' = hp_sender p" and "hp_frameNum p' = hp_frameNum p" and "hp_fresh p' = hp_fresh p"
    and "hp_gdiplus p' = hp_gdiplus p" and "hp_receiver p' \<noteq> Receiver_ended" and "hp_acker p' \<noteq> Timer_ended"
    and "nextSequence (hp_packets p') = nextSequence (hp_packets p)"
    and "set (sent (hp_packets p)) \<subseteq> set (sent (hp_packets p'))"
    and "set (sent (hp_packets p')) \<subseteq> set (sent (hp_packets p)) \<union> snd ` set (recentPackets (hp_packets p))"
    and "set (recentPackets (hp_packets p')) \<subseteq> set (recentPackets (hp_packets p))"
    and "distinct (map fst (recentPackets (hp_packets p')))"
    and "set (timer_rest (hp_acker p')) \<subseteq> set (recentPackets (hp_packets p'))"
  shows "hp_inv cap g (as @ [a]) p'"
proof -
  have w: "waiting_frames p' = waiting_frames p" using assms(3) by (simp add: waiting_frames_def)
  have k: "List.map_filter capture_of (as @ [a]) = List.map_filter capture_of as" using assms(2) by (simp add: List.map_filter_def)
  have f: "captured_frames cap (as @ [a]) = captured_frames cap as" using assms(2) by (simp add: captured_frames_snoc)
  from assms(1) have inv: "config_ok cap (length (List.map_filter capture_of as)) p" "progress_ok (captured_frames cap as) p"
    "packets_ok p" "locks_ok g p" "\<forall>fd \<in> set (captured_frames cap as). frame_ok fd" by (simp_all add: hp_inv_def)
  from inv(3) have packets: "\<forall>d \<in> set (hp_fresh p). stream_datagram d" "set (sent (hp_packets p)) \<subseteq> set (hp_fresh p)"
    "\<forall>(q, d) \<in> set (recentPackets (hp_packets p)). d \<in> set (sent (hp_packets p)) \<and> sequenceNumber (decode_rtmp d) = q"
    "\<forall>sf i fd q d. hp_sender p = Sender_keeps sf i fd q d \<longrightarrow> d \<in> set (sent (hp_packets p)) \<and> sequenceNumber (decode_rtmp d) = q"
    by (simp_all add: packets_ok_def)
  have "config_ok cap (length (List.map_filter capture_of (as @ [a]))) p'"
    unfolding k using inv(1) assms w by (simp add: config_ok_def)
  moreover have "progress_ok (captured_frames cap (as @ [a])) p'"
    unfolding f using inv(2) assms(7-9,13) w by (simp add: progress_ok_def)
  moreover have "packets_ok p'"
    unfolding packets_ok_def assms(7,9) using packets assms(14-18) by fastforce
  moreover have "locks_ok g p'" using inv(4) assms w by (simp add: locks_ok_def)
  ultimately show ?thesis using inv(5) f by (simp add: hp_inv_def)
qed

lemma receiver_inv:
  assumes "receiver_thread_step dgram p = Done p'" and "hp_inv cap g as p"
  shows "hp_inv cap g (as @ [By_receiver dgram]) p'"
proof (cases "hp_receiver p")
  case Receiver_handles
  let ?pkt = "decode_rtmp (hp_buf p)"
  from assms(1) Receiver_handles obtain h where h: "handlerMap (pkt_type ?pkt) = Some h"
    "pkt_type ?pkt = PACKET_TYPE_CONTROL \<Longrightarrow> \<not> holds_packets (hp_acker p)"
    and p': "p' = p\<lparr>hp_packets := h ?pkt (hp_packets p), hp_receiver := Receiver_test\<rparr>"
    by (auto simp: receiver_thread_step_def Let_def split: option.splits if_splits)
  from h have "h ?pkt (hp_packets p) = hp_packets p
      \<or> h ?pkt (hp_packets p) = removeRecentPacket (sequenceNumber ?pkt) (hp_packets p) \<and> timer_rest (hp_acker p) = []"
    by (cases "hp_acker p") (auto simp: handlerMap_def controlPacketHandler_def eventPacketHandler_def split: if_splits)
  moreover have "distinct (map fst (recentPackets (hp_packets p)))" "set (timer_rest (hp_acker p)) \<subseteq> set (recentPackets (hp_packets p))"
    using assms(2) by (simp_all add: hp_inv_def packets_ok_def)
  ultimately have "distinct (map fst (recentPackets (hp_packets p'))) \<and> set (recentPackets (hp_packets p')) \<subseteq> set (recentPackets (hp_packets p))
      \<and> sent (hp_packets p') = sent (hp_packets p) \<and> nextSequence (hp_packets p') = nextSequence (hp_packets p)
      \<and> set (timer_rest (hp_acker p')) \<subseteq> set (recentPackets (hp_packets p'))"
    unfolding p' by (auto simp: removeRecentPacket_def distinct_map_fst_filter)
  then show ?thesis
    using assms(2) by (intro other_inv[OF assms(2)]) (auto simp: p' hp_inv_def config_ok_def)
next
  case Receiver_test
  with assms show ?thesis
    by (intro other_inv[OF assms(2)]) (auto simp: receiver_thread_step_def hp_inv_def config_ok_def packets_ok_def)
next
  case Receiver_waits
  obtain res buf where "winsock_recvfrom (hp_buf p) dgram = (res, buf)" by fastforce
  with assms(1) Receiver_waits have
    p': "p' = p\<lparr>hp_buf := buf, hp_receiver := if res < 0 then Receiver_test else Receiver_handles\<rparr>"
    by (simp add: receiver_thread_step_def)
  show ?thesis
    using assms(2) unfolding p' by (intro other_inv[OF assms(2)]) (auto simp: hp_inv_def config_ok_def packets_ok_def)
next
  case Receiver_ended
  with assms show ?thesis by (simp add: receiver_thread_step_def)
qed

lemma acker_inv:
  assumes "acker_thread_step p = Done p'" and "hp_inv cap g as p"
  shows "hp_inv cap g (as @ [By_acker]) p'"
proof -
  have ok: "distinct (map fst (recentPackets (hp_packets p)))" "set (timer_rest (hp_acker p)) \<subseteq> set (recentPackets (hp_packets p))"
    and on: "hp_on p" "hp_receiver p \<noteq> Receiver_ended" "hp_acker p \<noteq> Timer_ended"
    using assms(2) by (simp_all add: hp_inv_def packets_ok_def config_ok_def)
  show ?thesis
  proof (cases "hp_acker p")
    case Timer_test
    with assms(1) on(1) have p': "p' = p\<lparr>hp_acker := Timer_sleeps\<rparr>" by (simp add: acker_thread_step_def Let_def)
    show ?thesis by (rule other_inv[OF assms(2)]) (use p' ok on in simp_all)
  next
    case Timer_sleeps
    with assms(1) have p': "p' = p\<lparr>hp_acker := if recentPackets (hp_packets p) = [] then Timer_test else Timer_sends (recentPackets (hp_packets p))\<rparr>"
      by (simp add: acker_thread_step_def Let_def)
    show ?thesis by (rule other_inv[OF assms(2)]) (use p' ok on in simp_all)
  next
    case (Timer_sends rest)
    show ?thesis
    proof (cases rest)
      case Nil
      with Timer_sends assms(1) have p': "p' = p\<lparr>hp_packets := timer_clears (hp_packets p), hp_acker := Timer_test\<rparr>"
        by (simp add: acker_thread_step_def Let_def)
      show ?thesis by (rule other_inv[OF assms(2)]) (use p' ok on in \<open>simp_all add: timer_clears_def\<close>)
    next
      case (Cons e es)
      with Timer_sends assms(1) have
        p': "p' = p\<lparr>hp_packets := (hp_packets p)\<lparr>sent := sent (hp_packets p) @ [snd e], ackFlag := True\<rparr>, hp_acker := Timer_sends es\<rparr>"
        by (simp add: acker_thread_step_def Let_def)
      have e: "e \<in> set (recentPackets (hp_packets p))" "set es \<subseteq> set (recentPackets (hp_packets p))"
        using ok(2) Timer_sends Cons by simp_all
      show ?thesis by (rule other_inv[OF assms(2)]) (use p' e ok on in auto)
    qed
  qed (use on in simp)
qed

subsection \<open>The sender\<close>

lemma fetched:
  assumes "queue_semaphore c \<le> length (queue c)" and "frontFrame s = (r, s')" and "streamContainer s = c"
  shows "r = Blocks \<or> (\<exists>fd c'. r = Done fd \<and> s' = s\<lparr>streamContainer := c'\<rparr> \<and> queue c = fd # queue c'
    \<and> queue_semaphore c' \<le> length (queue c'))"
proof -
  have "r = Blocks \<or> (\<exists>fd. r = Done fd \<and> s' = s\<lparr>streamContainer := streamContainer s'\<rparr>
      \<and> queue c = fd # queue (streamContainer s')
      \<and> queue_semaphore (streamContainer s') \<le> length (queue (streamContainer s')))"
    using assms by (cases "queue c") (auto simp: frontFrame_def vc_popFront_def tsq_defs split: if_splits)
  then show ?thesis by blast
qed

lemma some_frame_captured:
  assumes "config_ok cap (length (List.map_filter capture_of as)) p" and "n < length (captured_frames cap as)"
  shows "getStreamType (vs_stream (hp_stream p)) = PACKET_TYPE_STREAM"
    and "getFrameSize (vs_stream (hp_stream p)) = PACKET_SIZE"
proof -
  have "captures as \<noteq> []" using assms(2) by (auto simp: captured_frames_def List.map_filter_def)
  then have "2 < length (List.map_filter capture_of as)" by (simp add: captures_def)
  then show "getStreamType (vs_stream (hp_stream p)) = PACKET_TYPE_STREAM"
    "getFrameSize (vs_stream (hp_stream p)) = PACKET_SIZE" using assms(1) by (auto simp: config_ok_def)
qed

text \<open>The sender's state after each kind of step, for a sender that is where \<open>sender_ok\<close> says.\<close>

lemma sends_more:
  assumes "c \<in> {-1, PACKET_SIZE}" and "frame_ok fd" and "sends_frame (size_at c n) (word_of_nat n) (frame_bytes fd) sf"
    and "sf_type sf = PACKET_TYPE_STREAM" and "unat i < nchunks (unat (size_at c n) - 36) (length (frame_bytes fd))"
  shows "\<exists>pkt data. chunk_packet sf i (q + word_of_nat (unat i)) = Done (pkt, data)
    \<and> encode_rtmp pkt @ data = next_datagram c n fd q (unat i) \<and> stream_datagram (next_datagram c n fd q (unat i))
    \<and> sequenceNumber (decode_rtmp (next_datagram c n fd q (unat i))) = q + word_of_nat (unat i)"
proof -
  note ok = sendable_size[OF assms(2,1), of n]
  from chunk_packet_done[OF ok assms(3,5), of q] frame_datagram_ok[OF ok assms(5), of "word_of_nat n" q]
  show ?thesis by (simp add: next_datagram_def assms(4))
qed

lemma packets_left:
  assumes "c \<in> {-1, PACKET_SIZE}" and "frame_ok fd" and "sends_frame (size_at c n) (word_of_nat n) (frame_bytes fd) sf"
  shows "i < sf_packets sf \<longleftrightarrow> unat i < nchunks (unat (size_at c n) - 36) (length (frame_bytes fd))"
    and "nchunks (unat (size_at c n) - 36) (length (frame_bytes fd)) \<le> 65535"
proof -
  show k: "nchunks (unat (size_at c n) - 36) (length (frame_bytes fd)) \<le> 65535"
    using sendable_size[OF assms(2,1), of n] by (simp add: sendable_def)
  with assms(3) show "i < sf_packets sf \<longleftrightarrow> unat i < nchunks (unat (size_at c n) - 36) (length (frame_bytes fd))"
    by (simp add: sends_frame_def word_less_nat_alt unat_of_nat)
qed

lemma sends_all:
  assumes "c \<in> {-1, PACKET_SIZE}" and "frame_ok (fs ! n)" and "n < length fs"
    and "sendStream PACKET_TYPE_STREAM (take n (sized c fs)) 0 PacketManager = Done pm"
  shows "\<exists>pm'. sendStream PACKET_TYPE_STREAM (take (Suc n) (sized c fs)) 0 PacketManager = Done pm'
    \<and> sent pm' = sent pm @ map (next_datagram c n (fs ! n) (nextSequence pm))
        [0..<nchunks (unat (size_at c n) - 36) (length (frame_bytes (fs ! n)))]
    \<and> nextSequence pm' = nextSequence pm + word_of_nat (nchunks (unat (size_at c n) - 36) (length (frame_bytes (fs ! n))))"
proof -
  have "length (take n (sized c fs)) = n" using assms(3) by (simp add: take_sized)
  with send_frame_done[OF sendable_size[OF assms(2,1), of n], of PACKET_TYPE_STREAM "word_of_nat n" pm] assms(3,4)
  show ?thesis by (simp add: take_Suc_sized sendStream_snoc next_datagram_def[abs_def])
qed

lemma drop_Cons_nth: "drop n fs = fd # xs \<Longrightarrow> n < length fs \<and> fd = fs ! n \<and> xs = drop (Suc n) fs"
  by (metis Cons_nth_drop_Suc drop_eq_Nil list.distinct(1) list.inject not_le)


text \<open>The steps, one by one. \<open>sender_inv\<close> says what a step has to leave as it is.\<close>

lemma sender_keeps_inv:
  assumes "hp_inv cap g as p" and "config_ok cap (length (List.map_filter capture_of as)) p'"
    and "progress_ok (captured_frames cap as) p'" and "packets_ok p'" and "locks_ok g p'"
  shows "hp_inv cap g (as @ [By_sender]) p'"
  using assms by (simp add: hp_inv_def captured_frames_snoc List.map_filter_def)

lemma sender_test_inv:
  assumes "hp_inv cap g as p" and "hp_sender p = Sender_test"
  shows "hp_inv cap g (as @ [By_sender]) (p\<lparr>hp_sender := Sender_waits (getFrameSize (vs_stream (hp_stream p)))\<rparr>)"
proof (rule sender_keeps_inv[OF assms(1)])
  let ?cs = "getFrameSize (vs_stream (hp_stream p))" and ?fs = "captured_frames cap as"
  let ?p = "p\<lparr>hp_sender := Sender_waits ?cs\<rparr>"
  from assms(1) have config: "config_ok cap (length (List.map_filter capture_of as)) p" by (simp add: hp_inv_def)
  then show "config_ok cap (length (List.map_filter capture_of as)) ?p" by (simp add: config_ok_def waiting_frames_def)
  from config have cs: "?cs \<in> {-1, PACKET_SIZE}" by (auto simp: config_ok_def)
  from assms obtain c n pm where at: "c \<in> {-1, PACKET_SIZE}" "n \<le> length ?fs" "hp_frameNum p = word_of_nat n"
    "sendStream PACKET_TYPE_STREAM (take n (sized c ?fs)) 0 PacketManager = Done pm"
    "hp_fresh p = sent pm" "nextSequence (hp_packets p) = nextSequence pm" "waiting_frames p = drop n ?fs"
    unfolding hp_inv_def progress_ok_def by force
  let ?c = "if n = 0 then ?cs else c"
  have "?cs = size_at ?c n"
    using some_frame_captured(2)[OF config, of "n - 1"] at(2) by (cases n) (simp_all add: size_at_def)
  with at cs show "progress_ok ?fs ?p"
    unfolding progress_ok_def
    by (intro exI[of _ ?c] exI[of _ n] exI[of _ pm]) (auto simp: waiting_frames_def)
  show "packets_ok ?p" "locks_ok g ?p"
    using assms by (simp_all add: hp_inv_def packets_ok_def locks_ok_def waiting_frames_def)
qed

lemma sender_fetch_inv:
  assumes "hp_inv cap g as p" and "hp_sender p = Sender_waits cs" and "frontFrame (vs_stream (hp_stream p)) = (Done fd, s)"
  shows "cs - 36 \<noteq> 0" and "hp_inv cap g (as @ [By_sender]) (p\<lparr>hp_stream := (hp_stream p)\<lparr>vs_stream := s\<rparr>,
      hp_sender := Sender_sends (frame_of (getStreamType s) cs (hp_frameNum p) fd) 0 fd\<rparr>)"
proof -
  let ?fs = "captured_frames cap as"
  let ?p = "p\<lparr>hp_stream := (hp_stream p)\<lparr>vs_stream := s\<rparr>,
      hp_sender := Sender_sends (frame_of (getStreamType s) cs (hp_frameNum p) fd) 0 fd\<rparr>"
  from assms(1) have config: "config_ok cap (length (List.map_filter capture_of as)) p"
    and ok: "\<forall>fd \<in> set ?fs. frame_ok fd" by (simp_all add: hp_inv_def)
  from config have "queue_semaphore (streamContainer (vs_stream (hp_stream p))) \<le> length (waiting_frames p)"
    by (simp add: config_ok_def)
  from fetched[OF this[unfolded waiting_frames_def] assms(3) refl] obtain w where
    s: "s = (vs_stream (hp_stream p))\<lparr>streamContainer := w\<rparr>" and
    q: "waiting_frames p = fd # queue w" and sem: "queue_semaphore w \<le> length (queue w)"
    by (auto simp: waiting_frames_def)
  from assms(1,2) obtain c n pm where at: "c \<in> {-1, PACKET_SIZE}" "n \<le> length ?fs" "hp_frameNum p = word_of_nat n"
    "sendStream PACKET_TYPE_STREAM (take n (sized c ?fs)) 0 PacketManager = Done pm"
    "hp_fresh p = sent pm" "nextSequence (hp_packets p) = nextSequence pm" "waiting_frames p = drop n ?fs" "cs = size_at c n"
    unfolding hp_inv_def progress_ok_def by force
  from at(7) q have fs: "drop n ?fs = fd # queue w" by simp
  from drop_Cons_nth[OF fs] ok have fd: "frame_ok fd" by (auto simp: nth_mem)
  then obtain b where b: "pFrame fd = Some b" "fd_frameSize fd = word_of_nat (length b)" "frame_bytes fd = b"
    by (auto simp: frame_ok_def frame_bytes_def)
  from frame_of_sends[OF sendable_size[OF fd at(1), of n, unfolded b(3)] b(1,2)] have
    sf: "sends_frame cs (word_of_nat n) (frame_bytes fd) (frame_of (getStreamType s) cs (hp_frameNum p) fd)"
    using at(3,8) b(3) by simp
  show "cs - 36 \<noteq> 0" using packet_count(3)[OF sendable_size[OF fd at(1), of n]] at(8) by simp
  show "hp_inv cap g (as @ [By_sender]) ?p"
  proof (rule sender_keeps_inv[OF assms(1)])
    show "config_ok cap (length (List.map_filter capture_of as)) ?p"
      using config sem by (simp add: s config_ok_def waiting_frames_def isStreamOn_def getStreamType_def getFrameSize_def)
    show "progress_ok ?fs ?p"
      unfolding progress_ok_def
      using at sf fs by (intro exI[of _ c] exI[of _ n] exI[of _ pm]) (simp add: waiting_frames_def s)
    show "packets_ok ?p" using assms(1) by (simp add: hp_inv_def packets_ok_def)
    show "locks_ok g ?p" using assms(1,2) q by (simp add: hp_inv_def locks_ok_def waiting_frames_def s)
  qed
qed

text \<open>A sender in the middle of a frame, written out.\<close>

lemma in_frame:
  assumes "hp_inv cap g as p" and "hp_sender p = Sender_sends sf i fd \<or> hp_sender p = Sender_keeps sf i fd seqn' d"
  obtains c n pm where "c \<in> {-1, PACKET_SIZE}" "n < length (captured_frames cap as)" "fd = captured_frames cap as ! n"
    "hp_frameNum p = word_of_nat n" "frame_ok fd"
    "sendStream PACKET_TYPE_STREAM (take n (sized c (captured_frames cap as))) 0 PacketManager = Done pm"
    "drop n (captured_frames cap as) = fd # waiting_frames p"
    "sends_frame (size_at c n) (word_of_nat n) (frame_bytes fd) sf"
    "sender_ok c (captured_frames cap as) n (sent pm) (nextSequence pm) (nextSequence (hp_packets p)) (hp_fresh p)
       (waiting_frames p) (hp_sender p)"
    "getStreamType (vs_stream (hp_stream p)) = PACKET_TYPE_STREAM"
proof -
  let ?fs = "captured_frames cap as"
  from assms(1) obtain c n pm where at: "c \<in> {-1, PACKET_SIZE}" "hp_frameNum p = word_of_nat n"
    "sendStream PACKET_TYPE_STREAM (take n (sized c ?fs)) 0 PacketManager = Done pm"
    "sender_ok c ?fs n (sent pm) (nextSequence pm) (nextSequence (hp_packets p)) (hp_fresh p) (waiting_frames p) (hp_sender p)"
    unfolding hp_inv_def progress_ok_def by (elim conjE exE)
  from at(4) assms(2) have d: "drop n ?fs = fd # waiting_frames p"
    and sf: "sends_frame (size_at c n) (word_of_nat n) (frame_bytes fd) sf" by auto
  note n = drop_Cons_nth[OF d]
  with assms(1) have "frame_ok fd" "getStreamType (vs_stream (hp_stream p)) = PACKET_TYPE_STREAM"
    using some_frame_captured(1)[of cap as p n] by (auto simp: hp_inv_def)
  with at d sf n show thesis by (intro that[of c n pm]) simp_all
qed

lemma sender_send_inv:
  assumes "hp_inv cap g as p" and "hp_sender p = Sender_sends sf i fd" and "i < sf_packets sf"
  shows "\<exists>p'. sender_thread_step p = Done p' \<and> hp_inv cap g (as @ [By_sender]) p' \<and> hp_fresh p' \<noteq> []"
proof -
  let ?sf = "sf\<lparr>sf_type := getStreamType (vs_stream (hp_stream p))\<rparr>"
  from in_frame[OF assms(1), of sf i fd] assms(2) obtain c n pm where at: "c \<in> {-1, PACKET_SIZE}"
    "n < length (captured_frames cap as)" "hp_frameNum p = word_of_nat n" "frame_ok fd"
    "sendStream PACKET_TYPE_STREAM (take n (sized c (captured_frames cap as))) 0 PacketManager = Done pm"
    "sends_frame (size_at c n) (word_of_nat n) (frame_bytes fd) sf"
    "sender_ok c (captured_frames cap as) n (sent pm) (nextSequence pm) (nextSequence (hp_packets p)) (hp_fresh p)
       (waiting_frames p) (Sender_sends sf i fd)"
    "getStreamType (vs_stream (hp_stream p)) = PACKET_TYPE_STREAM" by metis
  let ?d = "next_datagram c n fd (nextSequence pm) (unat i)"
  from assms(3) packets_left(1)[OF at(1,4,6), of i] have i: "unat i < nchunks (unat (size_at c n) - 36) (length (frame_bytes fd))"
    by simp
  have seqn: "nextSequence (hp_packets p) = nextSequence pm + word_of_nat (unat i)" using at(7) by simp
  from sends_more[OF at(1,4) _ _ i, of ?sf "nextSequence pm"] at(6,8) obtain pkt data where
    pkt: "chunk_packet ?sf i (nextSequence (hp_packets p)) = Done (pkt, data)" "encode_rtmp pkt @ data = ?d"
    and d: "stream_datagram ?d" "sequenceNumber (decode_rtmp ?d) = nextSequence (hp_packets p)"
    by (auto simp: seqn)
  let ?pm = "sendPacket pkt data False ((hp_packets p)\<lparr>nextSequence := nextSequence (hp_packets p) + 1\<rparr>)"
  let ?p = "p\<lparr>hp_packets := ?pm, hp_sender := Sender_keeps ?sf i fd (nextSequence (hp_packets p)) ?d, hp_fresh := hp_fresh p @ [?d]\<rparr>"
  have step: "sender_thread_step p = Done ?p"
    using assms(2,3) by (simp add: sender_thread_step_def pkt Let_def)
  have pm: "sent ?pm = sent (hp_packets p) @ [?d]" "nextSequence ?pm = nextSequence (hp_packets p) + 1"
    "recentPackets ?pm = recentPackets (hp_packets p)" using pkt(2) by (simp_all add: sendPacket_def)
  have "hp_inv cap g (as @ [By_sender]) ?p"
  proof (rule sender_keeps_inv[OF assms(1)])
    show "config_ok cap (length (List.map_filter capture_of as)) ?p"
      using assms(1) by (simp add: hp_inv_def config_ok_def waiting_frames_def)
    have "sender_ok c (captured_frames cap as) n (sent pm) (nextSequence pm) (nextSequence ?pm) (hp_fresh ?p)
        (waiting_frames ?p) (hp_sender ?p)"
      using at(6,7) i pm(2) by (simp add: waiting_frames_def ac_simps)
    with at show "progress_ok (captured_frames cap as) ?p"
      unfolding progress_ok_def by (intro exI[of _ c] exI[of _ n] exI[of _ pm]) simp
    show "packets_ok ?p" using assms(1,2) d pm by (auto simp: hp_inv_def packets_ok_def)
    show "locks_ok g ?p" using assms(1,2) by (simp add: hp_inv_def locks_ok_def waiting_frames_def)
  qed
  with step show ?thesis by (intro exI[of _ ?p]) simp
qed

lemma sender_finish_inv:
  assumes "hp_inv cap g as p" and "hp_sender p = Sender_sends sf i fd" and "\<not> i < sf_packets sf"
  shows "\<exists>p'. sender_thread_step p = Done p' \<and> hp_inv cap g (as @ [By_sender]) p'"
proof -
  let ?fs = "captured_frames cap as"
  from in_frame[OF assms(1), of sf i fd] assms(2) obtain c n pm where at: "c \<in> {-1, PACKET_SIZE}"
    "n < length ?fs" "fd = ?fs ! n" "hp_frameNum p = word_of_nat n" "frame_ok fd"
    "sendStream PACKET_TYPE_STREAM (take n (sized c ?fs)) 0 PacketManager = Done pm"
    "drop n ?fs = fd # waiting_frames p"
    "sends_frame (size_at c n) (word_of_nat n) (frame_bytes fd) sf"
    "sender_ok c ?fs n (sent pm) (nextSequence pm) (nextSequence (hp_packets p)) (hp_fresh p)
       (waiting_frames p) (Sender_sends sf i fd)" by metis
  let ?p = "p\<lparr>hp_gdi := frame_data_destructor fd (hp_gdi p), hp_frameNum := hp_frameNum p + 1, hp_sender := Sender_test\<rparr>"
  have step: "sender_thread_step p = Done ?p" using assms(2,3) by (simp add: sender_thread_step_def)
  from assms(3) packets_left(1)[OF at(1,5,8), of i] at(9) have
    i: "unat i = nchunks (unat (size_at c n) - 36) (length (frame_bytes fd))" by simp
  from sends_all[OF at(1) _ at(2,6)] at(3,5) obtain pm' where
    pm': "sendStream PACKET_TYPE_STREAM (take (Suc n) (sized c ?fs)) 0 PacketManager = Done pm'"
    "sent pm' = sent pm @ map (next_datagram c n fd (nextSequence pm)) [0..<unat i]"
    "nextSequence pm' = nextSequence pm + word_of_nat (unat i)" by (auto simp: i)
  have "hp_inv cap g (as @ [By_sender]) ?p"
  proof (rule sender_keeps_inv[OF assms(1)])
    show "config_ok cap (length (List.map_filter capture_of as)) ?p"
      using assms(1) by (simp add: hp_inv_def config_ok_def waiting_frames_def)
    from drop_Cons_nth[OF at(7)] at(9) pm' have "sender_ok c ?fs (Suc n) (sent pm') (nextSequence pm')
        (nextSequence (hp_packets p)) (hp_fresh p) (waiting_frames p) Sender_test" by simp
    with at(1,2,4) pm'(1) show "progress_ok ?fs ?p"
      unfolding progress_ok_def
      by (intro exI[of _ c] exI[of _ "Suc n"] exI[of _ pm']) (simp add: waiting_frames_def add.commute)
    show "packets_ok ?p" using assms(1) by (simp add: hp_inv_def packets_ok_def)
    from at(5) obtain h b where fd: "hMemBuf fd = Some h" "pFrame fd = Some b" by (auto simp: frame_ok_def)
    show "locks_ok g ?p"
      using assms(1,2) fd
      by (auto simp: hp_inv_def locks_ok_def waiting_frames_def frame_data_destructor_def GlobalUnlock_def)
  qed
  with step show ?thesis by blast
qed

lemma sender_keep_inv:
  assumes "hp_inv cap g as p" and "hp_sender p = Sender_keeps sf i fd seqn d" and "\<not> holds_packets (hp_acker p)"
  shows "\<exists>p'. sender_thread_step p = Done p' \<and> hp_inv cap g (as @ [By_sender]) p'"
proof -
  let ?fs = "captured_frames cap as"
  from in_frame[OF assms(1), of sf i fd seqn d] assms(2) obtain c n pm where at: "c \<in> {-1, PACKET_SIZE}"
    "n < length ?fs" "hp_frameNum p = word_of_nat n" "frame_ok fd"
    "sendStream PACKET_TYPE_STREAM (take n (sized c ?fs)) 0 PacketManager = Done pm"
    "sends_frame (size_at c n) (word_of_nat n) (frame_bytes fd) sf"
    "sender_ok c ?fs n (sent pm) (nextSequence pm) (nextSequence (hp_packets p)) (hp_fresh p)
       (waiting_frames p) (Sender_keeps sf i fd seqn d)" by metis
  let ?pm = "(addRecentPacket seqn d (hp_packets p))\<lparr>ackFlag := False\<rparr>"
  let ?p = "p\<lparr>hp_packets := ?pm, hp_sender := Sender_sends sf (i + 1) fd\<rparr>"
  have step: "sender_thread_step p = Done ?p" using assms(2,3) by (simp add: sender_thread_step_def)
  have i: "unat (i + 1) = Suc (unat i)"
    using at(7) packets_left(2)[OF at(1,4,6)] by (simp add: unat_word_ariths)
  have "hp_inv cap g (as @ [By_sender]) ?p"
  proof (rule sender_keeps_inv[OF assms(1)])
    show "config_ok cap (length (List.map_filter capture_of as)) ?p"
      using assms(1) by (simp add: hp_inv_def config_ok_def waiting_frames_def)
    have "sender_ok c ?fs n (sent pm) (nextSequence pm) (nextSequence ?pm) (hp_fresh ?p) (waiting_frames ?p) (hp_sender ?p)"
      using at(6,7) i by (simp add: waiting_frames_def)
    with at show "progress_ok ?fs ?p"
      unfolding progress_ok_def by (intro exI[of _ c] exI[of _ n] exI[of _ pm]) simp
    have "d \<in> set (sent (hp_packets p)) \<and> sequenceNumber (decode_rtmp d) = seqn"
      using assms by (simp add: hp_inv_def packets_ok_def)
    moreover have "timer_rest (hp_acker p) = []" using assms(3) by (cases "hp_acker p") simp_all
    ultimately show "packets_ok ?p" using assms(1) by (auto simp: hp_inv_def packets_ok_def addRecentPacket_def)
    show "locks_ok g ?p" using assms(1,2) by (simp add: hp_inv_def locks_ok_def waiting_frames_def)
  qed
  with step show ?thesis by blast
qed

lemma sender_inv:
  assumes "hp_inv cap g as p"
  shows "sender_thread_step p = Blocks \<or> (\<exists>p'. sender_thread_step p = Done p' \<and> hp_inv cap g (as @ [By_sender]) p')"
proof (cases "hp_sender p")
  case Sender_test
  moreover have "hp_on p" using assms by (simp add: hp_inv_def config_ok_def)
  ultimately show ?thesis using sender_test_inv[OF assms] by (simp add: sender_thread_step_def)
next
  case (Sender_waits cs)
  obtain r s where f: "frontFrame (vs_stream (hp_stream p)) = (r, s)" by fastforce
  have "queue_semaphore (streamContainer (vs_stream (hp_stream p))) \<le> length (waiting_frames p)"
    using assms by (simp add: hp_inv_def config_ok_def)
  from fetched[OF this[unfolded waiting_frames_def] f refl] consider "r = Blocks" | fd where "r = Done fd" by auto
  then show ?thesis
  proof cases
    case 1
    with Sender_waits f show ?thesis by (simp add: sender_thread_step_def)
  next
    case 2
    with sender_fetch_inv[OF assms Sender_waits] f Sender_waits show ?thesis by (simp add: sender_thread_step_def)
  qed
next
  case (Sender_sends sf i fd)
  then show ?thesis using sender_send_inv[OF assms] sender_finish_inv[OF assms] by blast
next
  case (Sender_keeps sf i fd q d)
  then show ?thesis
    using sender_keep_inv[OF assms Sender_keeps] by (cases "holds_packets (hp_acker p)") (auto simp: sender_thread_step_def)
next
  case Sender_ended
  then show ?thesis using assms by (simp add: hp_inv_def config_ok_def)
qed

subsection \<open>Runs\<close>

lemma config_sender:
  assumes "sender_thread_step p = Done p'" and "config_ok cap k p"
  shows "config_ok cap k p'"
proof (cases "hp_sender p")
  case (Sender_waits cs)
  have sem: "queue_semaphore (streamContainer (vs_stream (hp_stream p))) \<le> length (queue (streamContainer (vs_stream (hp_stream p))))"
    using assms(2) by (simp add: config_ok_def waiting_frames_def)
  obtain r s where f: "frontFrame (vs_stream (hp_stream p)) = (r, s)" by fastforce
  from fetched[OF sem f refl] assms(1) Sender_waits f obtain fd w where
    "r = Done fd" "s = (vs_stream (hp_stream p))\<lparr>streamContainer := w\<rparr>" "queue_semaphore w \<le> length (queue w)"
    by (auto simp: sender_thread_step_def)
  with assms Sender_waits f show ?thesis
    by (auto simp: sender_thread_step_def config_ok_def waiting_frames_def isStreamOn_def getStreamType_def getFrameSize_def
        split: if_splits)
next
  case (Sender_sends sf i fd)
  with assms show ?thesis
    by (auto simp: sender_thread_step_def config_ok_def waiting_frames_def Let_def split: if_splits)
qed (use assms in \<open>auto simp: sender_thread_step_def config_ok_def waiting_frames_def split: if_splits\<close>)

lemma config_act:
  assumes "host_act a p = Done p'" and "config_ok cap k p"
  shows "\<exists>k'. config_ok cap k' p'"
proof (cases a)
  case (By_main os)
  with assms main_keeps_pc[of os p p' cap k] show ?thesis by (intro exI[of _ "Suc k"]) simp
next
  case By_sender
  with assms config_sender[of p p' cap k] show ?thesis by (intro exI[of _ k]) simp
next
  case (By_receiver dgram)
  with assms have "config_ok cap k p'"
    by (auto simp: receiver_thread_step_def config_ok_def waiting_frames_def Let_def
        split: receiver_loop.splits option.splits prod.splits if_splits)
  then show ?thesis ..
next
  case By_acker
  with assms have "config_ok cap k p'"
    by (auto simp: acker_thread_step_def config_ok_def waiting_frames_def Let_def
        split: timer_loop.splits list.splits if_splits)
  then show ?thesis ..
qed

definition start_capture :: "(string \<times> clsid) list \<Rightarrow> video_capture \<Rightarrow> video_capture" where
  "start_capture installed initialised = videoCapture (VideoStream installed initialised)"

lemma config_start:
  "host_start gdiOk installed initialised g = Done p \<Longrightarrow> config_ok (start_capture installed initialised) 0 p"
  by (auto simp: host_start_def GdiPlusBootstrap_def config_ok_def start_capture_def VideoStream_def waiting_frames_def
      isStreamOn_def getStreamType_def getFrameSize_def continueStream_def Stream_def ThreadSafeQueue_def split: if_splits)

lemma config_run:
  assumes "host_reaches p0 as p" and "host_start gdiOk installed initialised g = Done p0"
  shows "\<exists>k. config_ok (start_capture installed initialised) k p"
  using assms by (induction rule: host_reaches.induct) (auto dest: config_start config_act)

text \<open>Who waits, and for what.\<close>

lemma timer_goes_on:
  assumes "holds_packets (hp_acker p)"
  shows "\<exists>rest p'. hp_acker p = Timer_sends rest \<and> host_act By_acker p = Done p'
    \<and> hp_acker p' = (if rest = [] then Timer_test else Timer_sends (tl rest))"
  using assms
  by (cases "hp_acker p"; cases "timer_rest (hp_acker p)") (auto simp: acker_thread_step_def Let_def)

lemma blocked_host:
  assumes "config_ok cap k p" and "host_act a p = Blocks"
  shows "(a = By_sender \<and> queue_semaphore (streamContainer (vs_stream (hp_stream p))) = 0)
    \<or> (\<exists>rest p'. hp_acker p = Timer_sends rest \<and> host_act By_acker p = Done p'
         \<and> hp_acker p' = (if rest = [] then Timer_test else Timer_sends (tl rest)))"
proof -
  have "a = By_sender \<and> queue_semaphore (streamContainer (vs_stream (hp_stream p))) = 0 \<or> holds_packets (hp_acker p)"
  proof (cases a)
    case (By_main os)
    with main_never_waits[OF assms(1), of os] assms(2) show ?thesis by auto
  next
    case By_sender
    have empty: "queue_semaphore c = 0" if "vc_popFront c = (Blocks, c')" for c c' :: "frame_data vcontainer"
      using that by (auto simp: vc_popFront_def tsq_defs split: if_splits list.splits)
    show ?thesis
    proof (cases "hp_sender p")
      case (Sender_waits cs)
      with assms(2) By_sender empty show ?thesis
        by (auto simp: sender_thread_step_def frontFrame_def split: prod.splits outcome.splits if_splits)
    next
      case (Sender_sends sf i fd)
      with assms(2) By_sender show ?thesis
        by (auto simp: sender_thread_step_def chunk_packet_def mem_read_def Let_def split: if_splits)
    next
      case Sender_ended
      with assms(1) show ?thesis by (simp add: config_ok_def)
    qed (use assms(2) By_sender in \<open>auto simp: sender_thread_step_def split: if_splits\<close>)
  next
    case (By_receiver dgram)
    with assms show ?thesis
      by (auto simp: receiver_thread_step_def config_ok_def Let_def split: receiver_loop.splits prod.splits option.splits if_splits)
  next
    case By_acker
    with assms show ?thesis
      by (auto simp: acker_thread_step_def config_ok_def Let_def split: timer_loop.splits list.splits)
  qed
  with timer_goes_on show ?thesis by blast
qed

text \<open>The captures of a run fit into the packets' counters: at most 65535 packets of 4060 bytes.\<close>

definition captures_fit :: "host_action list \<Rightarrow> bool" where
  "captures_fit as \<longleftrightarrow> (\<forall>os b. By_main os \<in> set as \<and> lock_res os = Some b \<longrightarrow> sendable PACKET_SIZE b)"

lemma hp_inv_start:
  assumes "host_start gdiOk installed initialised g = Done p"
  shows "hp_inv (start_capture installed initialised) g [] p"
proof -
  have "captured_frames cap [] = []" for cap by (simp add: captured_frames_def captures_def List.map_filter_def)
  moreover have "hp_sender p = Sender_test" "hp_fresh p = []" "hp_packets p = PacketManager" "waiting_frames p = []"
    "hp_gdi p = g" "hp_frameNum p = 0" "hp_acker p = Timer_test"
    using assms by (auto simp: host_start_def VideoStream_def continueStream_def Stream_def ThreadSafeQueue_def waiting_frames_def)
  moreover have "progress_ok [] p" if "hp_sender p = Sender_test" "hp_fresh p = []" "hp_packets p = PacketManager"
    "waiting_frames p = []" "hp_frameNum p = 0"
    unfolding progress_ok_def
    using that by (intro exI[of _ PACKET_SIZE] exI[of _ 0] exI[of _ PacketManager]) (simp add: PacketManager_def)
  ultimately show ?thesis
    using config_start[OF assms] by (simp add: hp_inv_def packets_ok_def locks_ok_def PacketManager_def List.map_filter_def)
qed

lemma hp_inv_act:
  assumes "hp_inv cap g as p" and "host_act a p = Done p'" and "captures_fit [a]"
  shows "hp_inv cap g (as @ [a]) p'"
  using assms main_inv receiver_inv acker_inv sender_inv[OF assms(1)] by (cases a) (auto simp: captures_fit_def)

lemma hp_inv_run:
  assumes "host_reaches p0 as p" and "host_start gdiOk installed initialised g = Done p0" and "captures_fit as"
  shows "hp_inv (start_capture installed initialised) g as p"
  using assms
proof (induction rule: host_reaches.induct)
  case at_start
  then show ?case by (intro hp_inv_start)
next
  case (and_act as p a p')
  then have "captures_fit as" "captures_fit [a]" by (auto simp: captures_fit_def)
  with and_act show ?case by (intro hp_inv_act)
qed

text \<open>From the sender's place in the frames to what \<open>sendStream\<close> has sent when it is there.\<close>

lemma sent_so_far:
  assumes "c \<in> {-1, PACKET_SIZE}" and "n \<le> length fs"
    and "sendStream PACKET_TYPE_STREAM (take n (sized c fs)) 0 PacketManager = Done pm"
    and "sender_ok c fs n (sent pm) (nextSequence pm) seqn fresh waiting pc" and "\<forall>fd \<in> set fs. frame_ok fd"
  shows "\<exists>m pm1 rest. m \<le> length fs \<and> sendStream PACKET_TYPE_STREAM (take m (sized c fs)) 0 PacketManager = Done pm1
    \<and> sent pm1 = fresh @ rest \<and> (waiting = [] \<and> sending pc = [] \<longrightarrow> m = length fs \<and> rest = [])"
proof (cases "sending pc = []")
  case True
  with assms(2-4) show ?thesis by (intro exI[of _ n] exI[of _ pm] exI[of _ "[]"]) (cases pc; auto)
next
  case False
  then obtain sf i fd seqn' d where pc: "pc = Sender_sends sf i fd \<or> pc = Sender_keeps sf i fd seqn' d" by (cases pc) auto
  let ?k = "nchunks (unat (size_at c n) - 36) (length (frame_bytes fd))"
  from pc assms(4) have d: "drop n fs = fd # waiting" by auto
  note n = drop_Cons_nth[OF d]
  obtain j where j: "j \<le> ?k" "fresh = sent pm @ map (next_datagram c n fd (nextSequence pm)) [0..<j]"
    using pc assms(4) that[of "unat i"] that[of "Suc (unat i)"]
    by (elim disjE) (simp_all add: Suc_le_eq del: upt_Suc)
  from n assms(5) have "frame_ok (fs ! n)" by simp
  from sends_all[OF assms(1) this _ assms(3)] n obtain pm' where
    "sendStream PACKET_TYPE_STREAM (take (Suc n) (sized c fs)) 0 PacketManager = Done pm'"
    "sent pm' = sent pm @ map (next_datagram c n fd (nextSequence pm)) [0..<?k]" by auto
  moreover have "[0..<?k] = [0..<j] @ [j..<?k]" using j(1) by (metis le0 upt_add_eq_append le_add_diff_inverse)
  ultimately show ?thesis
    using n False j(2)
    by (intro exI[of _ "Suc n"] exI[of _ pm'] exI[of _ "map (next_datagram c n fd (nextSequence pm)) [j..<?k]"]) simp
qed

lemma sized_sendable:
  assumes "\<forall>fd \<in> set fs. frame_ok fd" and "c \<in> {-1, PACKET_SIZE}"
  shows "\<forall>(cs, frame) \<in> set (sized c fs). sendable cs frame"
  using take_sized[of "length fs" fs c] sendable_size[OF _ assms(2)] assms(1) by (auto simp: sized_def)

subsection \<open>An early acknowledgement\<close>

text \<open>
  A packet is kept only after it has been sent. Whatever the receiver gets in between, the packet's
  acknowledgement included, the packet is kept, and the timer will send it again.
\<close>

lemma early_ack_is_lost:
  assumes "hp_sender p = Sender_keeps sf i fd q d" and "q \<notin> fst ` set (recentPackets (hp_packets p))"
    and "host_act (By_receiver dgram) p = Done p1" and "host_act By_sender p1 = Done p2"
  shows "(q, d) \<in> set (recentPackets (hp_packets p2))"
proof -
  from assms(3) have p1: "hp_sender p1 = hp_sender p"
    "fst ` set (recentPackets (hp_packets p1)) \<subseteq> fst ` set (recentPackets (hp_packets p))"
    by (auto simp: receiver_thread_step_def handlerMap_def controlPacketHandler_def eventPacketHandler_def removeRecentPacket_def Let_def
        split: receiver_loop.splits option.splits prod.splits if_splits)
  with assms(2) have "q \<notin> fst ` set (recentPackets (hp_packets p1))" by blast
  with p1(1) assms(1,4) show ?thesis by (auto simp: sender_thread_step_def addRecentPacket_def split: if_splits)
qed

subsection \<open>A run of the threads\<close>

text \<open>A run with one capture, up to the first packet of its frame.\<close>

definition first_packet_run :: "host_action list" where
  "first_packet_run = [By_main (one_capture True), By_main (one_capture True), By_sender, By_main (one_capture True), By_sender]"

definition all_unlocked :: gdi where "all_unlocked = \<lparr>selected = (\<lambda>_. 0), locks = (\<lambda>_. 0)\<rparr>"

lemma first_run:
  obtains p0 p where "host_start True [(''image/jpeg'', 9)] (videoCapture jpeg_stream) all_unlocked = Done p0"
    "host_reaches p0 first_packet_run p" "\<exists>sf fd. hp_sender p = Sender_sends sf 0 fd \<and> pFrame fd = Some [1, 2, 0]"
proof -
  let ?o = "one_capture True"
  obtain p0 where p0: "host_start True [(''image/jpeg'', 9)] (videoCapture jpeg_stream) all_unlocked = Done p0"
    by (simp add: host_start_def GdiPlusBootstrap_def)
  then have s0: "hp_main p0 = Set_type \<and> hp_sender p0 = Sender_test \<and> hp_on p0 \<and> streamStatus (vs_stream (hp_stream p0))
    \<and> streamContainer (vs_stream (hp_stream p0)) = \<lparr>queue = [], queue_semaphore = 0\<rparr>"
    by (auto simp: host_start_def GdiPlusBootstrap_def VideoStream_def continueStream_def Stream_def ThreadSafeQueue_def)
  have "\<exists>p1. host_act (By_main ?o) p0 = Done p1 \<and> hp_main p1 = Set_size \<and> hp_sender p1 = Sender_test \<and> hp_on p1
    \<and> streamStatus (vs_stream (hp_stream p1)) \<and> streamContainer (vs_stream (hp_stream p1)) = \<lparr>queue = [], queue_semaphore = 0\<rparr>"
    using s0 by (simp add: main_step_def setStreamType_def)
  then obtain p1 where s1: "host_act (By_main ?o) p0 = Done p1" "hp_main p1 = Set_size" "hp_sender p1 = Sender_test" "hp_on p1"
    "streamStatus (vs_stream (hp_stream p1))" "streamContainer (vs_stream (hp_stream p1)) = \<lparr>queue = [], queue_semaphore = 0\<rparr>"
    by blast
  then have "\<exists>p2. host_act (By_main ?o) p1 = Done p2 \<and> hp_main p2 = Capturing \<and> hp_sender p2 = Sender_test \<and> hp_on p2
    \<and> streamStatus (vs_stream (hp_stream p2)) \<and> streamContainer (vs_stream (hp_stream p2)) = \<lparr>queue = [], queue_semaphore = 0\<rparr>
    \<and> getFrameSize (vs_stream (hp_stream p2)) = PACKET_SIZE"
    by (simp add: main_step_def setFrameSize_def getFrameSize_def)
  then obtain p2 where s2: "host_act (By_main ?o) p1 = Done p2" "hp_main p2 = Capturing" "hp_sender p2 = Sender_test" "hp_on p2"
    "streamStatus (vs_stream (hp_stream p2))" "streamContainer (vs_stream (hp_stream p2)) = \<lparr>queue = [], queue_semaphore = 0\<rparr>"
    "getFrameSize (vs_stream (hp_stream p2)) = PACKET_SIZE"
    by blast
  let ?p3 = "p2\<lparr>hp_sender := Sender_waits PACKET_SIZE\<rparr>"
  have s3: "host_act By_sender p2 = Done ?p3" using s2 by (simp add: sender_thread_step_def)
  obtain fd where fd: "captured (videoCapture (hp_stream p2)) ?o = Some fd" "pFrame fd = Some [1, 2, 0]"
    by (simp add: captured_def encodeFrame_def one_capture_def)
  have "\<exists>p4. host_act (By_main ?o) ?p3 = Done p4 \<and> hp_sender p4 = Sender_waits PACKET_SIZE
    \<and> streamContainer (vs_stream (hp_stream p4)) = \<lparr>queue = [fd], queue_semaphore = 1\<rparr>"
    using s2 fd by (simp add: main_step_def video_round_eq isStreamOn_def vc_push_def tsq_defs MAXINT_def)
  then obtain p4 where s4: "host_act (By_main ?o) ?p3 = Done p4" "hp_sender p4 = Sender_waits PACKET_SIZE"
    "streamContainer (vs_stream (hp_stream p4)) = \<lparr>queue = [fd], queue_semaphore = 1\<rparr>" by blast
  have "\<exists>p5. host_act By_sender p4 = Done p5 \<and> (\<exists>sf. hp_sender p5 = Sender_sends sf 0 fd)"
    using s4 by (simp add: sender_thread_step_def frontFrame_def vc_popFront_def tsq_defs PACKET_SIZE_def)
  then obtain p5 sf where s5: "host_act By_sender p4 = Done p5" "hp_sender p5 = Sender_sends sf 0 fd" by blast
  have "host_reaches p0 ((((([] @ [By_main ?o]) @ [By_main ?o]) @ [By_sender]) @ [By_main ?o]) @ [By_sender]) p5"
    by (rule host_reaches.and_act[OF host_reaches.and_act[OF host_reaches.and_act[OF host_reaches.and_act[OF
            host_reaches.and_act[OF host_reaches.at_start s1(1)] s2(1)] s3] s4(1)] s5(1)])
  then have "host_reaches p0 first_packet_run p5" by (simp add: first_packet_run_def)
  with p0 s5 fd show thesis by (intro that[of p0 p5]) auto
qed

lemma first_packet_fits: "captures_fit (first_packet_run @ [By_sender])"
  by (auto simp: captures_fit_def first_packet_run_def one_capture_def sendable_def PACKET_SIZE_def nchunks_def)

text \<open>The sender about to keep its first packet, and when it has kept it.\<close>

lemma timer_stays: "host_act a p = Done p' \<Longrightarrow> a \<noteq> By_acker \<Longrightarrow> hp_acker p' = hp_acker p"
  by (cases a) (auto simp: main_step_def sender_thread_step_def receiver_thread_step_def Let_def
      split: host_main.splits sender_pc.splits receiver_loop.splits prod.splits outcome.splits option.splits if_splits)

lemma timer_stays_run: "host_reaches p0 as p \<Longrightarrow> By_acker \<notin> set as \<Longrightarrow> hp_acker p = hp_acker p0"
  by (induction rule: host_reaches.induct) (auto dest: timer_stays)

lemma first_sent:
  obtains p0 p sf fd q d where "host_start True [(''image/jpeg'', 9)] (videoCapture jpeg_stream) all_unlocked = Done p0"
    "host_reaches p0 (first_packet_run @ [By_sender]) p" "hp_fresh p \<noteq> []" "hp_sender p = Sender_keeps sf 0 fd q d"
proof -
  obtain p0 p sf fd where run: "host_start True [(''image/jpeg'', 9)] (videoCapture jpeg_stream) all_unlocked = Done p0"
    "host_reaches p0 first_packet_run p" "hp_sender p = Sender_sends sf 0 fd" "pFrame fd = Some [1, 2, 0]"
    using first_run by metis
  have "captures_fit first_packet_run" using first_packet_fits by (simp add: captures_fit_def)
  from hp_inv_run[OF run(2,1) this] have inv: "hp_inv (start_capture [(''image/jpeg'', 9)] (videoCapture jpeg_stream))
    all_unlocked first_packet_run p" .
  from in_frame[OF this, of sf 0 fd] run(3) obtain c n where c: "c \<in> {-1, PACKET_SIZE}" "frame_ok fd"
    "sends_frame (size_at c n) (word_of_nat n) (frame_bytes fd) sf" by metis
  have "0 < unat (size_at c n) - 36" using c(1) by (auto simp: size_at_def)
  then have "0 < sf_packets sf"
    using packets_left(1)[OF c, of 0] run(4) by (simp add: nchunks_less frame_bytes_def)
  from sender_send_inv[OF inv run(3) this] obtain p' where p': "host_act By_sender p = Done p'" "hp_fresh p' \<noteq> []" by auto
  have "\<exists>sf q d. hp_sender p' = Sender_keeps sf 0 fd q d"
    using p'(1) run(3) \<open>0 < sf_packets sf\<close> by (auto simp: sender_thread_step_def Let_def)
  with run p' host_reaches.and_act[OF run(2) p'(1)] show thesis using that by blast
qed

lemma first_packet:
  obtains p0 p where "host_start True [(''image/jpeg'', 9)] (videoCapture jpeg_stream) all_unlocked = Done p0"
    "host_reaches p0 (first_packet_run @ [By_sender]) p" "hp_fresh p \<noteq> []"
  using first_sent by metis

lemma first_kept:
  obtains p0 p e where "host_start True [(''image/jpeg'', 9)] (videoCapture jpeg_stream) all_unlocked = Done p0"
    "host_reaches p0 (first_packet_run @ [By_sender, By_sender]) p" "e \<in> set (recentPackets (hp_packets p))"
proof -
  obtain p0 p sf fd q d where run: "host_start True [(''image/jpeg'', 9)] (videoCapture jpeg_stream) all_unlocked = Done p0"
    "host_reaches p0 (first_packet_run @ [By_sender]) p" "hp_sender p = Sender_keeps sf 0 fd q d" using first_sent by metis
  let ?p = "p\<lparr>hp_packets := (addRecentPacket q d (hp_packets p))\<lparr>ackFlag := False\<rparr>, hp_sender := Sender_sends sf 1 fd\<rparr>"
  have "hp_acker p0 = Timer_test" using run(1) by (auto simp: host_start_def GdiPlusBootstrap_def)
  moreover have "hp_acker p = hp_acker p0" by (rule timer_stays_run[OF run(2)]) (simp add: first_packet_run_def)
  ultimately have "host_act By_sender p = Done ?p" using run(3) by (simp add: sender_thread_step_def)
  from host_reaches.and_act[OF run(2) this] have "host_reaches p0 (first_packet_run @ [By_sender, By_sender]) ?p" by simp
  moreover have "recentPackets (addRecentPacket q d (hp_packets p)) \<noteq> []"
    by (auto simp: addRecentPacket_def split: option.split)
  ultimately show thesis
    using run(1) that[of p0 ?p "hd (recentPackets (addRecentPacket q d (hp_packets p)))"] by simp
qed

subsection \<open>Faults\<close>

lemma host_fault:
  assumes inv: "hp_inv cap g as p" and f: "host_act a p = Fault e"
  shows "(\<exists>dgram. a = By_receiver dgram) \<and> e = Null_call"
proof (cases a)
  case (By_main os)
  from inv have "config_ok cap (length (List.map_filter capture_of as)) p"
    by (simp add: hp_inv_def)
  from main_never_waits[OF this, of os] f By_main show ?thesis by auto
next
  case By_sender
  with sender_inv[OF inv] f show ?thesis by auto
next
  case (By_receiver dgram)
  with f show ?thesis
    by (auto simp: receiver_thread_step_def Let_def split: receiver_loop.splits prod.splits if_splits option.splits)
next
  case By_acker
  with f show ?thesis by (auto simp: acker_thread_step_def Let_def split: timer_loop.splits list.splits)
qed

subsection \<open>What the sender has sent\<close>

lemma sends_prefix:
  assumes "host_start gdiOk installed initialised g = Done p0" and "host_reaches p0 as p" and "captures_fit as"
  shows "\<exists>c \<in> {-1, PACKET_SIZE}. \<exists>pm rest.
    sendStream PACKET_TYPE_STREAM (sized c (captured_frames (start_capture installed initialised) as)) 0 PacketManager = Done pm
    \<and> sent pm = hp_fresh p @ rest
    \<and> (waiting_frames p = [] \<and> sending (hp_sender p) = [] \<longrightarrow> rest = [])"
proof -
  let ?fs = "captured_frames (start_capture installed initialised) as"
  have inv: "hp_inv (start_capture installed initialised) g as p" by (rule hp_inv_run[OF assms(2,1,3)])
  then have frames: "\<forall>fd \<in> set ?fs. frame_ok fd" by (simp add: hp_inv_def)
  from inv obtain c n pm where at: "c \<in> {-1, PACKET_SIZE}" "n \<le> length ?fs"
    "sendStream PACKET_TYPE_STREAM (take n (sized c ?fs)) 0 PacketManager = Done pm"
    "sender_ok c ?fs n (sent pm) (nextSequence pm) (nextSequence (hp_packets p)) (hp_fresh p) (waiting_frames p) (hp_sender p)"
    unfolding hp_inv_def progress_ok_def by (elim conjE exE)
  from sent_so_far[OF at frames] obtain m pm1 rest1 where
    m: "m \<le> length ?fs" "sendStream PACKET_TYPE_STREAM (take m (sized c ?fs)) 0 PacketManager = Done pm1"
      "sent pm1 = hp_fresh p @ rest1" "waiting_frames p = [] \<and> sending (hp_sender p) = [] \<longrightarrow> m = length ?fs \<and> rest1 = []"
    by (elim exE conjE)
  have "\<forall>(cs, frame) \<in> set (drop m (sized c ?fs)). sendable cs frame"
    using sized_sendable[OF frames at(1)] by (auto dest: in_set_dropD)
  from sendStream_extends[OF this m(2)] obtain pm2 ds where
    pm2: "sendStream PACKET_TYPE_STREAM (sized c ?fs) 0 PacketManager = Done pm2" "sent pm2 = sent pm1 @ ds" by auto
  have "rest1 @ ds = []" if "waiting_frames p = [] \<and> sending (hp_sender p) = []"
  proof -
    from m(4) that have "m = length ?fs" "rest1 = []" by simp_all
    with m(2) pm2(1) have "pm2 = pm1" by (simp add: sized_def)
    with pm2(2) \<open>rest1 = []\<close> show ?thesis by simp
  qed
  with at(1) pm2 m(3) show ?thesis by (intro bexI[of _ c] exI[of _ pm2] exI[of _ "rest1 @ ds"]) auto
qed

section \<open>Properties\<close>

text \<open>
  C18: The host's packets are well-formed, in every reachable state of its threads. Whatever order they
  run in, and whatever is captured, received or lost: every datagram the host has sent, fresh or
  again, has a stream header whose size is that of the datagram and whose offset is below the
  number of packets; no two packets are kept under one number, and each kept one was sent under the
  number it carries; the locked memory blocks are exactly those of the frames that wait and of the
  one being sent. The only step on which the process can die is the receipt of a datagram, by
  calling a null handler.
\<close>

theorem host_packets_well_formed:
  assumes "host_start gdiOk installed initialised g = Done p0" and "host_reaches p0 as p" and "captures_fit as"
  shows "(\<forall>d \<in> set (sent (hp_packets p)). stream_datagram d)
    \<and> distinct (map fst (recentPackets (hp_packets p)))
    \<and> (\<forall>(q, d) \<in> set (recentPackets (hp_packets p)). d \<in> set (sent (hp_packets p)) \<and> sequenceNumber (decode_rtmp d) = q)
    \<and> (\<forall>h. locks (hp_gdi p) h = locks g h
         + length (filter (\<lambda>fd. hMemBuf fd = Some h) (sending (hp_sender p) @ waiting_frames p)))
    \<and> (\<forall>a e. host_act a p = Fault e \<longrightarrow> (\<exists>dgram. a = By_receiver dgram) \<and> e = Null_call)"
proof -
  note inv = hp_inv_run[OF assms(2,1,3)]
  have "(\<exists>dgram. a = By_receiver dgram) \<and> e = Null_call" if "host_act a p = Fault e" for a e
    by (rule host_fault[OF inv that])
  with inv show ?thesis by (auto simp: hp_inv_def packets_ok_def locks_ok_def)
qed

theorem host_packets_well_formed_witness:
  "\<exists>p0 p. host_reaches p0 (first_packet_run @ [By_sender]) p \<and> hp_fresh p \<noteq> []
    \<and> (\<forall>d \<in> set (sent (hp_packets p)). stream_datagram d)
    \<and> distinct (map fst (recentPackets (hp_packets p)))
    \<and> (\<forall>(q, d) \<in> set (recentPackets (hp_packets p)). d \<in> set (sent (hp_packets p)) \<and> sequenceNumber (decode_rtmp d) = q)
    \<and> (\<forall>h. locks (hp_gdi p) h = locks all_unlocked h
         + length (filter (\<lambda>fd. hMemBuf fd = Some h) (sending (hp_sender p) @ waiting_frames p)))
    \<and> (\<forall>a e. host_act a p = Fault e \<longrightarrow> (\<exists>dgram. a = By_receiver dgram) \<and> e = Null_call)"
  by (rule first_packet) (blast dest: host_packets_well_formed[OF _ _ first_packet_fits])

text \<open>
  C11: The threads send what \<open>sendStream\<close> sends. In every reachable state the datagrams the sender
  thread has sent are a beginning of those \<open>sendStream\<close>, run alone on the frames captured so far, sends;
  they are all of them when no frame waits and the sender is not in the middle of one. All
  frames are cut at the packet size of 4096 but perhaps the first, which is cut at the size of
  65535 when the sender thread was quicker than the configuration.
\<close>

theorem host_refines_sendStream:
  assumes "host_start gdiOk installed initialised g = Done p0" and "host_reaches p0 as p" and "captures_fit as"
  shows "\<exists>c \<in> {-1, PACKET_SIZE}. \<exists>pm rest.
    sendStream PACKET_TYPE_STREAM (sized c (captured_frames (start_capture installed initialised) as)) 0 PacketManager = Done pm
    \<and> sent pm = hp_fresh p @ rest
    \<and> (waiting_frames p = [] \<and> sending (hp_sender p) = [] \<longrightarrow> rest = [])"
  by (rule sends_prefix[OF assms])

theorem host_refines_sendStream_witness:
  "\<exists>p0 p. host_reaches p0 (first_packet_run @ [By_sender]) p \<and> hp_fresh p \<noteq> []
    \<and> (\<exists>c \<in> {-1, PACKET_SIZE}. \<exists>pm rest.
      sendStream PACKET_TYPE_STREAM (sized c (captured_frames (start_capture [(''image/jpeg'', 9)] (videoCapture jpeg_stream))
        (first_packet_run @ [By_sender]))) 0 PacketManager = Done pm
      \<and> sent pm = hp_fresh p @ rest
      \<and> (waiting_frames p = [] \<and> sending (hp_sender p) = [] \<longrightarrow> rest = []))"
proof (rule first_packet)
  fix p0 p
  assume run: "host_start True [(''image/jpeg'', 9)] (videoCapture jpeg_stream) all_unlocked = Done p0"
    "host_reaches p0 (first_packet_run @ [By_sender]) p" "hp_fresh p \<noteq> []"
  from host_refines_sendStream[OF run(1,2) first_packet_fits] run(2,3) show ?thesis by blast
qed

text \<open>
  C27: The host never ends by itself, and does not deadlock. In every reachable state of its threads the
  program is on, the main thread is before or in its capture loop, where it can go on at any time, and
  no other thread is at its end: the loop runs while the program is on, and only the statement behind
  it, \<open>killProgram\<close>, turns it off. A thread that cannot go on is the sender without a frame, or waits
  for the mutex that the timer holds; the timer can then go on, and each of its steps brings it nearer
  to leaving the mutex.
\<close>

theorem host_never_ends:
  assumes "host_start gdiOk installed initialised g = Done p0" and "host_reaches p0 as p"
  shows "hp_on p \<and> hp_main p \<in> {Set_type, Set_size, Capturing}
    \<and> hp_sender p \<noteq> Sender_ended \<and> hp_receiver p \<noteq> Receiver_ended \<and> hp_acker p \<noteq> Timer_ended
    \<and> (\<forall>os. \<exists>p'. host_act (By_main os) p = Done p')
    \<and> (\<forall>a. host_act a p = Blocks \<longrightarrow>
         (a = By_sender \<and> queue_semaphore (streamContainer (vs_stream (hp_stream p))) = 0)
       \<or> (\<exists>rest p'. hp_acker p = Timer_sends rest \<and> host_act By_acker p = Done p'
            \<and> hp_acker p' = (if rest = [] then Timer_test else Timer_sends (tl rest))))"
proof -
  from config_run[OF assms(2,1)] obtain k where c: "config_ok (start_capture installed initialised) k p" ..
  with main_never_waits[OF this] blocked_host[OF this] show ?thesis by (auto simp: config_ok_def)
qed

theorem host_never_ends_witness:
  "\<exists>p0 p. host_reaches p0 (first_packet_run @ [By_sender]) p \<and> hp_on p \<and> hp_main p \<in> {Set_type, Set_size, Capturing}
    \<and> hp_sender p \<noteq> Sender_ended \<and> hp_receiver p \<noteq> Receiver_ended \<and> hp_acker p \<noteq> Timer_ended
    \<and> (\<forall>os. \<exists>p'. host_act (By_main os) p = Done p')"
  by (rule first_packet) (blast dest: host_never_ends)

end
