(* ===== verification/ViewerThreads.thy ===== *)
theory ViewerThreads
  imports Viewer
begin

text \<open>
  The viewer's threads in small steps. \<open>Viewer\<close> takes a round of a thread's loop as one step; here a
  step is what lies between two accesses to shared data: entering and leaving \<open>dataMutex\<close> and \<open>bmpMutex\<close>,
  the two halves of a queue's \<open>Push\<close> and \<open>Pop\<close>, looking up, writing and erasing an entry of
  \<open>activeFrames\<close>, which consumer and decoder share without a common mutex. A reference to an entry
  that has been erased dangles.

  The small steps refine the rounds as long as no fragment comes twice; with a fragment that does,
  they do not: the decoder erases the entry the consumer holds a reference to.
\<close>

section \<open>State\<close>

text \<open>Where each thread is, with what it holds in its local variables.\<close>

datatype receiver_pc =
    R_recv
  | R_lock "BYTE list"
  | R_push "BYTE list"
  | R_release
  | R_unlock

datatype consumer_pc =
    C_test
  | C_lock
  | C_wait
  | C_take
  | C_open "BYTE list"
  | C_write "BYTE list"
  | C_report "BYTE list"
  | C_release
  | C_unlock

datatype 'bmp decoder_pc =
    D_test
  | D_wait
  | D_take
  | D_look DWORD
  | D_decode DWORD
  | D_lock DWORD "'bmp option"
  | D_push DWORD "'bmp option"
  | D_release DWORD
  | D_unlock DWORD
  | D_erase DWORD

datatype 'bmp window_pc =
    W_lock
  | W_test
  | W_wait
  | W_take
  | W_show "'bmp num_bmp"
  | W_clear "'bmp num_bmp"
  | W_unlock

datatype holder = By_receiver | By_consumer | By_decoder | By_window

record 'bmp viewer_threads =
  shared :: "'bmp client_state"
  dataMutex :: "holder option"
  bmpMutex :: "holder option"
  rcv :: receiver_pc
  csm :: consumer_pc
  dcd :: "'bmp decoder_pc"
  win :: "'bmp window_pc"

definition threads_init :: "'bmp viewer_threads" where
  "threads_init = \<lparr>shared = client_init, dataMutex = None, bmpMutex = None,
     rcv = R_recv, csm = C_test, dcd = D_test, win = W_lock\<rparr>"

section \<open>The receiver\<close>

definition receiver_act :: "BYTE list \<Rightarrow> BYTE list option \<Rightarrow> 'bmp viewer_threads \<Rightarrow> 'bmp viewer_threads outcome" where
  "receiver_act fresh dgram v = (let s = shared v in case rcv v of
       R_recv \<Rightarrow> (let (packetSize, packet) = winsock_recvfrom fresh dgram
          in if packetSize < 0 then Done v
             else Done (v\<lparr>shared := s\<lparr>acks := acks s @ [encode_rtmp (ack_packet (decode_rtmp packet))]\<rparr>,
               rcv := R_lock packet\<rparr>))
     | R_lock packet \<Rightarrow> if dataMutex v = None then Done (v\<lparr>dataMutex := Some By_receiver, rcv := R_push packet\<rparr>) else Blocks
     | R_push packet \<Rightarrow> Done (v\<lparr>shared := s\<lparr>packetQueue := tsq_enqueue packet (packetQueue s)\<rparr>, rcv := R_release\<rparr>)
     | R_release \<Rightarrow> Done (v\<lparr>shared := s\<lparr>packetQueue := snd (tsq_release (packetQueue s))\<rparr>, rcv := R_unlock\<rparr>)
     | R_unlock \<Rightarrow> Done (v\<lparr>dataMutex := None, rcv := R_recv\<rparr>))"

section \<open>The consumer\<close>

text \<open>The frame a packet belongs to; writing to the entry of the frame, once it is there.\<close>

definition packet_frame :: "BYTE list \<Rightarrow> DWORD" where
  "packet_frame packet = frameNumber (get_rtsmp (rtmp_data (decode_rtmp packet)))"

definition write_entry :: "BYTE list \<Rightarrow> frame_buffer \<Rightarrow> frame_buffer outcome" where
  "write_entry packet fb =
     (let pkt = decode_rtmp packet;
          fb1 = fb\<lparr>fb_totalPackets := fb_totalPackets fb + 1,
                   totalSize := totalSize fb + (ucast (pkt_size pkt) - 36)\<rparr>
      in bind_outcome (copy_payload PAYLOAD_SIZE (pkt_size pkt) (offset (get_rtsmp (rtmp_data pkt))) packet (chunks fb1))
           (\<lambda>buf. Done (fb1\<lparr>chunks := buf\<rparr>)))"

definition consumer_act :: "'bmp viewer_threads \<Rightarrow> 'bmp viewer_threads outcome" where
  "consumer_act v = (let s = shared v in case csm v of
       C_test \<Rightarrow> Done (if tsq_isEmpty (packetQueue s) then v else v\<lparr>csm := C_lock\<rparr>)
     | C_lock \<Rightarrow> if dataMutex v = None then Done (v\<lparr>dataMutex := Some By_consumer, csm := C_wait\<rparr>) else Blocks
     | C_wait \<Rightarrow> (case tsq_wait tsq_timeout (packetQueue s) of
           (Done _, q) \<Rightarrow> Done (v\<lparr>shared := s\<lparr>packetQueue := q\<rparr>, csm := C_take\<rparr>)
         | (Fault e, _) \<Rightarrow> Fault e
         | (Blocks, _) \<Rightarrow> Blocks)
     | C_take \<Rightarrow> (case tsq_take (packetQueue s) of
           (Done packet, q) \<Rightarrow> Done (v\<lparr>shared := s\<lparr>packetQueue := q\<rparr>,
             csm := if pkt_type (decode_rtmp packet) \<noteq> PACKET_TYPE_STREAM then C_unlock else C_open packet\<rparr>)
         | (Fault e, _) \<Rightarrow> Fault e
         | (Blocks, _) \<Rightarrow> Blocks)
     | C_open packet \<Rightarrow> (let n = packet_frame packet; entry = activeFrames s n
         in Done (v\<lparr>shared := s\<lparr>activeFrames := (activeFrames s)(n \<mapsto> open_buffer (decode_rtmp packet) entry),
              latestFrame := (if opens_buffer entry then n else latestFrame s)\<rparr>, csm := C_write packet\<rparr>))
     | C_write packet \<Rightarrow> (case activeFrames s (packet_frame packet) of
           None \<Rightarrow> Fault Mem_fault
         | Some fb \<Rightarrow> bind_outcome (write_entry packet fb) (\<lambda>fb2.
             Done (v\<lparr>shared := s\<lparr>activeFrames := (activeFrames s)(packet_frame packet \<mapsto> fb2)\<rparr>, csm := C_report packet\<rparr>)))
     | C_report packet \<Rightarrow> (case activeFrames s (packet_frame packet) of
           None \<Rightarrow> Fault Mem_fault
         | Some fb \<Rightarrow> if totalSize fb = expectedSize fb
             then Done (v\<lparr>shared := s\<lparr>frameNumQueue := tsq_enqueue (packet_frame packet) (frameNumQueue s)\<rparr>, csm := C_release\<rparr>)
             else Done (v\<lparr>csm := C_unlock\<rparr>))
     | C_release \<Rightarrow> Done (v\<lparr>shared := s\<lparr>frameNumQueue := snd (tsq_release (frameNumQueue s))\<rparr>, csm := C_unlock\<rparr>)
     | C_unlock \<Rightarrow> Done (v\<lparr>dataMutex := None, csm := C_test\<rparr>))"

section \<open>The decoder\<close>

text \<open>
  \<open>activeFrames[frameNumber]\<close> creates an entry if there is none. Pushing to the queue of bitmaps is
  in two halves as for the other queues.
\<close>

definition decoder_act :: "(BYTE list \<Rightarrow> 'bmp option) \<Rightarrow> 'bmp viewer_threads \<Rightarrow> 'bmp viewer_threads outcome" where
  "decoder_act decodeImage v = (let s = shared v in case dcd v of
       D_test \<Rightarrow> Done (if tsq_isEmpty (frameNumQueue s) then v else v\<lparr>dcd := D_wait\<rparr>)
     | D_wait \<Rightarrow> (case tsq_wait tsq_timeout (frameNumQueue s) of
           (Done _, q) \<Rightarrow> Done (v\<lparr>shared := s\<lparr>frameNumQueue := q\<rparr>, dcd := D_take\<rparr>)
         | (Fault e, _) \<Rightarrow> Fault e
         | (Blocks, _) \<Rightarrow> Blocks)
     | D_take \<Rightarrow> (case tsq_take (frameNumQueue s) of
           (Done n, q) \<Rightarrow> Done (v\<lparr>shared := s\<lparr>frameNumQueue := q\<rparr>, dcd := D_look n\<rparr>)
         | (Fault e, _) \<Rightarrow> Fault e
         | (Blocks, _) \<Rightarrow> Blocks)
     | D_look n \<Rightarrow> Done (v\<lparr>shared := s\<lparr>activeFrames := (activeFrames s)(n := Some (case activeFrames s n of
           None \<Rightarrow> FrameBuffer | Some fb \<Rightarrow> fb))\<rparr>, dcd := D_decode n\<rparr>)
     | D_decode n \<Rightarrow> (case activeFrames s n of
           None \<Rightarrow> Fault Mem_fault
         | Some fb \<Rightarrow> Done (v\<lparr>dcd := if decodeImage (chunks fb) = None then D_erase n
             else D_lock n (decodeImage (chunks fb))\<rparr>))
     | D_lock n newBmp \<Rightarrow> if bmpMutex v = None then Done (v\<lparr>bmpMutex := Some By_decoder, dcd := D_push n newBmp\<rparr>) else Blocks
     | D_push n newBmp \<Rightarrow> Done (v\<lparr>shared := s\<lparr>frameNumBmpQueue := (frameNumBmpQueue s)
           \<lparr>pqueue := pq_insert CompareNumBmpPairs (n, newBmp) (pqueue (frameNumBmpQueue s))\<rparr>\<rparr>, dcd := D_release n\<rparr>)
     | D_release n \<Rightarrow> Done (v\<lparr>shared := s\<lparr>frameNumBmpQueue := (frameNumBmpQueue s)
           \<lparr>pqueue_semaphore := snd (release_semaphore (pqueue_semaphore (frameNumBmpQueue s)))\<rparr>\<rparr>, dcd := D_unlock n\<rparr>)
     | D_unlock n \<Rightarrow> Done (v\<lparr>bmpMutex := None, dcd := D_erase n\<rparr>)
     | D_erase n \<Rightarrow> Done (v\<lparr>shared := s\<lparr>activeFrames := (activeFrames s)(n := None)\<rparr>, dcd := D_test\<rparr>))"

section \<open>The window and the timer\<close>

definition window_act :: "'bmp viewer_threads \<Rightarrow> 'bmp viewer_threads outcome" where
  "window_act v = (let s = shared v; q = frameNumBmpQueue s in case win v of
       W_lock \<Rightarrow> if bmpMutex v = None then Done (v\<lparr>bmpMutex := Some By_window, win := W_test\<rparr>) else Blocks
     | W_test \<Rightarrow> Done (v\<lparr>win := if \<not> loadFrame s \<or> tspq_isEmpty q then W_unlock else W_wait\<rparr>)
     | W_wait \<Rightarrow> (case wait_semaphore tsq_timeout (pqueue_semaphore q) of
           (Done _, k) \<Rightarrow> Done (v\<lparr>shared := s\<lparr>frameNumBmpQueue := q\<lparr>pqueue_semaphore := k\<rparr>\<rparr>, win := W_take\<rparr>)
         | (Fault e, _) \<Rightarrow> Fault e
         | (Blocks, _) \<Rightarrow> Blocks)
     | W_take \<Rightarrow> (case pqueue q of
           [] \<Rightarrow> Fault (Runtime_error ''empty queue'')
         | x # rest \<Rightarrow> Done (v\<lparr>shared := s\<lparr>frameNumBmpQueue := q\<lparr>pqueue := rest\<rparr>\<rparr>, win := W_show x\<rparr>))
     | W_show x \<Rightarrow> if snd x \<noteq> None then Done (v\<lparr>shared := s\<lparr>displayed := displayed s @ [x]\<rparr>, win := W_clear x\<rparr>)
         else Done (v\<lparr>win := W_unlock\<rparr>)
     | W_clear x \<Rightarrow> Done (v\<lparr>shared := s\<lparr>loadFrame := False\<rparr>, win := W_unlock\<rparr>)
     | W_unlock \<Rightarrow> Done (v\<lparr>bmpMutex := None, win := W_lock\<rparr>))"

definition timer_act :: "'bmp viewer_threads \<Rightarrow> 'bmp viewer_threads" where
  "timer_act v = v\<lparr>shared := (shared v)\<lparr>loadFrame := True\<rparr>\<rparr>"

section \<open>Runs\<close>

datatype thread_act =
    Receiver_acts "BYTE list" "BYTE list option"
  | Consumer_acts
  | Decoder_acts
  | Timer_acts
  | Window_acts

fun thread_step :: "(BYTE list \<Rightarrow> 'bmp option) \<Rightarrow> thread_act \<Rightarrow> 'bmp viewer_threads \<Rightarrow> 'bmp viewer_threads outcome" where
  "thread_step decodeImage (Receiver_acts fresh dgram) v = receiver_act fresh dgram v"
| "thread_step decodeImage Consumer_acts v = consumer_act v"
| "thread_step decodeImage Decoder_acts v = decoder_act decodeImage v"
| "thread_step decodeImage Timer_acts v = Done (timer_act v)"
| "thread_step decodeImage Window_acts v = window_act v"

text \<open>The datagram an action takes from the socket, which only a receiver at its \<^verbatim>\<open>recvfrom\<close> does.\<close>

fun takes :: "thread_act \<Rightarrow> 'bmp viewer_threads \<Rightarrow> BYTE list list" where
  "takes (Receiver_acts fresh (Some d)) v = (if rcv v = R_recv then [d] else [])"
| "takes _ v = []"

text \<open>A run from the start; \<open>ds\<close> are the datagrams it has taken.\<close>

inductive threads_reach :: "(BYTE list \<Rightarrow> 'bmp option) \<Rightarrow> BYTE list list \<Rightarrow> 'bmp viewer_threads \<Rightarrow> bool" for decodeImage where
  at_start: "threads_reach decodeImage [] threads_init"
| and_step: "threads_reach decodeImage ds v \<Longrightarrow> thread_step decodeImage a v = Done v' \<Longrightarrow>
    (\<And>fresh d. a = Receiver_acts fresh d \<Longrightarrow> length fresh = CLIENT_PACKET_SIZE) \<Longrightarrow>
    threads_reach decodeImage (ds @ takes a v) v'"

section \<open>The rounds a state stands for\<close>

text \<open>
  A thread in the middle of a round has done a part of it. The round takes effect when the consumer
  has reported its frame, when the decoder has pushed its bitmap (or found that there is none), when
  the window has cleared \<open>loadFrame\<close>, and when the receiver has its datagram. Until then what the thread
  holds is still in the queue it came from; after that, what remains to be done is only seen by others
  as permits that are owed, and as the entry the decoder has still to erase.
\<close>

fun r_in :: "receiver_pc \<Rightarrow> bool" where
  "r_in (R_push p) = True" | "r_in R_release = True" | "r_in R_unlock = True" | "r_in _ = False"

fun c_in :: "consumer_pc \<Rightarrow> bool" where
  "c_in C_test = False" | "c_in C_lock = False" | "c_in _ = True"

fun d_in :: "'bmp decoder_pc \<Rightarrow> bool" where
  "d_in (D_push n b) = True" | "d_in (D_release n) = True" | "d_in (D_unlock n) = True" | "d_in _ = False"

fun w_in :: "'bmp window_pc \<Rightarrow> bool" where
  "w_in W_lock = False" | "w_in _ = True"

fun r_held :: "receiver_pc \<Rightarrow> BYTE list list" where
  "r_held (R_lock p) = [p]" | "r_held (R_push p) = [p]" | "r_held _ = []"

fun c_held :: "consumer_pc \<Rightarrow> BYTE list list" where
  "c_held (C_open p) = [p]" | "c_held (C_write p) = [p]" | "c_held (C_report p) = [p]" | "c_held _ = []"

fun d_held :: "'bmp decoder_pc \<Rightarrow> DWORD list" where
  "d_held (D_look n) = [n]" | "d_held (D_decode n) = [n]" | "d_held (D_lock n b) = [n]"
| "d_held (D_push n b) = [n]" | "d_held _ = []"

fun w_held :: "'bmp window_pc \<Rightarrow> 'bmp num_bmp list" where
  "w_held (W_show x) = [x]" | "w_held (W_clear x) = [x]" | "w_held _ = []"

fun w_shown :: "'bmp window_pc \<Rightarrow> 'bmp num_bmp list" where
  "w_shown (W_clear x) = [x]" | "w_shown _ = []"

fun d_owes :: "'bmp decoder_pc \<Rightarrow> nat" where
  "d_owes (D_release n) = 1" | "d_owes _ = 0"

text \<open>Entries of \<open>activeFrames\<close>: what the decoder has still to erase, what the consumer has already written.\<close>

fun stale :: "'bmp decoder_pc \<Rightarrow> DWORD set" where
  "stale (D_release n) = {n}" | "stale (D_unlock n) = {n}" | "stale (D_erase n) = {n}" | "stale _ = {}"

fun mid_entry :: "consumer_pc \<Rightarrow> (DWORD \<Rightarrow> frame_buffer option) \<Rightarrow> DWORD \<Rightarrow> frame_buffer option" where
  "mid_entry (C_write p) fr g =
     (if g = packet_frame p then Some (open_buffer (decode_rtmp p) (fr g)) else fr g)"
| "mid_entry (C_report p) fr g =
     (if g = packet_frame p then (case write_entry p (open_buffer (decode_rtmp p) (fr g)) of Done fb \<Rightarrow> Some fb | _ \<Rightarrow> None)
      else fr g)"
| "mid_entry _ fr g = fr g"

fun opened :: "consumer_pc \<Rightarrow> BYTE list list" where
  "opened (C_write p) = [p]" | "opened (C_report p) = [p]" | "opened _ = []"

definition mid_latest :: "consumer_pc \<Rightarrow> (DWORD \<Rightarrow> frame_buffer option) \<Rightarrow> DWORD \<Rightarrow> DWORD" where
  "mid_latest c fr latest = (case opened c of [] \<Rightarrow> latest
     | p # _ \<Rightarrow> if opens_buffer (fr (packet_frame p)) then packet_frame p else latest)"

text \<open>The relation, one part per shared object, each over what it depends on.\<close>

definition locks_rel :: "holder option \<Rightarrow> holder option \<Rightarrow> receiver_pc \<Rightarrow> consumer_pc \<Rightarrow> 'bmp decoder_pc \<Rightarrow> 'bmp window_pc \<Rightarrow> bool" where
  "locks_rel dm bm r c d w \<longleftrightarrow> dm = (if r_in r then Some By_receiver else if c_in c then Some By_consumer else None)
     \<and> \<not> (r_in r \<and> c_in c)
     \<and> bm = (if d_in d then Some By_decoder else if w_in w then Some By_window else None)
     \<and> \<not> (d_in d \<and> w_in w)"

definition packets_rel :: "receiver_pc \<Rightarrow> consumer_pc \<Rightarrow> BYTE list tsqueue \<Rightarrow> BYTE list tsqueue \<Rightarrow> bool" where
  "packets_rel r c q q' \<longleftrightarrow> queue q' = c_held c @ queue q @ r_held r
     \<and> queue_semaphore q + (if r = R_release then 1 else 0) + (if c = C_take then 1 else 0) = length (queue q)
     \<and> (c \<in> {C_lock, C_wait, C_take} \<longrightarrow> queue q \<noteq> [])"

definition numbers_rel :: "consumer_pc \<Rightarrow> 'bmp decoder_pc \<Rightarrow> DWORD tsqueue \<Rightarrow> DWORD tsqueue \<Rightarrow> bool" where
  "numbers_rel c d q q' \<longleftrightarrow> queue q' = d_held d @ queue q
     \<and> queue_semaphore q + (if c = C_release then 1 else 0) + (if d = D_take then 1 else 0) = length (queue q)
     \<and> (d \<in> {D_wait, D_take} \<longrightarrow> queue q \<noteq> [])"

definition bitmaps_rel :: "'bmp decoder_pc \<Rightarrow> 'bmp window_pc \<Rightarrow> 'bmp num_bmp tspqueue \<Rightarrow> 'bmp num_bmp tspqueue \<Rightarrow> bool" where
  "bitmaps_rel d w q q' \<longleftrightarrow> pqueue q' = w_held w @ pqueue q
     \<and> pqueue_semaphore q + d_owes d + (if w = W_take then 1 else 0) = length (pqueue q)
     \<and> (w \<in> {W_wait, W_take} \<longrightarrow> pqueue q \<noteq> [])"

definition shows_rel :: "'bmp window_pc \<Rightarrow> bool \<Rightarrow> bool \<Rightarrow> 'bmp num_bmp list \<Rightarrow> 'bmp num_bmp list \<Rightarrow> bool" where
  "shows_rel w lf lf' dp dp' \<longleftrightarrow> lf = lf' \<and> (w \<in> {W_wait, W_take} \<or> w_held w \<noteq> [] \<longrightarrow> lf)
     \<and> dp = dp' @ w_shown w \<and> (\<forall>x \<in> set (w_shown w). snd x \<noteq> None)"

definition frames_rel :: "DWORD list \<Rightarrow> consumer_pc \<Rightarrow> 'bmp decoder_pc \<Rightarrow> (DWORD \<Rightarrow> frame_buffer option)
    \<Rightarrow> (DWORD \<Rightarrow> frame_buffer option) \<Rightarrow> bool" where
  "frames_rel decoded c d fr fr' \<longleftrightarrow> stale d \<subseteq> set decoded \<and> (\<forall>g. g \<notin> stale d \<longrightarrow> fr g = mid_entry c fr' g)"

definition decoder_rel :: "(DWORD \<Rightarrow> BYTE list) \<Rightarrow> (BYTE list \<Rightarrow> 'bmp option) \<Rightarrow> 'bmp decoder_pc \<Rightarrow> bool" where
  "decoder_rel frames decodeImage d \<longleftrightarrow> (case d of
       D_lock n b \<Rightarrow> b = decodeImage (frames n) \<and> b \<noteq> None
     | D_push n b \<Rightarrow> b = decodeImage (frames n) \<and> b \<noteq> None
     | _ \<Rightarrow> True)"

definition threads_rel :: "(DWORD \<Rightarrow> BYTE list) \<Rightarrow> (BYTE list \<Rightarrow> 'bmp option) \<Rightarrow> DWORD list \<Rightarrow> 'bmp viewer_threads
    \<Rightarrow> 'bmp client_state \<Rightarrow> bool" where
  "threads_rel frames decodeImage decoded v st \<longleftrightarrow> (let s = shared v in
       locks_rel (dataMutex v) (bmpMutex v) (rcv v) (csm v) (dcd v) (win v)
     \<and> packets_rel (rcv v) (csm v) (packetQueue s) (packetQueue st)
     \<and> numbers_rel (csm v) (dcd v) (frameNumQueue s) (frameNumQueue st)
     \<and> bitmaps_rel (dcd v) (win v) (frameNumBmpQueue s) (frameNumBmpQueue st)
     \<and> shows_rel (win v) (loadFrame s) (loadFrame st) (displayed s) (displayed st)
     \<and> frames_rel decoded (csm v) (dcd v) (activeFrames s) (activeFrames st)
     \<and> latestFrame s = mid_latest (csm v) (activeFrames st) (latestFrame st) \<and> acks s = acks st
     \<and> decoder_rel frames decodeImage (dcd v))"

definition related :: "(DWORD \<Rightarrow> BYTE list) \<Rightarrow> (BYTE list \<Rightarrow> 'bmp option) \<Rightarrow> BYTE \<Rightarrow> (DWORD \<Rightarrow> DWORD) \<Rightarrow>
    (DWORD \<times> nat) list \<Rightarrow> 'bmp viewer_threads \<Rightarrow> 'bmp client_state \<Rightarrow> bool" where
  "related frames decodeImage t sq fis v st \<longleftrightarrow> (\<exists>taken pending decoded. taken @ map fst pending = fis
     \<and> viewer_inv frames decodeImage t sq taken pending decoded st \<and> threads_rel frames decodeImage decoded v st)"

lemma d_owes_out [simp]: "\<not> d_in d \<Longrightarrow> d_owes d = 0"
  by (cases d) simp_all

lemmas threads_rel = threads_rel_def Let_def

text \<open>What has to be shown of each step: no fault, and some rounds that stand for it.\<close>

definition step_ok :: "(DWORD \<Rightarrow> BYTE list) \<Rightarrow> (BYTE list \<Rightarrow> 'bmp option) \<Rightarrow> BYTE \<Rightarrow> (DWORD \<Rightarrow> DWORD) \<Rightarrow> (DWORD \<times> nat) list
    \<Rightarrow> (DWORD \<times> nat) list \<Rightarrow> 'bmp viewer_threads outcome \<Rightarrow> 'bmp client_state \<Rightarrow> bool" where
  "step_ok frames decodeImage t sq fis new m st \<longleftrightarrow> (case m of
       Fault e \<Rightarrow> False
     | Blocks \<Rightarrow> True
     | Done v' \<Rightarrow> \<exists>es st'. viewer_run decodeImage es st = Done st' \<and> related frames decodeImage t sq (fis @ new) v' st'
         \<and> concat (map received es) = map (datagram_of t sq frames) new
         \<and> (\<forall>e \<in> set es. \<forall>fresh d. e = Receive fresh d \<longrightarrow> length fresh = CLIENT_PACKET_SIZE))"

lemma step_stutters:
  assumes "viewer_inv frames decodeImage t sq taken pending decoded st" and "taken @ map fst pending = fis"
    and "threads_rel frames decodeImage decoded v' st"
  shows "step_ok frames decodeImage t sq fis [] (Done v') st"
  using assms unfolding step_ok_def outcome.case related_def append_Nil2
  by (intro exI[of _ "[]"] exI[of _ st] conjI exI[of _ taken] exI[of _ pending] exI[of _ decoded]) simp_all

lemma step_takes_round:
  assumes "viewer_step decodeImage e st = Done st'"
    and "viewer_inv frames decodeImage t sq taken pending decoded st'" and "taken @ map fst pending = fis @ new"
    and "threads_rel frames decodeImage decoded v' st'"
    and "received e = map (datagram_of t sq frames) new"
    and "\<forall>fresh d. e = Receive fresh d \<longrightarrow> length fresh = CLIENT_PACKET_SIZE"
  shows "step_ok frames decodeImage t sq fis new (Done v') st"
  using assms unfolding step_ok_def outcome.case related_def
  by (intro exI[of _ "[e]"] exI[of _ st'] conjI exI[of _ taken] exI[of _ pending] exI[of _ decoded]) simp_all

section \<open>The receiver, the window and the timer\<close>

lemma inv_queues:
  assumes "viewer_inv frames decodeImage t sq taken pending decoded st"
  shows "queue_semaphore (packetQueue st) = length (queue (packetQueue st))"
    "queue_semaphore (frameNumQueue st) = length (queue (frameNumQueue st))"
    "pqueue_semaphore (frameNumBmpQueue st) = length (pqueue (frameNumBmpQueue st))"
    "queue (packetQueue st) = map (\<lambda>(fi, junk). datagram_of t sq frames fi @ junk) pending"
  using assms by (simp_all add: viewer_inv_def Let_def)

lemma timer_ok:
  assumes "viewer_inv frames decodeImage t sq taken pending decoded st" and "taken @ map fst pending = fis"
    and R: "threads_rel frames decodeImage decoded v st"
  shows "step_ok frames decodeImage t sq fis [] (Done (timer_act v)) st"
proof (rule step_takes_round[where e = Tick])
  show "viewer_step decodeImage Tick st = Done (timer_step st)" by simp
  show "viewer_inv frames decodeImage t sq taken pending decoded (timer_step st)"
    using assms(1) by (simp add: viewer_inv_def Let_def timer_step_def)
  show "threads_rel frames decodeImage decoded (timer_act v) (timer_step st)"
    using R by (auto simp: threads_rel timer_act_def timer_step_def shows_rel_def)
qed (use assms(2) in simp_all)

lemma receiver_ok:
  assumes I: "viewer_inv frames decodeImage t sq taken pending decoded st" and fis: "taken @ map fst pending = fis"
    and R: "threads_rel frames decodeImage decoded v st"
    and ok: "\<forall>fi \<in> set new. fragment frames fi" and fresh: "length fresh = CLIENT_PACKET_SIZE"
    and t: "takes (Receiver_acts fresh dgram) v = map (datagram_of t sq frames) new"
    and small: "length pending < MAXINT"
  shows "step_ok frames decodeImage t sq fis new (receiver_act fresh dgram v) st"
proof (cases "rcv v")
  case R_recv
  show ?thesis
  proof (cases dgram)
    case None
    then have "new = []" "receiver_act fresh dgram v = Done v"
      using t R_recv by (simp_all add: receiver_act_def winsock_recvfrom_def)
    with step_stutters[OF I fis R] show ?thesis by simp
  next
    case (Some d)
    with t R_recv obtain fi where new: "new = [fi]" and d: "d = datagram_of t sq frames fi"
      by (cases new) auto
    have F: "fragment frames fi" using ok new by simp
    have len: "length d \<le> length fresh"
      using fragment_bounds(5)[of frames "fst fi" "snd fi"] F fresh
      by (simp add: d datagram_of_def length_frame_datagram CLIENT_PACKET_SIZE_def)
    from receive_inv[OF I F fresh small] obtain junk where
      J: "viewer_inv frames decodeImage t sq taken (pending @ [(fi, junk)]) decoded (receiver_step fresh (Some d) st)"
      by (auto simp: d)
    let ?p = "d @ drop (length d) fresh"
    have act: "receiver_act fresh dgram v = Done (v\<lparr>shared := (shared v)\<lparr>acks := acks (shared v)
        @ [encode_rtmp (ack_packet (decode_rtmp ?p))]\<rparr>, rcv := R_lock ?p\<rparr>)"
      using R_recv Some len by (simp add: receiver_act_def winsock_recvfrom_def Let_def)
    have rs: "receiver_step fresh (Some d) st = st\<lparr>acks := acks st @ [encode_rtmp (ack_packet (decode_rtmp ?p))],
        packetQueue := snd (tsq_Push ?p (packetQueue st))\<rparr>"
      using len by (simp add: receiver_step_def winsock_recvfrom_def)
    show ?thesis unfolding act
    proof (rule step_takes_round[where e = "Receive fresh (Some d)"])
      show "threads_rel frames decodeImage decoded (v\<lparr>shared := (shared v)\<lparr>acks := acks (shared v)
        @ [encode_rtmp (ack_packet (decode_rtmp ?p))]\<rparr>, rcv := R_lock ?p\<rparr>) (receiver_step fresh (Some d) st)"
        unfolding rs using R R_recv by (simp add: threads_rel locks_rel_def packets_rel_def tsq.items_push)
    qed (use J fis new d fresh in auto)
  qed
next
  case (R_lock p)
  then have new: "new = []" using t by (cases dgram) simp_all
  show ?thesis
  proof (cases "dataMutex v = None")
    case True
    have "threads_rel frames decodeImage decoded (v\<lparr>dataMutex := Some By_receiver, rcv := R_push p\<rparr>) st"
      using R R_lock True by (auto simp: threads_rel locks_rel_def packets_rel_def split: if_splits)
    from step_stutters[OF I fis this] show ?thesis using True R_lock new by (simp add: receiver_act_def)
  qed (use R_lock in \<open>auto simp: receiver_act_def step_ok_def\<close>)
next
  case (R_push p)
  then have new: "new = []" using t by (cases dgram) simp_all
  have "threads_rel frames decodeImage decoded
      (v\<lparr>shared := (shared v)\<lparr>packetQueue := tsq_enqueue p (packetQueue (shared v))\<rparr>, rcv := R_release\<rparr>) st"
    using R R_push by (auto simp: threads_rel locks_rel_def packets_rel_def tsq_enqueue_def)
  from step_stutters[OF I fis this] show ?thesis using R_push new by (simp add: receiver_act_def Let_def)
next
  case R_release
  then have new: "new = []" using t by (cases dgram) simp_all
  have "queue_semaphore (packetQueue (shared v)) < MAXINT"
    using R R_release inv_queues(4)[OF I] small by (auto simp: threads_rel packets_rel_def dest: arg_cong[of _ _ length])
  then have "threads_rel frames decodeImage decoded
      (v\<lparr>shared := (shared v)\<lparr>packetQueue := snd (tsq_release (packetQueue (shared v)))\<rparr>, rcv := R_unlock\<rparr>) st"
    using R R_release by (auto simp: threads_rel locks_rel_def packets_rel_def tsq_release_def release_semaphore_def)
  from step_stutters[OF I fis this] show ?thesis using R_release new by (simp add: receiver_act_def Let_def)
next
  case R_unlock
  then have new: "new = []" using t by (cases dgram) simp_all
  have "threads_rel frames decodeImage decoded (v\<lparr>dataMutex := None, rcv := R_recv\<rparr>) st"
    using R R_unlock by (auto simp: threads_rel locks_rel_def packets_rel_def)
  from step_stutters[OF I fis this] show ?thesis using R_unlock new by (simp add: receiver_act_def)
qed

lemma window_ok:
  assumes I: "viewer_inv frames decodeImage t sq taken pending decoded st" and fis: "taken @ map fst pending = fis"
    and R: "threads_rel frames decodeImage decoded v st"
  shows "step_ok frames decodeImage t sq fis [] (window_act v) st"
proof (cases "win v")
  case W_lock
  show ?thesis
  proof (cases "bmpMutex v = None")
    case True
    have "threads_rel frames decodeImage decoded (v\<lparr>bmpMutex := Some By_window, win := W_test\<rparr>) st"
      using R W_lock True by (auto simp: threads_rel locks_rel_def bitmaps_rel_def shows_rel_def split: if_splits)
    from step_stutters[OF I fis this] show ?thesis using True W_lock by (simp add: window_act_def)
  qed (use W_lock in \<open>auto simp: window_act_def step_ok_def\<close>)
next
  case W_test
  let ?w = "if \<not> loadFrame (shared v) \<or> tspq_isEmpty (frameNumBmpQueue (shared v)) then W_unlock else W_wait"
  have "threads_rel frames decodeImage decoded (v\<lparr>win := ?w\<rparr>) st"
    using R W_test by (auto simp: threads_rel locks_rel_def bitmaps_rel_def shows_rel_def tspq_isEmpty_def)
  from step_stutters[OF I fis this] show ?thesis using W_test by (simp add: window_act_def Let_def)
next
  case W_wait
  let ?q = "frameNumBmpQueue (shared v)"
  have pos: "0 < pqueue_semaphore ?q" "\<not> d_in (dcd v)"
    using R W_wait by (auto simp: threads_rel locks_rel_def bitmaps_rel_def)
  have "threads_rel frames decodeImage decoded (v\<lparr>shared := (shared v)\<lparr>frameNumBmpQueue :=
      ?q\<lparr>pqueue_semaphore := pqueue_semaphore ?q - 1\<rparr>\<rparr>, win := W_take\<rparr>) st"
    using R W_wait pos by (auto simp: threads_rel locks_rel_def bitmaps_rel_def shows_rel_def)
  from step_stutters[OF I fis this] show ?thesis
    using W_wait pos by (simp add: window_act_def wait_semaphore_def Let_def)
next
  case W_take
  let ?q = "frameNumBmpQueue (shared v)"
  from R W_take obtain x rest where q: "pqueue ?q = x # rest" by (cases "pqueue ?q") (auto simp: threads_rel bitmaps_rel_def)
  have "threads_rel frames decodeImage decoded (v\<lparr>shared := (shared v)\<lparr>frameNumBmpQueue := ?q\<lparr>pqueue := rest\<rparr>\<rparr>, win := W_show x\<rparr>) st"
    using R W_take q by (auto simp: threads_rel locks_rel_def bitmaps_rel_def shows_rel_def)
  from step_stutters[OF I fis this] show ?thesis using W_take q by (simp add: window_act_def Let_def)
next
  case (W_show x)
  have "x \<in> set (pqueue (frameNumBmpQueue st))" using R W_show by (simp add: threads_rel bitmaps_rel_def)
  moreover have "\<forall>x \<in> set (displayed st) \<union> set (pqueue (frameNumBmpQueue st)). decodes frames decodeImage x"
    using I by (simp add: viewer_inv_def Let_def)
  ultimately have x: "snd x \<noteq> None" unfolding decodes_def by blast
  have "threads_rel frames decodeImage decoded (v\<lparr>shared := (shared v)\<lparr>displayed := displayed (shared v) @ [x]\<rparr>, win := W_clear x\<rparr>) st"
    using R W_show x by (auto simp: threads_rel locks_rel_def bitmaps_rel_def shows_rel_def)
  from step_stutters[OF I fis this] show ?thesis using W_show x by (auto simp: window_act_def Let_def)
next
  case (W_clear x)
  obtain n b where x: "x = (n, Some b)" using R W_clear by (cases x) (auto simp: threads_rel shows_rel_def)
  let ?q = "pqueue (frameNumBmpQueue (shared v))"
  have q: "pqueue (frameNumBmpQueue st) = x # ?q" "loadFrame st" using R W_clear by (auto simp: threads_rel bitmaps_rel_def shows_rel_def)
  let ?st' = "st\<lparr>frameNumBmpQueue := \<lparr>pqueue = ?q, pqueue_semaphore = length ?q\<rparr>, loadFrame := False,
    displayed := displayed st @ [x]\<rparr>"
  have "tspq_Pop tsq_timeout (frameNumBmpQueue st) = (Done x, \<lparr>pqueue = ?q, pqueue_semaphore = length ?q\<rparr>)"
    using inv_queues(3)[OF I] q by (cases "frameNumBmpQueue st") (simp add: tspq_defs)
  then have paint: "paint_step st = Done ?st'" using q x by (simp add: paint_step_def tspq_isEmpty_def)
  show ?thesis
    unfolding window_act_def Let_def W_clear window_pc.case
  proof (rule step_takes_round[where e = Paint])
    show "viewer_step decodeImage Paint st = Done ?st'" using paint by simp
    show "viewer_inv frames decodeImage t sq taken pending decoded ?st'" using paint_inv[OF I] paint by auto
    show "threads_rel frames decodeImage decoded (v\<lparr>shared := (shared v)\<lparr>loadFrame := False\<rparr>, win := W_unlock\<rparr>) ?st'"
      using R W_clear by (auto simp: threads_rel locks_rel_def bitmaps_rel_def shows_rel_def)
  qed (use fis in simp_all)
next
  case W_unlock
  have "threads_rel frames decodeImage decoded (v\<lparr>bmpMutex := None, win := W_lock\<rparr>) st"
    using R W_unlock by (auto simp: threads_rel locks_rel_def bitmaps_rel_def shows_rel_def)
  from step_stutters[OF I fis this] show ?thesis using W_unlock by (simp add: window_act_def)
qed

section \<open>The decoder and the consumer\<close>

lemma mid_entry_other [simp]: "g \<noteq> n \<Longrightarrow> mid_entry c (fr(n := x)) g = mid_entry c fr g"
  by (cases c) simp_all

lemma mid_entry_not: "packet_frame ` set (opened c) \<inter> {n} = {} \<Longrightarrow> mid_entry c fr n = fr n"
  by (cases c) auto

lemma mid_latest_other: "packet_frame ` set (opened c) \<inter> {n} = {} \<Longrightarrow> mid_latest c (fr(n := x)) l = mid_latest c fr l"
  by (cases c) (auto simp: mid_latest_def)

text \<open>The packet the consumer holds is the next fragment, and its frame is not complete.\<close>

lemma packet_facts:
  "packet_frame (datagram_of t sq frames (f, i) @ junk) = f"
  "pkt_type (decode_rtmp (datagram_of t sq frames (f, i) @ junk)) = PACKET_TYPE_STREAM"
proof -
  have dec: "decode_rtmp (datagram_of t sq frames (f, i) @ junk) = frame_header t PAYLOAD_SIZE f (frames f) (sq f) i"
    by (simp add: datagram_of_def frame_datagram_def)
  show "packet_frame (datagram_of t sq frames (f, i) @ junk) = f"
    "pkt_type (decode_rtmp (datagram_of t sq frames (f, i) @ junk)) = PACKET_TYPE_STREAM"
    unfolding packet_frame_def dec by (simp_all add: frame_header_def)
qed

lemma held_packet:
  assumes I: "viewer_inv frames decodeImage t sq taken pending decoded st"
    and ok: "fragments_ok frames (taken @ map fst pending)"
    and q: "queue (packetQueue st) = p # rest"
  shows "\<exists>f i junk pending'. pending = ((f, i), junk) # pending' \<and> p = datagram_of t sq frames (f, i) @ junk
    \<and> fragments_ok frames (taken @ [(f, i)]) \<and> packet_frame p = f \<and> pkt_type (decode_rtmp p) = PACKET_TYPE_STREAM
    \<and> f \<notin> set (completed (fold (arrive frames) taken no_arrivals))"
proof -
  obtain x pending' where p: "pending = x # pending'"
    using q inv_queues(4)[OF I] by (cases pending) auto
  obtain f i junk where x: "x = ((f, i), junk)" by (metis surj_pair)
  have ok1: "fragments_ok frames (taken @ [(f, i)])" using ok p x by (auto simp: fragments_ok_def)
  have pp: "p = datagram_of t sq frames (f, i) @ junk" using q inv_queues(4)[OF I] p x by simp
  have "packet_frame p = f" "pkt_type (decode_rtmp p) = PACKET_TYPE_STREAM" unfolding pp by (rule packet_facts)+
  with not_complete[OF ok1] ok1 p x pp show ?thesis
    by (intro exI[of _ f] exI[of _ i] exI[of _ junk] exI[of _ pending']) simp
qed

lemma opened_held: "p \<in> set (opened c) \<Longrightarrow> c_held c = [p]"
  by (cases c) auto

lemma opened_incomplete:
  assumes I: "viewer_inv frames decodeImage t sq taken pending decoded st"
    and ok: "fragments_ok frames (taken @ map fst pending)" and R: "threads_rel frames decodeImage decoded v st"
    and n: "n \<in> set (completed (fold (arrive frames) taken no_arrivals))"
  shows "packet_frame ` set (opened (csm v)) \<inter> {n} = {}"
proof -
  have "packet_frame p \<noteq> n" if "p \<in> set (opened (csm v))" for p
  proof -
    from opened_held[OF that] R have "queue (packetQueue st) = p # queue (packetQueue (shared v)) @ r_held (rcv v)"
      by (simp add: threads_rel packets_rel_def)
    from held_packet[OF I ok this] n show ?thesis by auto
  qed
  then show ?thesis by blast
qed

text \<open>The entry of a frame the decoder has taken.\<close>

lemma decoder_entry:
  assumes I: "viewer_inv frames decodeImage t sq taken pending decoded st" and ok: "fragments_ok frames taken"
    and q: "queue (frameNumQueue st) = n # rest"
  shows "\<exists>fb. activeFrames st n = Some fb \<and> chunks fb = frames n \<and> n \<notin> set decoded
    \<and> n \<in> set (completed (fold (arrive frames) taken no_arrivals))"
proof -
  let ?a = "fold (arrive frames) taken no_arrivals"
  have c: "completed ?a = decoded @ n # rest" using I q by (simp add: viewer_inv_def Let_def)
  moreover have "distinct (completed ?a)" using ok completed_distinct[of taken frames] by (simp add: fragments_ok_def)
  ultimately have n: "n \<notin> set decoded" "n \<in> set (completed ?a)" by auto
  from complete_buffer[OF ok n(2)] obtain fb where "buffer_of n (frames n) (arrived ?a n) = Some fb" "chunks fb = frames n"
    by blast
  with I n show ?thesis by (auto simp: viewer_inv_def Let_def)
qed

lemma decoder_step_at:
  assumes "queue (frameNumQueue st) = n # rest" and "queue_semaphore (frameNumQueue st) = length (queue (frameNumQueue st))"
    and "activeFrames st n = Some fb"
  shows "decoder_step decodeImage st = Done (st\<lparr>frameNumQueue := \<lparr>queue = rest, queue_semaphore = length rest\<rparr>,
    frameNumBmpQueue := (if decodeImage (chunks fb) = None then frameNumBmpQueue st
      else snd (tspq_Push CompareNumBmpPairs (n, decodeImage (chunks fb)) (frameNumBmpQueue st))),
    activeFrames := (activeFrames st)(n := None)\<rparr>)"
proof -
  have "tsq_Pop tsq_timeout (frameNumQueue st) = (Done n, \<lparr>queue = rest, queue_semaphore = length rest\<rparr>)"
    using assms(1,2) by (cases "frameNumQueue st") (simp add: tsq_defs)
  then show ?thesis using assms(1,3) by (simp add: decoder_step_def tsq_isEmpty_def Let_def)
qed

text \<open>The round of the decoder takes effect.\<close>

lemma decoder_commits:
  assumes I: "viewer_inv frames decodeImage t sq taken pending decoded st"
    and ok: "fragments_ok frames (taken @ map fst pending)" and fis: "taken @ map fst pending = fis"
    and R: "threads_rel frames decodeImage decoded v st" and small: "length taken < MAXINT"
    and q: "queue (frameNumQueue st) = n # rest"
    and R': "\<And>st' fb. activeFrames st n = Some fb \<Longrightarrow> chunks fb = frames n \<Longrightarrow> n \<notin> set decoded \<Longrightarrow>
      st' = st\<lparr>frameNumQueue := \<lparr>queue = rest, queue_semaphore = length rest\<rparr>,
        frameNumBmpQueue := (if decodeImage (frames n) = None then frameNumBmpQueue st
          else snd (tspq_Push CompareNumBmpPairs (n, decodeImage (frames n)) (frameNumBmpQueue st))),
        activeFrames := (activeFrames st)(n := None)\<rparr> \<Longrightarrow>
      packet_frame ` set (opened (csm v)) \<inter> {n} = {} \<Longrightarrow> threads_rel frames decodeImage (decoded @ [n]) v' st'"
  shows "step_ok frames decodeImage t sq fis [] (Done v') st"
proof -
  have okt: "fragments_ok frames taken" using ok by (simp add: fragments_ok_def)
  from decoder_entry[OF I okt q] obtain fb where fb: "activeFrames st n = Some fb" "chunks fb = frames n"
    "n \<notin> set decoded" "n \<in> set (completed (fold (arrive frames) taken no_arrivals))" by blast
  have "length (pqueue (frameNumBmpQueue st)) < MAXINT" using inv_lengths[OF I] small by linarith
  from decode_inv[OF I okt q this] obtain st' where
    st': "decoder_step decodeImage st = Done st'" "viewer_inv frames decodeImage t sq taken pending (decoded @ [n]) st'"
    by blast
  have "st' = st\<lparr>frameNumQueue := \<lparr>queue = rest, queue_semaphore = length rest\<rparr>,
      frameNumBmpQueue := (if decodeImage (frames n) = None then frameNumBmpQueue st
        else snd (tspq_Push CompareNumBmpPairs (n, decodeImage (frames n)) (frameNumBmpQueue st))),
      activeFrames := (activeFrames st)(n := None)\<rparr>"
    using decoder_step_at[where decodeImage = decodeImage, OF q inv_queues(2)[OF I] fb(1)] st'(1)
    unfolding fb(2) outcome.inject by (metis outcome.inject(1))
  from R'[OF fb(1-3) this opened_incomplete[OF I ok R fb(4)]]
  have R2: "threads_rel frames decodeImage (decoded @ [n]) v' st'" .
  show ?thesis by (rule step_takes_round[where e = Decode, OF _ st'(2) _ R2]) (use st'(1) fis in simp_all)
qed

lemma decoder_ok:
  assumes I: "viewer_inv frames decodeImage t sq taken pending decoded st" and fis: "taken @ map fst pending = fis"
    and R: "threads_rel frames decodeImage decoded v st"
    and ok: "fragments_ok frames (taken @ map fst pending)" and small: "length taken < MAXINT"
  shows "step_ok frames decodeImage t sq fis [] (decoder_act decodeImage v) st"
proof (cases "dcd v")
  case D_test
  show ?thesis
  proof (cases "tsq_isEmpty (frameNumQueue (shared v))")
    case True
    with step_stutters[OF I fis R] D_test show ?thesis by (simp add: decoder_act_def)
  next
    case False
    then have "threads_rel frames decodeImage decoded (v\<lparr>dcd := D_wait\<rparr>) st"
      using R D_test by (auto simp: threads_rel locks_rel_def numbers_rel_def bitmaps_rel_def frames_rel_def
          decoder_rel_def tsq_isEmpty_def)
    from step_stutters[OF I fis this] show ?thesis using D_test False by (simp add: decoder_act_def)
  qed
next
  case D_wait
  let ?q = "frameNumQueue (shared v)"
  show ?thesis
  proof (cases "0 < queue_semaphore ?q")
    case True
    have "threads_rel frames decodeImage decoded (v\<lparr>shared := (shared v)\<lparr>frameNumQueue :=
        ?q\<lparr>queue_semaphore := queue_semaphore ?q - 1\<rparr>\<rparr>, dcd := D_take\<rparr>) st"
      using R D_wait True by (auto simp: threads_rel locks_rel_def numbers_rel_def bitmaps_rel_def frames_rel_def decoder_rel_def)
    from step_stutters[OF I fis this] show ?thesis
      using True D_wait by (simp add: decoder_act_def tsq_wait_def wait_semaphore_def Let_def)
  qed (use D_wait in \<open>simp add: decoder_act_def tsq_wait_def wait_semaphore_def tsq_timeout_def step_ok_def\<close>)
next
  case D_take
  let ?q = "frameNumQueue (shared v)"
  from R D_take obtain n rest where q: "queue ?q = n # rest" by (cases "queue ?q") (auto simp: threads_rel numbers_rel_def)
  have "threads_rel frames decodeImage decoded (v\<lparr>shared := (shared v)\<lparr>frameNumQueue := ?q\<lparr>queue := rest\<rparr>\<rparr>, dcd := D_look n\<rparr>) st"
    using R D_take q by (auto simp: threads_rel locks_rel_def numbers_rel_def bitmaps_rel_def frames_rel_def decoder_rel_def)
  from step_stutters[OF I fis this] show ?thesis using D_take q by (simp add: decoder_act_def tsq_take_def Let_def)
next
  case (D_look n)
  have q: "queue (frameNumQueue st) = n # queue (frameNumQueue (shared v))"
    using R D_look by (simp add: threads_rel numbers_rel_def)
  have okt: "fragments_ok frames taken" using ok by (simp add: fragments_ok_def)
  from decoder_entry[OF I okt q] obtain fb where fb: "activeFrames st n = Some fb"
    "n \<in> set (completed (fold (arrive frames) taken no_arrivals))" by blast
  from mid_entry_not[OF opened_incomplete[OF I ok R fb(2)]] R D_look fb(1)
  have "activeFrames (shared v) n = Some fb" by (simp add: threads_rel frames_rel_def)
  then have same: "(activeFrames (shared v))(n := Some (case activeFrames (shared v) n of None \<Rightarrow> FrameBuffer | Some fb \<Rightarrow> fb))
      = activeFrames (shared v)" by auto
  have "threads_rel frames decodeImage decoded (v\<lparr>dcd := D_decode n\<rparr>) st"
    using R D_look by (auto simp: threads_rel locks_rel_def numbers_rel_def bitmaps_rel_def frames_rel_def decoder_rel_def)
  from step_stutters[OF I fis this] show ?thesis
    unfolding decoder_act_def Let_def D_look decoder_pc.case same by simp
next
  case (D_decode n)
  let ?q = "queue (frameNumQueue (shared v))"
  have q: "queue (frameNumQueue st) = n # ?q" using R D_decode by (simp add: threads_rel numbers_rel_def)
  have okt: "fragments_ok frames taken" using ok by (simp add: fragments_ok_def)
  from decoder_entry[OF I okt q] obtain fb where fb: "activeFrames st n = Some fb" "chunks fb = frames n"
    "n \<in> set (completed (fold (arrive frames) taken no_arrivals))" by blast
  from mid_entry_not[OF opened_incomplete[OF I ok R fb(3)]] R D_decode fb(1)
  have entry: "activeFrames (shared v) n = Some fb" by (simp add: threads_rel frames_rel_def)
  show ?thesis
  proof (cases "decodeImage (frames n)")
    case None
    then have act: "decoder_act decodeImage v = Done (v\<lparr>dcd := D_erase n\<rparr>)"
      using D_decode entry fb(2) by (simp add: decoder_act_def Let_def)
    have sem: "queue_semaphore (frameNumQueue (shared v)) + (if csm v = C_release then 1 else 0) = length ?q"
      using R D_decode by (simp add: threads_rel numbers_rel_def)
    show ?thesis unfolding act
      by (rule decoder_commits[OF I ok fis R small q])
        (use R D_decode None sem in \<open>auto simp: threads_rel locks_rel_def numbers_rel_def bitmaps_rel_def frames_rel_def
          decoder_rel_def mid_latest_other\<close>)
  next
    case (Some b)
    have "threads_rel frames decodeImage decoded (v\<lparr>dcd := D_lock n (Some b)\<rparr>) st"
      using R D_decode Some by (auto simp: threads_rel locks_rel_def numbers_rel_def bitmaps_rel_def frames_rel_def decoder_rel_def)
    from step_stutters[OF I fis this] show ?thesis
      using D_decode entry fb(2) Some by (simp add: decoder_act_def Let_def)
  qed
next
  case (D_lock n b)
  show ?thesis
  proof (cases "bmpMutex v = None")
    case True
    have "threads_rel frames decodeImage decoded (v\<lparr>bmpMutex := Some By_decoder, dcd := D_push n b\<rparr>) st"
      using R D_lock True by (auto simp: threads_rel locks_rel_def numbers_rel_def bitmaps_rel_def frames_rel_def
          decoder_rel_def split: if_splits)
    from step_stutters[OF I fis this] show ?thesis using True D_lock by (simp add: decoder_act_def)
  qed (use D_lock in \<open>auto simp: decoder_act_def step_ok_def\<close>)
next
  case (D_push n b)
  let ?q = "queue (frameNumQueue (shared v))" and ?bq = "frameNumBmpQueue (shared v)"
  have q: "queue (frameNumQueue st) = n # ?q" using R D_push by (simp add: threads_rel numbers_rel_def)
  have b: "b = decodeImage (frames n)" "b \<noteq> None" using R D_push by (auto simp: threads_rel decoder_rel_def)
  have w: "\<not> w_in (win v)" using R D_push by (simp add: threads_rel locks_rel_def)
  then have wl: "win v = W_lock" by (cases "win v") simp_all
  have act: "decoder_act decodeImage v = Done (v\<lparr>shared := (shared v)\<lparr>frameNumBmpQueue :=
      ?bq\<lparr>pqueue := pq_insert CompareNumBmpPairs (n, b) (pqueue ?bq)\<rparr>\<rparr>, dcd := D_release n\<rparr>)"
    using D_push by (simp add: decoder_act_def Let_def)
  have len: "length (pq_insert CompareNumBmpPairs x ys) = Suc (length ys)" for x :: "'a num_bmp" and ys
    by (metis mset_pq_insert size_add_mset size_mset)
  show ?thesis unfolding act
    by (rule decoder_commits[OF I ok fis R small q])
      (use R D_push b wl in \<open>auto simp: threads_rel locks_rel_def numbers_rel_def bitmaps_rel_def frames_rel_def
        decoder_rel_def mid_latest_other tspq_Push_def Let_def split_def len\<close>)
next
  case (D_release n)
  have "pqueue_semaphore (frameNumBmpQueue (shared v)) < length (pqueue (frameNumBmpQueue (shared v)))"
    "pqueue (frameNumBmpQueue st) = w_held (win v) @ pqueue (frameNumBmpQueue (shared v))"
    using R D_release by (simp_all add: threads_rel bitmaps_rel_def)
  then have "pqueue_semaphore (frameNumBmpQueue (shared v)) < MAXINT"
    using inv_lengths[OF I] small by simp
  then have "threads_rel frames decodeImage decoded (v\<lparr>shared := (shared v)\<lparr>frameNumBmpQueue := (frameNumBmpQueue (shared v))
      \<lparr>pqueue_semaphore := snd (release_semaphore (pqueue_semaphore (frameNumBmpQueue (shared v))))\<rparr>\<rparr>, dcd := D_unlock n\<rparr>) st"
    using R D_release by (auto simp: threads_rel locks_rel_def numbers_rel_def bitmaps_rel_def frames_rel_def
        decoder_rel_def release_semaphore_def)
  from step_stutters[OF I fis this] show ?thesis using D_release by (simp add: decoder_act_def Let_def)
next
  case (D_unlock n)
  have "threads_rel frames decodeImage decoded (v\<lparr>bmpMutex := None, dcd := D_erase n\<rparr>) st"
    using R D_unlock by (auto simp: threads_rel locks_rel_def numbers_rel_def bitmaps_rel_def frames_rel_def decoder_rel_def)
  from step_stutters[OF I fis this] show ?thesis using D_unlock by (simp add: decoder_act_def)
next
  case (D_erase n)
  have n: "n \<in> set decoded" using R D_erase by (simp add: threads_rel frames_rel_def)
  then have "n \<in> set (completed (fold (arrive frames) taken no_arrivals))" "activeFrames st n = None"
    using I by (auto simp: viewer_inv_def Let_def)
  then have "mid_entry (csm v) (activeFrames st) n = None"
    using mid_entry_not[OF opened_incomplete[OF I ok R]] by simp
  then have "threads_rel frames decodeImage decoded
      (v\<lparr>shared := (shared v)\<lparr>activeFrames := (activeFrames (shared v))(n := None)\<rparr>, dcd := D_test\<rparr>) st"
    using R D_erase by (auto simp: threads_rel locks_rel_def numbers_rel_def bitmaps_rel_def frames_rel_def decoder_rel_def)
  from step_stutters[OF I fis this] show ?thesis using D_erase by (simp add: decoder_act_def Let_def)
qed

text \<open>A packet of the stream is consumed by opening its entry, writing to it and reporting.\<close>

lemma consume_packet_parts:
  assumes "pkt_type (decode_rtmp p) = PACKET_TYPE_STREAM"
  shows "consume_packet p st = bind_outcome (write_entry p (open_buffer (decode_rtmp p) (activeFrames st (packet_frame p))))
    (\<lambda>fb. Done (st\<lparr>latestFrame := (if opens_buffer (activeFrames st (packet_frame p)) then packet_frame p else latestFrame st),
      activeFrames := (activeFrames st)(packet_frame p \<mapsto> fb),
      frameNumQueue := (if totalSize fb = expectedSize fb then snd (tsq_Push (packet_frame p) (frameNumQueue st))
        else frameNumQueue st)\<rparr>))"
proof -
  let ?fb = "open_buffer (decode_rtmp p) (activeFrames st (packet_frame p))"
  show ?thesis
    using assms
    by (cases "copy_payload PAYLOAD_SIZE (pkt_size (decode_rtmp p)) (offset (get_rtsmp (rtmp_data (decode_rtmp p)))) p (chunks ?fb)")
      (auto simp: consume_packet_def write_entry_def packet_frame_def Let_def)
qed

text \<open>The packet at the front of the queue, from its entry to what the consumer's round makes of it.\<close>

lemma consumer_round:
  assumes I: "viewer_inv frames decodeImage t sq taken pending decoded st"
    and ok: "fragments_ok frames (taken @ map fst pending)" and small: "length taken < MAXINT"
    and q: "queue (packetQueue st) = p # rest"
  obtains fb fi pending' st' where
    "write_entry p (open_buffer (decode_rtmp p) (activeFrames st (packet_frame p))) = Done fb"
    "consumer_step st = Done st'"
    "st' = st\<lparr>packetQueue := \<lparr>queue = rest, queue_semaphore = length rest\<rparr>,
      latestFrame := (if opens_buffer (activeFrames st (packet_frame p)) then packet_frame p else latestFrame st),
      activeFrames := (activeFrames st)(packet_frame p \<mapsto> fb),
      frameNumQueue := (if totalSize fb = expectedSize fb then snd (tsq_Push (packet_frame p) (frameNumQueue st))
        else frameNumQueue st)\<rparr>"
    "viewer_inv frames decodeImage t sq (taken @ [fi]) pending' decoded st'"
    "taken @ map fst pending = (taken @ [fi]) @ map fst pending'"
    "pkt_type (decode_rtmp p) = PACKET_TYPE_STREAM" "packet_frame p \<notin> set decoded"
proof -
  from held_packet[OF I ok q] obtain f i junk pending' where
    p: "pending = ((f, i), junk) # pending'" "fragments_ok frames (taken @ [(f, i)])" "packet_frame p = f"
      "pkt_type (decode_rtmp p) = PACKET_TYPE_STREAM" "f \<notin> set (completed (fold (arrive frames) taken no_arrivals))"
    by (elim exE conjE)
  from consume_inv[OF I[unfolded p(1)] p(2) small] obtain st' where
    st': "consumer_step st = Done st'" "viewer_inv frames decodeImage t sq (taken @ [(f, i)]) pending' decoded st'" by blast
  have "tsq_Pop tsq_timeout (packetQueue st) = (Done p, \<lparr>queue = rest, queue_semaphore = length rest\<rparr>)"
    using q inv_queues(1)[OF I] by (cases "packetQueue st") (simp add: tsq_defs)
  then have "consumer_step st = consume_packet p (st\<lparr>packetQueue := \<lparr>queue = rest, queue_semaphore = length rest\<rparr>\<rparr>)"
    using q by (simp add: consumer_step_def tsq_isEmpty_def)
  with st'(1) have "consume_packet p (st\<lparr>packetQueue := \<lparr>queue = rest, queue_semaphore = length rest\<rparr>\<rparr>) = Done st'" by simp
  from this[unfolded consume_packet_parts[OF p(4)]] obtain fb where
    "write_entry p (open_buffer (decode_rtmp p) (activeFrames st (packet_frame p))) = Done fb"
    "st' = st\<lparr>packetQueue := \<lparr>queue = rest, queue_semaphore = length rest\<rparr>,
      latestFrame := (if opens_buffer (activeFrames st (packet_frame p)) then packet_frame p else latestFrame st),
      activeFrames := (activeFrames st)(packet_frame p \<mapsto> fb),
      frameNumQueue := (if totalSize fb = expectedSize fb then snd (tsq_Push (packet_frame p) (frameNumQueue st))
        else frameNumQueue st)\<rparr>"
    by (auto split del: if_split cong: if_cong)
  moreover have "packet_frame p \<notin> set decoded" using I p(3,5) by (simp add: viewer_inv_def Let_def)
  ultimately show ?thesis using that[of fb st' "(f, i)" pending'] st' p by simp
qed

text \<open>An entry the decoder does not hold is, for the consumer, what it has made of it so far.\<close>

lemma consumer_entry:
  assumes "threads_rel frames decodeImage decoded v st" and "g \<notin> set decoded"
  shows "activeFrames (shared v) g = mid_entry (csm v) (activeFrames st) g"
  using assms by (auto simp: threads_rel frames_rel_def)

lemma consumer_ok:
  assumes I: "viewer_inv frames decodeImage t sq taken pending decoded st" and fis: "taken @ map fst pending = fis"
    and R: "threads_rel frames decodeImage decoded v st"
    and ok: "fragments_ok frames (taken @ map fst pending)" and small: "length taken < MAXINT"
  shows "step_ok frames decodeImage t sq fis [] (consumer_act v) st"
proof (cases "csm v")
  case C_test
  show ?thesis
  proof (cases "tsq_isEmpty (packetQueue (shared v))")
    case True
    with step_stutters[OF I fis R] C_test show ?thesis by (simp add: consumer_act_def)
  next
    case False
    then have "threads_rel frames decodeImage decoded (v\<lparr>csm := C_lock\<rparr>) st"
      using R C_test by (auto simp: threads_rel locks_rel_def packets_rel_def numbers_rel_def frames_rel_def
          mid_latest_def tsq_isEmpty_def)
    from step_stutters[OF I fis this] show ?thesis using C_test False by (simp add: consumer_act_def)
  qed
next
  case C_lock
  show ?thesis
  proof (cases "dataMutex v = None")
    case True
    have "threads_rel frames decodeImage decoded (v\<lparr>dataMutex := Some By_consumer, csm := C_wait\<rparr>) st"
      using R C_lock True by (auto simp: threads_rel locks_rel_def packets_rel_def numbers_rel_def frames_rel_def
          mid_latest_def split: if_splits)
    from step_stutters[OF I fis this] show ?thesis using True C_lock by (simp add: consumer_act_def)
  qed (use C_lock in \<open>auto simp: consumer_act_def step_ok_def\<close>)
next
  case C_wait
  let ?q = "packetQueue (shared v)"
  have "rcv v \<noteq> R_release" using R C_wait by (auto simp: threads_rel locks_rel_def)
  then have pos: "0 < queue_semaphore ?q" using R C_wait by (simp add: threads_rel packets_rel_def)
  have "threads_rel frames decodeImage decoded (v\<lparr>shared := (shared v)\<lparr>packetQueue :=
      ?q\<lparr>queue_semaphore := queue_semaphore ?q - 1\<rparr>\<rparr>, csm := C_take\<rparr>) st"
    using R C_wait pos by (auto simp: threads_rel locks_rel_def packets_rel_def numbers_rel_def frames_rel_def mid_latest_def)
  from step_stutters[OF I fis this] show ?thesis
    using pos C_wait by (simp add: consumer_act_def tsq_wait_def wait_semaphore_def Let_def)
next
  case C_take
  let ?q = "packetQueue (shared v)"
  from R C_take obtain p rest where q: "queue ?q = p # rest" by (cases "queue ?q") (auto simp: threads_rel packets_rel_def)
  then have "queue (packetQueue st) = p # rest @ r_held (rcv v)" using R C_take by (simp add: threads_rel packets_rel_def)
  from consumer_round[OF I ok small this] have ty: "pkt_type (decode_rtmp p) = PACKET_TYPE_STREAM" by blast
  have "threads_rel frames decodeImage decoded (v\<lparr>shared := (shared v)\<lparr>packetQueue := ?q\<lparr>queue := rest\<rparr>\<rparr>, csm := C_open p\<rparr>) st"
    using R C_take q by (auto simp: threads_rel locks_rel_def packets_rel_def numbers_rel_def frames_rel_def mid_latest_def)
  from step_stutters[OF I fis this] show ?thesis using C_take q ty by (simp add: consumer_act_def tsq_take_def Let_def)
next
  case (C_open p)
  let ?n = "packet_frame p"
  have "queue (packetQueue st) = p # queue (packetQueue (shared v)) @ r_held (rcv v)"
    using R C_open by (simp add: threads_rel packets_rel_def)
  from consumer_round[OF I ok small this] have n: "?n \<notin> set decoded" by blast
  from consumer_entry[OF R n] C_open have entry: "activeFrames (shared v) ?n = activeFrames st ?n" by simp
  have latest: "latestFrame (shared v) = latestFrame st" using R C_open by (simp add: threads_rel mid_latest_def)
  have "threads_rel frames decodeImage decoded (v\<lparr>shared := (shared v)
      \<lparr>activeFrames := (activeFrames (shared v))(?n \<mapsto> open_buffer (decode_rtmp p) (activeFrames st ?n)),
       latestFrame := (if opens_buffer (activeFrames st ?n) then ?n else latestFrame st)\<rparr>, csm := C_write p\<rparr>) st"
    using R C_open n by (auto simp: threads_rel locks_rel_def packets_rel_def numbers_rel_def frames_rel_def mid_latest_def)
  from step_stutters[OF I fis this] show ?thesis
    unfolding consumer_act_def Let_def C_open consumer_pc.case entry latest .
next
  case (C_write p)
  let ?n = "packet_frame p"
  have "queue (packetQueue st) = p # queue (packetQueue (shared v)) @ r_held (rcv v)"
    using R C_write by (simp add: threads_rel packets_rel_def)
  from consumer_round[OF I ok small this] obtain fb where n: "?n \<notin> set decoded"
    and fb: "write_entry p (open_buffer (decode_rtmp p) (activeFrames st ?n)) = Done fb" by metis
  from consumer_entry[OF R n] C_write have entry: "activeFrames (shared v) ?n = Some (open_buffer (decode_rtmp p) (activeFrames st ?n))"
    by simp
  have "threads_rel frames decodeImage decoded (v\<lparr>shared := (shared v)
      \<lparr>activeFrames := (activeFrames (shared v))(?n \<mapsto> fb)\<rparr>, csm := C_report p\<rparr>) st"
    using R C_write n fb by (auto simp: threads_rel locks_rel_def packets_rel_def numbers_rel_def frames_rel_def mid_latest_def)
  from step_stutters[OF I fis this] show ?thesis using C_write entry fb by (simp add: consumer_act_def Let_def)
next
  case (C_report p)
  let ?n = "packet_frame p" and ?rest = "queue (packetQueue (shared v)) @ r_held (rcv v)" and ?fq = "frameNumQueue (shared v)"
  have q: "queue (packetQueue st) = p # ?rest" using R C_report by (simp add: threads_rel packets_rel_def)
  obtain fb fi pending' st' where
    fb: "write_entry p (open_buffer (decode_rtmp p) (activeFrames st ?n)) = Done fb"
    and step: "consumer_step st = Done st'" and st': "st' = st\<lparr>packetQueue := \<lparr>queue = ?rest, queue_semaphore = length ?rest\<rparr>,
      latestFrame := (if opens_buffer (activeFrames st ?n) then ?n else latestFrame st),
      activeFrames := (activeFrames st)(?n \<mapsto> fb),
      frameNumQueue := (if totalSize fb = expectedSize fb then snd (tsq_Push ?n (frameNumQueue st)) else frameNumQueue st)\<rparr>"
    and I': "viewer_inv frames decodeImage t sq (taken @ [fi]) pending' decoded st'"
    and ghosts: "taken @ map fst pending = (taken @ [fi]) @ map fst pending'"
    and "pkt_type (decode_rtmp p) = PACKET_TYPE_STREAM" and n: "?n \<notin> set decoded"
    by (rule consumer_round[OF I ok small q])
  from consumer_entry[OF R n] C_report fb have entry: "activeFrames (shared v) ?n = Some fb" by simp
  let ?v = "if totalSize fb = expectedSize fb
    then v\<lparr>shared := (shared v)\<lparr>frameNumQueue := tsq_enqueue ?n ?fq\<rparr>, csm := C_release\<rparr> else v\<lparr>csm := C_unlock\<rparr>"
  have R': "threads_rel frames decodeImage decoded ?v st'"
    using R C_report n fb unfolding st'
    by (auto simp: threads_rel locks_rel_def packets_rel_def numbers_rel_def frames_rel_def mid_latest_def tsq_enqueue_def
        tsq.items_push)
  have act: "consumer_act v = Done ?v" using C_report entry by (simp add: consumer_act_def Let_def)
  show ?thesis unfolding act
    by (rule step_takes_round[where e = Consume, OF _ I' _ R']) (use step ghosts fis in simp_all)
next
  case C_release
  have "queue_semaphore (frameNumQueue (shared v)) < length (queue (frameNumQueue (shared v)))"
    "queue (frameNumQueue st) = d_held (dcd v) @ queue (frameNumQueue (shared v))"
    using R C_release by (simp_all add: threads_rel numbers_rel_def)
  moreover have "length (queue (frameNumQueue st)) \<le> length taken"
    using I completed_length[of frames taken no_arrivals] by (simp add: viewer_inv_def Let_def no_arrivals_def)
  ultimately have "queue_semaphore (frameNumQueue (shared v)) < MAXINT" using small by simp
  then have "threads_rel frames decodeImage decoded
      (v\<lparr>shared := (shared v)\<lparr>frameNumQueue := snd (tsq_release (frameNumQueue (shared v)))\<rparr>, csm := C_unlock\<rparr>) st"
    using R C_release by (auto simp: threads_rel locks_rel_def packets_rel_def numbers_rel_def frames_rel_def mid_latest_def
        tsq_release_def release_semaphore_def)
  from step_stutters[OF I fis this] show ?thesis using C_release by (simp add: consumer_act_def Let_def)
next
  case C_unlock
  have "threads_rel frames decodeImage decoded (v\<lparr>dataMutex := None, csm := C_test\<rparr>) st"
    using R C_unlock by (auto simp: threads_rel locks_rel_def packets_rel_def numbers_rel_def frames_rel_def mid_latest_def)
  from step_stutters[OF I fis this] show ?thesis using C_unlock by (simp add: consumer_act_def)
qed

section \<open>All runs\<close>

lemma rel_init: "threads_rel frames decodeImage [] threads_init client_init"
  by (simp add: threads_rel threads_init_def locks_rel_def packets_rel_def numbers_rel_def bitmaps_rel_def shows_rel_def
      frames_rel_def decoder_rel_def mid_latest_def client_init_def ThreadSafeQueue_def ThreadSafePrioQueue_def)

lemma receiver_no_fault: "receiver_act fresh dgram v \<noteq> Fault e"
  by (auto simp: receiver_act_def Let_def split: receiver_pc.split prod.split)

lemma step_related:
  assumes "related frames decodeImage t sq fis v st" and "fragments_ok frames (fis @ new)" and "length (fis @ new) < MAXINT"
    and "takes a v = map (datagram_of t sq frames) new"
    and "\<And>fresh d. a = Receiver_acts fresh d \<Longrightarrow> length fresh = CLIENT_PACKET_SIZE"
  shows "step_ok frames decodeImage t sq fis new (thread_step decodeImage a v) st"
proof -
  from assms(1) obtain taken pending decoded where
    ghosts: "taken @ map fst pending = fis" and I: "viewer_inv frames decodeImage t sq taken pending decoded st"
    and R: "threads_rel frames decodeImage decoded v st" by (auto simp: related_def)
  have ok: "fragments_ok frames (taken @ map fst pending)" using assms(2) ghosts by (auto simp: fragments_ok_def)
  have "length taken + length pending + length new = length (fis @ new)" using ghosts[symmetric] by simp
  with assms(3) have small: "length taken < MAXINT" "length pending < MAXINT" by linarith+
  show ?thesis
  proof (cases a)
    case (Receiver_acts fresh dgram)
    have "\<forall>fi \<in> set new. fragment frames fi" using assms(2) by (auto simp: fragments_ok_def)
    from receiver_ok[OF I ghosts R this assms(5)[OF Receiver_acts] _ small(2)] assms(4) Receiver_acts show ?thesis by simp
  qed (use assms(4) timer_ok[OF I ghosts R] window_ok[OF I ghosts R] decoder_ok[OF I ghosts R ok small(1)]
      consumer_ok[OF I ghosts R ok small(1)] in simp_all)
qed

lemma reach_related:
  assumes "threads_reach decodeImage ds v" and "ds = map (datagram_of t sq frames) fis"
    and "fragments_ok frames fis" and "length fis < MAXINT"
  shows "\<exists>es st. viewer_run decodeImage es client_init = Done st \<and> concat (map received es) = ds
    \<and> (\<forall>e \<in> set es. \<forall>fresh d. e = Receive fresh d \<longrightarrow> length fresh = CLIENT_PACKET_SIZE)
    \<and> related frames decodeImage t sq fis v st"
  using assms
proof (induction arbitrary: fis)
  case at_start
  then have "fis = []" by simp
  moreover have "related frames decodeImage t sq [] threads_init client_init"
    unfolding related_def using viewer_inv_init rel_init by fastforce
  ultimately show ?case by (intro exI[of _ "[]"] exI[of _ client_init]) simp
next
  case (and_step ds v a v')
  from and_step.prems(1) obtain xs new where fis: "fis = xs @ new" "ds = map (datagram_of t sq frames) xs"
    "takes a v = map (datagram_of t sq frames) new" by (auto simp: append_eq_map_conv)
  have "fragments_ok frames xs" "length xs < MAXINT" using and_step.prems(2,3) fis(1) by (auto simp: fragments_ok_def)
  from and_step.IH[OF fis(2) this] obtain es st where
    st: "viewer_run decodeImage es client_init = Done st" "concat (map received es) = ds"
      "\<forall>e \<in> set es. \<forall>fresh d. e = Receive fresh d \<longrightarrow> length fresh = CLIENT_PACKET_SIZE"
      "related frames decodeImage t sq xs v st" by blast
  have "step_ok frames decodeImage t sq xs new (thread_step decodeImage a v) st"
    by (rule step_related[OF st(4) and_step.prems(2,3)[unfolded fis(1)] fis(3)]) (rule and_step.hyps(3))
  with and_step.hyps(2) obtain es1 st1 where st1: "viewer_run decodeImage es1 st = Done st1" "related frames decodeImage t sq (xs @ new) v' st1"
    "concat (map received es1) = map (datagram_of t sq frames) new"
    "\<forall>e \<in> set es1. \<forall>fresh d. e = Receive fresh d \<longrightarrow> length fresh = CLIENT_PACKET_SIZE"
    by (auto simp: step_ok_def)
  show ?case
  proof (intro exI conjI)
    show "viewer_run decodeImage (es @ es1) client_init = Done st1" using st(1) st1(1) by (simp add: viewer_run_append)
    show "concat (map received (es @ es1)) = ds @ takes a v" using st(2) st1(3) fis(3) by simp
    show "\<forall>e \<in> set (es @ es1). \<forall>fresh d. e = Receive fresh d \<longrightarrow> length fresh = CLIENT_PACKET_SIZE"
      using st(3) st1(4) by auto
    show "related frames decodeImage t sq fis v' st1" using st1(2) fis(1) by simp
  qed
qed

text \<open>The window's round finished: what it has shown is what the rounds have shown.\<close>

lemma related_shown:
  assumes "related frames decodeImage t sq fis v st"
  shows "\<exists>es st'. viewer_run decodeImage es st = Done st' \<and> displayed st' = displayed (shared v)
    \<and> concat (map received es) = [] \<and> (\<forall>e \<in> set es. \<forall>fresh d. e \<noteq> Receive fresh d)
    \<and> (\<exists>taken pending decoded. taken @ map fst pending = fis \<and> viewer_inv frames decodeImage t sq taken pending decoded st')
    \<and> (win v = W_lock \<longrightarrow> st' = st)"
proof -
  from assms obtain taken pending decoded where g: "taken @ map fst pending = fis"
    and I: "viewer_inv frames decodeImage t sq taken pending decoded st"
    and R: "threads_rel frames decodeImage decoded v st" by (auto simp: related_def)
  show ?thesis
  proof (cases "w_shown (win v)")
    case Nil
    with R have "displayed st = displayed (shared v)" by (simp add: threads_rel shows_rel_def)
    with I g show ?thesis by (intro exI[of _ "[]"] exI[of _ st]) auto
  next
    case (Cons x xs)
    then have w: "win v = W_clear x" "w_shown (win v) = [x]" by (cases "win v"; simp)+
    have lf: "loadFrame st" "snd x \<noteq> None" using R w by (auto simp: threads_rel shows_rel_def)
    let ?q = "pqueue (frameNumBmpQueue (shared v))"
    have q: "pqueue (frameNumBmpQueue st) = x # ?q" using R w by (simp add: threads_rel bitmaps_rel_def)
    have "tspq_Pop tsq_timeout (frameNumBmpQueue st) = (Done x, \<lparr>pqueue = ?q, pqueue_semaphore = length ?q\<rparr>)"
      using inv_queues(3)[OF I] q by (cases "frameNumBmpQueue st") (simp add: tspq_defs)
    then have "\<exists>st'. paint_step st = Done st' \<and> displayed st' = displayed st @ [x]"
      using lf q by (cases x) (simp add: paint_step_def tspq_isEmpty_def)
    moreover have "displayed (shared v) = displayed st @ [x]" using R w by (simp add: threads_rel shows_rel_def)
    ultimately obtain st' where st': "paint_step st = Done st'" "displayed st' = displayed (shared v)" by auto
    moreover have "viewer_inv frames decodeImage t sq taken pending decoded st'" using paint_inv[OF I] st'(1) by auto
    ultimately show ?thesis using g w(1) by (intro exI[of _ "[Paint]"] exI[of _ st']) auto
  qed
qed

lemma related_at_rest:
  assumes "related frames decodeImage t sq fis v st"
    and "rcv v = R_recv" "csm v = C_test" "dcd v = D_test" "win v = W_lock"
  shows "shared v = st"
proof -
  from assms(1) obtain taken pending decoded where I: "viewer_inv frames decodeImage t sq taken pending decoded st"
    and R: "threads_rel frames decodeImage decoded v st" by (auto simp: related_def)
  let ?s = "shared v"
  have "packetQueue ?s = packetQueue st" "frameNumQueue ?s = frameNumQueue st"
    using R assms(2-5) inv_queues(1,2)[OF I] by (auto simp: threads_rel packets_rel_def numbers_rel_def intro!: tsqueue.equality)
  moreover have "frameNumBmpQueue ?s = frameNumBmpQueue st"
    using R assms(2-5) inv_queues(3)[OF I] by (auto simp: threads_rel bitmaps_rel_def intro!: tspqueue.equality)
  moreover have "activeFrames ?s = activeFrames st"
    using R assms(2-5) by (auto simp: threads_rel frames_rel_def)
  moreover have "latestFrame ?s = latestFrame st" "loadFrame ?s = loadFrame st" "acks ?s = acks st" "displayed ?s = displayed st"
    using R assms(2-5) by (simp_all add: threads_rel shows_rel_def mid_latest_def)
  ultimately show ?thesis by (intro client_state.equality) simp_all
qed

end
