(* ===== verification/ViewerRaces.thy ===== *)
theory ViewerRaces
  imports ViewerThreads
begin

text \<open>
  What the small steps of the viewer's threads (\<open>ViewerThreads\<close>) can do: they show whole frames and do
  not deadlock while no fragment comes twice; a fragment that comes twice can make the consumer write
  to an entry that the decoder has erased.
\<close>

section \<open>Waiting\<close>

text \<open>
  The thread that a blocked thread waits for, and how many of its own steps that thread is at most
  from giving up what it holds.
\<close>

fun waits_for :: "thread_act \<Rightarrow> 'bmp viewer_threads \<Rightarrow> thread_act" where
  "waits_for (Receiver_acts fresh dgram) v = Consumer_acts"
| "waits_for Consumer_acts v = Receiver_acts [] None"
| "waits_for Decoder_acts v = (if dcd v = D_wait then Consumer_acts else Window_acts)"
| "waits_for Timer_acts v = Timer_acts"
| "waits_for Window_acts v = Decoder_acts"

fun steps_left :: "thread_act \<Rightarrow> 'bmp viewer_threads \<Rightarrow> nat" where
  "steps_left (Receiver_acts fresh dgram) v = (case rcv v of R_push p \<Rightarrow> 3 | R_release \<Rightarrow> 2 | R_unlock \<Rightarrow> 1 | _ \<Rightarrow> 0)"
| "steps_left Consumer_acts v = (case csm v of C_wait \<Rightarrow> 7 | C_take \<Rightarrow> 6 | C_open p \<Rightarrow> 5 | C_write p \<Rightarrow> 4
     | C_report p \<Rightarrow> 3 | C_release \<Rightarrow> 2 | C_unlock \<Rightarrow> 1 | _ \<Rightarrow> 0)"
| "steps_left Decoder_acts v = (case dcd v of D_push n b \<Rightarrow> 3 | D_release n \<Rightarrow> 2 | D_unlock n \<Rightarrow> 1 | _ \<Rightarrow> 0)"
| "steps_left Timer_acts v = 0"
| "steps_left Window_acts v = (case win v of W_test \<Rightarrow> 6 | W_wait \<Rightarrow> 5 | W_take \<Rightarrow> 4 | W_show x \<Rightarrow> 3 | W_clear x \<Rightarrow> 2
     | W_unlock \<Rightarrow> 1 | W_lock \<Rightarrow> 0)"

text \<open>A thread inside a critical section can go on: what its queue owes it is there.\<close>

lemma receiver_goes_on:
  "r_in (rcv v) \<Longrightarrow> \<exists>v'. receiver_act fresh dgram v = Done v'
    \<and> steps_left (Receiver_acts fresh dgram) v' < steps_left (Receiver_acts fresh dgram) v"
  by (cases "rcv v") (simp_all add: receiver_act_def Let_def)

lemma consumer_goes_on:
  assumes R: "threads_rel frames decodeImage decoded v st" and "c_in (csm v)" and nf: "\<And>e. consumer_act v \<noteq> Fault e"
  shows "\<exists>v'. consumer_act v = Done v' \<and> steps_left Consumer_acts v' < steps_left Consumer_acts v"
proof (cases "csm v")
  case C_wait
  then have "rcv v \<noteq> R_release" using R by (auto simp: threads_rel locks_rel_def)
  then have "0 < queue_semaphore (packetQueue (shared v))" using R C_wait by (simp add: threads_rel packets_rel_def)
  with C_wait show ?thesis by (simp add: consumer_act_def tsq_wait_def wait_semaphore_def Let_def)
next
  case C_take
  then have "queue (packetQueue (shared v)) \<noteq> []" using R by (simp add: threads_rel packets_rel_def)
  with C_take show ?thesis by (cases "queue (packetQueue (shared v))") (simp_all add: consumer_act_def tsq_take_def Let_def)
next
  case (C_write p)
  then obtain fb where fb: "activeFrames (shared v) (packet_frame p) = Some fb"
    using nf[of Mem_fault] by (cases "activeFrames (shared v) (packet_frame p)") (simp_all add: consumer_act_def Let_def)
  have "write_entry p fb \<noteq> Blocks"
    by (simp add: write_entry_def copy_payload_def mem_read_def mem_write_def Let_def)
  with C_write fb nf show ?thesis
    by (cases "write_entry p fb") (auto simp: consumer_act_def Let_def)
next
  case (C_report p)
  then show ?thesis using nf[of Mem_fault]
    by (cases "activeFrames (shared v) (packet_frame p)") (simp_all add: consumer_act_def Let_def)
qed (use assms(2) in \<open>simp_all add: consumer_act_def Let_def\<close>)

lemma decoder_goes_on:
  "d_in (dcd v) \<Longrightarrow> \<exists>v'. decoder_act decodeImage v = Done v' \<and> steps_left Decoder_acts v' < steps_left Decoder_acts v"
  by (cases "dcd v") (simp_all add: decoder_act_def Let_def)

lemma window_goes_on:
  assumes R: "threads_rel frames decodeImage decoded v st" and "w_in (win v)"
  shows "\<exists>v'. window_act v = Done v' \<and> steps_left Window_acts v' < steps_left Window_acts v"
proof (cases "win v")
  case W_wait
  have "\<not> d_in (dcd v)" using R W_wait by (simp add: threads_rel locks_rel_def)
  then have "0 < pqueue_semaphore (frameNumBmpQueue (shared v))" using R W_wait by (simp add: threads_rel bitmaps_rel_def)
  with W_wait show ?thesis by (simp add: window_act_def wait_semaphore_def Let_def)
next
  case W_take
  have "pqueue (frameNumBmpQueue (shared v)) \<noteq> []" using R W_take by (simp add: threads_rel bitmaps_rel_def)
  with W_take show ?thesis by (cases "pqueue (frameNumBmpQueue (shared v))") (simp_all add: window_act_def Let_def)
qed (use assms(2) in \<open>simp_all add: window_act_def Let_def\<close>)

text \<open>A blocked thread waits for one that is inside.\<close>

lemma blocked_waits:
  assumes R: "threads_rel frames decodeImage decoded v st" and b: "thread_step decodeImage a v = Blocks"
  shows "(\<exists>fresh dgram. a = Receiver_acts fresh dgram) \<and> c_in (csm v) \<or> a = Consumer_acts \<and> r_in (rcv v)
    \<or> a = Decoder_acts \<and> dcd v = D_wait \<and> csm v = C_release \<or> a = Decoder_acts \<and> dcd v \<noteq> D_wait \<and> w_in (win v)
    \<or> a = Window_acts \<and> d_in (dcd v)"
proof (cases a)
  case (Receiver_acts fresh dgram)
  then have "dataMutex v \<noteq> None" "\<not> r_in (rcv v)"
    using b by (auto simp: receiver_act_def Let_def split: receiver_pc.splits prod.splits if_splits)
  then show ?thesis using R Receiver_acts by (auto simp: threads_rel locks_rel_def split: if_splits)
next
  case Consumer_acts
  show ?thesis
  proof (cases "c_in (csm v)")
    case True
    have nb: "\<And>p fb. write_entry p fb \<noteq> Blocks"
      by (simp add: write_entry_def copy_payload_def mem_read_def mem_write_def Let_def)
    have "csm v = C_wait" using b Consumer_acts True nb
      by (cases "csm v") (auto simp: consumer_act_def tsq_take_def Let_def split: option.splits list.splits outcome.splits if_splits
          elim!: bind_outcome.elims)
    moreover from this R have "rcv v \<noteq> R_release" by (auto simp: threads_rel locks_rel_def)
    ultimately have "0 < queue_semaphore (packetQueue (shared v))" using R by (simp add: threads_rel packets_rel_def)
    with b Consumer_acts \<open>csm v = C_wait\<close> show ?thesis by (simp add: consumer_act_def tsq_wait_def wait_semaphore_def Let_def)
  next
    case False
    then have "dataMutex v \<noteq> None" using b Consumer_acts by (cases "csm v") (auto simp: consumer_act_def split: if_splits)
    then show ?thesis using R False Consumer_acts by (auto simp: threads_rel locks_rel_def split: if_splits)
  qed
next
  case Decoder_acts
  then consider "dcd v = D_wait" "queue_semaphore (frameNumQueue (shared v)) = 0"
    | n x where "dcd v = D_lock n x" "bmpMutex v \<noteq> None"
    using b by (cases "dcd v") (auto simp: decoder_act_def Let_def tsq_wait_def wait_semaphore_def tsq_take_def
        split: option.splits list.splits if_splits)
  then show ?thesis
  proof cases
    case 1
    then have "csm v = C_release" using R by (auto simp: threads_rel numbers_rel_def split: if_splits)
    with 1 Decoder_acts show ?thesis by simp
  next
    case 2
    then show ?thesis using R Decoder_acts by (auto simp: threads_rel locks_rel_def split: if_splits)
  qed
next
  case Window_acts
  show ?thesis
  proof (cases "w_in (win v)")
    case True
    from window_goes_on[OF R this] b Window_acts show ?thesis by simp
  next
    case False
    then have "bmpMutex v \<noteq> None" using b Window_acts by (cases "win v") (auto simp: window_act_def split: if_splits)
    then show ?thesis using R False Window_acts by (auto simp: threads_rel locks_rel_def split: if_splits)
  qed
qed (use b in simp)

section \<open>Rounds without interruption\<close>

fun threads_run :: "(BYTE list \<Rightarrow> 'bmp option) \<Rightarrow> thread_act list \<Rightarrow> 'bmp viewer_threads \<Rightarrow> 'bmp viewer_threads outcome" where
  "threads_run decodeImage [] v = Done v"
| "threads_run decodeImage (a # as) v = bind_outcome (thread_step decodeImage a v) (threads_run decodeImage as)"

lemma threads_run_append:
  "threads_run decodeImage (as @ bs) v = bind_outcome (threads_run decodeImage as v) (threads_run decodeImage bs)"
proof (induction "as" arbitrary: v)
  case (Cons a "as")
  then show ?case by (cases "thread_step decodeImage a v") simp_all
qed (simp del: bind_outcome_Done)

lemma run_reach:
  assumes "threads_reach decodeImage ds v" and "threads_run decodeImage as v = Done v'"
    and "\<forall>a \<in> set as. \<forall>fresh d. a = Receiver_acts fresh d \<longrightarrow> d = None \<and> length fresh = CLIENT_PACKET_SIZE"
  shows "threads_reach decodeImage ds v'"
  using assms
proof (induction "as" arbitrary: v)
  case (Cons a "as")
  then obtain v1 where v1: "thread_step decodeImage a v = Done v1" "threads_run decodeImage as v1 = Done v'" by auto
  have "threads_reach decodeImage (ds @ takes a v) v1"
    by (rule threads_reach.and_step[OF Cons.prems(1) v1(1)]) (use Cons.prems(3) in simp)
  moreover have "takes a v = []" using Cons.prems(3) by (cases "(a, v)" rule: takes.cases) auto
  ultimately have "threads_reach decodeImage ds v1" by simp
  from Cons.IH[OF this v1(2)] Cons.prems(3) show ?case by simp
qed simp

lemma receiver_solo:
  assumes "threads_reach decodeImage ds v" and "rcv v = R_recv" "dataMutex v = None"
    and "length d \<le> length fresh" and "length fresh = CLIENT_PACKET_SIZE"
  shows "threads_reach decodeImage (ds @ [d]) (v\<lparr>shared := receiver_step fresh (Some d) (shared v)\<rparr>)"
proof -
  let ?p = "d @ drop (length d) fresh" and ?a = "Receiver_acts fresh (Some d)" and ?s = "shared v"
  let ?v1 = "v\<lparr>shared := ?s\<lparr>acks := acks ?s @ [encode_rtmp (ack_packet (decode_rtmp ?p))]\<rparr>, rcv := R_lock ?p\<rparr>"
  let ?v2 = "?v1\<lparr>dataMutex := Some By_receiver, rcv := R_push ?p\<rparr>"
  let ?v3 = "?v2\<lparr>shared := (shared ?v2)\<lparr>packetQueue := tsq_enqueue ?p (packetQueue ?s)\<rparr>, rcv := R_release\<rparr>"
  let ?v4 = "?v3\<lparr>shared := (shared ?v3)\<lparr>packetQueue := snd (tsq_release (tsq_enqueue ?p (packetQueue ?s)))\<rparr>, rcv := R_unlock\<rparr>"
  let ?v5 = "?v4\<lparr>dataMutex := None, rcv := R_recv\<rparr>"
  note step = threads_reach.and_step[where a = ?a]
  have "threads_reach decodeImage (ds @ takes ?a v) ?v1"
    by (rule step[OF assms(1)]) (use assms in \<open>auto simp: receiver_act_def winsock_recvfrom_def Let_def\<close>)
  then have r1: "threads_reach decodeImage (ds @ [d]) ?v1" using assms(2) by simp
  have "threads_reach decodeImage ((ds @ [d]) @ takes ?a ?v1) ?v2"
    by (rule step[OF r1]) (use assms in \<open>auto simp: receiver_act_def\<close>)
  then have r2: "threads_reach decodeImage (ds @ [d]) ?v2" by simp
  have "threads_reach decodeImage ((ds @ [d]) @ takes ?a ?v2) ?v3"
    by (rule step[OF r2]) (use assms in \<open>auto simp: receiver_act_def Let_def\<close>)
  then have r3: "threads_reach decodeImage (ds @ [d]) ?v3" by simp
  have "threads_reach decodeImage ((ds @ [d]) @ takes ?a ?v3) ?v4"
    by (rule step[OF r3]) (use assms in \<open>auto simp: receiver_act_def Let_def\<close>)
  then have r4: "threads_reach decodeImage (ds @ [d]) ?v4" by simp
  have "threads_reach decodeImage ((ds @ [d]) @ takes ?a ?v4) ?v5"
    by (rule step[OF r4]) (use assms in \<open>auto simp: receiver_act_def Let_def\<close>)
  then have "threads_reach decodeImage (ds @ [d]) ?v5" by simp
  moreover have "?v5 = v\<lparr>shared := receiver_step fresh (Some d) ?s\<rparr>"
    using assms by (simp add: receiver_step_def winsock_recvfrom_def tsq_Push_def Let_def)
  ultimately show ?thesis by simp
qed

text \<open>The consumer up to the packet's entry, and through its round.\<close>

lemma consumer_opens:
  assumes "csm v = C_test" "dataMutex v = None" "packetQueue (shared v) = \<lparr>queue = p # rest, queue_semaphore = Suc k\<rparr>"
    and "pkt_type (decode_rtmp p) = PACKET_TYPE_STREAM"
  shows "threads_run decodeImage (replicate 5 Consumer_acts) v = Done (v\<lparr>dataMutex := Some By_consumer, csm := C_write p,
    shared := (shared v)\<lparr>packetQueue := \<lparr>queue = rest, queue_semaphore = k\<rparr>,
      activeFrames := (activeFrames (shared v))(packet_frame p \<mapsto> open_buffer (decode_rtmp p) (activeFrames (shared v) (packet_frame p))),
      latestFrame := (if opens_buffer (activeFrames (shared v) (packet_frame p)) then packet_frame p else latestFrame (shared v))\<rparr>\<rparr>)"
  using assms
  by (simp add: eval_nat_numeral consumer_act_def tsq_defs Let_def split del: if_split cong: if_cong)

lemma consumer_solo:
  assumes v: "csm v = C_test" "dataMutex v = None" "packetQueue (shared v) = \<lparr>queue = p # rest, queue_semaphore = Suc k\<rparr>"
    and ty: "pkt_type (decode_rtmp p) = PACKET_TYPE_STREAM" and st': "consumer_step (shared v) = Done st'"
    and full: "frameNumQueue st' \<noteq> frameNumQueue (shared v)"
  shows "threads_run decodeImage (replicate 9 Consumer_acts) v = Done (v\<lparr>shared := st'\<rparr>)"
proof -
  let ?s = "(shared v)\<lparr>packetQueue := \<lparr>queue = rest, queue_semaphore = k\<rparr>\<rparr>" and ?n = "packet_frame p"
  have "consumer_step (shared v) = consume_packet p ?s"
    using v(3) by (simp add: consumer_step_def tsq_defs)
  with st' have c: "consume_packet p ?s = Done st'" by simp
  from c[unfolded consume_packet_parts[OF ty]] obtain fb where
    fb: "write_entry p (open_buffer (decode_rtmp p) (activeFrames (shared v) ?n)) = Done fb"
    and eq: "st' = ?s\<lparr>latestFrame := (if opens_buffer (activeFrames (shared v) ?n) then ?n else latestFrame (shared v)),
      activeFrames := (activeFrames (shared v))(?n \<mapsto> fb),
      frameNumQueue := (if totalSize fb = expectedSize fb then snd (tsq_Push ?n (frameNumQueue (shared v)))
        else frameNumQueue (shared v))\<rparr>"
    by (auto split del: if_split cong: if_cong)
  have tot: "totalSize fb = expectedSize fb" using full eq by (auto split: if_splits)
  have nine: "replicate 9 Consumer_acts = replicate 5 Consumer_acts @ replicate 4 Consumer_acts"
    by (simp add: replicate_add[symmetric])
  show ?thesis
    unfolding nine threads_run_append consumer_opens[OF v ty] bind_outcome.simps
    using fb tot eq v(1,2)
    by (simp add: eval_nat_numeral consumer_act_def tsq_Push_def Let_def split del: if_split)
qed

text \<open>The decoder through its round.\<close>

lemma decoder_erases:
  assumes "dcd v = D_test" "bmpMutex v = None" "frameNumQueue (shared v) = \<lparr>queue = n # rest, queue_semaphore = Suc k\<rparr>"
    and "activeFrames (shared v) n = Some fb"
  shows "\<exists>m v'. threads_run decodeImage (replicate m Decoder_acts) v = Done v' \<and> activeFrames (shared v') n = None
    \<and> csm v' = csm v"
proof (cases "decodeImage (chunks fb)")
  case None
  show ?thesis
    by (rule exI[of _ 6]) (use assms None in \<open>simp add: eval_nat_numeral decoder_act_def tsq_defs Let_def\<close>)
next
  case (Some b)
  show ?thesis
    by (rule exI[of _ 10]) (use assms Some in \<open>simp add: eval_nat_numeral decoder_act_def tsq_defs Let_def\<close>)
qed

lemma maxint: "0 < MAXINT" by (simp add: MAXINT_def)

text \<open>A frame of one packet, received and consumed; and then decoded and painted.\<close>

lemma one_packet_complete:
  fixes decodeImage :: "BYTE list \<Rightarrow> 'bmp option"
  assumes F: "fragment frames (f, 0)" and one: "frames f \<noteq> []" "k_of (frames f) = 1"
    and fresh: "length fresh = CLIENT_PACKET_SIZE"
  obtains st :: "'bmp client_state" and fb where
    "consumer_step (receiver_step fresh (Some (datagram_of t sq frames (f, 0))) client_init) = Done st"
    "frameNumQueue st = \<lparr>queue = [f], queue_semaphore = Suc 0\<rparr>" "packetQueue st = \<lparr>queue = [], queue_semaphore = 0\<rparr>"
    "activeFrames st f = Some fb" "chunks fb = frames f" "displayed st = []"
    "frameNumBmpQueue st = \<lparr>pqueue = [], pqueue_semaphore = 0\<rparr>"
proof -
  let ?d = "datagram_of t sq frames (f, 0)" and ?a = "fold (arrive frames) [(f, 0)] no_arrivals"
  have ok: "fragments_ok frames [(f, 0)]" using F by (simp add: fragments_ok_def)
  from receive_inv[where decodeImage = "\<lambda>_. None" and t = t and sq = sq, OF viewer_inv_init F fresh] obtain junk where
    I1: "viewer_inv frames (\<lambda>_. None) t sq [] [((f, 0), junk)] [] (receiver_step fresh (Some ?d) client_init :: 'bmp client_state)"
    by (auto simp: MAXINT_def)
  from consume_inv[OF I1] ok obtain st :: "'bmp client_state" where
    st: "consumer_step (receiver_step fresh (Some ?d) client_init) = Done st"
    and I: "viewer_inv frames (\<lambda>_. None) t sq [(f, 0)] [] [] st" by (auto simp: MAXINT_def)
  have "fragments_ok (\<lambda>_. frames f) [(f, 0)]" using F by (simp add: fragments_ok_def fragment_def)
  from one_frame_completes[OF this one(1)] one(2) have done_f: "completed ?a = [f]"
    by (simp add: arrive_def lessThan_Suc)
  have here: "arrived ?a f = [0]" by (simp add: arrive_def no_arrivals_def Let_def)
  have full: "partial_frame PAYLOAD_SIZE (frames f) {0} = frames f"
    using partial_frame_full[of PAYLOAD_SIZE "frames f"] one(2) by (simp add: k_of_def lessThan_Suc)
  have "activeFrames st f = buffer_of f (frames f) (arrived ?a f)"
    using I by (simp add: viewer_inv_def Let_def del: fold.simps)
  then have "activeFrames st f = Some (filled f (frames f) [0])" unfolding here by (simp add: buffer_of_def)
  moreover have "chunks (filled f (frames f) [0]) = frames f" using full by (simp add: filled_def)
  moreover have q: "[f] = queue (frameNumQueue st)" "queue (packetQueue st) = []" "queue_semaphore (packetQueue st) = 0"
    "queue_semaphore (frameNumQueue st) = length (queue (frameNumQueue st))"
    using I done_f by (simp_all add: viewer_inv_def Let_def del: fold.simps)
  then have "frameNumQueue st = \<lparr>queue = [f], queue_semaphore = Suc 0\<rparr>" "packetQueue st = \<lparr>queue = [], queue_semaphore = 0\<rparr>"
    by (auto simp: q(1)[symmetric] intro!: tsqueue.equality)
  moreover have "displayed st = []" "pqueue (frameNumBmpQueue st) = []" "pqueue_semaphore (frameNumBmpQueue st) = 0"
    using I by (auto simp: viewer_inv_def Let_def simp del: fold.simps)
  ultimately show thesis by (intro that[OF st]) (auto intro!: tspqueue.equality)
qed

lemma one_packet_taken:
  fixes decodeImage :: "BYTE list \<Rightarrow> 'bmp option"
  assumes F: "fragment frames (f, 0)" "frames f \<noteq> []" "k_of (frames f) = 1" and fresh: "length fresh = CLIENT_PACKET_SIZE"
  obtains v1 fb v where
    "thread_step decodeImage (Receiver_acts fresh (Some (datagram_of t sq frames (f, 0)))) threads_init = Done v1"
    "threads_run decodeImage (replicate 4 (Receiver_acts fresh None) @ replicate 9 Consumer_acts) v1 = Done v"
    "rcv v = R_recv" "csm v = C_test" "dcd v = D_test" "win v = W_lock" "dataMutex v = None" "bmpMutex v = None"
    "frameNumQueue (shared v) = \<lparr>queue = [f], queue_semaphore = Suc 0\<rparr>"
    "packetQueue (shared v) = \<lparr>queue = [], queue_semaphore = 0\<rparr>" "activeFrames (shared v) f = Some fb" "chunks fb = frames f"
    "displayed (shared v) = []" "frameNumBmpQueue (shared v) = \<lparr>pqueue = [], pqueue_semaphore = 0\<rparr>"
proof -
  let ?d = "datagram_of t sq frames (f, 0)" and ?v0 = "threads_init :: 'bmp viewer_threads"
  define p where "p = ?d @ drop (length ?d) fresh"
  have len: "length ?d \<le> length fresh" using fragment_bounds(5)[OF F(1)] fresh
    by (simp add: datagram_of_def length_frame_datagram CLIENT_PACKET_SIZE_def)
  have ty: "pkt_type (decode_rtmp p) = PACKET_TYPE_STREAM" unfolding p_def by (rule packet_facts)
  let ?v1 = "?v0\<lparr>shared := client_init\<lparr>acks := [encode_rtmp (ack_packet (decode_rtmp p))]\<rparr>, rcv := R_lock p\<rparr>"
  let ?v2 = "?v0\<lparr>shared := receiver_step fresh (Some ?d) client_init\<rparr>"
  have init: "rcv ?v0 = R_recv" "dataMutex ?v0 = None" "csm ?v0 = C_test" "shared ?v0 = client_init"
    "dcd ?v0 = D_test" "win ?v0 = W_lock" "bmpMutex ?v0 = None" "acks (client_init :: 'bmp client_state) = []"
    by (simp_all add: threads_init_def client_init_def)
  have 1: "thread_step decodeImage (Receiver_acts fresh (Some ?d)) ?v0 = Done ?v1"
    using len init by (simp add: receiver_act_def winsock_recvfrom_def p_def Let_def)
  have rs: "receiver_step fresh (Some ?d) (client_init :: 'bmp client_state) = client_init\<lparr>acks := [encode_rtmp (ack_packet (decode_rtmp p))],
      packetQueue := snd (tsq_Push p (packetQueue (client_init :: 'bmp client_state)))\<rparr>"
    using len init by (simp add: receiver_step_def winsock_recvfrom_def p_def)
  have 2: "threads_run decodeImage (replicate 4 (Receiver_acts fresh None)) ?v1 = Done ?v2"
    unfolding rs using init by (simp add: eval_nat_numeral receiver_act_def tsq_Push_def Let_def threads_init_def)
  obtain st :: "'bmp client_state" and fb where
    st: "consumer_step (receiver_step fresh (Some ?d) client_init) = Done st" "frameNumQueue st = \<lparr>queue = [f], queue_semaphore = Suc 0\<rparr>"
      "packetQueue st = \<lparr>queue = [], queue_semaphore = 0\<rparr>"
      "activeFrames st f = Some fb" "chunks fb = frames f" "displayed st = []" "frameNumBmpQueue st = \<lparr>pqueue = [], pqueue_semaphore = 0\<rparr>"
    by (rule one_packet_complete[OF F fresh])
  let ?v3 = "?v0\<lparr>shared := st\<rparr>"
  have "packetQueue (shared ?v2) = \<lparr>queue = p # [], queue_semaphore = Suc 0\<rparr>"
    unfolding rs using maxint by (simp add: client_init_def tsq_defs)
  moreover have "frameNumQueue st \<noteq> frameNumQueue (receiver_step fresh (Some ?d) (client_init :: 'bmp client_state))"
    unfolding rs using st(2) by (simp add: client_init_def ThreadSafeQueue_def)
  ultimately have "threads_run decodeImage (replicate 9 Consumer_acts) ?v2 = Done ?v3"
    using consumer_solo[of ?v2 p "[]" 0 st decodeImage] ty st(1) init by simp
  with 2 have "threads_run decodeImage (replicate 4 (Receiver_acts fresh None) @ replicate 9 Consumer_acts) ?v1 = Done ?v3"
    by (simp add: threads_run_append)
  from that[OF 1 this] show thesis using init st by simp
qed

lemma decoder_decodes:
  assumes "dcd v = D_test" "bmpMutex v = None" "frameNumQueue (shared v) = \<lparr>queue = n # rest, queue_semaphore = Suc k\<rparr>"
    and "activeFrames (shared v) n = Some fb" "decodeImage (chunks fb) = Some b"
    and "frameNumBmpQueue (shared v) = \<lparr>pqueue = [], pqueue_semaphore = 0\<rparr>"
  shows "\<exists>v'. threads_run decodeImage (replicate 10 Decoder_acts) v = Done v' \<and> win v' = win v \<and> bmpMutex v' = None
    \<and> displayed (shared v') = displayed (shared v)
    \<and> frameNumBmpQueue (shared v') = \<lparr>pqueue = [(n, Some b)], pqueue_semaphore = Suc 0\<rparr>"
  using assms maxint by (simp add: eval_nat_numeral decoder_act_def tsq_defs tspq_defs Let_def)

lemma window_paints:
  assumes "win v = W_lock" "bmpMutex v = None" "loadFrame (shared v)"
    and "frameNumBmpQueue (shared v) = \<lparr>pqueue = (n, Some b) # rest, pqueue_semaphore = Suc k\<rparr>"
  shows "\<exists>v'. threads_run decodeImage (replicate 7 Window_acts) v = Done v'
    \<and> displayed (shared v') = displayed (shared v) @ [(n, Some b)]"
  using assms by (simp add: eval_nat_numeral window_act_def tspq_defs Let_def)

text \<open>An example: a datagram is taken, and the receiver is about to release the semaphore, inside \<open>dataMutex\<close>.\<close>

definition three_bytes :: "DWORD \<Rightarrow> BYTE list" where "three_bytes = (\<lambda>_. [1, 2, 3])"

lemma three_bytes_fragment: "fragment three_bytes (5, 0)"
  by (simp add: three_bytes_def fragment_def sendable_def PACKET_SIZE_def k_of_def nchunks_def)

lemma example_reach:
  "\<exists>v. threads_reach decodeImage (map (datagram_of 1 (\<lambda>_. 0) three_bytes) [(5, 0)]) v
    \<and> csm v = C_lock \<and> dataMutex v = Some By_receiver"
proof -
  let ?d = "datagram_of 1 (\<lambda>_. 0) three_bytes (5, 0)" and ?fresh = "replicate CLIENT_PACKET_SIZE (0 :: BYTE)"
  have len: "length ?d \<le> length ?fresh"
    by (simp add: datagram_of_def length_frame_datagram length_chunk CLIENT_PACKET_SIZE_def)
  let ?p = "?d @ drop (length ?d) ?fresh" and ?a = "Receiver_acts ?fresh (Some ?d)" and ?v0 = "threads_init :: 'a viewer_threads"
  let ?v1 = "?v0\<lparr>shared := (shared ?v0)\<lparr>acks := acks (shared ?v0) @ [encode_rtmp (ack_packet (decode_rtmp ?p))]\<rparr>, rcv := R_lock ?p\<rparr>"
  let ?v2 = "?v1\<lparr>dataMutex := Some By_receiver, rcv := R_push ?p\<rparr>"
  let ?v3 = "?v2\<lparr>shared := (shared ?v2)\<lparr>packetQueue := tsq_enqueue ?p (packetQueue (shared ?v2))\<rparr>, rcv := R_release\<rparr>"
  let ?v4 = "?v3\<lparr>csm := C_lock\<rparr>"
  have init: "rcv ?v0 = R_recv" "dataMutex ?v0 = None" "csm ?v0 = C_test" by (simp_all add: threads_init_def)
  note step = threads_reach.and_step[where a = ?a]
  have "threads_reach decodeImage ([] @ takes ?a ?v0) ?v1"
    by (rule step[OF threads_reach.at_start]) (use len init in \<open>auto simp: receiver_act_def winsock_recvfrom_def Let_def\<close>)
  then have r1: "threads_reach decodeImage [?d] ?v1" using init by simp
  have "threads_reach decodeImage ([?d] @ takes ?a ?v1) ?v2"
    by (rule step[OF r1]) (use init in \<open>auto simp: receiver_act_def\<close>)
  then have r2: "threads_reach decodeImage [?d] ?v2" by simp
  have "threads_reach decodeImage ([?d] @ takes ?a ?v2) ?v3"
    by (rule step[OF r2]) (auto simp: receiver_act_def Let_def)
  then have r3: "threads_reach decodeImage [?d] ?v3" by simp
  have "threads_reach decodeImage ([?d] @ takes Consumer_acts ?v3) ?v4"
    by (rule threads_reach.and_step[OF r3]) (use init in \<open>auto simp: consumer_act_def tsq_isEmpty_def tsq_enqueue_def Let_def\<close>)
  then have "threads_reach decodeImage [?d] ?v4" by simp
  then show ?thesis by (intro exI[of _ ?v4]) simp
qed

section \<open>Properties: no fragment twice\<close>

lemma reach_no_fault:
  assumes "threads_reach decodeImage (map (datagram_of t sq frames) fis) v"
    and "distinct fis" and "\<forall>fi \<in> set fis. fragment frames fi" and "length fis < MAXINT"
  shows "thread_step decodeImage a v \<noteq> Fault e"
proof -
  have ok: "fragments_ok frames fis" using assms(2,3) by (simp add: fragments_ok_def)
  from reach_related[OF assms(1) refl ok assms(4)] obtain st where R: "related frames decodeImage t sq fis v st" by blast
  show ?thesis
  proof (cases a)
    case (Receiver_acts fresh dgram)
    then show ?thesis by (simp add: receiver_no_fault)
  qed (use step_related[OF R, of "[]" a] ok assms(4) in \<open>auto simp: step_ok_def split: outcome.splits\<close>)
qed

text \<open>
  The viewer never shows a torn frame, whatever the order of its threads' steps: no step faults,
  every frame shown is the picture of all the bytes the host sent for it, and none is shown twice.
\<close>

lemma threads_show_whole_frames:
  assumes "threads_reach decodeImage (map (datagram_of t sq frames) fis) v"
    and "distinct fis" and "\<forall>fi \<in> set fis. fragment frames fi" and "length fis < MAXINT"
  shows "(\<forall>a e. thread_step decodeImage a v \<noteq> Fault e) \<and> distinct (map fst (displayed (shared v)))
    \<and> (\<forall>(n, bmp) \<in> set (displayed (shared v)). bmp \<noteq> None \<and> bmp = decodeImage (frames n) \<and> frames n \<noteq> []
         \<and> (\<forall>i < k_of (frames n). (n, i) \<in> set fis))"
proof -
  have ok: "fragments_ok frames fis" using assms(2,3) by (simp add: fragments_ok_def)
  from reach_related[OF assms(1) refl ok assms(4)] obtain st where R: "related frames decodeImage t sq fis v st" by blast
  from related_shown[OF R] obtain st' taken pending decoded where st': "displayed st' = displayed (shared v)"
    "taken @ map fst pending = fis" "viewer_inv frames decodeImage t sq taken pending decoded st'" by blast
  from inv_whole[OF st'(3)] ok st'(2) have whole: "distinct (map fst (displayed st'))"
    "\<forall>(n, bmp) \<in> set (displayed st'). bmp \<noteq> None \<and> bmp = decodeImage (frames n) \<and> frames n \<noteq> []
       \<and> (\<forall>i < k_of (frames n). (n, i) \<in> set fis)" by simp_all
  from whole reach_no_fault[OF assms] show ?thesis unfolding st'(1) by (intro conjI) blast+
qed

text \<open>
  C8: The small steps refine the rounds. Whatever the order in which the viewer's threads take their
  steps, and whatever order the fragments come in, as long as none comes twice (and fewer than \<open>2 ^ 31 - 1\<close> do): there are rounds of
  the threads, taken one after the other, that receive the same datagrams and show the same frames;
  and when no thread is within a round, queues, buffers and all other data are what these rounds
  leave.
\<close>

theorem threads_refine_rounds:
  assumes "threads_reach decodeImage (map (datagram_of t sq frames) fis) v"
    and "distinct fis" and "\<forall>fi \<in> set fis. fragment frames fi" and "length fis < MAXINT"
  shows "\<exists>es st. viewer_run decodeImage es client_init = Done st
    \<and> concat (map received es) = map (datagram_of t sq frames) fis
    \<and> displayed (shared v) = displayed st
    \<and> (rcv v = R_recv \<and> csm v = C_test \<and> dcd v = D_test \<and> win v = W_lock \<longrightarrow> shared v = st)"
proof -
  have "fragments_ok frames fis" using assms(2,3) by (simp add: fragments_ok_def)
  from reach_related[OF assms(1) refl this assms(4)] obtain es st where
    st: "viewer_run decodeImage es client_init = Done st" "concat (map received es) = map (datagram_of t sq frames) fis"
    and R: "related frames decodeImage t sq fis v st" by blast
  from related_shown[OF R] obtain es1 st1 where st1: "viewer_run decodeImage es1 st = Done st1"
    "displayed st1 = displayed (shared v)" "concat (map received es1) = []" "win v = W_lock \<longrightarrow> st1 = st" by blast
  show ?thesis
  proof (intro exI conjI)
    show "viewer_run decodeImage (es @ es1) client_init = Done st1" using st(1) st1(1) by (simp add: viewer_run_append)
    show "concat (map received (es @ es1)) = map (datagram_of t sq frames) fis" using st(2) st1(3) by simp
    show "displayed (shared v) = displayed st1" using st1(2) by simp
    show "rcv v = R_recv \<and> csm v = C_test \<and> dcd v = D_test \<and> win v = W_lock \<longrightarrow> shared v = st1"
      using related_at_rest[OF R] st1(4) by simp
  qed
qed

theorem threads_refine_rounds_witness:
  "\<exists>v es st. threads_reach (\<lambda>bytes. Some (length bytes)) (map (datagram_of 1 (\<lambda>_. 0) three_bytes) [(5, 0)]) v
    \<and> viewer_run (\<lambda>bytes. Some (length bytes)) es client_init = Done st
    \<and> concat (map received es) = map (datagram_of 1 (\<lambda>_. 0) three_bytes) [(5, 0)]
    \<and> displayed (shared v) = displayed st"
proof -
  obtain v where v: "threads_reach (\<lambda>bytes. Some (length bytes)) (map (datagram_of 1 (\<lambda>_. 0) three_bytes) [(5, 0)]) v"
    using example_reach by blast
  from threads_refine_rounds[OF v] v show ?thesis using three_bytes_fragment by (auto simp: MAXINT_def)
qed

text \<open>
  C9: The viewer does not deadlock, as long as no fragment comes twice. In every state that its threads reach
  on distinct fragments of frames, fewer than \<open>2 ^ 31 - 1\<close>, in any order, a thread that can not step waits for
  another one (the receiver and the consumer for each other at \<open>dataMutex\<close>, the decoder and the window
  at \<open>bmpMutex\<close>, the decoder for a permit the consumer is about to release) that can step, and each
  step brings that one nearer to giving up what it holds; and no thread waits inside a section.
\<close>

theorem threads_do_not_deadlock:
  assumes "threads_reach decodeImage (map (datagram_of t sq frames) fis) v"
    and "distinct fis" and "\<forall>fi \<in> set fis. fragment frames fi" and "length fis < MAXINT"
    and "thread_step decodeImage a v = Blocks"
  shows "\<exists>v'. thread_step decodeImage (waits_for a v) v = Done v'
    \<and> steps_left (waits_for a v) v' < steps_left (waits_for a v) v \<and> steps_left a v = 0"
proof -
  have ok: "fragments_ok frames fis" using assms(2,3) by (simp add: fragments_ok_def)
  from reach_related[OF assms(1) refl ok assms(4)] obtain st taken pending decoded where
    R: "threads_rel frames decodeImage decoded v st" by (auto simp: related_def)
  note nf = reach_no_fault[OF assms(1-4), of Consumer_acts, simplified]
  have out: "\<not> r_in (rcv v) \<Longrightarrow> steps_left (Receiver_acts fresh dgram) v = 0" "\<not> c_in (csm v) \<Longrightarrow> steps_left Consumer_acts v = 0"
    "\<not> d_in (dcd v) \<Longrightarrow> steps_left Decoder_acts v = 0" "\<not> w_in (win v) \<Longrightarrow> steps_left Window_acts v = 0" for fresh dgram
    by (auto split: receiver_pc.split consumer_pc.split decoder_pc.split window_pc.split)
  have excl: "\<not> (r_in (rcv v) \<and> c_in (csm v))" "\<not> (d_in (dcd v) \<and> w_in (win v))"
    using R by (simp_all add: threads_rel locks_rel_def)
  from blocked_waits[OF R assms(5)] show ?thesis
  proof (elim disjE conjE exE)
    fix fresh dgram assume "a = Receiver_acts fresh dgram" "c_in (csm v)"
    then show ?thesis using consumer_goes_on[OF R _ nf] out(1) excl by (simp del: steps_left.simps)
  next
    assume "a = Consumer_acts" "r_in (rcv v)"
    then show ?thesis using receiver_goes_on[of v "[]" None] out(2) excl by (simp del: steps_left.simps)
  next
    assume a: "a = Decoder_acts" "dcd v = D_wait" "csm v = C_release"
    then have "c_in (csm v)" by simp
    with a show ?thesis using consumer_goes_on[OF R _ nf] out(3) by (simp del: steps_left.simps)
  next
    assume "a = Decoder_acts" "dcd v \<noteq> D_wait" "w_in (win v)"
    then show ?thesis using window_goes_on[OF R] out(3) excl by (simp del: steps_left.simps)
  next
    assume "a = Window_acts" "d_in (dcd v)"
    then show ?thesis using decoder_goes_on[of v decodeImage] out(4) excl by (simp del: steps_left.simps)
  qed
qed

theorem threads_do_not_deadlock_witness:
  "\<exists>v v'. thread_step (\<lambda>bytes. Some (length bytes)) Consumer_acts v = Blocks
    \<and> thread_step (\<lambda>bytes. Some (length bytes)) (Receiver_acts [] None) v = Done v'
    \<and> steps_left (Receiver_acts [] None) v' < steps_left (Receiver_acts [] None) v"
proof -
  let ?dec = "\<lambda>bytes :: BYTE list. Some (length bytes)"
  obtain v where v: "threads_reach ?dec (map (datagram_of 1 (\<lambda>_. 0) three_bytes) [(5, 0)]) v" "csm v = C_lock"
    "dataMutex v = Some By_receiver" using example_reach by blast
  then have "thread_step ?dec Consumer_acts v = Blocks" by (simp add: consumer_act_def)
  from threads_do_not_deadlock[OF v(1) _ _ _ this] this show ?thesis
    using three_bytes_fragment by (auto simp: MAXINT_def simp del: steps_left.simps)
qed

section \<open>Properties: a fragment that comes again\<close>

text \<open>
  C35: The decoder pulls the buffer away under the consumer. A frame of one packet arrives and is
  complete; its packet arrives once more, as the host sends it again when the acknowledgement is late.
  If the decoder then finishes the frame after the consumer has looked up its entry, the consumer
  writes to an entry that is no longer there. Nothing in the code prevents this order of steps: the
  decoder takes no mutex that the consumer holds.
\<close>

theorem decoder_erases_under_consumer:
  assumes "sendable PACKET_SIZE frame" and "frame \<noteq> []" and "k_of frame = 1"
  shows "let d = frame_datagram t PAYLOAD_SIZE f frame s 0 in
    \<exists>v. threads_reach decodeImage [d, d] v \<and> thread_step decodeImage Consumer_acts v = Fault Mem_fault"
proof -
  let ?fr = "\<lambda>_ :: DWORD. frame" and ?sq = "\<lambda>_ :: DWORD. s" and ?fresh = "replicate CLIENT_PACKET_SIZE (0 :: BYTE)"
  define d where "d = frame_datagram t PAYLOAD_SIZE f frame s 0"
  have d: "d = datagram_of t ?sq ?fr (f, 0)" by (simp add: d_def datagram_of_def)
  define p where "p = d @ drop (length d) ?fresh"
  have F: "fragment ?fr (f, 0)" using assms(1,3) by (simp add: fragment_def)
  have len: "length d \<le> length ?fresh"
    using fragment_bounds(5)[OF F] by (simp add: d_def length_frame_datagram CLIENT_PACKET_SIZE_def)
  have p: "packet_frame p = f" "pkt_type (decode_rtmp p) = PACKET_TYPE_STREAM"
    unfolding p_def d by (rule packet_facts)+
  obtain v1 v2 :: "'a viewer_threads" where v1: "thread_step decodeImage (Receiver_acts ?fresh (Some d)) threads_init = Done v1"
    and v2: "threads_run decodeImage (replicate 4 (Receiver_acts ?fresh None) @ replicate 9 Consumer_acts) v1 = Done v2"
    and at: "rcv v2 = R_recv" "csm v2 = C_test" "dcd v2 = D_test" "dataMutex v2 = None" "bmpMutex v2 = None"
      "frameNumQueue (shared v2) = \<lparr>queue = [f], queue_semaphore = Suc 0\<rparr>" "packetQueue (shared v2) = \<lparr>queue = [], queue_semaphore = 0\<rparr>"
    by (rule one_packet_taken[where t = t and sq = ?sq and decodeImage = decodeImage and fresh = ?fresh, OF F assms(2,3)])
      (simp_all add: d)
  have "threads_reach decodeImage ([] @ takes (Receiver_acts ?fresh (Some d)) (threads_init :: 'a viewer_threads)) v1"
    by (rule threads_reach.and_step[OF threads_reach.at_start v1]) simp
  then have "threads_reach decodeImage [d] v1" by (simp add: threads_init_def)
  from run_reach[OF this v2] have "threads_reach decodeImage [d] v2" by auto
  from receiver_solo[OF this at(1,4) len] have
    r3: "threads_reach decodeImage [d, d] (v2\<lparr>shared := receiver_step ?fresh (Some d) (shared v2)\<rparr>)" (is "threads_reach _ _ ?v3")
    by simp
  have s3: "packetQueue (shared ?v3) = \<lparr>queue = [p], queue_semaphore = Suc 0\<rparr>" "frameNumQueue (shared ?v3) = frameNumQueue (shared v2)"
    using len at(7) maxint by (simp_all add: receiver_step_def winsock_recvfrom_def p_def tsq_defs)
  from consumer_opens[OF _ _ s3(1) p(2), of decodeImage] at(2,4) obtain v4 where
    v4: "threads_run decodeImage (replicate 5 Consumer_acts) ?v3 = Done v4"
    and s4: "csm v4 = C_write p" "dcd v4 = D_test" "bmpMutex v4 = None"
      "frameNumQueue (shared v4) = \<lparr>queue = [f], queue_semaphore = Suc 0\<rparr>" "activeFrames (shared v4) f \<noteq> None"
    using p(1) at(3,5,6) s3(2) by auto
  from run_reach[OF r3 v4] have r4: "threads_reach decodeImage [d, d] v4" by simp
  obtain fb where "activeFrames (shared v4) f = Some fb" using s4(5) by blast
  from decoder_erases[OF s4(2-4) this, of decodeImage] obtain m v5 where
    v5: "threads_run decodeImage (replicate m Decoder_acts) v4 = Done v5" "activeFrames (shared v5) f = None"
      "csm v5 = C_write p" using s4(1) by auto
  from run_reach[OF r4 v5(1)] have "threads_reach decodeImage [d, d] v5" by simp
  moreover have "consumer_act v5 = Fault Mem_fault" using v5(2,3) p(1) by (simp add: consumer_act_def Let_def)
  ultimately show ?thesis unfolding Let_def d_def[symmetric] by (intro exI[of _ v5]) simp
qed

theorem decoder_erases_under_consumer_witness:
  "let d = frame_datagram 1 PAYLOAD_SIZE 5 [1, 2, 3] 0 0 in
    \<exists>v. threads_reach (\<lambda>bytes. Some (length bytes)) [d, d] v
      \<and> thread_step (\<lambda>bytes. Some (length bytes)) Consumer_acts v = Fault Mem_fault"
  by (rule decoder_erases_under_consumer) (simp_all add: sendable_def PACKET_SIZE_def k_of_def nchunks_def)

end
