(* ===== verification/StreamSystem.thy ===== *)
theory StreamSystem
  imports HostProcess ViewerRaces
begin

text \<open>
  Host, network and viewer as one system. The host is the process of \<open>HostProcess\<close>, the viewer that of
  \<open>ViewerThreads\<close>; between them is a network that may lose datagrams and deliver them in any order,
  but each at most once. What the host's threads send goes to the viewer's receiver, and the
  acknowledgements the receiver sends go to the host's. Every step is a step of one thread of one of
  the two programs, or a loss.
\<close>

section \<open>The system\<close>

record 'bmp stream_system =
  host_end :: host_process
  viewer_end :: "'bmp viewer_threads"
  to_viewer :: "BYTE list multiset"
  to_host :: "BYTE list multiset"
  given_up :: "DWORD set"

definition system_init :: "host_process \<Rightarrow> 'bmp stream_system" where
  "system_init p0 = \<lparr>host_end = p0, viewer_end = threads_init, to_viewer = {#}, to_host = {#}, given_up = {}\<rparr>"

text \<open>
  What a step of the host or the viewer has sent: what its log has more. \<open>given_up\<close> is a log of the
  sequence numbers the timer has forgotten because there were more than 200.
\<close>

definition host_stepped :: "host_process \<Rightarrow> 'bmp stream_system \<Rightarrow> 'bmp stream_system" where
  "host_stepped p s = s\<lparr>host_end := p,
     to_viewer := to_viewer s + mset (drop (length (sent (hp_packets (host_end s)))) (sent (hp_packets p))),
     given_up := given_up s \<union> (let kept = recentPackets (hp_packets (host_end s))
       in if RECENT_PACKETS_SIZE < length kept \<and> recentPackets (hp_packets p) = [] then fst ` set kept else {})\<rparr>"

definition viewer_stepped :: "'bmp viewer_threads \<Rightarrow> 'bmp stream_system \<Rightarrow> 'bmp stream_system" where
  "viewer_stepped v s = s\<lparr>viewer_end := v,
     to_host := to_host s + mset (drop (length (acks (shared (viewer_end s)))) (acks (shared v)))\<rparr>"

text \<open>
  Runs, with the host's actions and the datagrams the viewer has taken from the network. A receiver
  that gets no datagram gets an error.
\<close>

fun no_datagram :: "host_action \<Rightarrow> bool" where
  "no_datagram (host_action.By_receiver (Some d)) = False" | "no_datagram a = True"

fun takes_none :: "thread_act \<Rightarrow> 'bmp viewer_threads \<Rightarrow> bool" where
  "takes_none (Receiver_acts fresh d) v = (length fresh = CLIENT_PACKET_SIZE \<and> (d = None \<or> rcv v \<noteq> R_recv))"
| "takes_none a v = True"

inductive system_run ::
  "(BYTE list \<Rightarrow> 'bmp option) \<Rightarrow> 'bmp stream_system \<Rightarrow> host_action list \<Rightarrow> BYTE list list \<Rightarrow> 'bmp stream_system \<Rightarrow> bool"
  for decodeImage s0 where
  start: "system_run decodeImage s0 [] [] s0"
| host_acts: "system_run decodeImage s0 as ds s \<Longrightarrow> no_datagram a \<Longrightarrow> host_act a (host_end s) = Done p \<Longrightarrow>
    system_run decodeImage s0 (as @ [a]) ds (host_stepped p s)"
| host_receives: "system_run decodeImage s0 as ds s \<Longrightarrow> d \<in># to_host s \<Longrightarrow> hp_receiver (host_end s) = Receiver_waits \<Longrightarrow>
    host_act (host_action.By_receiver (Some d)) (host_end s) = Done p \<Longrightarrow>
    system_run decodeImage s0 (as @ [host_action.By_receiver (Some d)]) ds (host_stepped p (s\<lparr>to_host := to_host s - {#d#}\<rparr>))"
| viewer_acts: "system_run decodeImage s0 as ds s \<Longrightarrow> takes_none a (viewer_end s) \<Longrightarrow>
    thread_step decodeImage a (viewer_end s) = Done v \<Longrightarrow> system_run decodeImage s0 as ds (viewer_stepped v s)"
| viewer_receives: "system_run decodeImage s0 as ds s \<Longrightarrow> d \<in># to_viewer s \<Longrightarrow> rcv (viewer_end s) = R_recv \<Longrightarrow>
    length fresh = CLIENT_PACKET_SIZE \<Longrightarrow> thread_step decodeImage (Receiver_acts fresh (Some d)) (viewer_end s) = Done v \<Longrightarrow>
    system_run decodeImage s0 as (ds @ [d]) (viewer_stepped v (s\<lparr>to_viewer := to_viewer s - {#d#}\<rparr>))"
| loses: "system_run decodeImage s0 as ds s \<Longrightarrow> V \<subseteq># to_viewer s \<Longrightarrow> H \<subseteq># to_host s \<Longrightarrow>
    system_run decodeImage s0 as ds (s\<lparr>to_viewer := V, to_host := H\<rparr>)"

text \<open>A run from the start of both programs.\<close>

abbreviation system_reach ::
  "(BYTE list \<Rightarrow> 'bmp option) \<Rightarrow> host_process \<Rightarrow> host_action list \<Rightarrow> BYTE list list \<Rightarrow> 'bmp stream_system \<Rightarrow> bool" where
  "system_reach decodeImage p0 \<equiv> system_run decodeImage (system_init p0)"

section \<open>Lemmas\<close>

lemma system_run_trans:
  assumes "system_run decodeImage s0 as ds s" and "system_run decodeImage s as' ds' s'"
  shows "system_run decodeImage s0 (as @ as') (ds @ ds') s'"
  using assms(2,1)
proof (induction rule: system_run.induct)
  case (host_acts as' ds' s1 a p)
  from system_run.host_acts[OF host_acts.IH[OF host_acts.prems] host_acts.hyps(2,3)] show ?case by simp
next
  case (host_receives as' ds' s1 d p)
  from system_run.host_receives[OF host_receives.IH[OF host_receives.prems] host_receives.hyps(2-4)] show ?case by simp
next
  case (viewer_acts as' ds' s1 a v)
  from system_run.viewer_acts[OF viewer_acts.IH[OF viewer_acts.prems] viewer_acts.hyps(2,3)] show ?case .
next
  case (viewer_receives as' ds' s1 d fresh v)
  from system_run.viewer_receives[OF viewer_receives.IH[OF viewer_receives.prems] viewer_receives.hyps(2-5)] show ?case by simp
next
  case (loses as' ds' s1 V H)
  from system_run.loses[OF loses.IH[OF loses.prems] loses.hyps(2,3)] show ?case .
qed simp

text \<open>The parts of a run are runs of the two programs.\<close>

lemma host_reaches_of: "system_reach decodeImage p0 as ds s \<Longrightarrow> host_reaches p0 as (host_end s)"
  by (induction rule: system_run.induct)
    (auto simp: system_init_def host_stepped_def viewer_stepped_def intro: host_reaches.intros)

lemma threads_reach_of: "system_reach decodeImage p0 as ds s \<Longrightarrow> threads_reach decodeImage ds (viewer_end s)"
proof (induction rule: system_run.induct)
  case (viewer_acts as ds s a v)
  then have "takes a (viewer_end s) = []" by (cases "(a, viewer_end s)" rule: takes.cases) auto
  moreover have "length fresh = CLIENT_PACKET_SIZE" if "a = Receiver_acts fresh d" for fresh d
    using viewer_acts.hyps(2) that by simp
  ultimately show ?case
    using threads_reach.and_step[OF viewer_acts.IH viewer_acts.hyps(3)] by (simp add: viewer_stepped_def)
next
  case (viewer_receives as ds s d fresh v)
  with threads_reach.and_step[of decodeImage ds "viewer_end s" "Receiver_acts fresh (Some d)" v] show ?case
    by (auto simp: viewer_stepped_def)
qed (auto simp: system_init_def host_stepped_def intro: threads_reach.at_start)

text \<open>What is in flight: datagrams of the host, and acknowledgements.\<close>

definition is_ack :: "BYTE list \<Rightarrow> bool" where
  "is_ack d \<longleftrightarrow> (\<exists>pkt. d = encode_rtmp (ack_packet pkt))"

lemma acks_grow:
  assumes "thread_step decodeImage a v = Done v'"
  shows "\<exists>new. acks (shared v') = acks (shared v) @ new \<and> (\<forall>d \<in> set new. is_ack d)"
proof (cases a)
  case (Receiver_acts fresh dgram)
  with assms show ?thesis
    by (auto simp: receiver_act_def is_ack_def Let_def split: receiver_pc.splits prod.splits if_splits)
next
  case Consumer_acts
  with assms have "acks (shared v') = acks (shared v)"
    by (auto simp: consumer_act_def Let_def split: consumer_pc.splits prod.splits outcome.splits option.splits if_splits)
  then show ?thesis by simp
next
  case Decoder_acts
  with assms have "acks (shared v') = acks (shared v)"
    by (auto simp: decoder_act_def Let_def split: decoder_pc.splits prod.splits outcome.splits option.splits if_splits)
  then show ?thesis by simp
next
  case Timer_acts
  with assms show ?thesis by (auto simp: timer_act_def)
next
  case Window_acts
  with assms have "acks (shared v') = acks (shared v)"
    by (auto simp: window_act_def Let_def split: window_pc.splits prod.splits outcome.splits list.splits if_splits)
  then show ?thesis by simp
qed

lemmas handled_simps = handlerMap_def controlPacketHandler_def eventPacketHandler_def removeRecentPacket_def

lemma sent_grows:
  assumes "host_act a p = Done p'"
  shows "\<exists>new. sent (hp_packets p') = sent (hp_packets p) @ new"
proof (cases a)
  case (By_main os)
  with assms show ?thesis
    by (auto simp: main_step_def split: host_main.splits if_splits)
next
  case By_sender
  with assms show ?thesis
    by (auto simp: sender_thread_step_def sendPacket_def Let_def split: sender_pc.splits prod.splits outcome.splits if_splits)
next
  case (By_receiver dgram)
  with assms show ?thesis
    by (auto simp: receiver_thread_step_def handled_simps Let_def
        split: receiver_loop.splits option.splits prod.splits if_splits)
next
  case By_acker
  with assms show ?thesis
    by (auto simp: acker_thread_step_def timer_clears_def Let_def split: timer_loop.splits list.splits if_splits)
qed

lemma buffer_length:
  assumes "host_act a p = Done p'"
  shows "length (hp_buf p') = length (hp_buf p)"
proof (cases a)
  case (By_main os)
  with assms show ?thesis by (auto simp: main_step_def split: host_main.splits if_splits)
next
  case By_sender
  with assms show ?thesis
    by (auto simp: sender_thread_step_def Let_def split: sender_pc.splits prod.splits outcome.splits if_splits)
next
  case (By_receiver dgram)
  have "length buf = length (hp_buf p)" if "winsock_recvfrom (hp_buf p) dgram = (res, buf)" for res buf
    using that by (metis length_winsock_recvfrom snd_conv)
  with assms By_receiver show ?thesis
    by (auto simp: receiver_thread_step_def Let_def split: receiver_loop.splits option.splits prod.splits if_splits)
next
  case By_acker
  with assms show ?thesis by (auto simp: acker_thread_step_def Let_def split: timer_loop.splits list.splits if_splits)
qed

text \<open>The packet in the host's buffer, between its arrival and its handling.\<close>

lemma is_ack_reads:
  assumes "is_ack d"
  shows "length d = 36" and "pkt_type (decode_rtmp d) = PACKET_TYPE_CONTROL"
proof -
  obtain pkt where d: "d = encode_rtmp (ack_packet pkt)" using assms by (auto simp: is_ack_def)
  have "wf_packet (ack_packet pkt)" by (simp add: ack_packet_def wf_packet_def zero_packet_def)
  then show "length d = 36" "pkt_type (decode_rtmp d) = PACKET_TYPE_CONTROL"
    using decode_encode_rtmp[of "ack_packet pkt" "[]"] by (simp_all add: d ack_packet_def)
qed

lemma host_takes_ack:
  assumes "hp_receiver p = Receiver_waits" and "is_ack d" and "length (hp_buf p) = 36"
    and "host_act (host_action.By_receiver (Some d)) p = Done p'"
  shows "p' = p\<lparr>hp_buf := d, hp_receiver := Receiver_handles\<rparr>"
  using assms is_ack_reads(1)[OF assms(2)]
  by (auto simp: receiver_thread_step_def winsock_recvfrom_def)

lemma still_handles:
  assumes "host_act a p = Done p'" and "no_datagram a" and "hp_receiver p' = Receiver_handles"
  shows "hp_receiver p = Receiver_handles \<and> hp_buf p' = hp_buf p"
proof (cases a)
  case (By_main os)
  with assms show ?thesis by (auto simp: main_step_def split: host_main.splits if_splits)
next
  case By_sender
  with assms show ?thesis
    by (auto simp: sender_thread_step_def Let_def split: sender_pc.splits prod.splits outcome.splits if_splits)
next
  case (By_receiver dgram)
  with assms(2) have "dgram = None" by (cases dgram) auto
  with assms By_receiver show ?thesis
    by (auto simp: receiver_thread_step_def winsock_recvfrom_def Let_def split: receiver_loop.splits option.splits if_splits)
next
  case By_acker
  with assms show ?thesis by (auto simp: acker_thread_step_def Let_def split: timer_loop.splits list.splits if_splits)
qed

definition in_flight_ok :: "'bmp stream_system \<Rightarrow> bool" where
  "in_flight_ok s \<longleftrightarrow> set_mset (to_viewer s) \<subseteq> set (sent (hp_packets (host_end s)))
     \<and> (\<forall>d \<in># to_host s. is_ack d) \<and> length (hp_buf (host_end s)) = 36
     \<and> (hp_receiver (host_end s) = Receiver_handles \<longrightarrow> is_ack (hp_buf (host_end s)))"

lemma host_stepped_ok:
  assumes "in_flight_ok s" and "host_act a (host_end s) = Done p"
    and "hp_receiver p = Receiver_handles \<Longrightarrow> is_ack (hp_buf p)"
  shows "in_flight_ok (host_stepped p s)" and "set (sent (hp_packets (host_end s))) \<subseteq> set (sent (hp_packets p))"
proof -
  obtain new where new: "sent (hp_packets p) = sent (hp_packets (host_end s)) @ new" using sent_grows[OF assms(2)] ..
  then show "in_flight_ok (host_stepped p s)"
    using assms(1,3) buffer_length[OF assms(2)] by (auto simp: in_flight_ok_def host_stepped_def)
  show "set (sent (hp_packets (host_end s))) \<subseteq> set (sent (hp_packets p))" using new by simp
qed

lemma viewer_stepped_ok:
  assumes "in_flight_ok s" and "thread_step decodeImage a (viewer_end s) = Done v"
  shows "in_flight_ok (viewer_stepped v s)"
proof -
  obtain new where "acks (shared v) = acks (shared (viewer_end s)) @ new" "\<forall>d \<in> set new. is_ack d"
    using acks_grow[OF assms(2)] by blast
  with assms(1) show ?thesis by (auto simp: in_flight_ok_def viewer_stepped_def)
qed

lemma system_ok:
  assumes "system_reach decodeImage p0 as ds s" and "sent (hp_packets p0) = []" and "length (hp_buf p0) = 36" and "hp_receiver p0 = Receiver_test"
  shows "in_flight_ok s \<and> set ds \<subseteq> set (sent (hp_packets (host_end s)))"
  using assms(1)
proof (induction rule: system_run.induct)
  case start
  then show ?case using assms(2-4) by (simp add: in_flight_ok_def system_init_def)
next
  case (host_acts as ds s a p)
  then have "hp_receiver p = Receiver_handles \<Longrightarrow> is_ack (hp_buf p)"
    using still_handles[OF host_acts.hyps(3,2)] by (simp add: in_flight_ok_def)
  with host_acts host_stepped_ok[of s a p] show ?case by (auto simp: host_stepped_def)
next
  case (host_receives as ds s d p)
  let ?s = "s\<lparr>to_host := to_host s - {#d#}\<rparr>"
  have ok: "in_flight_ok ?s" and d: "is_ack d" "length (hp_buf (host_end s)) = 36"
    using host_receives by (auto simp: in_flight_ok_def dest: in_diffD)
  have "is_ack (hp_buf p)" using host_takes_ack[OF host_receives.hyps(3) d host_receives.hyps(4)] d(1) by simp
  with ok host_receives host_stepped_ok[of ?s "host_action.By_receiver (Some d)" p] show ?case by (auto simp: host_stepped_def)
next
  case (viewer_acts as ds s a v)
  with viewer_stepped_ok[of s decodeImage a v] show ?case by (auto simp: viewer_stepped_def)
next
  case (viewer_receives as ds s d fresh v)
  let ?s = "s\<lparr>to_viewer := to_viewer s - {#d#}\<rparr>"
  have "in_flight_ok ?s" "d \<in> set (sent (hp_packets (host_end s)))"
    using viewer_receives by (auto simp: in_flight_ok_def dest: in_diffD)
  with viewer_receives viewer_stepped_ok[of ?s decodeImage "Receiver_acts fresh (Some d)" v] show ?case
    by (auto simp: viewer_stepped_def)
next
  case (loses as ds s V H)
  then show ?case by (auto simp: in_flight_ok_def dest: mset_subset_eqD)
qed

subsection \<open>The frames that arrive\<close>

text \<open>A frame of at most one chunk is sent as the same datagram whatever the packet size.\<close>

lemma nchunks_one: "n \<le> p \<Longrightarrow> 0 < p \<Longrightarrow> nchunks p n = (if n = 0 then 0 else 1)"
  by (auto simp: nchunks_def div_eq_dividend_iff intro!: div_nat_eqI)

lemma one_chunk_datagrams:
  assumes "length b \<le> 4060"
  shows "map (frame_datagram t 65499 n b q) [0..<nchunks 65499 (length b)]
    = map (frame_datagram t 4060 n b q) [0..<nchunks 4060 (length b)]"
  using assms by (cases "b = []") (simp_all add: nchunks_one frame_datagram_def frame_header_def chunk_def)

lemma sized_packets: "sized PACKET_SIZE fs = map (Pair PACKET_SIZE) (map frame_bytes fs)"
  by (intro nth_equalityI) (auto simp: sized_def nth_Cons')

lemma sized_first: "sized c (fd # fs) = (c, frame_bytes fd) # map (Pair PACKET_SIZE) (map frame_bytes fs)"
  by (intro nth_equalityI) (auto simp: sized_def nth_Cons')

text \<open>
  What the sender thread has sent, if all of it fits the viewer's packets: fragments of the captured
  frames. When the sender was quicker than the configuration, this can only be so if the first frame
  is small.
\<close>

lemma sent_fragments:
  assumes c: "c \<in> {-1, PACKET_SIZE}" and ok: "\<forall>fd \<in> set fs. frame_ok fd"
    and run: "sendStream t (sized c fs) 0 PacketManager = Done pm" and fresh: "sent pm = fresh @ rest"
    and fit: "\<forall>d \<in> set fresh. length d \<le> CLIENT_PACKET_SIZE" and few: "length fs \<le> 2 ^ 32"
  shows "set fresh \<subseteq> datagram_of t (seq_table (map frame_bytes fs) 0) (frame_table (map frame_bytes fs))
    ` set (stream_fragments (map frame_bytes fs))"
proof -
  let ?frs = "map frame_bytes fs"
  have send: "\<forall>b \<in> set (map frame_bytes gs). sendable PACKET_SIZE b" if "set gs \<subseteq> set fs" for gs
    using that ok sendable_size[of _ PACKET_SIZE 0] by (auto simp: size_at_def)
  have all: ?thesis if "sent pm = stream_datagrams t 4060 ?frs 0 0"
  proof -
    have "fresh @ rest = map (datagram_of t (seq_table ?frs 0) (frame_table ?frs)) (stream_fragments ?frs)"
      using that fresh few stream_datagrams_fragments[of ?frs t 0] by simp
    from arg_cong[OF this, of set] show ?thesis by auto
  qed
  show ?thesis
  proof (cases "c = PACKET_SIZE")
    case True
    with run sendStream_done[OF send[of fs], of t 0 PacketManager] show ?thesis
      by (intro all) (simp add: sized_packets PacketManager_def)
  next
    case False
    with c have c1: "c = -1" by simp
    show ?thesis
    proof (cases fs)
      case Nil
      with run have "sent pm = []" by (auto simp: sized_def PacketManager_def)
      with fresh show ?thesis by simp
    next
      case (Cons fd fs')
      let ?b = "frame_bytes fd" and ?frs' = "map frame_bytes fs'"
      have "sendable (-1) ?b" using ok Cons sendable_size[of fd "-1" 0] by (auto simp: size_at_def)
      from send_frame_done[OF this, of t 0 PacketManager] obtain pm1 where
        pm1: "send_frame t (-1) 0 ?b PacketManager = Done pm1"
        "sent pm1 = map (frame_datagram t 65499 0 ?b 0) [0..<nchunks 65499 (length ?b)]"
        "nextSequence pm1 = word_of_nat (nchunks 65499 (length ?b))" by (auto simp: PacketManager_def)
      have sent: "sent pm = map (frame_datagram t 65499 0 ?b 0) [0..<nchunks 65499 (length ?b)]
          @ stream_datagrams t 4060 ?frs' 1 (word_of_nat (nchunks 65499 (length ?b)))"
        using run sendStream_done[OF send[of fs'], of t 1 pm1] Cons pm1 by (auto simp: c1 sized_first)
      show ?thesis
      proof (cases "length ?b \<le> 4060")
        case True
        then have "nchunks 65499 (length ?b) = nchunks 4060 (length ?b)" by (simp add: nchunks_one)
        with sent one_chunk_datagrams[OF True, of t 0 0] show ?thesis
          by (intro all) (simp add: Cons stream_datagrams_Cons)
      next
        case False
        then have "0 < length ?b" by linarith
        then have "0 < nchunks 65499 (length ?b)" by (simp add: nchunks_less)
        then have "[0..<nchunks 65499 (length ?b)] = 0 # [1..<nchunks 65499 (length ?b)]" by (simp add: upt_conv_Cons)
        with sent obtain ds where ds: "sent pm = frame_datagram t 65499 0 ?b 0 0 # ds" by auto
        have "CLIENT_PACKET_SIZE < length (frame_datagram t 65499 0 ?b 0 0)"
          using False by (simp add: length_frame_datagram length_chunk CLIENT_PACKET_SIZE_def)
        with ds fresh fit show ?thesis by (cases fresh) auto
      qed
    qed
  qed
qed

lemma image_list:
  assumes "set ds \<subseteq> f ` A"
  shows "\<exists>fis. ds = map f fis \<and> set fis \<subseteq> A"
  using assms
proof (induction ds)
  case (Cons d ds)
  then obtain fis fi where "ds = map f fis" "set fis \<subseteq> A" "d = f fi" "fi \<in> A" by auto
  then show ?case by (intro exI[of _ "fi # fis"]) simp
qed simp

subsection \<open>Where the packets are\<close>

definition number_of :: "BYTE list \<Rightarrow> DWORD" where
  "number_of d = sequenceNumber (decode_rtmp d)"

lemma number_of_prefix: "36 \<le> length d \<Longrightarrow> number_of (d @ junk) = number_of d"
  by (simp add: number_of_def decode_rtmp_def get32_def)

text \<open>A packet's number is kept, about to be kept, taken by the viewer, or given up.\<close>

definition accounted :: "BYTE list list \<Rightarrow> 'bmp stream_system \<Rightarrow> DWORD \<Rightarrow> bool" where
  "accounted ds s q \<longleftrightarrow> q \<in> fst ` set (recentPackets (hp_packets (host_end s)))
     \<or> (\<exists>sf i fd d. hp_sender (host_end s) = Sender_keeps sf i fd q d)
     \<or> (\<exists>d \<in> set ds. length d \<le> CLIENT_PACKET_SIZE \<and> number_of d = q) \<or> q \<in> given_up s"

definition acks_of :: "BYTE list list \<Rightarrow> 'bmp stream_system \<Rightarrow> bool" where
  "acks_of ds s \<longleftrightarrow> (\<forall>a \<in># to_host s. \<exists>d \<in> set ds. length d \<le> CLIENT_PACKET_SIZE \<and> number_of d = number_of a)
     \<and> (hp_receiver (host_end s) = Receiver_handles \<longrightarrow>
         (\<exists>d \<in> set ds. length d \<le> CLIENT_PACKET_SIZE \<and> number_of d = number_of (hp_buf (host_end s))))"

lemma kept_added: "fst ` set (recentPackets (addRecentPacket q d pm)) = insert q (fst ` set (recentPackets pm))"
  by (auto simp: addRecentPacket_def split: option.split dest: map_of_SomeD)

lemma acks_new:
  assumes "thread_step decodeImage a v = Done v'" and "takes_none a v"
  shows "acks (shared v') = acks (shared v)"
  using assms
  by (cases a) (auto simp: receiver_act_def consumer_act_def decoder_act_def timer_act_def window_act_def winsock_recvfrom_def Let_def
      split: receiver_pc.splits consumer_pc.splits decoder_pc.splits window_pc.splits prod.splits outcome.splits option.splits
        list.splits if_splits)

lemma host_keeps:
  assumes "host_act a p = Done p'" and "no_datagram a"
  shows "fst ` set (recentPackets (hp_packets p)) \<subseteq> fst ` set (recentPackets (hp_packets p'))
          \<union> (if hp_receiver p = Receiver_handles then {number_of (hp_buf p)} else {})
      \<or> RECENT_PACKETS_SIZE < length (recentPackets (hp_packets p)) \<and> recentPackets (hp_packets p') = []" (is ?kept)
    and "hp_sender p = Sender_keeps sf i fd q d \<Longrightarrow> hp_sender p' = hp_sender p \<or> q \<in> fst ` set (recentPackets (hp_packets p'))"
    and "hp_fresh p' = hp_fresh p \<or> (\<exists>sf i fd q d. hp_sender p' = Sender_keeps sf i fd q d \<and> hp_fresh p' = hp_fresh p @ [d])"
proof -
  have "?kept
    \<and> (\<forall>sf i fd q d. hp_sender p = Sender_keeps sf i fd q d \<longrightarrow> hp_sender p' = hp_sender p \<or> q \<in> fst ` set (recentPackets (hp_packets p')))
    \<and> (hp_fresh p' = hp_fresh p \<or> (\<exists>sf i fd q d. hp_sender p' = Sender_keeps sf i fd q d \<and> hp_fresh p' = hp_fresh p @ [d]))"
  proof (cases a)
    case (By_main os)
    with assms show ?thesis by (auto simp: main_step_def split: host_main.splits if_splits)
  next
    case By_sender
    show ?thesis
    proof (cases "hp_sender p")
      case (Sender_keeps sf i fd q d)
      with assms By_sender have "recentPackets (hp_packets p') = recentPackets (addRecentPacket q d (hp_packets p))" "hp_fresh p' = hp_fresh p"
        by (auto simp: sender_thread_step_def split: if_splits)
      then show ?thesis using Sender_keeps by (auto simp: kept_added)
    qed (use assms By_sender in \<open>auto simp: sender_thread_step_def sendPacket_def Let_def split: prod.splits outcome.splits if_splits\<close>)
  next
    case (By_receiver dgram)
    with assms(2) have "dgram = None" by (cases dgram) auto
    with assms By_receiver show ?thesis
      by (auto simp: receiver_thread_step_def winsock_recvfrom_def handled_simps number_of_def Let_def
          split: receiver_loop.splits option.splits if_splits)
  next
    case By_acker
    with assms show ?thesis
      by (auto simp: acker_thread_step_def timer_clears_def Let_def split: timer_loop.splits list.splits if_splits)
  qed
  then show ?kept
    and "hp_sender p = Sender_keeps sf i fd q d \<Longrightarrow> hp_sender p' = hp_sender p \<or> q \<in> fst ` set (recentPackets (hp_packets p'))"
    and "hp_fresh p' = hp_fresh p \<or> (\<exists>sf i fd q d. hp_sender p' = Sender_keeps sf i fd q d \<and> hp_fresh p' = hp_fresh p @ [d])"
    by blast+
qed

lemma accounted_host:
  assumes "host_act a (host_end s) = Done p" and "no_datagram a" and "accounted ds s q" and "acks_of ds s"
  shows "accounted ds (host_stepped p s) q"
proof -
  have at: "host_end (host_stepped p s) = p" by (simp add: host_stepped_def)
  from assms(3) consider "q \<in> fst ` set (recentPackets (hp_packets (host_end s)))"
    | sf i fd d where "hp_sender (host_end s) = Sender_keeps sf i fd q d"
    | "\<exists>d \<in> set ds. length d \<le> CLIENT_PACKET_SIZE \<and> number_of d = q" | "q \<in> given_up s"
    unfolding accounted_def by blast
  then show ?thesis
  proof cases
    case 1
    from host_keeps(1)[OF assms(1,2)] consider
        "q \<in> fst ` set (recentPackets (hp_packets p))"
      | "hp_receiver (host_end s) = Receiver_handles" "q = number_of (hp_buf (host_end s))"
      | "RECENT_PACKETS_SIZE < length (recentPackets (hp_packets (host_end s)))" "recentPackets (hp_packets p) = []"
      using 1 by (auto split: if_splits)
    then show ?thesis
    proof cases
      case 2
      with assms(4) show ?thesis unfolding accounted_def acks_of_def by blast
    next
      case 3
      with 1 show ?thesis unfolding accounted_def by (simp add: host_stepped_def)
    qed (simp add: accounted_def at)
  next
    case 2
    from host_keeps(2)[OF assms(1,2) 2] 2 show ?thesis unfolding accounted_def at by auto
  next
    case 3
    then show ?thesis unfolding accounted_def by blast
  next
    case 4
    then show ?thesis unfolding accounted_def by (simp add: host_stepped_def)
  qed
qed

lemma acks_received:
  assumes "rcv v = R_recv" and "length fresh = CLIENT_PACKET_SIZE" and "36 \<le> length d"
    and "thread_step decodeImage (Receiver_acts fresh (Some d)) v = Done v'"
  shows "acks (shared v') = acks (shared v)
    \<or> length d \<le> CLIENT_PACKET_SIZE \<and> (\<exists>a. acks (shared v') = acks (shared v) @ [a] \<and> number_of a = number_of d)"
proof (cases "length d \<le> length fresh")
  case True
  let ?pkt = "decode_rtmp (d @ drop (length d) fresh)"
  have "wf_packet (ack_packet ?pkt)" by (simp add: ack_packet_def wf_packet_def zero_packet_def)
  then have "number_of (encode_rtmp (ack_packet ?pkt)) = sequenceNumber ?pkt"
    using decode_encode_rtmp[of "ack_packet ?pkt" "[]"] by (simp add: number_of_def ack_packet_def)
  with number_of_prefix[OF assms(3)] have "number_of (encode_rtmp (ack_packet ?pkt)) = number_of d" by (simp add: number_of_def)
  with True assms show ?thesis by (auto simp: receiver_act_def winsock_recvfrom_def Let_def)
qed (use assms in \<open>auto simp: receiver_act_def winsock_recvfrom_def\<close>)

lemma accounted_more:
  "accounted ds s q \<Longrightarrow> host_end s' = host_end s \<Longrightarrow> given_up s' = given_up s \<Longrightarrow> set ds \<subseteq> set ds' \<Longrightarrow> accounted ds' s' q"
  unfolding accounted_def by auto

lemma system_accounts:
  assumes "system_reach decodeImage p0 as ds s" and "host_start gdiOk installed initialised g = Done p0" and "captures_fit as"
  shows "acks_of ds s \<and> (\<forall>d \<in> set (hp_fresh (host_end s)). accounted ds s (number_of d))"
  using assms(1,3)
proof (induction rule: system_run.induct)
  case start
  have "hp_fresh p0 = []" "hp_receiver p0 = Receiver_test" using assms(2) by (auto simp: host_start_def)
  then show ?case by (simp add: system_init_def acks_of_def)
next
  case (host_acts as ds s a p)
  then have IH: "acks_of ds s" "\<forall>d \<in> set (hp_fresh (host_end s)). accounted ds s (number_of d)"
    by (auto simp: captures_fit_def)
  have "host_reaches p0 (as @ [a]) p"
    using host_reaches.and_act[OF host_reaches_of[OF host_acts.hyps(1)] host_acts.hyps(3)] .
  from hp_inv_run[OF this assms(2) host_acts.prems] have "packets_ok p" by (simp add: hp_inv_def)
  then have new: "number_of d = q" if "hp_sender p = Sender_keeps sf i fd q d" for sf i fd q d
    using that by (simp add: packets_ok_def number_of_def)
  have at: "host_end (host_stepped p s) = p" by (simp add: host_stepped_def)
  have "accounted ds (host_stepped p s) (number_of d)" if d: "d \<in> set (hp_fresh p)" for d
  proof (cases "d \<in> set (hp_fresh (host_end s))")
    case True
    with IH accounted_host[OF host_acts.hyps(3,2)] show ?thesis by blast
  next
    case False
    with host_keeps(3)[OF host_acts.hyps(3,2)] d obtain sf i fd q where "hp_sender p = Sender_keeps sf i fd q d" by auto
    with new[OF this] show ?thesis unfolding accounted_def at by blast
  qed
  moreover have "acks_of ds (host_stepped p s)"
    using IH(1) still_handles[OF host_acts.hyps(3,2)] by (auto simp: acks_of_def host_stepped_def)
  ultimately show ?case by (simp add: at)
next
  case (host_receives as ds s d p)
  then have IH: "acks_of ds s" "\<forall>d \<in> set (hp_fresh (host_end s)). accounted ds s (number_of d)"
    by (auto simp: captures_fit_def)
  have "sent (hp_packets p0) = []" "length (hp_buf p0) = 36" "hp_receiver p0 = Receiver_test" using assms(2) by (auto simp: host_start_def PacketManager_def)
  from system_ok[OF host_receives.hyps(1) this] host_receives.hyps(2) have a: "is_ack d" "length (hp_buf (host_end s)) = 36"
    by (auto simp: in_flight_ok_def)
  note p = host_takes_ack[OF host_receives.hyps(3) a host_receives.hyps(4)]
  have "accounted ds (host_stepped p (s\<lparr>to_host := to_host s - {#d#}\<rparr>)) q" if "accounted ds s q" for q
    using that unfolding accounted_def by (auto simp: host_stepped_def p)
  moreover have "acks_of ds (host_stepped p (s\<lparr>to_host := to_host s - {#d#}\<rparr>))"
    using IH(1) host_receives.hyps(2) by (auto simp: acks_of_def host_stepped_def p dest: in_diffD)
  ultimately show ?case using IH(2) by (simp add: host_stepped_def p)
next
  case (viewer_acts as ds s a v)
  then have IH: "acks_of ds s" "\<forall>d \<in> set (hp_fresh (host_end s)). accounted ds s (number_of d)" by auto
  have "to_host (viewer_stepped v s) = to_host s"
    using acks_new[OF viewer_acts.hyps(3,2)] by (simp add: viewer_stepped_def)
  with IH show ?case by (auto simp: acks_of_def viewer_stepped_def intro: accounted_more[of ds s])
next
  case (viewer_receives as ds s d fresh v)
  then have IH: "acks_of ds s" "\<forall>d \<in> set (hp_fresh (host_end s)). accounted ds s (number_of d)" by auto
  have "sent (hp_packets p0) = []" "length (hp_buf p0) = 36" "hp_receiver p0 = Receiver_test" using assms(2) by (auto simp: host_start_def PacketManager_def)
  from system_ok[OF viewer_receives.hyps(1) this] viewer_receives.hyps(2) have "d \<in> set (sent (hp_packets (host_end s)))"
    by (auto simp: in_flight_ok_def)
  moreover have "packets_ok (host_end s)"
    using hp_inv_run[OF host_reaches_of[OF viewer_receives.hyps(1)] assms(2) viewer_receives.prems] by (simp add: hp_inv_def)
  ultimately have "stream_datagram d" unfolding packets_ok_def by blast
  then have "36 \<le> length d" by (simp add: stream_datagram_def Let_def)
  from acks_received[OF viewer_receives.hyps(3,4) this viewer_receives.hyps(5)] IH(1)
  have "acks_of (ds @ [d]) (viewer_stepped v (s\<lparr>to_viewer := to_viewer s - {#d#}\<rparr>))"
    by (auto simp: acks_of_def viewer_stepped_def)
  with IH(2) show ?case by (auto simp: viewer_stepped_def intro: accounted_more[of ds s])
next
  case (loses as ds s V H)
  then have IH: "acks_of ds s" "\<forall>d \<in> set (hp_fresh (host_end s)). accounted ds s (number_of d)" by auto
  with loses.hyps(3) show ?case by (auto simp: acks_of_def dest: mset_subset_eqD intro: accounted_more[of ds s])
qed

text \<open>The timer going on by itself.\<close>

lemma timer_runs:
  assumes "timer_steps n (host_end s) = Done p"
  shows "\<exists>s'. system_run decodeImage s (replicate n By_acker) [] s' \<and> host_end s' = p \<and> viewer_end s' = viewer_end s
    \<and> to_host s' = to_host s
    \<and> (\<exists>new. sent (hp_packets p) = sent (hp_packets (host_end s)) @ new \<and> to_viewer s' = to_viewer s + mset new)"
  using assms
proof (induction n arbitrary: s)
  case 0
  then show ?case by (intro exI[of _ s]) (simp add: system_run.start)
next
  case (Suc n)
  then obtain p1 where p1: "acker_thread_step (host_end s) = Done p1" "timer_steps n p1 = Done p" by auto
  then have act: "host_act By_acker (host_end s) = Done p1" by simp
  obtain new where new: "sent (hp_packets p1) = sent (hp_packets (host_end s)) @ new" using sent_grows[OF act] ..
  have one: "system_run decodeImage s [By_acker] [] (host_stepped p1 s)"
    using system_run.host_acts[OF system_run.start _ act] by simp
  from Suc.IH[of "host_stepped p1 s"] p1(2) obtain s' new' where
    s': "system_run decodeImage (host_stepped p1 s) (replicate n By_acker) [] s'" "host_end s' = p" "viewer_end s' = viewer_end s"
      "to_host s' = to_host s" "sent (hp_packets p) = sent (hp_packets p1) @ new'" "to_viewer s' = to_viewer s + mset new + mset new'"
    by (auto simp: host_stepped_def new)
  with system_run_trans[OF one s'(1)] show ?case by (intro exI[of _ s']) (simp add: new)
qed

text \<open>What the system sends: fragments of the captured frames.\<close>

definition captured_bytes :: "video_capture \<Rightarrow> host_action list \<Rightarrow> BYTE list list" where
  "captured_bytes cap as = map frame_bytes (captured_frames cap as)"

definition packet_of :: "BYTE list list \<Rightarrow> DWORD \<times> nat \<Rightarrow> BYTE list" where
  "packet_of frs = datagram_of PACKET_TYPE_STREAM (seq_table frs 0) (frame_table frs)"

lemma system_fragments:
  assumes "host_start gdiOk installed initialised g = Done p0" and "captures_fit as"
    and "system_reach decodeImage p0 as ds s"
    and "\<forall>d \<in> set (hp_fresh (host_end s)). length d \<le> CLIENT_PACKET_SIZE"
    and "length (captured_frames (start_capture installed initialised) as) \<le> 2 ^ 32"
  shows "set (sent (hp_packets (host_end s))) \<subseteq> packet_of (captured_bytes (start_capture installed initialised) as)
      ` set (stream_fragments (captured_bytes (start_capture installed initialised) as))"
    and "set ds \<subseteq> set (sent (hp_packets (host_end s)))"
    and "\<forall>fi \<in> set (stream_fragments (captured_bytes (start_capture installed initialised) as)).
      fragment (frame_table (captured_bytes (start_capture installed initialised) as)) fi"
proof -
  let ?fs = "captured_frames (start_capture installed initialised) as" and ?p = "host_end s"
  let ?frs = "map frame_bytes ?fs"
  have p0: "sent (hp_packets p0) = []" "length (hp_buf p0) = 36" "hp_receiver p0 = Receiver_test"
    using assms(1) by (auto simp: host_start_def PacketManager_def)
  note host = host_reaches_of[OF assms(3)]
  have inv: "hp_inv (start_capture installed initialised) g as ?p" by (rule hp_inv_run[OF host assms(1,2)])
  then have ok: "\<forall>fd \<in> set ?fs. frame_ok fd" and sent: "set (sent (hp_packets ?p)) \<subseteq> set (hp_fresh ?p)"
    by (simp_all add: hp_inv_def packets_ok_def)
  from sends_prefix[OF assms(1) host assms(2)] obtain c pm rest where
    c: "c \<in> {-1, PACKET_SIZE}" "sendStream PACKET_TYPE_STREAM (sized c ?fs) 0 PacketManager = Done pm" "sent pm = hp_fresh ?p @ rest"
    by blast
  show "set (sent (hp_packets ?p)) \<subseteq> packet_of (captured_bytes (start_capture installed initialised) as)
      ` set (stream_fragments (captured_bytes (start_capture installed initialised) as))"
    using sent sent_fragments[OF c(1) ok c(2,3) assms(4,5)] by (simp add: packet_of_def captured_bytes_def)
  show "set ds \<subseteq> set (sent (hp_packets ?p))" using system_ok[OF assms(3) p0] by blast
  have "\<forall>b \<in> set ?frs. sendable PACKET_SIZE b" using ok sendable_size[of _ PACKET_SIZE 0] by (auto simp: size_at_def)
  then show "\<forall>fi \<in> set (stream_fragments (captured_bytes (start_capture installed initialised) as)).
      fragment (frame_table (captured_bytes (start_capture installed initialised) as)) fi"
    using fragments_sendable[of ?frs] assms(5) by (auto simp: captured_bytes_def)
qed

text \<open>A datagram names its fragment.\<close>

lemma packet_of_inj:
  assumes "fragment (frame_table frs) x" and "fragment (frame_table frs) y" and "packet_of frs x = packet_of frs y"
  shows "x = y"
proof -
  obtain f i where x: "x = (f, i)" by fastforce
  obtain g j where y: "y = (g, j)" by fastforce
  have dec: "decode_rtmp (packet_of frs (f, i)) = frame_header PACKET_TYPE_STREAM PAYLOAD_SIZE f (frame_table frs f) (seq_table frs 0 f) i"
    for f i by (simp add: packet_of_def datagram_of_def frame_datagram_def)
  have off: "get_rtsmp (rtmp_data (decode_rtmp (packet_of frs (f, i)))) = \<lparr>streamType = PACKET_TYPE_STREAM, frameNumber = f,
      offset = word_of_nat i, totalPackets = word_of_nat (nchunks PAYLOAD_SIZE (length (frame_table frs f)))\<rparr>" for f i
    unfolding dec by (simp add: frame_header_def)
  from off[of f i] off[of g j] assms(3) x y have "f = g" "(word_of_nat i :: WORD) = word_of_nat j" by simp_all
  moreover have "i < 65536" "j < 65536" using assms(1,2) fragment_bounds(2) unfolding x y by blast+
  ultimately show ?thesis by (metis x y unat_of_nat_16)
qed

lemma kept_sent_again:
  assumes "host_start gdiOk installed initialised g = Done p0" and "system_reach decodeImage p0 as ds s"
    and "length (recentPackets (hp_packets (host_end s))) \<le> RECENT_PACKETS_SIZE"
  shows "\<exists>n s'. system_run decodeImage s (replicate n By_acker) [] s'
    \<and> to_viewer s + mset (map snd (recentPackets (hp_packets (host_end s)))) \<subseteq># to_viewer s'
    \<and> recentPackets (hp_packets (host_end s')) = recentPackets (hp_packets (host_end s)) \<and> viewer_end s' = viewer_end s"
proof -
  obtain k where "config_ok (start_capture installed initialised) k (host_end s)"
    using config_run[OF host_reaches_of[OF assms(2)] assms(1)] ..
  then have "hp_on (host_end s)" "hp_acker (host_end s) \<noteq> Timer_ended" by (simp_all add: config_ok_def)
  from timer_sends_kept[OF this assms(3)] obtain n p before where
    p: "timer_steps n (host_end s) = Done p" "recentPackets (hp_packets p) = recentPackets (hp_packets (host_end s))"
      "sent (hp_packets p) = sent (hp_packets (host_end s)) @ before @ map snd (recentPackets (hp_packets (host_end s)))" by blast
  from timer_runs[OF p(1)] obtain s' where
    "system_run decodeImage s (replicate n By_acker) [] s'" "host_end s' = p" "viewer_end s' = viewer_end s"
    "to_viewer s' = to_viewer s + mset (before @ map snd (recentPackets (hp_packets (host_end s))))"
    using p(3) by auto
  with p(2) show ?thesis by (intro exI[of _ n] exI[of _ s']) simp
qed

subsection \<open>A run\<close>

text \<open>The run \<open>first_packet_run\<close> of the host, after which the viewer receives the first packet.\<close>

lemma fresh_is_sent:
  assumes "host_act a p = Done p'"
  shows "hp_fresh p' = hp_fresh p \<or> (\<exists>d. hp_fresh p' = hp_fresh p @ [d] \<and> sent (hp_packets p') = sent (hp_packets p) @ [d])"
proof (cases a)
  case (By_main os)
  with assms show ?thesis by (auto simp: main_step_def split: host_main.splits if_splits)
next
  case By_sender
  with assms show ?thesis
    by (auto simp: sender_thread_step_def sendPacket_def Let_def split: sender_pc.splits prod.splits outcome.splits if_splits)
next
  case (By_receiver dgram)
  with assms show ?thesis by (auto simp: receiver_thread_step_def Let_def split: receiver_loop.splits option.splits prod.splits if_splits)
next
  case By_acker
  with assms show ?thesis by (auto simp: acker_thread_step_def Let_def split: timer_loop.splits list.splits)
qed

lemma fresh_sent: "host_reaches p0 as p \<Longrightarrow> set (hp_fresh p0) \<subseteq> set (sent (hp_packets p0)) \<Longrightarrow> set (hp_fresh p) \<subseteq> set (sent (hp_packets p))"
proof (induction rule: host_reaches.induct)
  case (and_act as p a p')
  then have IH: "set (hp_fresh p) \<subseteq> set (sent (hp_packets p))" by simp
  obtain new where new: "sent (hp_packets p') = sent (hp_packets p) @ new" using sent_grows[OF and_act.hyps(2)] ..
  have "hp_fresh p' = hp_fresh p \<or> (\<exists>d. hp_fresh p' = hp_fresh p @ [d] \<and> sent (hp_packets p') = sent (hp_packets p) @ [d])"
    by (rule fresh_is_sent[OF and_act.hyps(2)])
  with IH new show ?case by auto
qed simp

lemma host_alone:
  assumes "host_reaches p0 as p" and "\<forall>a \<in> set as. no_datagram a"
  shows "\<exists>s. system_reach decodeImage p0 as [] s \<and> host_end s = p \<and> viewer_end s = threads_init
    \<and> to_viewer s + mset (sent (hp_packets p0)) = mset (sent (hp_packets p))"
  using assms
proof (induction rule: host_reaches.induct)
  case at_start
  have "system_reach decodeImage p0 [] [] (system_init p0)" by (rule system_run.start)
  then show ?case by (intro exI[of _ "system_init p0"]) (simp add: system_init_def)
next
  case (and_act as p a p')
  then obtain s where s: "system_reach decodeImage p0 as [] s" "host_end s = p" "viewer_end s = threads_init"
    "to_viewer s + mset (sent (hp_packets p0)) = mset (sent (hp_packets p))" by force
  have na: "no_datagram a" using and_act.prems by simp
  have act: "host_act a (host_end s) = Done p'" using and_act.hyps(2) s(2) by simp
  have reach: "system_reach decodeImage p0 (as @ [a]) [] (host_stepped p' s)"
    by (rule system_run.host_acts[OF s(1) na act])
  obtain new where new: "sent (hp_packets p') = sent (hp_packets p) @ new" using sent_grows[OF and_act.hyps(2)] ..
  then have "to_viewer (host_stepped p' s) = to_viewer s + mset new" by (simp add: host_stepped_def s(2))
  then have "to_viewer (host_stepped p' s) + mset (sent (hp_packets p0)) = mset (sent (hp_packets p) @ new)"
    using s(4) by (simp add: union_commute union_lcomm)
  moreover have "host_end (host_stepped p' s) = p'" "viewer_end (host_stepped p' s) = threads_init"
    by (simp_all add: host_stepped_def s(3))
  ultimately show ?case using reach new by (intro exI[of _ "host_stepped p' s"]) simp
qed

abbreviation "first_as \<equiv> first_packet_run @ [By_sender]"
abbreviation "jpegs \<equiv> [(''image/jpeg'', 9)]"

lemma first_captured: "\<exists>fd. captured_frames cap first_as = [fd] \<and> frame_bytes fd = [1, 2, 0]"
  by (simp add: captured_frames_def captures_def first_packet_run_def List.map_filter_def captured_def encodeFrame_def
      one_capture_def frame_bytes_def)

text \<open>As long as the only frame captured is that of three bytes, the host has sent at most one packet, a small one.\<close>

lemma one_small_frame:
  assumes "host_start True jpegs (videoCapture jpeg_stream) all_unlocked = Done p0" and "host_reaches p0 as p" and "captures_fit as"
    and fd: "captured_frames (start_capture jpegs (videoCapture jpeg_stream)) as = [fd]" "frame_bytes fd = [1, 2, 0]"
  shows "length (hp_fresh p) \<le> 1 \<and> (\<forall>d \<in> set (hp_fresh p). length d \<le> CLIENT_PACKET_SIZE)"
proof -
  from sends_prefix[OF assms(1-3)] obtain c pm rest where
    c: "c \<in> {-1, PACKET_SIZE}" "sendStream PACKET_TYPE_STREAM (sized c [fd]) 0 PacketManager = Done pm" "sent pm = hp_fresh p @ rest"
    unfolding fd by blast
  have "sendable c [1, 2, 0]" using c(1) by (auto simp: sendable_def nchunks_def)
  from send_frame_done[OF this, of PACKET_TYPE_STREAM 0 PacketManager] c(1,2)
  have "length (sent pm) = 1 \<and> (\<forall>d \<in> set (sent pm). length d \<le> 39)"
    by (auto simp: sized_first fd PacketManager_def length_frame_datagram length_chunk nchunks_def)
  then have "length (hp_fresh p) \<le> 1" "\<forall>d \<in> set (hp_fresh p). length d \<le> 39" unfolding c(3) by auto
  then show ?thesis by (fastforce simp: CLIENT_PACKET_SIZE_def)
qed

lemma first_fresh_small:
  assumes "host_start True jpegs (videoCapture jpeg_stream) all_unlocked = Done p0" and "host_reaches p0 first_as p"
  shows "\<forall>d \<in> set (hp_fresh p). length d \<le> CLIENT_PACKET_SIZE"
  using one_small_frame[OF assms first_packet_fits] first_captured by blast

lemma kept_at_most_sent:
  assumes "packets_ok p"
  shows "length (recentPackets (hp_packets p)) \<le> length (hp_fresh p)"
proof -
  let ?k = "recentPackets (hp_packets p)"
  have "set (map fst ?k) \<subseteq> set (map (\<lambda>d. sequenceNumber (decode_rtmp d)) (hp_fresh p))"
    using assms by (fastforce simp: packets_ok_def)
  then have "card (set (map fst ?k)) \<le> length (hp_fresh p)"
    by (metis card_length card_mono finite_set length_map order_trans)
  moreover have "distinct (map fst ?k)" using assms by (simp add: packets_ok_def)
  ultimately show ?thesis by (simp add: distinct_card del: set_map)
qed

text \<open>A state of the system in which the first packet is kept and no one has received it.\<close>

lemma first_kept_system:
  obtains p0 s e where "host_start True jpegs (videoCapture jpeg_stream) all_unlocked = Done p0"
    "system_reach decodeImage p0 (first_as @ [By_sender]) [] s" "e \<in> set (recentPackets (hp_packets (host_end s)))"
    "length (recentPackets (hp_packets (host_end s))) \<le> RECENT_PACKETS_SIZE" "viewer_end s = threads_init"
    "\<forall>d \<in> set (hp_fresh (host_end s)). length d \<le> CLIENT_PACKET_SIZE" "captures_fit (first_as @ [By_sender])"
    "captured_bytes (start_capture jpegs (videoCapture jpeg_stream)) (first_as @ [By_sender]) = [[1, 2, 0]]"
proof -
  let ?as = "first_as @ [By_sender]" and ?cap = "start_capture jpegs (videoCapture jpeg_stream)"
  obtain p0 p e where run: "host_start True jpegs (videoCapture jpeg_stream) all_unlocked = Done p0"
    "host_reaches p0 ?as p" "e \<in> set (recentPackets (hp_packets p))" by (rule first_kept) simp
  obtain fd where fd: "captured_frames ?cap first_as = [fd]" "frame_bytes fd = [1, 2, 0]" using first_captured by blast
  then have one: "captured_frames ?cap ?as = [fd]" by (simp only: captured_frames_snoc) simp
  have fits: "captures_fit ?as" using first_packet_fits by (auto simp: captures_fit_def)
  note small = one_small_frame[OF run(1,2) fits one fd(2)]
  then have "length (hp_fresh p) \<le> 1" by blast
  moreover have "packets_ok p" using hp_inv_run[OF run(2,1) fits] by (simp add: hp_inv_def)
  ultimately have few: "length (recentPackets (hp_packets p)) \<le> RECENT_PACKETS_SIZE"
    using kept_at_most_sent[of p] by (simp add: RECENT_PACKETS_SIZE_def)
  have "\<forall>a \<in> set ?as. no_datagram a" by (simp add: first_packet_run_def)
  from host_alone[OF run(2) this, of decodeImage] obtain s where
    "system_reach decodeImage p0 ?as [] s" "host_end s = p" "viewer_end s = threads_init" by blast
  with run few small fits one fd(2) show thesis by (intro that[of p0 s e]) (simp_all add: captured_bytes_def)
qed

lemma first_fresh_datagram:
  assumes "host_start True jpegs (videoCapture jpeg_stream) all_unlocked = Done p0" and "host_reaches p0 first_as p"
    and "d \<in> set (hp_fresh p)"
  shows "d = datagram_of PACKET_TYPE_STREAM (seq_table [[1, 2, 0]] 0) (frame_table [[1, 2, 0]]) (0, 0)"
proof -
  let ?cap = "start_capture jpegs (videoCapture jpeg_stream)"
  obtain fd where fd: "captured_frames ?cap first_as = [fd]" "frame_bytes fd = [1, 2, 0]" using first_captured by blast
  have ok: "\<forall>fd \<in> set [fd]. frame_ok fd"
    using hp_inv_run[OF assms(2,1) first_packet_fits] fd(1) by (simp add: hp_inv_def)
  from sends_prefix[OF assms(1,2) first_packet_fits] obtain c pm rest where
    c: "c \<in> {-1, PACKET_SIZE}" "sendStream PACKET_TYPE_STREAM (sized c [fd]) 0 PacketManager = Done pm" "sent pm = hp_fresh p @ rest"
    unfolding fd by blast
  from sent_fragments[OF c(1) ok c(2,3) first_fresh_small[OF assms(1,2)]] assms(3) show ?thesis
    by (auto simp: fd stream_fragments_def k_of_def nchunks_def)
qed

text \<open>A viewer that receives a frame of one packet and shows it.\<close>

lemma one_packet_run:
  fixes decodeImage :: "BYTE list \<Rightarrow> 'bmp option"
  assumes F: "fragment frames (f, 0)" "frames f \<noteq> []" "k_of (frames f) = 1" and b: "decodeImage (frames f) = Some b"
    and fresh: "length fresh = CLIENT_PACKET_SIZE"
  obtains v1 acts v where
    "thread_step decodeImage (Receiver_acts fresh (Some (datagram_of PACKET_TYPE_STREAM sq frames (f, 0)))) threads_init = Done v1"
    "threads_run decodeImage acts v1 = Done v" "\<forall>a \<in> set acts. \<forall>v :: 'bmp viewer_threads. takes_none a v"
    "displayed (shared v) = [(f, Some b)]"
proof -
  let ?d = "datagram_of PACKET_TYPE_STREAM sq frames (f, 0)"
  let ?take = "replicate 4 (Receiver_acts fresh None) @ replicate 9 Consumer_acts"
  obtain v1 v3 :: "'bmp viewer_threads" and fb where
    1: "thread_step decodeImage (Receiver_acts fresh (Some ?d)) threads_init = Done v1"
    and 3: "threads_run decodeImage ?take v1 = Done v3"
    and at: "dcd v3 = D_test" "win v3 = W_lock" "bmpMutex v3 = None" "displayed (shared v3) = []"
      "frameNumQueue (shared v3) = \<lparr>queue = f # [], queue_semaphore = Suc 0\<rparr>" "activeFrames (shared v3) f = Some fb"
      "decodeImage (chunks fb) = Some b" "frameNumBmpQueue (shared v3) = \<lparr>pqueue = [], pqueue_semaphore = 0\<rparr>"
    by (rule one_packet_taken[where t = PACKET_TYPE_STREAM and sq = sq and decodeImage = decodeImage, OF F fresh]) (simp add: b)
  from decoder_decodes[of v3 f "[]" 0 fb decodeImage b] at obtain v4 where
    4: "threads_run decodeImage (replicate 10 Decoder_acts) v3 = Done v4" "win v4 = W_lock" "bmpMutex v4 = None"
      "displayed (shared v4) = []" "frameNumBmpQueue (shared v4) = \<lparr>pqueue = [(f, Some b)], pqueue_semaphore = Suc 0\<rparr>" by auto
  from window_paints[of "timer_act v4" f b "[]" 0 decodeImage] 4 obtain v5 where
    5: "threads_run decodeImage (replicate 7 Window_acts) (timer_act v4) = Done v5" "displayed (shared v5) = [(f, Some b)]"
    by (auto simp: timer_act_def)
  have r: "threads_run decodeImage (?take @ replicate 10 Decoder_acts @ Timer_acts # replicate 7 Window_acts) v1 = Done v5"
    unfolding threads_run_append[of _ ?take] 3 using 4(1) 5(1) by (simp add: threads_run_append)
  show thesis by (rule that[OF 1 r _ 5(2)]) (use fresh in auto)
qed

lemma viewer_runs:
  fixes decodeImage :: "BYTE list \<Rightarrow> 'bmp option"
  assumes "threads_run decodeImage acts (viewer_end s) = Done v" and "\<forall>a \<in> set acts. \<forall>v :: 'bmp viewer_threads. takes_none a v"
  shows "\<exists>s'. system_run decodeImage s [] [] s' \<and> viewer_end s' = v \<and> host_end s' = host_end s \<and> to_viewer s' = to_viewer s"
  using assms
proof (induction acts arbitrary: s)
  case Nil
  then show ?case by (auto intro: system_run.start)
next
  case (Cons a acts)
  then obtain v1 where v1: "thread_step decodeImage a (viewer_end s) = Done v1" "threads_run decodeImage acts v1 = Done v" by auto
  have "takes_none a (viewer_end s)" using Cons.prems(2) by simp
  from system_run.viewer_acts[OF system_run.start this v1(1)] have one: "system_run decodeImage s [] [] (viewer_stepped v1 s)" .
  from Cons.IH[of "viewer_stepped v1 s"] v1(2) Cons.prems(2) obtain s' where
    s': "system_run decodeImage (viewer_stepped v1 s) [] [] s'" "viewer_end s' = v" "host_end s' = host_end s" "to_viewer s' = to_viewer s"
    by (auto simp: viewer_stepped_def)
  with system_run_trans[OF one s'(1)] show ?case by auto
qed

text \<open>The viewer receives the packet and shows the picture.\<close>

lemma first_picture_shown:
  assumes b: "decodeImage [1, 2, 0] = Some b"
  obtains p0 d s where "host_start True jpegs (videoCapture jpeg_stream) all_unlocked = Done p0"
    "system_reach decodeImage p0 first_as [d] s" "d \<in> set (hp_fresh (host_end s))"
    "\<forall>d \<in> set (hp_fresh (host_end s)). length d \<le> CLIENT_PACKET_SIZE" "displayed (shared (viewer_end s)) = [(0, Some b)]"
proof -
  let ?fr = "frame_table [[1, 2, 0 :: BYTE]]" and ?sq = "seq_table [[1, 2, 0]] 0" and ?fresh = "replicate CLIENT_PACKET_SIZE (0 :: BYTE)"
  obtain p0 p where run: "host_start True jpegs (videoCapture jpeg_stream) all_unlocked = Done p0"
    "host_reaches p0 first_as p" "hp_fresh p \<noteq> []" by (rule first_packet)
  then obtain d where d: "d \<in> set (hp_fresh p)" by (cases "hp_fresh p") auto
  note is_d = first_fresh_datagram[OF run(1,2) d]
  have p0: "hp_fresh p0 = []" "sent (hp_packets p0) = []" using run(1) by (auto simp: host_start_def PacketManager_def)
  have "\<forall>a \<in> set first_as. no_datagram a" by (simp add: first_packet_run_def)
  from host_alone[OF run(2) this, of decodeImage] p0 obtain s where s: "system_reach decodeImage p0 first_as [] s" "host_end s = p"
    "viewer_end s = threads_init" "to_viewer s = mset (sent (hp_packets p))" by auto
  have "d \<in># to_viewer s" using fresh_sent[OF run(2)] d p0 s(4) by auto
  moreover have "?fr 0 = [1, 2, 0]" by (simp add: frame_table_def)
  then have F: "fragment ?fr (0, 0)" "?fr 0 \<noteq> []" "k_of (?fr 0) = 1" "decodeImage (?fr 0) = Some b"
    using b by (simp_all add: fragment_def sendable_def PACKET_SIZE_def k_of_def nchunks_def)
  obtain v1 acts v where v: "thread_step decodeImage (Receiver_acts ?fresh (Some d)) threads_init = Done v1"
    "threads_run decodeImage acts v1 = Done v" "\<forall>a \<in> set acts. \<forall>v :: 'a viewer_threads. takes_none a v"
    "displayed (shared v) = [(0, Some b)]"
    by (rule one_packet_run[where decodeImage = decodeImage and sq = ?sq and fresh = ?fresh, OF F]) (simp_all add: is_d)
  moreover have "rcv (viewer_end s) = R_recv" by (simp add: s(3) threads_init_def)
  ultimately have "system_reach decodeImage p0 first_as ([] @ [d]) (viewer_stepped v1 (s\<lparr>to_viewer := to_viewer s - {#d#}\<rparr>))"
    by (intro system_run.viewer_receives[OF s(1)]) (simp_all add: s(3))
  note received = this
  from viewer_runs[of decodeImage acts _ v, OF _ v(3)] v(2) obtain s' where
    s': "system_run decodeImage (viewer_stepped v1 (s\<lparr>to_viewer := to_viewer s - {#d#}\<rparr>)) [] [] s'" "viewer_end s' = v" "host_end s' = p"
    using s(2) by (force simp: viewer_stepped_def)
  from system_run_trans[OF received s'(1)] have "system_reach decodeImage p0 first_as [d] s'" by simp
  note s' = this s'(2,3)
  with run(1) d first_fresh_small[OF run(1,2)] v(4) show thesis by (intro that[of p0 d s']) simp_all
qed

section \<open>Properties\<close>

text \<open>
  C2: From one screen to the other. Whatever order the threads of both programs take their steps in, and
  whatever the network loses and reorders, acknowledgements included: as long as no datagram came
  twice to the viewer and all the host has sent fit its packets, no thread of the viewer faults,
  every picture the viewer has shown is the decoded picture of a frame the host has captured, under
  that frame's number, all of its bytes, and none has been shown twice.
\<close>

theorem viewer_shows_captures:
  assumes "host_start gdiOk installed initialised g = Done p0" and "captures_fit as"
    and "system_reach decodeImage p0 as ds s" and "distinct ds" and "length ds < MAXINT"
    and "\<forall>d \<in> set (hp_fresh (host_end s)). length d \<le> CLIENT_PACKET_SIZE"
    and "length (captured_frames (start_capture installed initialised) as) \<le> 2 ^ 32"
  shows "(\<forall>a e. thread_step decodeImage a (viewer_end s) \<noteq> Fault e)
    \<and> distinct (map fst (displayed (shared (viewer_end s))))
    \<and> (\<forall>(n, bmp) \<in> set (displayed (shared (viewer_end s))). bmp \<noteq> None
        \<and> (\<exists>k < length (captured_frames (start_capture installed initialised) as). n = word_of_nat k
            \<and> bmp = decodeImage (frame_bytes (captured_frames (start_capture installed initialised) as ! k))))"
proof -
  let ?fs = "captured_frames (start_capture installed initialised) as"
  let ?frs = "map frame_bytes ?fs"
  let ?dg = "datagram_of PACKET_TYPE_STREAM (seq_table ?frs 0) (frame_table ?frs)"
  note frag = system_fragments[OF assms(1-3,6,7), unfolded packet_of_def captured_bytes_def]
  from frag(1,2) have "set ds \<subseteq> ?dg ` set (stream_fragments ?frs)" by blast
  from image_list[OF this] obtain fis where fis: "ds = map ?dg fis" "set fis \<subseteq> set (stream_fragments ?frs)" by blast
  with frag(3) have frag: "\<forall>fi \<in> set fis. fragment (frame_table ?frs) fi" by blast
  have "distinct fis" "length fis < MAXINT" using assms(4,5) fis(1) by (simp_all add: distinct_map)
  from threads_show_whole_frames[OF threads_reach_of[OF assms(3)[unfolded fis(1)]] this(1) frag this(2)] have
    live: "\<forall>a e. thread_step decodeImage a (viewer_end s) \<noteq> Fault e" and
    shown: "distinct (map fst (displayed (shared (viewer_end s))))"
      "\<forall>(n, bmp) \<in> set (displayed (shared (viewer_end s))). bmp \<noteq> None \<and> bmp = decodeImage (frame_table ?frs n)
         \<and> frame_table ?frs n \<noteq> [] \<and> (\<forall>i < k_of (frame_table ?frs n). (n, i) \<in> set fis)" by auto
  have "\<exists>k < length ?fs. n = word_of_nat k \<and> frame_table ?frs n = frame_bytes (?fs ! k)" if "frame_table ?frs n \<noteq> []" for n
    using that by (intro exI[of _ "unat n"]) (auto simp: frame_table_def split: if_splits)
  with shown(2) have "\<forall>(n, bmp) \<in> set (displayed (shared (viewer_end s))). bmp \<noteq> None
      \<and> (\<exists>k < length ?fs. n = word_of_nat k \<and> bmp = decodeImage (frame_bytes (?fs ! k)))" by fastforce
  with live shown(1) show ?thesis by blast
qed

theorem viewer_shows_captures_witness:
  "\<exists>p0 d s. system_reach (\<lambda>bytes. Some (length bytes)) p0 first_as [d] s \<and> displayed (shared (viewer_end s)) = [(0, Some 3)]
    \<and> (\<exists>k < length (captured_frames (start_capture jpegs (videoCapture jpeg_stream)) first_as). (0 :: DWORD) = word_of_nat k
        \<and> Some 3 = Some (length (frame_bytes (captured_frames (start_capture jpegs (videoCapture jpeg_stream)) first_as ! k))))"
proof (rule first_picture_shown[of "\<lambda>bytes. Some (length bytes)" 3])
  fix p0 d s
  assume run: "host_start True jpegs (videoCapture jpeg_stream) all_unlocked = Done p0"
    "system_reach (\<lambda>bytes. Some (length bytes)) p0 first_as [d] s" "d \<in> set (hp_fresh (host_end s))"
    "\<forall>d \<in> set (hp_fresh (host_end s)). length d \<le> CLIENT_PACKET_SIZE" "displayed (shared (viewer_end s)) = [(0, Some 3)]"
  have "length (captured_frames (start_capture jpegs (videoCapture jpeg_stream)) first_as) \<le> 2 ^ 32"
    using first_captured[of "start_capture jpegs (videoCapture jpeg_stream)"] by auto
  from viewer_shows_captures[OF run(1) first_packet_fits run(2) _ _ run(4) this] run(2,5) show ?thesis
    by (intro exI[of _ p0] exI[of _ d] exI[of _ s]) (simp add: MAXINT_def)
qed simp

text \<open>
  C4: Nothing is lost in silence, and the host lives. Whatever the threads do and the network loses: of
  every packet the host has sent, the number is still kept for the timer, or about to be, or the viewer
  has received it, or it went when the timer forgot more than 200 packets at once. And no step of a
  thread of the host faults, in any state the two programs and the network can get into.
\<close>

theorem nothing_lost_in_silence:
  assumes "host_start gdiOk installed initialised g = Done p0" and "captures_fit as"
    and "system_reach decodeImage p0 as ds s"
  shows "(\<forall>d \<in> set (hp_fresh (host_end s)). let q = sequenceNumber (decode_rtmp d) in
        q \<in> fst ` set (recentPackets (hp_packets (host_end s)))
      \<or> (\<exists>sf i fd d'. hp_sender (host_end s) = Sender_keeps sf i fd q d')
      \<or> (\<exists>d' \<in> set ds. length d' \<le> CLIENT_PACKET_SIZE \<and> sequenceNumber (decode_rtmp d') = q)
      \<or> q \<in> given_up s)
    \<and> (\<forall>a e. host_act a (host_end s) \<noteq> Fault e)"
proof
  show "\<forall>d \<in> set (hp_fresh (host_end s)). let q = sequenceNumber (decode_rtmp d) in
      q \<in> fst ` set (recentPackets (hp_packets (host_end s)))
    \<or> (\<exists>sf i fd d'. hp_sender (host_end s) = Sender_keeps sf i fd q d')
    \<or> (\<exists>d' \<in> set ds. length d' \<le> CLIENT_PACKET_SIZE \<and> sequenceNumber (decode_rtmp d') = q)
    \<or> q \<in> given_up s"
    using system_accounts[OF assms(3,1,2)] by (simp add: accounted_def number_of_def Let_def)
  have p0: "sent (hp_packets p0) = []" "length (hp_buf p0) = 36" "hp_receiver p0 = Receiver_test"
    using assms(1) by (auto simp: host_start_def PacketManager_def)
  note ok = system_ok[OF assms(3) p0]
  have "host_act a (host_end s) \<noteq> Fault e" for a e
  proof
    assume f: "host_act a (host_end s) = Fault e"
    from host_fault[OF hp_inv_run[OF host_reaches_of[OF assms(3)] assms(1,2)] f] obtain dgram where
      a: "a = host_action.By_receiver dgram" by blast
    with f have "hp_receiver (host_end s) = Receiver_handles"
      by (auto simp: receiver_thread_step_def Let_def split: receiver_loop.splits prod.splits)
    with f a ok is_ack_reads(2)[of "hp_buf (host_end s)"] show False
      by (auto simp: receiver_thread_step_def in_flight_ok_def handlerMap_def split: if_splits)
  qed
  then show "\<forall>a e. host_act a (host_end s) \<noteq> Fault e" by blast
qed

theorem nothing_lost_in_silence_witness:
  "\<exists>p0 d s. system_reach (\<lambda>bytes. Some (length bytes)) p0 first_as [d] s \<and> d \<in> set (hp_fresh (host_end s))
    \<and> (let q = sequenceNumber (decode_rtmp d) in
        q \<in> fst ` set (recentPackets (hp_packets (host_end s)))
      \<or> (\<exists>sf i fd d'. hp_sender (host_end s) = Sender_keeps sf i fd q d')
      \<or> (\<exists>d' \<in> set [d]. length d' \<le> CLIENT_PACKET_SIZE \<and> sequenceNumber (decode_rtmp d') = q)
      \<or> q \<in> given_up s)"
proof (rule first_picture_shown[of "\<lambda>bytes. Some (length bytes)" 3])
  fix p0 d s
  assume run: "host_start True jpegs (videoCapture jpeg_stream) all_unlocked = Done p0"
    "system_reach (\<lambda>bytes. Some (length bytes)) p0 first_as [d] s" "d \<in> set (hp_fresh (host_end s))"
  from conjunct1[OF nothing_lost_in_silence[OF run(1) first_packet_fits run(2)], rule_format, OF run(3)] run(2,3)
  show ?thesis by blast
qed simp

text \<open>
  C5: What is kept is sent again. Wherever all the threads are, the timer perhaps in the middle of a
  round: when it goes on by itself, no matter how the others stand, it hands every kept packet to the
  network once more, as long as no more than 200 are kept, and keeps them all.
\<close>

theorem kept_is_sent_again:
  assumes "host_start gdiOk installed initialised g = Done p0" and "system_reach decodeImage p0 as ds s"
    and "length (recentPackets (hp_packets (host_end s))) \<le> RECENT_PACKETS_SIZE"
  shows "\<exists>n s'. system_run decodeImage s (replicate n By_acker) [] s'
    \<and> to_viewer s + mset (map snd (recentPackets (hp_packets (host_end s)))) \<subseteq># to_viewer s'
    \<and> recentPackets (hp_packets (host_end s')) = recentPackets (hp_packets (host_end s)) \<and> viewer_end s' = viewer_end s"
  by (rule kept_sent_again[OF assms])

theorem kept_is_sent_again_witness:
  "\<exists>p0 s e n s'. system_reach (\<lambda>bytes. Some (length bytes)) p0 (first_as @ [By_sender]) [] s
    \<and> e \<in> set (recentPackets (hp_packets (host_end s)))
    \<and> system_run (\<lambda>bytes. Some (length bytes)) s (replicate n By_acker) [] s'
    \<and> to_viewer s + {#snd e#} \<subseteq># to_viewer s'"
proof (rule first_kept_system[of "\<lambda>bytes. Some (length bytes)"])
  fix p0 s e
  assume run: "host_start True jpegs (videoCapture jpeg_stream) all_unlocked = Done p0"
    "system_reach (\<lambda>bytes. Some (length bytes)) p0 (first_as @ [By_sender]) [] s"
    "e \<in> set (recentPackets (hp_packets (host_end s)))"
    "length (recentPackets (hp_packets (host_end s))) \<le> RECENT_PACKETS_SIZE"
  from kept_is_sent_again[OF run(1,2,4)] obtain n s' where
    s': "system_run (\<lambda>bytes. Some (length bytes)) s (replicate n By_acker) [] s'"
      "to_viewer s + mset (map snd (recentPackets (hp_packets (host_end s)))) \<subseteq># to_viewer s'" by blast
  have "{#snd e#} \<subseteq># mset (map snd (recentPackets (hp_packets (host_end s))))" using run(3) by simp
  then have "to_viewer s + {#snd e#} \<subseteq># to_viewer s'" using s'(2) by (meson mset_subset_eq_mono_add_left_cancel subset_mset.order_trans)
  with run(2,3) s'(1) show ?thesis by blast
qed

end
