(* ===== verification/ViewerLiveness.thy ===== *)
theory ViewerLiveness
  imports ViewerRaces
begin

text \<open>
  What the viewer has received it can show: from every reachable state of its threads, however they
  stand, a run without further datagrams leads to a state in which all threads are at the start of
  their loops, all queues are empty, and every complete frame that can be decoded has been shown. The
  argument is a measure of the work that is left, which the step of some thread makes smaller.
\<close>

section \<open>The work that is left\<close>

text \<open>
  A packet that waits stands for the rest of its way through the viewer, and so do a number and a
  bitmap; a thread in the middle of its round for what it has still to do.
\<close>

fun work_r :: "receiver_pc \<Rightarrow> nat" where
  "work_r R_recv = 0" | "work_r (R_lock p) = 35" | "work_r (R_push p) = 34" | "work_r R_release = 2" | "work_r R_unlock = 1"

fun work_c :: "consumer_pc \<Rightarrow> nat" where
  "work_c C_test = 4" | "work_c C_lock = 3" | "work_c C_wait = 2" | "work_c C_take = 1" | "work_c (C_open p) = 30"
| "work_c (C_write p) = 29" | "work_c (C_report p) = 28" | "work_c C_release = 6" | "work_c C_unlock = 5"

fun work_d :: "'bmp decoder_pc \<Rightarrow> nat" where
  "work_d D_test = 4" | "work_d D_wait = 3" | "work_d D_take = 2" | "work_d (D_look n) = 21" | "work_d (D_decode n) = 20"
| "work_d (D_lock n b) = 19" | "work_d (D_push n b) = 18" | "work_d (D_release n) = 8" | "work_d (D_unlock n) = 7"
| "work_d (D_erase n) = 6"

fun work_w :: "bool \<Rightarrow> 'bmp num_bmp list \<Rightarrow> 'bmp window_pc \<Rightarrow> nat" where
  "work_w ticked q W_lock = (if ticked then 3 else 4)" | "work_w ticked q W_test = (if ticked \<and> q \<noteq> [] then 2 else 6)"
| "work_w ticked q W_wait = 1" | "work_w ticked q W_take = 0" | "work_w ticked q (W_show x) = 8"
| "work_w ticked q (W_clear x) = 7" | "work_w ticked q W_unlock = 5"

definition work_left :: "'bmp viewer_threads \<Rightarrow> nat" where
  "work_left v = (let s = shared v in 31 * length (queue (packetQueue s)) + 21 * length (queue (frameNumQueue s))
     + 9 * length (pqueue (frameNumBmpQueue s)) + work_r (rcv v) + work_c (csm v) + work_d (dcd v)
     + work_w (loadFrame s) (pqueue (frameNumBmpQueue s)) (win v))"

text \<open>A step that is not idle makes it smaller, with the window where it cannot see the others' changes.\<close>

lemma queue_released [simp]: "queue (snd (tsq_release q)) = queue q"
  by (simp add: tsq_release_def split_def Let_def)

lemma length_pq_insert [simp]: "length (pq_insert cmp x q) = Suc (length q)"
  by (metis mset_pq_insert size_add_mset size_mset)

lemma receiver_works:
  assumes "receiver_act fresh None v = Done v'" and "rcv v \<noteq> R_recv"
  shows "work_left v' < work_left v"
  using assms
  by (cases "rcv v") (auto simp: receiver_act_def work_left_def tsq_enqueue_def Let_def split: if_splits)

lemma consumer_works:
  assumes "consumer_act v = Done v'" and "csm v = C_test \<Longrightarrow> queue (packetQueue (shared v)) \<noteq> []"
  shows "work_left v' < work_left v"
proof (cases "csm v")
  case C_wait
  with assms(1) show ?thesis
    by (auto simp: consumer_act_def work_left_def tsq_wait_def Let_def split: prod.splits outcome.splits)
next
  case C_take
  with assms(1) show ?thesis
    by (auto simp: consumer_act_def work_left_def tsq_take_def Let_def split: prod.splits outcome.splits list.splits if_splits)
next
  case (C_report p)
  with assms(1) show ?thesis
    by (auto simp: consumer_act_def work_left_def tsq_enqueue_def Let_def split: option.splits if_splits)
qed (use assms in \<open>auto simp: consumer_act_def work_left_def tsq_isEmpty_def Let_def split: option.splits if_splits\<close>)

lemma decoder_works:
  assumes "decoder_act decodeImage v = Done v'" and "dcd v = D_test \<Longrightarrow> queue (frameNumQueue (shared v)) \<noteq> []"
    and "win v = W_lock"
  shows "work_left v' < work_left v"
proof (cases "dcd v")
  case D_wait
  with assms(1) show ?thesis
    by (auto simp: decoder_act_def work_left_def tsq_wait_def Let_def split: prod.splits outcome.splits)
next
  case D_take
  with assms(1) show ?thesis
    by (auto simp: decoder_act_def work_left_def tsq_take_def Let_def split: prod.splits outcome.splits list.splits)
next
  case (D_push n b)
  with assms(1,3) show ?thesis
    by (auto simp: decoder_act_def work_left_def Let_def)
qed (use assms in \<open>auto simp: decoder_act_def work_left_def tsq_isEmpty_def Let_def split: option.splits if_splits\<close>)

lemma window_works:
  assumes "window_act v = Done v'" and "win v = W_lock \<Longrightarrow> loadFrame (shared v) \<and> pqueue (frameNumBmpQueue (shared v)) \<noteq> []"
  shows "work_left v' < work_left v"
proof (cases "win v")
  case W_wait
  with assms(1) show ?thesis
    by (auto simp: window_act_def work_left_def Let_def split: prod.splits outcome.splits)
next
  case W_take
  with assms(1) show ?thesis
    by (auto simp: window_act_def work_left_def Let_def split: list.splits)
qed (use assms in \<open>auto simp: window_act_def work_left_def tspq_isEmpty_def Let_def split: if_splits\<close>)

lemma timer_works: "win v = W_lock \<Longrightarrow> \<not> loadFrame (shared v) \<Longrightarrow> work_left (timer_act v) < work_left v"
  by (simp add: timer_act_def work_left_def Let_def)

section \<open>Settling\<close>

definition settled :: "'bmp viewer_threads \<Rightarrow> bool" where
  "settled v \<longleftrightarrow> rcv v = R_recv \<and> csm v = C_test \<and> dcd v = D_test \<and> win v = W_lock
     \<and> queue (packetQueue (shared v)) = [] \<and> queue (frameNumQueue (shared v)) = [] \<and> pqueue (frameNumBmpQueue (shared v)) = []"

abbreviation "fresh_buffer \<equiv> replicate CLIENT_PACKET_SIZE (0 :: BYTE)"
abbreviation "receiver_goes \<equiv> Receiver_acts fresh_buffer None"

text \<open>The step to take next: first the threads inside a critical section, the window last.\<close>

lemma some_thread_works:
  assumes R: "threads_rel frames decodeImage decoded v st" and nf: "\<And>a e. thread_step decodeImage a v \<noteq> Fault e" and "\<not> settled v"
  shows "\<exists>a v'. a \<in> {receiver_goes, Consumer_acts, Decoder_acts, Timer_acts, Window_acts}
    \<and> thread_step decodeImage a v = Done v' \<and> work_left v' < work_left v"
proof -
  have goes: ?thesis if "a \<in> {receiver_goes, Consumer_acts, Decoder_acts, Timer_acts, Window_acts}"
    and "thread_step decodeImage a v \<noteq> Blocks" and "\<And>v'. thread_step decodeImage a v = Done v' \<Longrightarrow> work_left v' < work_left v" for a
    using that nf[of a] by (cases "thread_step decodeImage a v") blast+
  note waits = blocked_waits[OF R]
  have free: "\<not> (r_in (rcv v) \<and> c_in (csm v))" "\<not> (d_in (dcd v) \<and> w_in (win v))" using R by (simp_all add: threads_rel locks_rel_def)
  have r: "\<not> c_in (csm v) \<Longrightarrow> rcv v \<noteq> R_recv \<Longrightarrow> ?thesis"
    using waits[of receiver_goes] by (intro goes[of receiver_goes]) (auto intro: receiver_works)
  have c: "\<not> r_in (rcv v) \<Longrightarrow> csm v \<noteq> C_test \<or> queue (packetQueue (shared v)) \<noteq> [] \<Longrightarrow> ?thesis"
    using waits[of Consumer_acts] by (intro goes[of Consumer_acts]) (auto intro: consumer_works)
  have w: "\<not> d_in (dcd v) \<Longrightarrow> win v \<noteq> W_lock \<or> loadFrame (shared v) \<and> pqueue (frameNumBmpQueue (shared v)) \<noteq> [] \<Longrightarrow> ?thesis"
    using waits[of Window_acts] by (intro goes[of Window_acts]) (auto intro: window_works)
  have d: "win v = W_lock \<Longrightarrow> csm v = C_test \<Longrightarrow> dcd v \<noteq> D_test \<or> queue (frameNumQueue (shared v)) \<noteq> [] \<Longrightarrow> ?thesis"
    using waits[of Decoder_acts] by (intro goes[of Decoder_acts]) (auto intro: decoder_works)
  have t: "win v = W_lock \<Longrightarrow> \<not> loadFrame (shared v) \<Longrightarrow> ?thesis"
    by (intro goes[of Timer_acts]) (auto simp: timer_works)
  show ?thesis
  proof (cases "c_in (csm v)")
    case True
    with free(1) have "\<not> r_in (rcv v)" "csm v \<noteq> C_test" by auto
    with c show ?thesis by blast
  next
    case False
    show ?thesis
    proof (cases "rcv v = R_recv")
      case True
      then have rc: "\<not> r_in (rcv v)" by simp
      show ?thesis
      proof (cases "csm v = C_test \<and> queue (packetQueue (shared v)) = []")
        case True
        note c0 = True
        show ?thesis
        proof (cases "win v = W_lock")
          case True
          show ?thesis
          proof (cases "dcd v = D_test \<and> queue (frameNumQueue (shared v)) = []")
            case True
            with c0 \<open>rcv v = R_recv\<close> \<open>win v = W_lock\<close> assms(3) have "pqueue (frameNumBmpQueue (shared v)) \<noteq> []" "\<not> d_in (dcd v)"
              by (auto simp: settled_def)
            with w t \<open>win v = W_lock\<close> show ?thesis by blast
          qed (use c0 d \<open>win v = W_lock\<close> in blast)
        next
          case False
          then have "w_in (win v)" by (cases "win v") auto
          with free(2) w False show ?thesis by blast
        qed
      qed (use rc c in blast)
    qed (use False r in blast)
  qed
qed

lemma related_no_fault:
  assumes "related frames decodeImage t sq fis v st" and "fragments_ok frames fis" and "length fis < MAXINT"
  shows "thread_step decodeImage a v \<noteq> Fault e"
proof (cases a)
  case (Receiver_acts fresh dgram)
  then show ?thesis using receiver_no_fault by simp
qed (use step_related[OF assms(1), of "[]" a] assms(2,3) in \<open>auto simp: step_ok_def split: outcome.splits\<close>)

lemma related_settles:
  assumes "related frames decodeImage t sq fis v st" and "fragments_ok frames fis" and "length fis < MAXINT"
  shows "\<exists>acts v' st'. threads_run decodeImage acts v = Done v'
    \<and> set acts \<subseteq> {receiver_goes, Consumer_acts, Decoder_acts, Timer_acts, Window_acts}
    \<and> related frames decodeImage t sq fis v' st' \<and> settled v'"
  using assms(1)
proof (induction "work_left v" arbitrary: v st rule: less_induct)
  case less
  show ?case
  proof (cases "settled v")
    case True
    with less.prems show ?thesis by (intro exI[of _ "[]"] exI[of _ v] exI[of _ st]) simp
  next
    case False
    from less.prems obtain decoded where "threads_rel frames decodeImage decoded v st" by (auto simp: related_def)
    from some_thread_works[OF this related_no_fault[OF less.prems assms(2,3)] False] obtain a v1 where
      a: "a \<in> {receiver_goes, Consumer_acts, Decoder_acts, Timer_acts, Window_acts}"
      and v1: "thread_step decodeImage a v = Done v1" "work_left v1 < work_left v" by blast
    have "step_ok frames decodeImage t sq fis [] (thread_step decodeImage a v) st"
      by (rule step_related[OF less.prems]) (use assms(2,3) a in auto)
    with v1(1) obtain st1 where "related frames decodeImage t sq fis v1 st1" by (auto simp: step_ok_def)
    from less.hyps[OF v1(2) this] obtain acts v' st' where "threads_run decodeImage acts v1 = Done v'"
      "set acts \<subseteq> {receiver_goes, Consumer_acts, Decoder_acts, Timer_acts, Window_acts}"
      "related frames decodeImage t sq fis v' st'" "settled v'" by blast
    with a v1(1) show ?thesis by (intro exI[of _ "a # acts"] exI[of _ v'] exI[of _ st']) simp
  qed
qed

text \<open>What a settled viewer has shown.\<close>

lemma settled_has_shown:
  assumes "related frames decodeImage t sq fis v st" and "settled v" and "fragments_ok frames fis"
    and "frames n \<noteq> []" and "\<forall>i < k_of (frames n). (n, i) \<in> set fis" and "decodeImage (frames n) = Some b"
  shows "(n, Some b) \<in> set (displayed (shared v))"
proof -
  have at: "rcv v = R_recv" "csm v = C_test" "dcd v = D_test" "win v = W_lock" using assms(2) by (simp_all add: settled_def)
  from assms(1) obtain taken pending decoded where fis: "taken @ map fst pending = fis"
    and I: "viewer_inv frames decodeImage t sq taken pending decoded st" by (auto simp: related_def)
  have st: "shared v = st" by (rule related_at_rest[OF assms(1) at])
  have empty: "queue (packetQueue st) = []" "queue (frameNumQueue st) = []" "pqueue (frameNumBmpQueue st) = []"
    using assms(2) unfolding st[symmetric] by (simp_all add: settled_def)
  with I have "pending = []" by (simp add: viewer_inv_def Let_def)
  with I empty fis have shown: "completed (fold (arrive frames) fis no_arrivals) = decoded"
    "\<forall>f \<in> set decoded. decodeImage (frames f) \<noteq> None \<longrightarrow> f \<in> fst ` set (displayed st)"
    "\<forall>x \<in> set (displayed st). decodes frames decodeImage x" by (simp_all add: viewer_inv_def Let_def)
  have ok: "distinct fis" "\<forall>fi \<in> set fis. fragment frames fi" using assms(3) by (simp_all add: fragments_ok_def)
  have "0 < k_of (frames n)" using assms(4) nchunks_less[of 4060 0 "length (frames n)"] by (simp add: k_of_def)
  with assms(5) have "(n, 0) \<in> set fis" by simp
  moreover have "{j. (n, j) \<in> set fis} = {..<k_of (frames n)}" using assms(5) ok(2) by (auto simp: fragment_def)
  ultimately have "n \<in> set (completed (fold (arrive frames) fis no_arrivals))"
    using completed_distinct[OF ok] fragment_bounds(4)[of frames n 0] ok(2) by blast
  with shown(1,2) assms(6) obtain x where "x \<in> set (displayed st)" "fst x = n" by auto
  with shown(3) assms(6) show ?thesis unfolding st by (cases x) (auto simp: decodes_def)
qed

section \<open>Properties\<close>

text \<open>
  C7: The viewer catches up. Wherever its threads are, and whatever fragments they have received in
  whatever order, none twice: a run of the threads that needs no further datagram shows every frame of
  which all fragments have come and which can be decoded.
\<close>

theorem viewer_catches_up:
  assumes "threads_reach decodeImage (map (datagram_of t sq frames) fis) v"
    and "distinct fis" and "\<forall>fi \<in> set fis. fragment frames fi" and "length fis < MAXINT"
  shows "\<exists>acts v'. threads_run decodeImage acts v = Done v'
    \<and> set acts \<subseteq> {receiver_goes, Consumer_acts, Decoder_acts, Timer_acts, Window_acts}
    \<and> (\<forall>n b. frames n \<noteq> [] \<and> (\<forall>i < k_of (frames n). (n, i) \<in> set fis) \<and> decodeImage (frames n) = Some b
         \<longrightarrow> (n, Some b) \<in> set (displayed (shared v')))"
proof -
  have ok: "fragments_ok frames fis" using assms(2,3) by (simp add: fragments_ok_def)
  from reach_related[OF assms(1) refl ok assms(4)] obtain st where "related frames decodeImage t sq fis v st" by blast
  from related_settles[OF this ok assms(4)] obtain acts v' st' where
    "threads_run decodeImage acts v = Done v'" "set acts \<subseteq> {receiver_goes, Consumer_acts, Decoder_acts, Timer_acts, Window_acts}"
    and r: "related frames decodeImage t sq fis v' st'" "settled v'" by blast
  moreover have "(n, Some b) \<in> set (displayed (shared v'))"
    if "frames n \<noteq> []" "\<forall>i < k_of (frames n). (n, i) \<in> set fis" "decodeImage (frames n) = Some b" for n b
    by (rule settled_has_shown[OF r ok that])
  ultimately show ?thesis by blast
qed

theorem viewer_catches_up_witness:
  "\<exists>v acts v'. threads_reach (\<lambda>bytes. Some (length bytes)) (map (datagram_of 1 (\<lambda>_. 0) three_bytes) [(5, 0)]) v
    \<and> csm v = C_lock \<and> dataMutex v = Some By_receiver \<and> threads_run (\<lambda>bytes. Some (length bytes)) acts v = Done v'
    \<and> (5, Some 3) \<in> set (displayed (shared v'))"
proof -
  let ?dec = "\<lambda>bytes :: BYTE list. Some (length bytes)"
  obtain v where v: "threads_reach ?dec (map (datagram_of 1 (\<lambda>_. 0) three_bytes) [(5, 0)]) v" "csm v = C_lock"
    "dataMutex v = Some By_receiver" using example_reach by blast
  from viewer_catches_up[OF v(1)] three_bytes_fragment obtain acts v' where
    "threads_run ?dec acts v = Done v'"
    "\<forall>n b. three_bytes n \<noteq> [] \<and> (\<forall>i < k_of (three_bytes n). (n, i) \<in> set [(5, 0)]) \<and> ?dec (three_bytes n) = Some b
       \<longrightarrow> (n, Some b) \<in> set (displayed (shared v'))" by (auto simp: MAXINT_def)
  moreover have "three_bytes 5 \<noteq> []" "\<forall>i < k_of (three_bytes 5). (5 :: DWORD, i) \<in> set [(5, 0)]" "?dec (three_bytes 5) = Some 3"
    by (simp_all add: three_bytes_def k_of_def nchunks_def)
  ultimately show ?thesis using v by blast
qed

end
