(* ===== verification/Recovery.thy ===== *)
theory Recovery
  imports StreamSystem ViewerLiveness
begin

text \<open>
  The stream recovers: from every reachable state of host, network and viewer, a frame whose packets
  have all been sent, and of which the viewer lacks only packets that the host still keeps, can still
  be shown. The viewer comes to rest; then, packet by packet, the timer sends what is kept, the network
  delivers the packet, and the viewer comes to rest again.
\<close>

section \<open>The viewer comes to rest\<close>

lemma system_settles:
  assumes "related frames decodeImage t sq fis (viewer_end s) st" and "fragments_ok frames fis" and "length fis < MAXINT"
  shows "\<exists>s' st'. system_run decodeImage s [] [] s' \<and> related frames decodeImage t sq fis (viewer_end s') st'
    \<and> settled (viewer_end s') \<and> host_end s' = host_end s \<and> to_viewer s' = to_viewer s"
proof -
  from related_settles[OF assms] obtain acts v' st' where
    v': "threads_run decodeImage acts (viewer_end s) = Done v'"
      "set acts \<subseteq> {receiver_goes, Consumer_acts, Decoder_acts, Timer_acts, Window_acts}"
      "related frames decodeImage t sq fis v' st'" "settled v'" by blast
  have "\<forall>a \<in> set acts. \<forall>v :: 'a viewer_threads. takes_none a v" using v'(2) by auto
  from viewer_runs[OF v'(1) this] v'(3,4) show ?thesis by metis
qed

text \<open>A datagram that is in flight arrives.\<close>

lemma datagram_arrives:
  fixes decodeImage :: "BYTE list \<Rightarrow> 'bmp option"
  assumes "related frames decodeImage t sq fis (viewer_end s) st" and "rcv (viewer_end s) = R_recv"
    and "datagram_of t sq frames fi \<in># to_viewer s" and ok: "fragments_ok frames (fis @ [fi])" and small: "length (fis @ [fi]) < MAXINT"
  shows "\<exists>s' st'. system_run decodeImage s [] [datagram_of t sq frames fi] s'
    \<and> related frames decodeImage t sq (fis @ [fi]) (viewer_end s') st' \<and> host_end s' = host_end s"
proof -
  let ?d = "datagram_of t sq frames fi" and ?v = "viewer_end s"
  let ?a = "Receiver_acts fresh_buffer (Some ?d)"
  obtain v where v: "thread_step decodeImage ?a ?v = Done v"
    using assms(2) by (cases "thread_step decodeImage ?a ?v") (auto simp: receiver_act_def Let_def split: prod.splits if_splits)
  have "step_ok frames decodeImage t sq fis [fi] (thread_step decodeImage ?a ?v) st"
    by (rule step_related[OF assms(1) ok small]) (use assms(2) in auto)
  with v obtain st' where st': "related frames decodeImage t sq (fis @ [fi]) v st'" by (auto simp: step_ok_def)
  have "system_run decodeImage s ([] :: host_action list) ([] @ [?d]) (viewer_stepped v (s\<lparr>to_viewer := to_viewer s - {#?d#}\<rparr>))"
    by (rule system_run.viewer_receives[OF system_run.start assms(3,2) _ v]) simp
  with st' show ?thesis
    by (intro exI[of _ "viewer_stepped v (s\<lparr>to_viewer := to_viewer s - {#?d#}\<rparr>)"] exI[of _ st']) (simp add: viewer_stepped_def)
qed

section \<open>One packet after the other\<close>

text \<open>What stays as it is: the host keeps its packets, the viewer is at rest and has received \<open>fis\<close>.\<close>

definition resting :: "host_process \<Rightarrow> BYTE list list \<Rightarrow> (BYTE list \<Rightarrow> 'bmp option) \<Rightarrow> (DWORD \<times> BYTE list) list
    \<Rightarrow> (DWORD \<times> nat) list \<Rightarrow> 'bmp stream_system \<Rightarrow> bool" where
  "resting p0 frs decodeImage kept fis s \<longleftrightarrow> (\<exists>as ds. system_reach decodeImage p0 as ds s)
     \<and> (\<exists>st. related (frame_table frs) decodeImage PACKET_TYPE_STREAM (seq_table frs 0) fis (viewer_end s) st)
     \<and> settled (viewer_end s) \<and> recentPackets (hp_packets (host_end s)) = kept"

lemma kept_packet_arrives:
  fixes decodeImage :: "BYTE list \<Rightarrow> 'bmp option"
  assumes start: "host_start gdiOk installed initialised g = Done p0" and rest: "resting p0 frs decodeImage kept fis s"
    and few: "length kept \<le> RECENT_PACKETS_SIZE" and d: "packet_of frs fi \<in> snd ` set kept"
    and ok: "fragments_ok (frame_table frs) (fis @ [fi])" and small: "length (fis @ [fi]) < MAXINT"
  shows "\<exists>as ds s'. system_run decodeImage s as ds s' \<and> resting p0 frs decodeImage kept (fis @ [fi]) s'"
proof -
  note packet = packet_of_def[of frs]
  from rest obtain as ds st where reach: "system_reach decodeImage p0 as ds s"
    and st: "related (frame_table frs) decodeImage PACKET_TYPE_STREAM (seq_table frs 0) fis (viewer_end s) st"
    and settled: "settled (viewer_end s)" and kept: "recentPackets (hp_packets (host_end s)) = kept" by (auto simp: resting_def)
  from kept_sent_again[OF start reach] few kept obtain n s1 where
    s1: "system_run decodeImage s (replicate n By_acker) [] s1" "to_viewer s + mset (map snd kept) \<subseteq># to_viewer s1"
      "recentPackets (hp_packets (host_end s1)) = kept" "viewer_end s1 = viewer_end s" by auto
  have "packet_of frs fi \<in># to_viewer s + mset (map snd kept)" using d by auto
  with s1(2) have there: "packet_of frs fi \<in># to_viewer s1" by (rule mset_subset_eqD)
  have "rcv (viewer_end s1) = R_recv" using settled s1(4) by (simp add: settled_def)
  from datagram_arrives[of _ decodeImage _ _ fis s1, OF _ this _ ok small] st s1(4) there obtain s2 st2 where
    s2: "system_run decodeImage s1 [] [packet_of frs fi] s2" "host_end s2 = host_end s1"
      "related (frame_table frs) decodeImage PACKET_TYPE_STREAM (seq_table frs 0) (fis @ [fi]) (viewer_end s2) st2"
    unfolding packet by metis
  from system_settles[OF s2(3) ok small] obtain s3 st3 where
    s3: "system_run decodeImage s2 [] [] s3" "settled (viewer_end s3)" "host_end s3 = host_end s2"
      "related (frame_table frs) decodeImage PACKET_TYPE_STREAM (seq_table frs 0) (fis @ [fi]) (viewer_end s3) st3" by blast
  from system_run_trans[OF system_run_trans[OF s1(1) s2(1)] s3(1)] have
    run: "system_run decodeImage s (replicate n By_acker) [packet_of frs fi] s3" by simp
  with system_run_trans[OF reach run] s1(3) s2(2) s3(2-4) show ?thesis
    unfolding resting_def by (intro exI[of _ "replicate n By_acker"] exI[of _ "[packet_of frs fi]"] exI[of _ s3]) auto
qed

lemma kept_packets_arrive:
  fixes decodeImage :: "BYTE list \<Rightarrow> 'bmp option"
  assumes start: "host_start gdiOk installed initialised g = Done p0" and few: "length kept \<le> RECENT_PACKETS_SIZE"
    and "resting p0 frs decodeImage kept fis s" and "\<forall>fi \<in> set missing. packet_of frs fi \<in> snd ` set kept"
    and "fragments_ok (frame_table frs) (fis @ missing)" and "length (fis @ missing) < MAXINT"
  shows "\<exists>as ds s'. system_run decodeImage s as ds s' \<and> resting p0 frs decodeImage kept (fis @ missing) s'"
  using assms(3-6)
proof (induction missing arbitrary: fis s)
  case Nil
  then show ?case by (auto intro: system_run.start)
next
  case (Cons fi missing)
  have "fragments_ok (frame_table frs) (fis @ [fi])" using Cons.prems(3) by (auto simp: fragments_ok_def)
  from kept_packet_arrives[OF start Cons.prems(1) few _ this] Cons.prems(2,4) obtain as1 ds1 s1 where
    s1: "system_run decodeImage s as1 ds1 s1" "resting p0 frs decodeImage kept (fis @ [fi]) s1" by auto
  from Cons.IH[OF s1(2)] Cons.prems(2-4) obtain as2 ds2 s2 where
    "system_run decodeImage s1 as2 ds2 s2" "resting p0 frs decodeImage kept (fis @ fi # missing) s2" by auto
  with system_run_trans[OF s1(1)] show ?case by blast
qed

text \<open>The fragments of a frame that have not come yet.\<close>

definition missing_of :: "BYTE list list \<Rightarrow> nat \<Rightarrow> (DWORD \<times> nat) list \<Rightarrow> (DWORD \<times> nat) list" where
  "missing_of frs n fis = filter (\<lambda>fi. fi \<notin> set fis) (map (Pair (word_of_nat n)) [0..<k_of (frs ! n)])"

lemma missing_fragments:
  assumes ok: "fragments_ok (frame_table frs) fis" and frame: "\<And>i. i < k_of (frs ! n) \<Longrightarrow> fragment (frame_table frs) (word_of_nat n, i)"
    and n: "length frs \<le> 2 ^ 32" "n < length frs" "frs ! n \<noteq> []"
  shows "fragments_ok (frame_table frs) (fis @ missing_of frs n fis)" and "length (missing_of frs n fis) \<le> 65535"
    and "\<forall>i < k_of (frs ! n). (word_of_nat n, i) \<in> set (fis @ missing_of frs n fis)"
proof -
  show "fragments_ok (frame_table frs) (fis @ missing_of frs n fis)"
    using ok frame by (auto simp: fragments_ok_def missing_of_def distinct_map inj_on_def)
  have "k_of (frs ! n) \<le> 65535"
    using frame[of 0] n nchunks_less[of 4060 0 "length (frs ! n)"] by (auto simp: fragment_def sendable_def k_of_def PACKET_SIZE_def)
  then show "length (missing_of frs n fis) \<le> 65535"
    using length_filter_le[of "\<lambda>fi. fi \<notin> set fis" "map (Pair (word_of_nat n :: DWORD)) [0..<k_of (frs ! n)]"]
    by (simp add: missing_of_def)
  show "\<forall>i < k_of (frs ! n). (word_of_nat n, i) \<in> set (fis @ missing_of frs n fis)" by (auto simp: missing_of_def)
qed

lemma missing_kept:
  assumes "ds = map (packet_of frs) fis" and "fragments_ok (frame_table frs) fis"
    and frame: "\<And>i. i < k_of (frs ! n) \<Longrightarrow> fragment (frame_table frs) (word_of_nat n, i)"
    and "\<forall>i < k_of (frs ! n). packet_of frs (word_of_nat n, i) \<in> set ds \<union> kept"
  shows "\<forall>fi \<in> set (missing_of frs n fis). packet_of frs fi \<in> kept"
proof
  fix fi assume "fi \<in> set (missing_of frs n fis)"
  then obtain i where fi: "fi = (word_of_nat n, i)" "i < k_of (frs ! n)" "fi \<notin> set fis" by (auto simp: missing_of_def)
  have "packet_of frs fi \<notin> set ds"
    using packet_of_inj[OF frame[OF fi(2)]] assms(1,2) fi(1,3) by (auto simp: fragments_ok_def)
  with assms(4) fi(1,2) show "packet_of frs fi \<in> kept" by auto
qed

section \<open>Properties\<close>

text \<open>
  C6: The stream recovers. Take any state that host, network and viewer can get into together, with
  any losses so far, acknowledgements included, and any thread in the middle of anything, in which: no
  datagram has come twice; every datagram the host has sent fits the viewer's receive buffer of 4096 bytes
  (the first frame may not, if the sender thread was quick); at most 200 packets are kept; the
  captures have the size their buffers are made for, and there were at most \<open>2 ^ 32\<close> frames and fewer
  than \<open>2 ^ 31 - 2 ^ 16\<close> datagrams. Every non-empty frame that can be decoded and whose packets have all been
  received or are still kept by the host can be shown from there: the threads and the network have a way
  on to a state in which the viewer has shown the picture of all the frame's bytes.
\<close>

theorem stream_recovers:
  assumes "host_start gdiOk installed initialised g = Done p0" and "captures_fit as"
    and "system_reach decodeImage p0 as ds s" and "distinct ds" and "length ds + 65535 < MAXINT"
    and "\<forall>d \<in> set (hp_fresh (host_end s)). length d \<le> CLIENT_PACKET_SIZE"
    and "length (captured_frames (start_capture installed initialised) as) \<le> 2 ^ 32"
    and "length (recentPackets (hp_packets (host_end s))) \<le> RECENT_PACKETS_SIZE"
    and "frs = captured_bytes (start_capture installed initialised) as"
    and "n < length frs" and "frs ! n \<noteq> []" and "decodeImage (frs ! n) = Some b"
    and "\<forall>i < k_of (frs ! n). packet_of frs (word_of_nat n, i) \<in> set ds \<union> snd ` set (recentPackets (hp_packets (host_end s)))"
  shows "\<exists>as' ds' s'. system_run decodeImage s as' ds' s' \<and> (word_of_nat n, Some b) \<in> set (displayed (shared (viewer_end s')))"
proof -
  let ?kept = "recentPackets (hp_packets (host_end s))" and ?f = "word_of_nat n :: DWORD"
  have frs: "length frs \<le> 2 ^ 32" using assms(7,9) by (simp add: captured_bytes_def)
  note frag = system_fragments[OF assms(1-3,6,7), folded assms(9)]
  from frag(1,2) have "set ds \<subseteq> packet_of frs ` set (stream_fragments frs)" by blast
  from image_list[OF this] obtain fis where fis: "ds = map (packet_of frs) fis" "set fis \<subseteq> set (stream_fragments frs)" by blast
  with frag(3) assms(4) have ok: "fragments_ok (frame_table frs) fis" by (auto simp: fragments_ok_def distinct_map)
  have few: "length fis < MAXINT" using assms(5) fis(1) by simp
  have frame: "fragment (frame_table frs) (?f, i)" if "i < k_of (frs ! n)" for i
    using frag(3) in_stream_fragments[OF frs assms(10)] that by blast
  let ?missing = "missing_of frs n fis"
  note kept = missing_kept[OF fis(1) ok frame assms(13)]
  note okm = missing_fragments[OF ok frame frs assms(10,11)]
  have small: "length (fis @ ?missing) < MAXINT" using assms(5) fis(1) okm(2) by simp
  from reach_related[OF threads_reach_of[OF assms(3)] fis(1)[unfolded packet_of_def] ok few] obtain st where
    "related (frame_table frs) decodeImage PACKET_TYPE_STREAM (seq_table frs 0) fis (viewer_end s) st" by blast
  from system_settles[OF this ok few] obtain s1 where
    s1: "system_run decodeImage s [] [] s1" "host_end s1 = host_end s" "settled (viewer_end s1)"
      "\<exists>st. related (frame_table frs) decodeImage PACKET_TYPE_STREAM (seq_table frs 0) fis (viewer_end s1) st" by blast
  with system_run_trans[OF assms(3) s1(1)] have "resting p0 frs decodeImage ?kept fis s1" unfolding resting_def by auto
  from kept_packets_arrive[OF assms(1,8) this kept okm(1) small] obtain as' ds' s' where
    s': "system_run decodeImage s1 as' ds' s'" "resting p0 frs decodeImage ?kept (fis @ ?missing) s'" by blast
  then obtain st' where "related (frame_table frs) decodeImage PACKET_TYPE_STREAM (seq_table frs 0) (fis @ ?missing) (viewer_end s') st'"
    "settled (viewer_end s')" by (auto simp: resting_def)
  from settled_has_shown[OF this okm(1), of ?f b] okm(3) have "(?f, Some b) \<in> set (displayed (shared (viewer_end s')))"
    using assms(10-12) frs by simp
  with system_run_trans[OF s1(1) s'(1)] show ?thesis by auto
qed

theorem stream_recovers_witness:
  "\<exists>p0 s as' ds' s'. system_reach (\<lambda>bytes. Some (length bytes)) p0 (first_as @ [By_sender]) [] s
    \<and> displayed (shared (viewer_end s)) = []
    \<and> system_run (\<lambda>bytes. Some (length bytes)) s as' ds' s' \<and> (0, Some 3) \<in> set (displayed (shared (viewer_end s')))"
proof (rule first_kept_system[of "\<lambda>bytes. Some (length bytes)"])
  let ?dec = "\<lambda>bytes :: BYTE list. Some (length bytes)" and ?cap = "start_capture jpegs (videoCapture jpeg_stream)"
  fix p0 e and s :: "nat stream_system"
  assume run: "host_start True jpegs (videoCapture jpeg_stream) all_unlocked = Done p0"
    "system_reach ?dec p0 (first_as @ [By_sender]) [] s" "e \<in> set (recentPackets (hp_packets (host_end s)))"
    "length (recentPackets (hp_packets (host_end s))) \<le> RECENT_PACKETS_SIZE" "viewer_end s = threads_init"
    "\<forall>d \<in> set (hp_fresh (host_end s)). length d \<le> CLIENT_PACKET_SIZE" "captures_fit (first_as @ [By_sender])"
    and frs: "captured_bytes ?cap (first_as @ [By_sender]) = [[1, 2, 0]]"
  have few: "length (captured_frames ?cap (first_as @ [By_sender])) \<le> 2 ^ 32"
    using arg_cong[OF frs, of length] by (simp add: captured_bytes_def)
  have "snd e \<in> set (sent (hp_packets (host_end s)))"
    using hp_inv_run[OF host_reaches_of[OF run(2)] run(1,7)] run(3) by (auto simp: hp_inv_def packets_ok_def)
  with system_fragments(1)[OF run(1,7,2,6) few, unfolded frs] have "snd e = packet_of [[1, 2, 0]] (word_of_nat 0, 0)"
    by (auto simp: stream_fragments_def k_of_def nchunks_def)
  with run(3) have kept: "packet_of [[1, 2, 0]] (word_of_nat 0, 0) \<in> snd ` set (recentPackets (hp_packets (host_end s)))" by force
  from stream_recovers[OF run(1,7,2) _ _ run(6) few run(4) frs[symmetric], of 0 3] kept obtain as' ds' s' where
    "system_run ?dec s as' ds' s'" "(0, Some 3) \<in> set (displayed (shared (viewer_end s')))"
    by (auto simp: MAXINT_def k_of_def nchunks_def)
  with run(2,5) show ?thesis
    by (intro exI[of _ p0] exI[of _ s] exI[of _ as'] exI[of _ ds'] exI[of _ s']) (simp add: threads_init_def client_init_def)
qed

end
