(* ===== verification/ServerMain.thy ===== *)
theory ServerMain
  imports Server Reflector PeerLibrary
begin

text \<open>
  \<^verbatim>\<open>RDIBY/servertest1.cpp\<close>: the program that runs the server. \<open>test1\<close>, which \<open>main\<close> calls, sets up
  the listening socket, starts the accept thread and then answers datagrams for good; \<open>test3\<close> fills
  a \<open>RoomManager\<close> with rooms and takes the clients out again.
\<close>

section \<open>test1: the server program\<close>

text \<open>
  \<open>ServerManager\<close> holds two thread managers: the accept thread goes into its own, the handlers into
  that of \<open>snManager\<close> (the one in \<open>server\<close>).
\<close>

record server_program =
  sp_server :: server
  sp_sock :: SOCKET
  sp_threads :: "(nat, nat) thread_manager"
  sp_udp :: SOCKET
  sp_reflector :: reflector

text \<open>
  The answers of the system calls: \<^verbatim>\<open>getaddrinfo\<close>, \<^verbatim>\<open>socket\<close> and \<^verbatim>\<open>bind\<close> of the listening socket,
  \<^verbatim>\<open>listen\<close>, the accept thread and the address of its object, and the datagram socket; the answers of
  \<^verbatim>\<open>socket\<close> are those given while winsock is in use (\<open>winsock_socket\<close>). The members
  and locals without an initial value hold \<open>junk_sock\<close> and \<open>junk_addr\<close>.
\<close>

record start_answers =
  sa_addrinfo :: int
  sa_socket :: SOCKET
  sa_binds :: bool
  sa_listen :: int
  sa_thread :: handle
  sa_object :: nat
  sa_udp_socket :: SOCKET
  sa_udp_binds :: bool
  junk_sock :: SOCKET
  junk_addr :: sockaddr_in

definition acceptFunc :: nat where "acceptFunc = 2"

text \<open>The constructor of the server's socket, and its destructor.\<close>

definition ServerSocket :: "start_answers \<Rightarrow> net \<Rightarrow> SOCKET \<times> net" where
  "ServerSocket os n = (let (_, sock, n1) = ServerSocket_init (sa_addrinfo os) (winsock_socket (sa_socket os) n) (sa_binds os) (junk_sock os, n)
     in (sock, n1))"

definition ServerSocket_destructor :: "SOCKET \<Rightarrow> net \<Rightarrow> net" where
  "ServerSocket_destructor sock n = closesocket sock n"

definition server_test1 :: "start_answers \<Rightarrow> server_program outcome" where
  "server_test1 os =
     (let (sock, n1) = ServerSocket os empty_net;
          sm = ServerManager\<lparr>sm_net := n1\<rparr>;
          _ = EncryptedServerSocket_initListen (sa_listen os);
          tm = new_ConThread (sa_object os) (ConThread3 None acceptFunc 0) ThreadManager
      in bind_outcome (createNewThread (sa_thread os) (ucast sock) (sa_object os) tm) (\<lambda>(ok, tm1).
         bind_outcome (ClientSocket_initUDP (winsock_socket (sa_udp_socket os) n1) (sa_udp_binds os) (ClientSocket, n1)) (\<lambda>(udpOk, udp, n2).
           Done \<lparr>sp_server = sm\<lparr>sm_net := n2\<rparr>, sp_sock = sock, sp_threads = tm1, sp_udp = udp,
             sp_reflector = reflector_init (junk_addr os)\<rparr>)))"

text \<open>The loop of \<open>test1\<close>: one round for each datagram, or error, that arrives.\<close>

definition serve_datagrams :: "(sockaddr_in \<times> BYTE list) option list \<Rightarrow> server_program \<Rightarrow> server_program" where
  "serve_datagrams arrivals sp = sp\<lparr>sp_reflector := fold reflect_round arrivals (sp_reflector sp)\<rparr>"

section \<open>test3: filling and emptying rooms\<close>

text \<open>
  \<open>roomsSize\<close> is 10. The room \<open>i\<close> is the object at \<open>i\<close>, its client \<open>j\<close> the object at
  \<open>roomsSize * i + j\<close>; \<open>vec\<close> collects the clients of all rooms.
\<close>

definition test3_join :: "nat \<Rightarrow> nat \<Rightarrow> nat \<Rightarrow> nat list \<times> rooms \<Rightarrow> (nat list \<times> rooms) outcome" where
  "test3_join roomsSize i j st =
     (let (vec, rs) = st; p = roomsSize * i + j;
          rs1 = rs\<lparr>client_at := (client_at rs)(p \<mapsto> RoomClient\<lparr>rc_sap := (word_of_nat j, None)\<rparr>)\<rparr>
      in bind_outcome (addClientToRoom (word_of_nat i) (Some p) rs1) (\<lambda>(ok, rs2). Done (vec @ [p], rs2)))"

definition test3_room :: "nat \<Rightarrow> nat \<Rightarrow> nat list \<times> rooms \<Rightarrow> (nat list \<times> rooms) outcome" where
  "test3_room roomsSize i st =
     (let (vec, rs) = st; (ok, rs1) = createNewRoom (word_of_nat i) i (rs\<lparr>room_at := (room_at rs)(i \<mapsto> Room)\<rparr>)
      in foreach (test3_join roomsSize i) [0..<roomsSize] (vec, rs1))"

definition test3_leave :: "nat \<Rightarrow> nat \<Rightarrow> nat list \<times> rooms \<Rightarrow> (nat list \<times> rooms) outcome" where
  "test3_leave i j st =
     (let (vec, rs) = st
      in if vec = [] then Fault Mem_fault
         else bind_outcome (removeClientFromRoom (word_of_nat i) (last vec) rs) (\<lambda>(ok, rs1). Done (butlast vec, rs1)))"

definition test3_close :: "nat \<Rightarrow> nat \<Rightarrow> nat list \<times> rooms \<Rightarrow> (nat list \<times> rooms) outcome" where
  "test3_close roomsSize i st =
     bind_outcome (foreach (test3_leave i) [0..<roomsSize] st) (\<lambda>(vec, rs).
       Done (vec, snd (deleteRoom (word_of_nat i) rs)))"

definition test3 :: "nat \<Rightarrow> (nat list \<times> rooms) outcome" where
  "test3 roomsSize =
     bind_outcome (foreach (test3_room roomsSize) [0..<roomsSize] ([], RoomManager))
       (foreach (test3_close roomsSize) [0..<roomsSize])"

section \<open>The start of the server\<close>

text \<open>
  Every datagram is answered to its sender with the sender's address, as long as none is lost to an
  error; after an error the answer before is repeated.
\<close>

fun answers_from :: "(sockaddr_in \<times> BYTE list) option list \<Rightarrow> sockaddr_in \<Rightarrow> sockaddr_in list" where
  "answers_from [] prev = []"
| "answers_from (None # as) prev = prev # answers_from as prev"
| "answers_from (Some (from, _) # as) prev = from # answers_from as from"

lemma reflects_all:
  assumes "length (rf_msg st) = 20"
  shows "\<exists>ms. rf_sent (fold reflect_round arrivals st) = rf_sent st @ ms
    \<and> map fst ms = answers_from arrivals (rf_inadr st) \<and> (\<forall>(to, m) \<in> set ms. get_sockAddr4 (decode_room_msg m) = to)"
  using assms
proof (induction arrivals arbitrary: st)
  case Nil
  then show ?case by simp
next
  case (Cons a as)
  let ?st = "reflect_round a st"
  have len: "length (rf_msg ?st) = 20" using Cons.prems by (rule reflect_length)
  from Cons.IH[OF len] obtain ms where ms: "rf_sent (fold reflect_round as ?st) = rf_sent ?st @ ms"
    "map fst ms = answers_from as (rf_inadr ?st)" "\<forall>(to, m) \<in> set ms. get_sockAddr4 (decode_room_msg m) = to"
    by (elim exE conjE)
  have "get_sockAddr4 (decode_room_msg (rf_msg ?st)) = rf_inadr ?st"
    using Cons.prems by (simp add: reflect_round_def split_def Let_def get_sockAddr4_def decode_room_msg_def)
  moreover have "rf_inadr ?st = (case a of None \<Rightarrow> rf_inadr st | Some (from, _) \<Rightarrow> from)"
    by (simp add: reflect_round_def split_def Let_def)
  ultimately show ?case
    using ms by (intro exI[of _ "(rf_inadr ?st, rf_msg ?st) # ms"])
      (cases a; auto simp: reflect_sent)
qed

text \<open>The listening socket and the datagram socket can be opened and bound.\<close>

definition listening_opens :: "start_answers \<Rightarrow> bool" where
  "listening_opens os \<longleftrightarrow> sa_addrinfo os = 0 \<and> 1 < sa_socket os \<and> sa_socket os \<noteq> INVALID_SOCKET \<and> sa_binds os"

definition datagrams_open :: "start_answers \<Rightarrow> bool" where
  "datagrams_open os \<longleftrightarrow> 1 < sa_udp_socket os \<and> sa_udp_socket os \<noteq> INVALID_SOCKET \<and> sa_udp_binds os"

lemma listening_cleanups:
  "ServerSocket os empty_net = (sock, n1) \<Longrightarrow> wsa_cleanups n1 = (if listening_opens os then 0 else 1)"
  by (auto simp: ServerSocket_def ServerSocket_init_def winsock_socket_def WSACleanup_def closesocket_def empty_net_def
      listening_opens_def not_le split: if_splits)

lemma initUDP_after:
  assumes "wsa_cleanups n1 = (if ok then 0 else 1)"
  shows "ClientSocket_initUDP (winsock_socket (sa_udp_socket os) n1) (sa_udp_binds os) (ClientSocket, n1)
    = (if ok \<and> datagrams_open os then Done (True, sa_udp_socket os, n1) else Fault (Exit 1))"
  using assms by (auto simp: ClientSocket_initUDP_def winsock_socket_def datagrams_open_def)

text \<open>
  C25: When the server program comes up. It comes up exactly if the listening socket and the datagram
  socket can be opened and bound; otherwise it exits with 1. That the listening socket is missing is
  not noticed as such: its constructor cleans up winsock, and so the datagram socket is refused, on
  which the program exits. That \<^verbatim>\<open>listen\<close> fails, or that the accept thread is not created, is not
  noticed at all. Once it is up it answers every datagram to its sender with a message that holds the
  sender's address; when a receive fails, the answer before is sent once more (before the first
  datagram, to whatever address the uninitialised variable holds).
\<close>

theorem server_program_starts:
  "if listening_opens os \<and> datagrams_open os
   then \<exists>sp ms. server_test1 os = Done sp \<and> sp_sock sp = sa_socket os \<and> sp_udp sp = sa_udp_socket os
     \<and> started (tm_os (sp_threads sp)) = (case sa_thread os of None \<Rightarrow> [] | Some h \<Rightarrow> [(h, Some acceptFunc, Some 0)])
     \<and> sm_rooms (sp_server sp) = RoomManager
     \<and> rf_sent (sp_reflector (serve_datagrams arrivals sp)) = ms
     \<and> map fst ms = answers_from arrivals (junk_addr os)
     \<and> (\<forall>(to, m) \<in> set ms. get_sockAddr4 (decode_room_msg m) = to)
   else server_test1 os = Fault (Exit 1)"
proof -
  obtain sock n1 where s: "ServerSocket os empty_net = (sock, n1)" by fastforce
  note udp = initUDP_after[OF listening_cleanups[OF s], of os]
  let ?tm = "new_ConThread (sa_object os) (ConThread3 None acceptFunc 0) ThreadManager :: (nat, nat) thread_manager"
  obtain ok tm where tm: "createNewThread (sa_thread os) (ucast sock) (sa_object os) ?tm = Done (ok, tm)"
    "started (tm_os tm) = (case sa_thread os of None \<Rightarrow> [] | Some h \<Rightarrow> [(h, Some acceptFunc, Some 0)])"
    by (cases "sa_thread os")
      (auto simp: createNewThread_def new_ConThread_def ThreadManager_def ConThread3_def HandleDeleter_def Let_def)
  show ?thesis
  proof (cases "listening_opens os \<and> datagrams_open os")
    case True
    then have "\<not> sa_socket os \<le> 1" by (simp add: listening_opens_def not_le)
    with True have sock: "sock = sa_socket os"
      using s by (auto simp: ServerSocket_def ServerSocket_init_def winsock_socket_def empty_net_def listening_opens_def)
    let ?sp = "\<lparr>sp_server = ServerManager\<lparr>sm_net := n1\<rparr>, sp_sock = sock, sp_threads = tm, sp_udp = sa_udp_socket os,
      sp_reflector = reflector_init (junk_addr os)\<rparr>"
    have run: "server_test1 os = Done ?sp" using True s tm(1) udp by (simp add: server_test1_def Let_def)
    have "length (rf_msg (reflector_init (junk_addr os))) = 20" by (simp add: reflector_init_def)
    from reflects_all[OF this, of arrivals] True run sock tm(2) show ?thesis
      by (auto simp: serve_datagrams_def reflector_init_def ServerManager_def)
  next
    case False
    then have "server_test1 os = Fault (Exit 1)" using s tm(1) udp by (auto simp: server_test1_def Let_def)
    with False show ?thesis by (simp only: if_False)
  qed
qed

text \<open>A start on a machine where the port is taken, and one where only \<^verbatim>\<open>listen\<close> fails; a datagram, and an error.\<close>

definition not_listening :: start_answers where
  "not_listening = \<lparr>sa_addrinfo = 0, sa_socket = 9, sa_binds = True, sa_listen = -1, sa_thread = Some 4,
     sa_object = 70, sa_udp_socket = 10, sa_udp_binds = True, junk_sock = 12, junk_addr = zero_sockaddr\<rparr>"

theorem server_program_starts_witness:
  "server_test1 (not_listening\<lparr>sa_binds := False\<rparr>) = Fault (Exit 1)
    \<and> (\<exists>sp ms. server_test1 not_listening = Done sp \<and> started (tm_os (sp_threads sp)) = [(4, Some acceptFunc, Some 0)]
    \<and> rf_sent (sp_reflector (serve_datagrams [Some (zero_sockaddr\<lparr>sin_port := 7\<rparr>, [1]), None] sp)) = ms
    \<and> map fst ms = [zero_sockaddr\<lparr>sin_port := 7\<rparr>, zero_sockaddr\<lparr>sin_port := 7\<rparr>])"
proof -
  have up: "listening_opens not_listening" "datagrams_open not_listening"
    "\<not> listening_opens (not_listening\<lparr>sa_binds := False\<rparr>)"
    by (simp_all add: not_listening_def listening_opens_def datagrams_open_def INVALID_SOCKET_def word_less_nat_alt)
  have more: "sa_thread not_listening = Some 4" by (simp add: not_listening_def)
  from server_program_starts[of "not_listening\<lparr>sa_binds := False\<rparr>"]
    server_program_starts[of not_listening "[Some (zero_sockaddr\<lparr>sin_port := 7\<rparr>, [1]), None]"] up more show ?thesis
    by auto
qed

end
