(* ===== verification/ServerRaces.thy ===== *)
theory ServerRaces
  imports Rendezvous
begin

text \<open>
  \<open>ServerManager::endRoom\<close> in pieces. \<^verbatim>\<open>Server\<close> takes a call of it as one step, but it runs in the thread
  of the host's handler while the guests' handlers run in theirs, and nothing is locked. Here it is a
  machine that handles one client of one of its loops per step. Run without a break it is \<open>endRoom\<close>;
  with a guest's handler in between it is not safe.
\<close>

section \<open>The machine\<close>

text \<open>
  The locals of a call: the room's number, the host (the object \<open>prHost\<close> points to), its socket,
  the message with its address, and the copy of the room's vector; and where the call is: in one of
  the loops with the clients still to go, at the host, before the call of \<open>deleteRoom\<close>, or at its end.
\<close>

datatype end_pc =
    To_host "nat list"
  | To_clients "nat list"
  | Leaving_clients "nat list"
  | Leaving_host
  | Deleting_room
  | Room_ended

record end_call =
  ec_rid :: SIZE_T
  ec_host :: nat
  ec_sock :: SOCKET
  ec_msg :: server_room_msg
  ec_vec :: "nat list"
  ec_pc :: end_pc

text \<open>The statements before the loops. The address of the host is read only for a message with it.\<close>

definition end_enter :: "SIZE_T \<Rightarrow> bool \<Rightarrow> server \<Rightarrow> (end_call \<times> server) outcome" where
  "end_enter rid startStreaming sm =
     (let (ptr, rs) = getRoomPtr rid (sm_rooms sm); sm0 = sm\<lparr>sm_rooms := rs\<rparr>
      in bind_outcome (room_ptr ptr rs) (\<lambda>r.
         bind_outcome (client_ptr (prHost r) rs) (\<lambda>host.
         bind_outcome (if startStreaming then bind_outcome (addr_ptr host rs) (\<lambda>hostAddr. Done (punch_msg hostAddr))
           else Done zero_room_msg) (\<lambda>msg.
         let e = \<lparr>ec_rid = rid, ec_host = the (prHost r), ec_sock = fst (rc_sap host), ec_msg = msg,
               ec_vec = roomVector r,
               ec_pc = (if startStreaming then To_host (roomVector r) else Leaving_clients (roomVector r))\<rparr>
         in Done (e, if startStreaming then send_room_msg (ec_sock e) (ec_msg e) sm0 else sm0)))))"

definition end_step :: "end_call \<Rightarrow> server \<Rightarrow> (end_call \<times> server) outcome" where
  "end_step e sm = (case ec_pc e of
       To_host [] \<Rightarrow> Done (e\<lparr>ec_pc := To_clients (ec_vec e)\<rparr>, sm)
     | To_host (c # cs) \<Rightarrow> bind_outcome (punch_to_host (ec_sock e) c sm) (\<lambda>sm1. Done (e\<lparr>ec_pc := To_host cs\<rparr>, sm1))
     | To_clients [] \<Rightarrow> Done (e\<lparr>ec_pc := Leaving_clients (ec_vec e)\<rparr>, sm)
     | To_clients (c # cs) \<Rightarrow> bind_outcome (punch_to_client (ec_msg e) c sm) (\<lambda>sm1. Done (e\<lparr>ec_pc := To_clients cs\<rparr>, sm1))
     | Leaving_clients [] \<Rightarrow> Done (e\<lparr>ec_pc := Leaving_host\<rparr>, sm)
     | Leaving_clients (c # cs) \<Rightarrow> bind_outcome (leave_to_client c sm) (\<lambda>sm1. Done (e\<lparr>ec_pc := Leaving_clients cs\<rparr>, sm1))
     | Leaving_host \<Rightarrow> bind_outcome (client_ptr (Some (ec_host e)) (sm_rooms sm)) (\<lambda>_.
         Done (e\<lparr>ec_pc := Deleting_room\<rparr>, send_room_msg (ec_sock e) leave_msg (set_leaving (ec_host e) sm)))
     | Deleting_room \<Rightarrow> Done (e\<lparr>ec_pc := Room_ended\<rparr>, sm\<lparr>sm_rooms := snd (deleteRoom (ec_rid e) (sm_rooms sm))\<rparr>)
     | Room_ended \<Rightarrow> Done (e, sm))"

text \<open>Some steps, and all that are left.\<close>

fun end_many :: "nat \<Rightarrow> end_call \<Rightarrow> server \<Rightarrow> (end_call \<times> server) outcome" where
  "end_many 0 e sm = Done (e, sm)"
| "end_many (Suc n) e sm = bind_outcome (end_step e sm) (\<lambda>(e1, sm1). end_many n e1 sm1)"

fun end_left :: "end_call \<Rightarrow> nat" where
  "end_left e = (case ec_pc e of
       To_host cs \<Rightarrow> length cs + 2 * length (ec_vec e) + 5
     | To_clients cs \<Rightarrow> length cs + length (ec_vec e) + 4
     | Leaving_clients cs \<Rightarrow> length cs + 3
     | Leaving_host \<Rightarrow> 2
     | Deleting_room \<Rightarrow> 1
     | Room_ended \<Rightarrow> 0)"

lemma end_step_left:
  "end_step e sm = Done (e1, sm1) \<Longrightarrow> ec_pc e \<noteq> Room_ended \<Longrightarrow> end_left e1 < end_left e"
  by (auto simp: end_step_def Let_def split: end_pc.splits list.splits)

lemma bind_outcome_cong [fundef_cong]:
  "m = m' \<Longrightarrow> (\<And>x. m' = Done x \<Longrightarrow> f x = g x) \<Longrightarrow> bind_outcome m f = bind_outcome m' g"
  by (cases m') auto

function end_finish :: "end_call \<Rightarrow> server \<Rightarrow> server outcome" where
  "end_finish e sm = (if ec_pc e = Room_ended then Done sm
     else bind_outcome (end_step e sm) (\<lambda>(e1, sm1). end_finish e1 sm1))"
  by pat_completeness auto
termination
  by (relation "measure (\<lambda>(e, sm). end_left e)") (auto simp del: end_left.simps dest: end_step_left)

declare end_finish.simps [simp del]

section \<open>Lemmas: the loops\<close>

lemma bind_assoc: "bind_outcome (bind_outcome m f) g = bind_outcome m (\<lambda>x. bind_outcome (f x) g)"
  by (cases m) auto

lemma finish_to_host:
  "end_finish (e\<lparr>ec_pc := To_host cs\<rparr>) sm
    = bind_outcome (foreach (punch_to_host (ec_sock e)) cs sm) (end_finish (e\<lparr>ec_pc := To_clients (ec_vec e)\<rparr>))"
  by (induction cs arbitrary: sm)
    (simp_all add: end_finish.simps[of "e\<lparr>ec_pc := To_host xs\<rparr>" sm for xs sm] end_step_def bind_assoc del: bind_outcome_Done)

lemma finish_to_clients:
  "end_finish (e\<lparr>ec_pc := To_clients cs\<rparr>) sm
    = bind_outcome (foreach (punch_to_client (ec_msg e)) cs sm) (end_finish (e\<lparr>ec_pc := Leaving_clients (ec_vec e)\<rparr>))"
  by (induction cs arbitrary: sm)
    (simp_all add: end_finish.simps[of "e\<lparr>ec_pc := To_clients xs\<rparr>" sm for xs sm] end_step_def bind_assoc del: bind_outcome_Done)

lemma finish_leaving:
  "end_finish (e\<lparr>ec_pc := Leaving_clients cs\<rparr>) sm
    = bind_outcome (foreach leave_to_client cs sm) (end_finish (e\<lparr>ec_pc := Leaving_host\<rparr>))"
  by (induction cs arbitrary: sm)
    (simp_all add: end_finish.simps[of "e\<lparr>ec_pc := Leaving_clients xs\<rparr>" sm for xs sm] end_step_def bind_assoc del: bind_outcome_Done)

lemma finish_host:
  assumes "client_at (sm_rooms sm) (ec_host e) \<noteq> None"
  shows "end_finish (e\<lparr>ec_pc := Leaving_host\<rparr>) sm
    = (let sm1 = send_room_msg (ec_sock e) leave_msg (set_leaving (ec_host e) sm)
       in Done (sm1\<lparr>sm_rooms := snd (deleteRoom (ec_rid e) (sm_rooms sm1))\<rparr>))"
  using assms
  by (auto simp: end_finish.simps end_step_def client_ptr_def Let_def split: option.split)

text \<open>No statement of the call makes an object go.\<close>

lemma foreach_keeps:
  assumes "foreach f xs s = Done s'" and "P s" and "\<And>x s s'. f x s = Done s' \<Longrightarrow> P s \<Longrightarrow> P s'"
  shows "P s'"
  using assms(1,2) by (induction xs arbitrary: s) (auto intro: assms(3))

definition has_object :: "nat \<Rightarrow> server \<Rightarrow> bool" where
  "has_object h sm \<longleftrightarrow> client_at (sm_rooms sm) h \<noteq> None"

lemma has_object_send [simp]: "has_object h (send_room_msg s m sm) = has_object h sm"
  by (simp add: has_object_def send_room_msg_def on_net_def)

lemma bodies_keep:
  "punch_to_host s c sm = Done sm' \<Longrightarrow> has_object h sm \<Longrightarrow> has_object h sm'"
  "punch_to_client m c sm = Done sm' \<Longrightarrow> has_object h sm \<Longrightarrow> has_object h sm'"
  "leave_to_client c sm = Done sm' \<Longrightarrow> has_object h sm \<Longrightarrow> has_object h sm'"
  by (auto simp: punch_to_host_def punch_to_client_def leave_to_client_def set_leaving_eq Let_def)
    (auto simp: has_object_def mark_leaving_def)

section \<open>Properties\<close>

text \<open>
  The machine is \<open>endRoom\<close>. Run without another thread in between, its steps give what \<open>endRoom\<close>
  gives, in every state, faults included.
\<close>

lemma end_room_in_steps:
  "endRoom rid startStreaming sm = bind_outcome (end_enter rid startStreaming sm) (\<lambda>(e, sm1).
     bind_outcome (end_finish e sm1) (\<lambda>sm2. Done (True, sm2)))"
proof -
  obtain ptr rs where g: "getRoomPtr rid (sm_rooms sm) = (ptr, rs)" by fastforce
  show ?thesis
  proof (cases "bind_outcome (room_ptr ptr rs) (\<lambda>r. client_ptr (prHost r) rs)")
    case (Done host)
    then obtain r where r: "room_ptr ptr rs = Done r" "client_ptr (prHost r) rs = Done host" by auto
    then obtain h where h: "prHost r = Some h" "client_at rs h = Some host"
      by (auto simp: client_ptr_def split: option.splits)
    let ?v = "roomVector r" and ?hs = "fst (rc_sap host)" and ?sm0 = "sm\<lparr>sm_rooms := rs\<rparr>"
    let ?rest = "\<lambda>sm. bind_outcome (foreach leave_to_client ?v sm) (\<lambda>sm2.
        let sm3 = send_room_msg ?hs leave_msg (set_leaving h sm2)
        in Done (True, sm3\<lparr>sm_rooms := snd (deleteRoom rid (sm_rooms sm3))\<rparr>))"
    have rest: "bind_outcome (end_finish (e\<lparr>ec_pc := Leaving_clients ?v\<rparr>) sm1) (\<lambda>sm2. Done (True, sm2)) = ?rest sm1"
      if "has_object h sm1" "ec_sock e = ?hs" "ec_vec e = ?v" "ec_host e = h" "ec_rid e = rid" for sm1 e
    proof -
      have "client_at (sm_rooms sm2) h \<noteq> None" if "foreach leave_to_client ?v sm1 = Done sm2" for sm2
        using foreach_keeps[OF that, of "has_object h"] bodies_keep(3) \<open>has_object h sm1\<close> by (simp add: has_object_def)
      with that show ?thesis
        by (cases "foreach leave_to_client ?v sm1") (simp_all add: finish_leaving finish_host Let_def)
    qed
    have h0: "has_object h ?sm0" using h(2) by (simp add: has_object_def)
    show ?thesis
    proof (cases startStreaming)
      case False
      then show ?thesis
        using g r h rest[OF h0, of "\<lparr>ec_rid = rid, ec_host = h, ec_sock = ?hs, ec_msg = zero_room_msg, ec_vec = ?v, ec_pc = Room_ended\<rparr>"]
        by (simp add: end_enter_def endRoom_def Let_def)
    next
      case True
      show ?thesis
      proof (cases "addr_ptr host rs")
        case (Done a)
        define e where "e = \<lparr>ec_rid = rid, ec_host = h, ec_sock = ?hs, ec_msg = punch_msg a, ec_vec = ?v, ec_pc = Room_ended\<rparr>"
        have e: "ec_sock e = ?hs" "ec_msg e = punch_msg a" "ec_vec e = ?v" "ec_host e = h" "ec_rid e = rid"
          by (simp_all add: e_def)
        let ?punches = "foreach (punch_to_host ?hs) ?v (send_room_msg ?hs (punch_msg a) ?sm0)"
        have enter: "end_enter rid startStreaming sm = Done (e\<lparr>ec_pc := To_host ?v\<rparr>, send_room_msg ?hs (punch_msg a) ?sm0)"
          using True g r h Done by (simp add: end_enter_def e_def)
        have run: "endRoom rid startStreaming sm = bind_outcome (bind_outcome ?punches (foreach (punch_to_client (punch_msg a)) ?v)) ?rest"
          using True g r h Done by (simp add: endRoom_def Let_def)
        have keep: "has_object h sm2" if "?punches = Done sm1" "foreach (punch_to_client (punch_msg a)) ?v sm1 = Done sm2" for sm1 sm2
          using foreach_keeps[OF that(1), of "has_object h"] foreach_keeps[OF that(2), of "has_object h"] bodies_keep(1,2) h0
          by simp
        show ?thesis
        proof (cases ?punches)
          case (Done sm1)
          with enter run rest[OF keep[OF Done]] e show ?thesis
            by (cases "foreach (punch_to_client (punch_msg a)) ?v sm1") (simp_all add: finish_to_host finish_to_clients)
        qed (use enter run e in \<open>simp_all add: finish_to_host\<close>)
      qed (use True g r h in \<open>simp_all add: endRoom_def end_enter_def Let_def\<close>)
    qed
  next
    case (Fault e)
    with g show ?thesis by (cases "room_ptr ptr rs") (auto simp: endRoom_def end_enter_def Let_def)
  next
    case Blocks
    with g show ?thesis by (cases "room_ptr ptr rs") (auto simp: endRoom_def end_enter_def Let_def)
  qed
qed

text \<open>Some of the steps, up to the loop that tells the clients to leave.\<close>

lemma end_many_add: "end_many (m + n) e sm = bind_outcome (end_many m e sm) (\<lambda>(e1, sm1). end_many n e1 sm1)"
proof (induction m arbitrary: e sm)
  case (Suc m)
  then show ?case by (cases "end_step e sm") auto
qed simp

lemma many_to_host:
  "foreach (punch_to_host (ec_sock e)) cs sm = Done sm1 \<Longrightarrow>
    end_many (length cs) (e\<lparr>ec_pc := To_host cs\<rparr>) sm = Done (e\<lparr>ec_pc := To_host []\<rparr>, sm1)"
  by (induction cs arbitrary: sm) (auto simp: end_step_def)

lemma many_to_clients:
  "foreach (punch_to_client (ec_msg e)) cs sm = Done sm1 \<Longrightarrow>
    end_many (length cs) (e\<lparr>ec_pc := To_clients cs\<rparr>) sm = Done (e\<lparr>ec_pc := To_clients []\<rparr>, sm1)"
  by (induction cs arbitrary: sm) (auto simp: end_step_def)

lemma many_to_leaving:
  assumes "foreach (punch_to_host (ec_sock e)) (ec_vec e) sm = Done sm1"
    and "foreach (punch_to_client (ec_msg e)) (ec_vec e) sm1 = Done sm2"
  shows "\<exists>n. end_many n (e\<lparr>ec_pc := To_host (ec_vec e)\<rparr>) sm = Done (e\<lparr>ec_pc := Leaving_clients (ec_vec e)\<rparr>, sm2)"
proof
  let ?n = "length (ec_vec e)"
  show "end_many (?n + (Suc 0 + (?n + Suc 0))) (e\<lparr>ec_pc := To_host (ec_vec e)\<rparr>) sm
      = Done (e\<lparr>ec_pc := Leaving_clients (ec_vec e)\<rparr>, sm2)"
    unfolding end_many_add many_to_host[OF assms(1)]
    using many_to_clients[OF assms(2)] by (simp add: end_step_def del: bind_outcome_Done)
qed

lemma leave_faults:
  assumes "c \<in> set cs" and "client_at (sm_rooms sm) c = None" and "\<forall>d \<in> set cs. d \<noteq> c \<longrightarrow> is_member (sm_rooms sm) d"
  shows "foreach leave_to_client cs sm = Fault Mem_fault"
  using assms
proof (induction cs arbitrary: sm)
  case (Cons d cs)
  show ?case
  proof (cases "d = c")
    case True
    with Cons.prems(2) show ?thesis by (simp add: leave_to_client_def client_ptr_def)
  next
    case False
    with Cons show ?thesis by (simp add: leave_to_client_eq del: bind_outcome_Done)
  qed
qed simp

text \<open>
  C38: \<open>endRoom\<close> is not safe beside the other handlers. When the host starts a room and a guest's
  connection ends after the guest has been marked as leaving, but before the last loop reaches it, the
  guest's handler returns, and its \<open>RoomClient\<close>, a local variable, goes with it; the last loop of \<open>endRoom\<close>
  then follows the dangling pointer in its copy of the room's vector. So that no handler touches a
  dangling object depends on each message being handled without a break.
\<close>

theorem guest_lost_during_start:
  assumes "endable (sm_rooms sm) rid r h" and "c \<in> set (roomVector r)" and "hd_self hc = c"
    and "killThread (ucast (fst (hd_sap hc))) (snm_threads sm) = Done (True, tm)"
  shows "\<exists>n e sm1 sm2. bind_outcome (end_enter rid True sm) (\<lambda>(e0, sm0). end_many n e0 sm0) = Done (e, sm1)
    \<and> handler_message hc (Some []) sm1 = Done (None, sm2) \<and> end_finish e sm2 = Fault Mem_fault"
proof -
  let ?rs = "sm_rooms sm" and ?v = "roomVector r"
  from assms(1) obtain p where p: "roomMap ?rs rid = Some (Some p)" "room_at ?rs p = Some r"
    and host: "prHost r = Some h" and mem: "\<forall>d \<in> set ?v. is_member ?rs d" and memh: "is_member ?rs h"
    unfolding endable_def by auto
  obtain cl where cl: "client_ptr (Some h) ?rs = Done cl" "addr_ptr cl ?rs = Done (addr_of ?rs h)"
    using member_ptr[OF memh] by auto
  let ?m = "punch_msg (addr_of ?rs h)"
  define e where "e = \<lparr>ec_rid = rid, ec_host = h, ec_sock = fst (rc_sap cl), ec_msg = ?m, ec_vec = ?v, ec_pc = Room_ended\<rparr>"
  let ?sm0 = "log_sent [(fst (rc_sap cl), encode_room_msg ?m)] sm"
  have enter: "end_enter rid True sm = Done (e\<lparr>ec_pc := To_host (ec_vec e)\<rparr>, ?sm0)"
    using p host cl by (simp add: end_enter_def getRoomPtr_def room_ptr_def send_room_msg_eq e_def)
  obtain sm1 where sm1: "foreach (punch_to_host (ec_sock e)) (ec_vec e) ?sm0 = Done sm1"
    "sm_rooms sm1 = ?rs" "snm_threads sm1 = snm_threads sm"
    using mem by (simp add: punch_all_to_host e_def)
  obtain sm2 where sm2: "foreach (punch_to_client (ec_msg e)) (ec_vec e) sm1 = Done sm2"
    "sm_rooms sm2 = mark_leaving (set ?v) ?rs" "snm_threads sm2 = snm_threads sm"
    using mem by (simp add: punch_all_clients e_def sm1(2,3))
  from many_to_leaving[OF sm1(1) sm2(1)] obtain n where
    n: "end_many n (e\<lparr>ec_pc := To_host (ec_vec e)\<rparr>) ?sm0 = Done (e\<lparr>ec_pc := Leaving_clients (ec_vec e)\<rparr>, sm2)" ..
  let ?sm3 = "frame_exit c (sm2\<lparr>snm_threads := tm\<rparr>)"
  from mem assms(2) obtain cc where "client_at ?rs c = Some cc" by (auto simp: is_member_def)
  then have "client_at (sm_rooms sm2) (hd_self hc) = Some (cc\<lparr>rc_isLeaving := True\<rparr>)"
    using assms(2,3) by (simp add: sm2(2) mark_leaving_def)
  from handler_closed[OF this] assms(3,4) sm2(3) have
    gone: "handler_message hc (Some []) sm2 = Done (None, ?sm3)" by (simp add: handler_leave_done)
  have "foreach leave_to_client ?v ?sm3 = Fault Mem_fault"
  proof (rule leave_faults[OF assms(2)])
    show "client_at (sm_rooms ?sm3) c = None" by (simp add: frame_exit_def)
    show "\<forall>d \<in> set ?v. d \<noteq> c \<longrightarrow> is_member (sm_rooms ?sm3) d"
      using mem by (auto simp: frame_exit_def is_member_def sm2(2) mark_leaving_def)
  qed
  moreover have "ec_vec e = ?v" by (simp add: e_def)
  ultimately have "end_finish (e\<lparr>ec_pc := Leaving_clients (ec_vec e)\<rparr>) ?sm3 = Fault Mem_fault"
    by (simp add: finish_leaving)
  with enter n gone show ?thesis by (intro exI) (auto simp del: bind_outcome_Done)
qed

theorem guest_lost_during_start_witness:
  "\<exists>n e sm1 sm2. bind_outcome (end_enter 5 True party) (\<lambda>(e0, sm0). end_many n e0 sm0) = Done (e, sm1)
    \<and> handler_message (party_handler 3 9) (Some []) sm1 = Done (None, sm2) \<and> end_finish e sm2 = Fault Mem_fault"
  by (rule guest_lost_during_start[OF party_endable])
    (simp_all add: party_defs killThread_def ConThread_def ThreadManager_def)

end
