(* ===== verification/ServerThreads.thy ===== *)
theory ServerThreads
  imports ServerRaces ServerSafety
begin

text \<open>
  The handler threads of the server in small steps. \<open>Server\<close> takes the entry of a client and each of
  its messages as one step, but no handler takes a lock, so others run in between. Here a step is
  what lies between two uses of shared data: reading the parameter the accept loop owns, looking up
  the room, checking its password, joining it, every client of every loop of \<open>endRoom\<close>, removing a
  guest, and leaving.

  Run alone, the steps of a handler are its entry and its messages as \<open>Server\<close> has them.
\<close>

section \<open>Control points\<close>

text \<open>Where a handler goes on after ending its room or being removed from it.\<close>

datatype afterwards = Serve_on | Close_socket | Leave_loop

datatype handler_pc =
    H_begin
  | H_identify socket_addr_pair
  | H_create handler SIZE_T
  | H_lookup handler SIZE_T
  | H_check handler SIZE_T "nat option"
  | H_add handler
  | H_reject handler
  | H_loop handler
  | H_end handler afterwards
  | H_ending handler end_call afterwards
  | H_remove handler afterwards
  | H_close handler
  | H_leave handler

fun go_on :: "afterwards \<Rightarrow> handler \<Rightarrow> handler_pc" where
  "go_on Serve_on hn = H_loop hn"
| "go_on Close_socket hn = H_close hn"
| "go_on Leave_loop hn = H_leave hn"

section \<open>Steps\<close>

text \<open>The two halves of \<open>firstClientInteraction\<close>, which waits for the client in between.\<close>

definition send_greeting :: "SOCKET \<Rightarrow> server \<Rightarrow> server" where
  "send_greeting sock = on_net (\<lambda>n. snd (EncryptedServerSocket_sendData 0 sock (encode_fsi zero_fsi)
     (word_of_nat sizeof_fsi) 1 n))"

definition receive_identity :: "BYTE list option \<Rightarrow> first_interaction" where
  "receive_identity arrived = decode_fsi (snd (EncryptedServerSocket_recvData (encode_fsi zero_fsi) arrived))"

text \<open>What the loop of a handler does with the result of a receive.\<close>

definition dispatch_message :: "handler \<Rightarrow> DWORD \<Rightarrow> room_client \<Rightarrow> handler_pc" where
  "dispatch_message hn recvRes self = (let mtype = msgType (decode_room_msg (hd_buf hn)) in
     if recvRes = 0
     then if rc_isLeaving self then H_leave hn
          else if rc_isHost self then H_end hn Close_socket else H_remove hn Close_socket
     else if mtype = LEAVE_MSG
     then if rc_isHost self then H_end hn Leave_loop else H_remove hn Leave_loop
     else if mtype = START_PUNCH_MSG \<and> rc_isHost self then H_end hn Serve_on
     else H_loop hn)"

text \<open>The objects and locals of a handler that knows who its client is.\<close>

definition identified ::
  "(BYTE list \<Rightarrow> SIZE_T) \<Rightarrow> nat \<Rightarrow> socket_addr_pair \<Rightarrow> first_interaction \<Rightarrow> server \<Rightarrow> (handler_pc \<times> server) outcome" where
  "identified hasher h sap idRes sm =
     bind_outcome (text_of idRes roomName_off) (\<lambda>roomNameStr.
     bind_outcome (text_of idRes roomPassword_off) (\<lambda>roomPassStr.
     bind_outcome (text_of idRes clientName_off) (\<lambda>name.
       let hn = \<lparr>hd_self = h, hd_sap = sap, hd_roomID = hasher roomNameStr, hd_buf = encode_room_msg zero_room_msg\<rparr>
       in Done ((if fi_isHost idRes then H_create else H_lookup) hn (hasher roomPassStr),
                frame_enter h (RoomClient3 sap (Some name) (fi_isHost idRes)) sm))))"

definition handler_act ::
  "(BYTE list \<Rightarrow> SIZE_T) \<Rightarrow> nat \<Rightarrow> BYTE list option \<Rightarrow> handler_pc \<Rightarrow> server \<Rightarrow> (handler_pc option \<times> server) outcome" where
  "handler_act hasher h arrived pc sm = (case pc of
       H_begin \<Rightarrow> Done (Some (H_identify (tData sm)), send_greeting (fst (tData sm)) sm)
     | H_identify sap \<Rightarrow> bind_outcome (identified hasher h sap (receive_identity arrived) sm) (\<lambda>(pc1, sm1). Done (Some pc1, sm1))
     | H_create hn passHash \<Rightarrow>
         (let r = Room\<lparr>prHost := Some h, roomID := hd_roomID hn, roomPassword := passHash\<rparr>;
              rs1 = (sm_rooms sm)\<lparr>room_at := (room_at (sm_rooms sm))(h \<mapsto> r)\<rparr>;
              (cRes, rs2) = createNewRoom (hd_roomID hn) h rs1
          in Done (Some (if cRes then H_loop hn else H_reject hn), sm\<lparr>sm_rooms := rs2\<rparr>))
     | H_lookup hn passHash \<Rightarrow>
         (let (ptr, rs1) = getRoomPtr (hd_roomID hn) (sm_rooms sm)
          in Done (Some (H_check hn passHash ptr), sm\<lparr>sm_rooms := rs1\<rparr>))
     | H_check hn passHash ptr \<Rightarrow>
         (if ptr = None then Done (Some (H_reject hn), sm)
          else bind_outcome (room_ptr ptr (sm_rooms sm)) (\<lambda>r.
            Done (Some (if roomPassword r = passHash then H_add hn else H_reject hn), sm)))
     | H_add hn \<Rightarrow> bind_outcome (addClientToRoom (hd_roomID hn) (Some h) (sm_rooms sm)) (\<lambda>(cRes, rs2).
         Done (Some (H_loop hn), sm\<lparr>sm_rooms := rs2\<rparr>))
     | H_reject hn \<Rightarrow> bind_outcome (reject_client h (hd_sap hn) sm) (\<lambda>(_, sm1). Done (None, sm1))
     | H_loop hn \<Rightarrow> (let (recvRes, buf) = EncryptedServerSocket_recvData (hd_buf hn) arrived
         in bind_outcome (client_ptr (Some h) (sm_rooms sm)) (\<lambda>self.
              Done (Some (dispatch_message (hn\<lparr>hd_buf := buf\<rparr>) recvRes self), sm)))
     | H_end hn nx \<Rightarrow> bind_outcome (end_enter (hd_roomID hn) (nx = Serve_on) sm) (\<lambda>(e, sm1).
         Done (Some (H_ending hn e nx), sm1))
     | H_ending hn e nx \<Rightarrow> if ec_pc e = Room_ended then Done (Some (go_on nx hn), sm)
         else bind_outcome (end_step e sm) (\<lambda>(e1, sm1). Done (Some (H_ending hn e1 nx), sm1))
     | H_remove hn nx \<Rightarrow> bind_outcome (removeClientFromRoom (hd_roomID hn) h (sm_rooms sm)) (\<lambda>(ok, rs).
         Done (Some (go_on nx hn), sm\<lparr>sm_rooms := rs\<rparr>))
     | H_close hn \<Rightarrow> Done (Some (H_leave hn), on_net (closesocket (fst (hd_sap hn))) sm)
     | H_leave hn \<Rightarrow> bind_outcome (handler_leave hn sm) (\<lambda>(_, sm1). Done (None, sm1)))"

text \<open>
  All the threads: connections are accepted, which starts threads, and handlers step, in any order. A thread
  begins by reading \<open>tData\<close>; with \<open>prompt\<close> it has done so before the next connection is accepted. The
  address \<open>q\<close> that \<^verbatim>\<open>new\<close> returns is not in use.
\<close>

type_synonym server_threads = "nat \<Rightarrow> handler_pc option"

inductive handlers_step :: "(BYTE list \<Rightarrow> SIZE_T) \<Rightarrow> bool \<Rightarrow> server \<times> server_threads \<Rightarrow> server \<times> server_threads \<Rightarrow> bool"
  for hasher prompt where
  accepts: "(prompt \<longrightarrow> (\<forall>c. R c \<noteq> Some H_begin)) \<Longrightarrow> addr_at (sm_rooms sm) q = None \<Longrightarrow> R h = None
    \<Longrightarrow> accept_round s a q stop p thread sm = Done sm'
    \<Longrightarrow> handlers_step hasher prompt (sm, R) (sm', if 1 < s \<and> (\<exists>i. thread = Some i) then R(h \<mapsto> H_begin) else R)"
| acts: "R h = Some pc \<Longrightarrow> countable_rooms sm \<Longrightarrow> handler_act hasher h arrived pc sm = Done (res, sm')
    \<Longrightarrow> handlers_step hasher prompt (sm, R) (sm', R(h := res))"

inductive_cases handlers_stepE: "handlers_step hasher prompt s s'"

section \<open>A handler by itself\<close>

text \<open>The steps up to the next receive of the loop, or the return of the handler.\<close>

fun act_left :: "handler_pc \<Rightarrow> nat" where
  "act_left H_begin = 6" | "act_left (H_identify sap) = 5" | "act_left (H_create hn pw) = 4"
| "act_left (H_lookup hn pw) = 4" | "act_left (H_check hn pw ptr) = 3" | "act_left (H_add hn) = 2"
| "act_left (H_reject hn) = 1" | "act_left (H_loop hn) = 0" | "act_left (H_end hn nx) = 4"
| "act_left (H_ending hn e nx) = 3" | "act_left (H_remove hn nx) = 3" | "act_left (H_close hn) = 2"
| "act_left (H_leave hn) = 1"

fun ending_left :: "handler_pc \<Rightarrow> nat" where
  "ending_left (H_end hn nx) = 0" | "ending_left (H_ending hn e nx) = end_left e" | "ending_left _ = 0"

fun at_rest :: "handler_pc \<Rightarrow> bool" where
  "at_rest (H_loop hn) = True" | "at_rest _ = False"

lemma act_decreases:
  assumes "handler_act hasher h arrived pc sm = Done (Some pc1, sm1)" and "\<not> at_rest pc"
  shows "act_left pc1 < act_left pc \<or> act_left pc1 = act_left pc \<and> ending_left pc1 < ending_left pc"
proof (cases pc)
  case (H_ending hn e nx)
  with assms show ?thesis
    by (cases nx) (auto simp: handler_act_def simp del: end_left.simps dest: end_step_left split: if_splits)
next
  case (H_remove hn nx)
  with assms show ?thesis by (cases nx) (auto simp: handler_act_def)
qed (use assms in \<open>auto simp: handler_act_def identified_def createNewRoom_def Let_def split: prod.splits if_splits\<close>)

function handler_finish ::
  "(BYTE list \<Rightarrow> SIZE_T) \<Rightarrow> nat \<Rightarrow> BYTE list option \<Rightarrow> handler_pc \<Rightarrow> server \<Rightarrow> (handler option \<times> server) outcome" where
  "handler_finish hasher h arrived pc sm = (case pc of
       H_loop hn \<Rightarrow> Done (Some hn, sm)
     | _ \<Rightarrow> bind_outcome (handler_act hasher h arrived pc sm) (\<lambda>(res, sm1). case res of
           None \<Rightarrow> Done (None, sm1)
         | Some pc1 \<Rightarrow> handler_finish hasher h arrived pc1 sm1))"
  by pat_completeness auto
termination
  by (relation "measures [\<lambda>(hs, h, a, pc, sm). act_left pc, \<lambda>(hs, h, a, pc, sm). ending_left pc]")
    (auto simp del: act_left.simps ending_left.simps dest!: act_decreases)

declare handler_finish.simps [simp del]

lemma finish_at_rest [simp]: "handler_finish hasher h arrived (H_loop hn) sm = Done (Some hn, sm)"
  by (simp add: handler_finish.simps)

lemma finish_acts:
  "\<not> at_rest pc \<Longrightarrow> handler_finish hasher h arrived pc sm
    = bind_outcome (handler_act hasher h arrived pc sm) (\<lambda>(res, sm1). case res of
        None \<Rightarrow> Done (None, sm1) | Some pc1 \<Rightarrow> handler_finish hasher h arrived pc1 sm1)"
  by (subst handler_finish.simps) (cases pc; simp)

lemma finish_leave: "handler_finish hasher h arrived (H_leave hn) sm = handler_leave hn sm"
  by (cases "snm_killThread (fst (hd_sap hn)) sm") (simp_all add: finish_acts handler_act_def handler_leave_def)

lemma reject_returns: "reject_client h sap sm = Done (res, sm') \<Longrightarrow> res = None"
  by (auto simp: reject_client_def Let_def)

lemma finish_reject: "handler_finish hasher h arrived (H_reject hn) sm = reject_client h (hd_sap hn) sm"
  by (cases "reject_client h (hd_sap hn) sm") (auto simp: finish_acts handler_act_def dest: reject_returns)

lemma finish_close: "handler_finish hasher h arrived (H_close hn) sm
    = handler_leave hn (on_net (closesocket (fst (hd_sap hn))) sm)"
  by (simp add: finish_acts[of "H_close hn"] handler_act_def finish_leave)

lemma finish_ending: "handler_finish hasher h arrived (H_ending hn e nx) sm
    = bind_outcome (end_finish e sm) (handler_finish hasher h arrived (go_on nx hn))"
proof (induction e sm rule: end_finish.induct)
  case (1 e sm)
  show ?case
  proof (cases "ec_pc e = Room_ended")
    case True
    then show ?thesis by (simp add: finish_acts handler_act_def end_finish.simps)
  next
    case False
    with 1 show ?thesis
      by (cases "end_step e sm") (auto simp: finish_acts[of "H_ending hn e nx"] handler_act_def end_finish.simps[of e])
  qed
qed

lemma finish_end: "handler_finish hasher h arrived (H_end hn nx) sm
    = bind_outcome (endRoom (hd_roomID hn) (nx = Serve_on) sm) (\<lambda>(ok, sm1). handler_finish hasher h arrived (go_on nx hn) sm1)"
  unfolding end_room_in_steps finish_acts[of "H_end hn nx", simplified]
  by (cases "end_enter (hd_roomID hn) (nx = Serve_on) sm")
    (auto simp: handler_act_def finish_ending bind_assoc split_def)

lemma finish_remove: "handler_finish hasher h arrived (H_remove hn nx) sm
    = bind_outcome (removeClientFromRoom (hd_roomID hn) h (sm_rooms sm)) (\<lambda>(ok, rs).
        handler_finish hasher h arrived (go_on nx hn) (sm\<lparr>sm_rooms := rs\<rparr>))"
  by (cases "removeClientFromRoom (hd_roomID hn) h (sm_rooms sm)") (auto simp: finish_acts[of "H_remove hn nx"] handler_act_def)

lemma finish_create: "handler_finish hasher h arrived (H_create hn pw) sm
    = (let r = Room\<lparr>prHost := Some h, roomID := hd_roomID hn, roomPassword := pw\<rparr>;
           (cRes, rs2) = createNewRoom (hd_roomID hn) h ((sm_rooms sm)\<lparr>room_at := (room_at (sm_rooms sm))(h \<mapsto> r)\<rparr>)
       in if \<not> cRes then reject_client h (hd_sap hn) (sm\<lparr>sm_rooms := rs2\<rparr>) else Done (Some hn, sm\<lparr>sm_rooms := rs2\<rparr>))"
  by (simp add: finish_acts[of "H_create hn pw"] handler_act_def createNewRoom_def Let_def)

lemma finish_add: "handler_finish hasher h arrived (H_add hn) sm
    = bind_outcome (addClientToRoom (hd_roomID hn) (Some h) (sm_rooms sm)) (\<lambda>(cRes, rs2). Done (Some hn, sm\<lparr>sm_rooms := rs2\<rparr>))"
  by (cases "addClientToRoom (hd_roomID hn) (Some h) (sm_rooms sm)") (auto simp: finish_acts[of "H_add hn"] handler_act_def)

lemma finish_check: "handler_finish hasher h arrived (H_check hn pw ptr) sm
    = (if ptr = None then reject_client h (hd_sap hn) sm
       else bind_outcome (room_ptr ptr (sm_rooms sm)) (\<lambda>r.
         if roomPassword r = pw
         then bind_outcome (addClientToRoom (hd_roomID hn) (Some h) (sm_rooms sm)) (\<lambda>(cRes, rs2). Done (Some hn, sm\<lparr>sm_rooms := rs2\<rparr>))
         else reject_client h (hd_sap hn) sm))"
  by (cases "room_ptr ptr (sm_rooms sm)") (auto simp: finish_acts[of "H_check hn pw ptr"] handler_act_def finish_reject finish_add)

lemma enter_parts:
  "identified hasher h (tData sm) (receive_identity arrived) (send_greeting (fst (tData sm)) sm) =
     (let (idRes, n1) = firstClientInteraction 0 (fst (tData sm)) arrived (sm_net sm)
      in identified hasher h (tData sm) idRes (sm\<lparr>sm_net := n1\<rparr>))"
  by (simp add: firstClientInteraction_def receive_identity_def send_greeting_def on_net_def Let_def split_def)

lemma finish_lookup: "handler_finish hasher h arrived (H_lookup hn pw) sm
    = (let (ptr, rs1) = getRoomPtr (hd_roomID hn) (sm_rooms sm)
       in handler_finish hasher h arrived (H_check hn pw ptr) (sm\<lparr>sm_rooms := rs1\<rparr>))"
  by (simp add: finish_acts[of "H_lookup hn pw"] handler_act_def split_def Let_def)

lemma finish_identified:
  "bind_outcome (identified hasher h sap idRes sm) (\<lambda>(pc, sm1). handler_finish hasher h arrived pc sm1)
    = bind_outcome (text_of idRes roomName_off) (\<lambda>roomNameStr.
        bind_outcome (text_of idRes roomPassword_off) (\<lambda>roomPassStr.
        bind_outcome (text_of idRes clientName_off) (\<lambda>name.
          let sm2 = frame_enter h (RoomClient3 sap (Some name) (fi_isHost idRes)) sm
          in if fi_isHost idRes then enter_as_host h sap (hasher roomNameStr) (hasher roomPassStr) sm2
             else enter_as_guest h sap (hasher roomNameStr) (hasher roomPassStr) sm2)))"
proof -
  have host: "handler_finish hasher h arrived (H_create \<lparr>hd_self = h, hd_sap = sap, hd_roomID = rid,
      hd_buf = encode_room_msg zero_room_msg\<rparr> pw) sm2 = enter_as_host h sap rid pw sm2" for rid pw sm2
    by (simp add: finish_create enter_as_host_def createNewRoom_def Let_def)
  have guest: "handler_finish hasher h arrived (H_lookup \<lparr>hd_self = h, hd_sap = sap, hd_roomID = rid,
      hd_buf = encode_room_msg zero_room_msg\<rparr> pw) sm2 = enter_as_guest h sap rid pw sm2" for rid pw sm2
    by (simp add: finish_lookup finish_check enter_as_guest_def split_def Let_def cong: if_cong)
  show ?thesis
    by (cases "text_of idRes roomName_off"; cases "text_of idRes roomPassword_off"; cases "text_of idRes clientName_off")
      (simp_all add: identified_def Let_def host guest)
qed

text \<open>A client that identifies itself as \<open>firstServerInteraction\<close> does.\<close>

lemma receive_identity_filled:
  "short_names c \<Longrightarrow> receive_identity (Some (encode_fsi (filled_fsi c))) = filled_fsi c"
  using server_reads[OF wf_filled_fsi[OF short_names_fit], of c]
  by (simp add: receive_identity_def firstClientInteraction_def Let_def split_def)

lemma identified_filled:
  assumes "short_names c"
  shows "identified hasher h sap (filled_fsi c) sm
    = Done ((if cl_isHost c then H_create else H_lookup) (in_loop h sap (hasher (cl_roomName c))) (hasher (cl_roomPassword c)),
        frame_enter h (RoomClient3 sap (Some (cl_name c)) (cl_isHost c)) sm)"
proof -
  have "text_of (filled_fsi c) roomName_off = Done (cl_roomName c)"
    "text_of (filled_fsi c) clientName_off = Done (cl_name c)"
    "text_of (filled_fsi c) roomPassword_off = Done (cl_roomPassword c)"
    using assms short_names_fit[OF assms]
    by (simp_all add: short_names_def text_of_def c_string_room c_string_client c_string_password)
  moreover have "fi_isHost (filled_fsi c) = cl_isHost c" by (simp add: filled_fsi_def)
  ultimately show ?thesis by (simp add: identified_def in_loop_def Let_def)
qed

section \<open>Property\<close>

text \<open>
  C14: The steps are the handler. The steps of a handler run without another thread in between are its
  entry as one step and its messages as one step, in every state, faults included: who is let in,
  what a started room sends, and what is reachable when each message is handled without a break,
  hold of the code statement by statement.
\<close>

theorem handler_in_steps:
  "handler_finish hasher h arrived H_begin sm = handler_enter hasher h arrived sm
    \<and> bind_outcome (handler_act hasher (hd_self hn) arrived (H_loop hn) sm) (\<lambda>(res, sm1).
          handler_finish hasher (hd_self hn) arrived (the res) sm1)
      = handler_message hn arrived sm"
proof
  let ?h = "hd_self hn"
  let ?start = "identified hasher h (tData sm) (receive_identity arrived) (send_greeting (fst (tData sm)) sm)"
  have start: "handler_finish hasher h arrived H_begin sm
      = bind_outcome ?start (\<lambda>(pc, sm1). handler_finish hasher h arrived pc sm1)"
    by (cases ?start) (auto simp: finish_acts[of H_begin] finish_acts[of "H_identify sap" for sap] handler_act_def)
  show "handler_finish hasher h arrived H_begin sm = handler_enter hasher h arrived sm"
    unfolding start enter_parts by (simp add: handler_enter_def finish_identified[unfolded split_def] split_def Let_def)
  show "bind_outcome (handler_act hasher ?h arrived (H_loop hn) sm) (\<lambda>(res, sm1). handler_finish hasher ?h arrived (the res) sm1)
      = handler_message hn arrived sm"
  proof (cases "client_ptr (Some ?h) (sm_rooms sm)")
    case (Done self)
    obtain recvRes buf where recv: "EncryptedServerSocket_recvData (hd_buf hn) arrived = (recvRes, buf)"
      by (cases "EncryptedServerSocket_recvData (hd_buf hn) arrived")
    have "handler_finish hasher ?h arrived (dispatch_message (hn\<lparr>hd_buf := buf\<rparr>) recvRes self) sm = handler_message hn arrived sm"
      using Done
      by (auto simp: dispatch_message_def handler_message_def recv Let_def depart_def finish_leave finish_end
          finish_remove finish_close bind_assoc split_def)
    with recv Done show ?thesis by (simp add: handler_act_def)
  qed (auto simp: handler_act_def handler_message_def split_def Let_def)
qed

end
