(* ===== verification/ServerInterleaving.thy ===== *)
theory ServerInterleaving
  imports ServerThreads
begin

text \<open>
  All interleavings of the small steps of \<open>ServerThreads\<close>: which objects can be gone when a handler
  follows a pointer to them. The invariant says, for every room in the map, how far its host is, and
  which of its guests are then sure to be there. It holds as long as no two running hosts use the
  same room number. A second one, for prompt threads, says that no two handlers have the same address object.
\<close>

section \<open>Runs\<close>

text \<open>The room number of a handler that knows it, and the hosts of a room number.\<close>

fun locals_of :: "handler_pc \<Rightarrow> handler option" where
  "locals_of H_begin = None" | "locals_of (H_identify sap) = None" | "locals_of (H_create hn pw) = Some hn"
| "locals_of (H_lookup hn pw) = Some hn" | "locals_of (H_check hn pw ptr) = Some hn" | "locals_of (H_add hn) = Some hn"
| "locals_of (H_reject hn) = Some hn" | "locals_of (H_loop hn) = Some hn" | "locals_of (H_end hn nx) = Some hn"
| "locals_of (H_ending hn e nx) = Some hn" | "locals_of (H_remove hn nx) = Some hn" | "locals_of (H_close hn) = Some hn"
| "locals_of (H_leave hn) = Some hn"

definition hosts :: "rooms \<Rightarrow> server_threads \<Rightarrow> SIZE_T \<Rightarrow> nat \<Rightarrow> bool" where
  "hosts rs R rid h \<longleftrightarrow> (\<exists>pc hn cl. R h = Some pc \<and> locals_of pc = Some hn \<and> hd_roomID hn = rid
     \<and> client_at rs h = Some cl \<and> rc_isHost cl)"

definition one_host :: "server \<times> server_threads \<Rightarrow> bool" where
  "one_host s \<longleftrightarrow> (\<forall>rid h h'. hosts (sm_rooms (fst s)) (snd s) rid h \<longrightarrow> hosts (sm_rooms (fst s)) (snd s) rid h' \<longrightarrow> h = h')"

inductive handlers_reach :: "(BYTE list \<Rightarrow> SIZE_T) \<Rightarrow> bool \<Rightarrow> server \<times> server_threads \<Rightarrow> bool" for hasher prompt where
  at_start: "handlers_reach hasher prompt (ServerManager, Map.empty)"
| and_step: "handlers_reach hasher prompt s \<Longrightarrow> handlers_step hasher prompt s s' \<Longrightarrow> one_host s'
    \<Longrightarrow> handlers_reach hasher prompt s'"

section \<open>Invariant\<close>

text \<open>The objects of a handler, and what its control point says of its client.\<close>

fun pc_fits :: "handler_pc \<Rightarrow> room_client \<Rightarrow> bool" where
  "pc_fits (H_create hn pw) cl = (rc_isHost cl \<and> \<not> rc_isLeaving cl)"
| "pc_fits (H_lookup hn pw) cl = (\<not> rc_isHost cl \<and> \<not> rc_isLeaving cl)"
| "pc_fits (H_check hn pw ptr) cl = (\<not> rc_isHost cl \<and> \<not> rc_isLeaving cl)"
| "pc_fits (H_add hn) cl = (\<not> rc_isHost cl \<and> \<not> rc_isLeaving cl)"
| "pc_fits (H_reject hn) cl = (\<not> rc_isHost cl)"
| "pc_fits (H_end hn nx) cl = rc_isHost cl"
| "pc_fits (H_ending hn e nx) cl = rc_isHost cl"
| "pc_fits (H_remove hn nx) cl = (\<not> rc_isHost cl)"
| "pc_fits _ cl = True"

definition objects_ok :: "rooms \<Rightarrow> server_threads \<Rightarrow> nat \<Rightarrow> bool" where
  "objects_ok rs R h = (case Option.bind (R h) locals_of of
       None \<Rightarrow> room_at rs h = None \<and> client_at rs h = None
     | Some hn \<Rightarrow> hd_self hn = h \<and> room_at rs h \<noteq> None
         \<and> (\<exists>cl. client_at rs h = Some cl \<and> snd (rc_sap cl) \<noteq> None \<and> pc_fits (the (R h)) cl))"

definition param_ok :: "server \<Rightarrow> server_threads \<Rightarrow> bool" where
  "param_ok sm R \<longleftrightarrow> (\<forall>h. R h = Some H_begin \<longrightarrow> snd (tData sm) \<noteq> None)
     \<and> (\<forall>h sap. R h = Some (H_identify sap) \<longrightarrow> snd sap \<noteq> None)"

text \<open>A guest in its loop, or on its way to be removed, that has not been marked as leaving.\<close>

definition guest_ok :: "rooms \<Rightarrow> server_threads \<Rightarrow> SIZE_T \<Rightarrow> nat \<Rightarrow> bool" where
  "guest_ok rs R rid c \<longleftrightarrow> (\<exists>hn cl. (R c = Some (H_loop hn) \<or> (\<exists>nx. R c = Some (H_remove hn nx))) \<and> hd_roomID hn = rid
     \<and> client_at rs c = Some cl \<and> \<not> rc_isHost cl \<and> \<not> rc_isLeaving cl)"

text \<open>How far the host of a room is, and the guests that are then sure to be there.\<close>

definition guests_ok :: "rooms \<Rightarrow> server_threads \<Rightarrow> SIZE_T \<Rightarrow> nat list \<Rightarrow> bool" where
  "guests_ok rs R rid cs \<longleftrightarrow> distinct cs \<and> (\<forall>c \<in> set cs. guest_ok rs R rid c)"

definition ending_ok :: "rooms \<Rightarrow> server_threads \<Rightarrow> SIZE_T \<Rightarrow> end_call \<Rightarrow> afterwards \<Rightarrow> bool" where
  "ending_ok rs R rid e nx = (case ec_pc e of
       To_host cs \<Rightarrow> nx = Serve_on \<and> guests_ok rs R rid (ec_vec e) \<and> set cs \<subseteq> set (ec_vec e)
     | To_clients cs \<Rightarrow> nx = Serve_on \<and> guests_ok rs R rid cs
     | Leaving_clients cs \<Rightarrow> nx \<noteq> Serve_on \<longrightarrow> guests_ok rs R rid cs
     | Leaving_host \<Rightarrow> True
     | Deleting_room \<Rightarrow> True
     | Room_ended \<Rightarrow> False)"

definition stage_ok :: "rooms \<Rightarrow> server_threads \<Rightarrow> SIZE_T \<Rightarrow> nat \<Rightarrow> room \<Rightarrow> bool" where
  "stage_ok rs R rid p r = (case R p of
       Some (H_loop hn) \<Rightarrow> hd_roomID hn = rid \<and> guests_ok rs R rid (roomVector r)
         \<and> (\<exists>cl. client_at rs p = Some cl \<and> \<not> rc_isLeaving cl)
     | Some (H_end hn nx) \<Rightarrow> hd_roomID hn = rid \<and> guests_ok rs R rid (roomVector r)
     | Some (H_ending hn e nx) \<Rightarrow> hd_roomID hn = rid \<and> ending_ok rs R rid e nx
     | _ \<Rightarrow> False)"

definition room_ok :: "rooms \<Rightarrow> server_threads \<Rightarrow> SIZE_T \<Rightarrow> nat \<Rightarrow> bool" where
  "room_ok rs R rid p \<longleftrightarrow> (\<exists>r cl. room_at rs p = Some r \<and> prHost r = Some p
     \<and> client_at rs p = Some cl \<and> rc_isHost cl \<and> stage_ok rs R rid p r)"

text \<open>A call of \<open>endRoom\<close> works on the room of its caller, which stays in the map until it deletes it.\<close>

definition calls_ok :: "rooms \<Rightarrow> server_threads \<Rightarrow> bool" where
  "calls_ok rs R \<longleftrightarrow> (\<forall>h hn e nx. R h = Some (H_ending hn e nx) \<longrightarrow> ec_host e = h \<and> ec_rid e = hd_roomID hn
     \<and> (ec_pc e \<noteq> Room_ended \<longrightarrow> roomMap rs (hd_roomID hn) = Some (Some h)))"

definition handlers_inv :: "server \<Rightarrow> server_threads \<Rightarrow> bool" where
  "handlers_inv sm R \<longleftrightarrow> (\<forall>h. objects_ok (sm_rooms sm) R h) \<and> param_ok sm R \<and> threads_ok (snm_threads sm)
     \<and> (\<forall>rid p. roomMap (sm_rooms sm) rid = Some (Some p) \<longrightarrow> room_ok (sm_rooms sm) R rid p)
     \<and> calls_ok (sm_rooms sm) R"

text \<open>The address object a handler goes by.\<close>

definition held :: "server \<Rightarrow> handler_pc \<Rightarrow> nat option" where
  "held sm pc = (case pc of H_begin \<Rightarrow> snd (tData sm) | H_identify sap \<Rightarrow> snd sap
     | _ \<Rightarrow> Option.bind (locals_of pc) (\<lambda>hn. snd (hd_sap hn)))"

definition held_inv :: "server \<Rightarrow> server_threads \<Rightarrow> bool" where
  "held_inv sm R \<longleftrightarrow> (\<forall>h pc. R h = Some pc \<longrightarrow> (\<exists>q. held sm pc = Some q \<and> addr_at (sm_rooms sm) q \<noteq> None))
     \<and> (\<forall>h h' pc pc'. R h = Some pc \<longrightarrow> R h' = Some pc' \<longrightarrow> held sm pc = held sm pc' \<longrightarrow> h = h')
     \<and> (\<forall>h pc hn cl. R h = Some pc \<longrightarrow> locals_of pc = Some hn \<longrightarrow> client_at (sm_rooms sm) h = Some cl \<longrightarrow> rc_sap cl = hd_sap hn)"

section \<open>Lemmas\<close>

lemma inv_addr_at [simp]:
  "objects_ok (rs\<lparr>addr_at := f\<rparr>) R h = objects_ok rs R h" "calls_ok (rs\<lparr>addr_at := f\<rparr>) R = calls_ok rs R"
  "room_ok (rs\<lparr>addr_at := f\<rparr>) R rid p = room_ok rs R rid p"
proof -
  have "guest_ok (rs\<lparr>addr_at := f\<rparr>) R = guest_ok rs R" by (simp add: guest_ok_def fun_eq_iff)
  then have guests: "guests_ok (rs\<lparr>addr_at := f\<rparr>) R = guests_ok rs R" by (simp add: guests_ok_def fun_eq_iff)
  have "ending_ok (rs\<lparr>addr_at := f\<rparr>) R = ending_ok rs R" unfolding ending_ok_def guests by (rule refl)
  note endings = this
  have "client_at (rs\<lparr>addr_at := f\<rparr>) = client_at rs" by simp
  then have "stage_ok (rs\<lparr>addr_at := f\<rparr>) R = stage_ok rs R" unfolding stage_ok_def guests endings by (simp only:)
  then show "room_ok (rs\<lparr>addr_at := f\<rparr>) R rid p = room_ok rs R rid p" by (simp add: room_ok_def)
qed (simp_all add: objects_ok_def calls_ok_def split: option.split)

lemma handlers_invD:
  assumes "handlers_inv sm R"
  shows "objects_ok (sm_rooms sm) R h" "param_ok sm R" "threads_ok (snm_threads sm)" "calls_ok (sm_rooms sm) R"
    "roomMap (sm_rooms sm) rid = Some (Some p) \<Longrightarrow> room_ok (sm_rooms sm) R rid p"
  using assms by (simp_all add: handlers_inv_def)

lemma guest_ok_frame:
  "guest_ok rs R rid c \<Longrightarrow> R' c = R c \<Longrightarrow> client_at rs' c = client_at rs c \<Longrightarrow> guest_ok rs' R' rid c"
  by (simp add: guest_ok_def)

lemma objects_ok_frame:
  assumes "objects_ok rs R h" and "R' h = R h" and "client_at rs' h = client_at rs h" and "room_at rs' h = room_at rs h"
  shows "objects_ok rs' R' h"
  using assms(1) unfolding objects_ok_def assms(2-4) .

lemma guests_ok_mono:
  "guests_ok rs R rid cs \<Longrightarrow> (\<And>c. c \<in> set cs \<Longrightarrow> guest_ok rs R rid c \<Longrightarrow> guest_ok rs' R' rid c) \<Longrightarrow> guests_ok rs' R' rid cs"
  by (simp add: guests_ok_def)

lemma ending_ok_mono:
  assumes "ending_ok rs R rid e nx" and "\<And>c. guest_ok rs R rid c \<Longrightarrow> guest_ok rs' R' rid c"
  shows "ending_ok rs' R' rid e nx"
  using assms(1) by (auto simp: ending_ok_def intro: guests_ok_mono[OF _ assms(2)] split: end_pc.splits)

lemma stage_ok_mono:
  assumes "stage_ok rs R rid p r" and "R' p = R p" and "client_at rs' p = client_at rs p"
    and "\<And>c. guest_ok rs R rid c \<Longrightarrow> guest_ok rs' R' rid c"
  shows "stage_ok rs' R' rid p r"
  using assms(1-3) guests_ok_mono[OF _ assms(4)] ending_ok_mono[OF _ assms(4)]
  unfolding stage_ok_def by (auto split: option.splits handler_pc.splits)

lemma room_ok_mono:
  assumes "room_ok rs R rid p" and "R' p = R p" and "client_at rs' p = client_at rs p" and "room_at rs' p = room_at rs p"
    and "\<And>c. guest_ok rs R rid c \<Longrightarrow> guest_ok rs' R' rid c"
  shows "room_ok rs' R' rid p"
proof -
  from assms(1) obtain r cl where r: "room_at rs p = Some r" "prHost r = Some p" "client_at rs p = Some cl" "rc_isHost cl"
    "stage_ok rs R rid p r" unfolding room_ok_def by blast
  have "stage_ok rs' R' rid p r" by (rule stage_ok_mono[where rs = rs and R = R]) (use r(5) assms(2,3,5) in auto)
  with r assms(3,4) show ?thesis unfolding room_ok_def by auto
qed

text \<open>A step of one handler.\<close>

lemma step_inv:
  assumes inv: "handlers_inv sm R" and td: "tData sm' = tData sm" and threads: "threads_ok (snm_threads sm')"
    and objects: "\<And>h. h \<noteq> t \<Longrightarrow> objects_ok (sm_rooms sm) R h \<Longrightarrow> objects_ok (sm_rooms sm') (R(t := res)) h"
      "objects_ok (sm_rooms sm') (R(t := res)) t"
    and map: "\<And>rid p. p \<noteq> t \<Longrightarrow> roomMap (sm_rooms sm') rid = Some (Some p) \<longleftrightarrow> roomMap (sm_rooms sm) rid = Some (Some p)"
    and rooms: "\<And>rid p. roomMap (sm_rooms sm) rid = Some (Some p) \<Longrightarrow> p \<noteq> t \<Longrightarrow> room_ok (sm_rooms sm) R rid p
        \<Longrightarrow> room_ok (sm_rooms sm') (R(t := res)) rid p"
      "\<And>rid. roomMap (sm_rooms sm') rid = Some (Some t) \<Longrightarrow> room_ok (sm_rooms sm') (R(t := res)) rid t"
    and pc: "res \<noteq> Some H_begin" "\<And>sap. res = Some (H_identify sap) \<Longrightarrow> snd sap \<noteq> None"
      "\<And>hn e nx. res = Some (H_ending hn e nx) \<Longrightarrow> ec_host e = t \<and> ec_rid e = hd_roomID hn
        \<and> (ec_pc e \<noteq> Room_ended \<longrightarrow> roomMap (sm_rooms sm') (hd_roomID hn) = Some (Some t))"
  shows "handlers_inv sm' (R(t := res))"
proof -
  let ?R = "R(t := res)" and ?rs = "sm_rooms sm" and ?rs' = "sm_rooms sm'"
  note old = handlers_invD[OF inv]
  have "objects_ok ?rs' ?R h" for h
    using objects(1)[OF _ old(1)[of h]] objects(2) by (cases "h = t") simp_all
  moreover have "param_ok sm' ?R"
    using old(2) pc(1,2) unfolding param_ok_def td by (metis fun_upd_apply)
  moreover have "room_ok ?rs' ?R rid p" if p: "roomMap ?rs' rid = Some (Some p)" for rid p
  proof (cases "p = t")
    case True
    with p rooms(2) show ?thesis by simp
  next
    case False
    with p map have "roomMap ?rs rid = Some (Some p)" by blast
    with False rooms(1) old(5) show ?thesis by blast
  qed
  moreover have "calls_ok ?rs' ?R"
    unfolding calls_ok_def
  proof (intro allI impI)
    fix h hn e nx assume h: "?R h = Some (H_ending hn e nx)"
    show "ec_host e = h \<and> ec_rid e = hd_roomID hn \<and> (ec_pc e \<noteq> Room_ended \<longrightarrow> roomMap ?rs' (hd_roomID hn) = Some (Some h))"
    proof (cases "h = t")
      case True
      with h pc(3) show ?thesis by simp
    next
      case False
      with h have "R h = Some (H_ending hn e nx)" by simp
      with old(4) False map[of h "hd_roomID hn"] show ?thesis unfolding calls_ok_def by blast
    qed
  qed
  ultimately show ?thesis using threads by (simp add: handlers_inv_def)
qed

text \<open>One that touches no other handler's objects.\<close>

lemma local_step:
  assumes inv: "handlers_inv sm R" and td: "tData sm' = tData sm" and threads: "threads_ok (snm_threads sm')"
    and others: "\<And>h. h \<noteq> t \<Longrightarrow> client_at (sm_rooms sm') h = client_at (sm_rooms sm) h"
      "\<And>h. h \<noteq> t \<Longrightarrow> room_at (sm_rooms sm') h = room_at (sm_rooms sm) h"
      "\<And>rid p. p \<noteq> t \<Longrightarrow> roomMap (sm_rooms sm') rid = Some (Some p) \<longleftrightarrow> roomMap (sm_rooms sm) rid = Some (Some p)"
    and self: "objects_ok (sm_rooms sm') (R(t := res)) t"
      "\<And>rid. guest_ok (sm_rooms sm) R rid t \<Longrightarrow> guest_ok (sm_rooms sm') (R(t := res)) rid t"
      "\<And>rid. roomMap (sm_rooms sm') rid = Some (Some t) \<Longrightarrow> room_ok (sm_rooms sm') (R(t := res)) rid t"
    and pc: "res \<noteq> Some H_begin" "\<And>sap. res = Some (H_identify sap) \<Longrightarrow> snd sap \<noteq> None"
      "\<And>hn e nx. res = Some (H_ending hn e nx) \<Longrightarrow> ec_host e = t \<and> ec_rid e = hd_roomID hn
        \<and> (ec_pc e \<noteq> Room_ended \<longrightarrow> roomMap (sm_rooms sm') (hd_roomID hn) = Some (Some t))"
  shows "handlers_inv sm' (R(t := res))"
proof (rule step_inv[OF inv td threads _ self(1) others(3) _ self(3) pc])
  fix h assume "h \<noteq> t" "objects_ok (sm_rooms sm) R h"
  then show "objects_ok (sm_rooms sm') (R(t := res)) h" by (elim objects_ok_frame) (simp_all add: others(1,2))
next
  fix rid p assume p: "p \<noteq> t" "room_ok (sm_rooms sm) R rid p"
  from p(2) show "room_ok (sm_rooms sm') (R(t := res)) rid p"
  proof (rule room_ok_mono)
    fix c assume c: "guest_ok (sm_rooms sm) R rid c"
    show "guest_ok (sm_rooms sm') (R(t := res)) rid c"
    proof (cases "c = t")
      case True
      with c self(2) show ?thesis by simp
    next
      case False
      then show ?thesis by (intro guest_ok_frame[OF c]) (simp_all add: others(1))
    qed
  qed (simp_all add: p(1) others(1,2))
qed

text \<open>A handler whose room is in the map is a host in its loop or ending it.\<close>

lemma host_pc:
  assumes "handlers_inv sm R" and "roomMap (sm_rooms sm) rid = Some (Some t)" and "R t = Some pc"
  shows "(\<exists>hn. pc = H_loop hn \<and> hd_roomID hn = rid) \<or> (\<exists>hn nx. pc = H_end hn nx \<and> hd_roomID hn = rid)
    \<or> (\<exists>hn e nx. pc = H_ending hn e nx \<and> hd_roomID hn = rid \<and> ec_pc e \<noteq> Room_ended)"
    and "\<exists>cl. client_at (sm_rooms sm) t = Some cl \<and> rc_isHost cl"
proof -
  from handlers_invD(5)[OF assms(1,2)] obtain r where st: "stage_ok (sm_rooms sm) R rid t r"
    and cl: "\<exists>cl. client_at (sm_rooms sm) t = Some cl \<and> rc_isHost cl" unfolding room_ok_def by blast
  show "(\<exists>hn. pc = H_loop hn \<and> hd_roomID hn = rid) \<or> (\<exists>hn nx. pc = H_end hn nx \<and> hd_roomID hn = rid)
      \<or> (\<exists>hn e nx. pc = H_ending hn e nx \<and> hd_roomID hn = rid \<and> ec_pc e \<noteq> Room_ended)"
    using st assms(3) by (cases pc) (simp_all add: stage_ok_def ending_ok_def split: end_pc.splits)
  show "\<exists>cl. client_at (sm_rooms sm) t = Some cl \<and> rc_isHost cl" by (rule cl)
qed

lemma not_in_map:
  assumes "handlers_inv sm R" and "R t = Some pc"
    and "\<forall>hn. pc \<noteq> H_loop hn" "\<forall>hn nx. pc \<noteq> H_end hn nx" "\<forall>hn e nx. pc = H_ending hn e nx \<longrightarrow> ec_pc e = Room_ended"
  shows "roomMap (sm_rooms sm) rid \<noteq> Some (Some t)"
  using host_pc[OF assms(1) _ assms(2)] assms(3-5) by blast

lemma guest_pc:
  assumes "guest_ok rs R rid t" and "R t = Some pc"
  shows "\<exists>hn. (pc = H_loop hn \<or> (\<exists>nx. pc = H_remove hn nx)) \<and> hd_roomID hn = rid"
  using assms by (auto simp: guest_ok_def)

lemma objects_okD:
  assumes "handlers_inv sm R" and "R t = Some pc" and "locals_of pc = Some hn"
  shows "\<exists>cl. hd_self hn = t \<and> room_at (sm_rooms sm) t \<noteq> None \<and> client_at (sm_rooms sm) t = Some cl
    \<and> snd (rc_sap cl) \<noteq> None \<and> pc_fits pc cl"
  using handlers_invD(1)[OF assms(1), of t] assms(2,3) by (simp add: objects_ok_def)

text \<open>A step of a handler that is neither a guest in a room nor the host of one.\<close>

fun outside :: "handler_pc \<Rightarrow> bool" where
  "outside (H_loop hn) = False" | "outside (H_end hn nx) = False" | "outside (H_remove hn nx) = False"
| "outside (H_ending hn e nx) = (ec_pc e = Room_ended)" | "outside _ = True"

lemma outside_step:
  assumes inv: "handlers_inv sm R" and t: "R t = Some pc" "outside pc"
    and td: "tData sm' = tData sm" and threads: "threads_ok (snm_threads sm')"
    and others: "\<And>h. h \<noteq> t \<Longrightarrow> client_at (sm_rooms sm') h = client_at (sm_rooms sm) h"
      "\<And>h. h \<noteq> t \<Longrightarrow> room_at (sm_rooms sm') h = room_at (sm_rooms sm) h"
      "\<And>rid p. roomMap (sm_rooms sm') rid = Some (Some p) \<longleftrightarrow> roomMap (sm_rooms sm) rid = Some (Some p)"
    and self: "objects_ok (sm_rooms sm') (R(t := res)) t" "res \<noteq> Some H_begin"
      "\<And>sap. res = Some (H_identify sap) \<Longrightarrow> snd sap \<noteq> None" "\<And>hn e nx. res \<noteq> Some (H_ending hn e nx)"
  shows "handlers_inv sm' (R(t := res))"
proof (rule local_step[OF inv td threads others self(1)])
  have "\<forall>hn. pc \<noteq> H_loop hn" "\<forall>hn nx. pc \<noteq> H_end hn nx" "\<forall>hn nx. pc \<noteq> H_remove hn nx"
    "\<forall>hn e nx. pc = H_ending hn e nx \<longrightarrow> ec_pc e = Room_ended" using t(2) by (cases pc; simp)+
  note out = this
  show "guest_ok (sm_rooms sm') (R(t := res)) rid t" if "guest_ok (sm_rooms sm) R rid t" for rid
    using guest_pc[OF that t(1)] out by blast
  show "room_ok (sm_rooms sm') (R(t := res)) rid t" if "roomMap (sm_rooms sm') rid = Some (Some t)" for rid
    using that others(3) not_in_map[OF inv t(1) out(1,2,4)] by blast
qed (use self(2-4) in auto)

lemma rooms_unchanged [simp]:
  "sm_rooms (send_greeting s sm) = sm_rooms sm" "snm_threads (send_greeting s sm) = snm_threads sm"
  "tData (send_greeting s sm) = tData sm"
  by (simp_all add: send_greeting_def)

lemma getRoomPtr_keeps:
  assumes "getRoomPtr rid rs = (ptr, rs1)"
  shows "client_at rs1 = client_at rs" "room_at rs1 = room_at rs"
    "roomMap rs1 rid' = Some (Some p) \<longleftrightarrow> roomMap rs rid' = Some (Some p)"
    "ptr = Some q \<Longrightarrow> roomMap rs rid = Some (Some q) \<and> rs1 = rs"
  using assms by (auto simp: getRoomPtr_def split: option.splits if_splits)

subsection \<open>Coming in\<close>

lemma begin_inv:
  assumes "handlers_inv sm R" and "R t = Some H_begin" and "handler_act hasher t arrived H_begin sm = Done (res, sm')"
  shows "handlers_inv sm' (R(t := res))"
proof -
  have "objects_ok (sm_rooms sm) R t" "snd (tData sm) \<noteq> None"
    using handlers_invD(1,2)[OF assms(1)] assms(2) by (auto simp: param_ok_def)
  then show ?thesis
    using assms(2,3) handlers_invD(3)[OF assms(1)]
    by (intro outside_step[OF assms(1,2)]) (auto simp: handler_act_def objects_ok_def)
qed

lemma identify_inv:
  assumes "handlers_inv sm R" and "R t = Some (H_identify sap)"
    and "handler_act hasher t arrived (H_identify sap) sm = Done (res, sm')"
  shows "handlers_inv sm' (R(t := res))"
proof -
  have "snd sap \<noteq> None" using handlers_invD(2)[OF assms(1)] assms(2) by (auto simp: param_ok_def simp del: split_paired_All)
  then show ?thesis
    using assms(3) handlers_invD(3)[OF assms(1)]
    by (intro outside_step[OF assms(1,2)])
      (auto simp: handler_act_def identified_def frame_enter_def objects_ok_def RoomClient3_def Let_def split: if_splits)
qed

lemma lookup_inv:
  assumes "handlers_inv sm R" and "R t = Some (H_lookup hn pw)"
    and "handler_act hasher t arrived (H_lookup hn pw) sm = Done (res, sm')"
  shows "handlers_inv sm' (R(t := res))"
proof -
  obtain ptr rs1 where g: "getRoomPtr (hd_roomID hn) (sm_rooms sm) = (ptr, rs1)" by fastforce
  note keeps = getRoomPtr_keeps[OF g]
  obtain cl where "hd_self hn = t" "room_at (sm_rooms sm) t \<noteq> None" "client_at (sm_rooms sm) t = Some cl"
    "snd (rc_sap cl) \<noteq> None" "pc_fits (H_lookup hn pw) cl" using objects_okD[OF assms(1,2)] by auto
  with g keeps assms(3) handlers_invD(3)[OF assms(1)] show ?thesis
    by (intro outside_step[OF assms(1,2)]) (auto simp: handler_act_def objects_ok_def)
qed

lemma check_inv:
  assumes "handlers_inv sm R" and "R t = Some (H_check hn pw ptr)"
    and "handler_act hasher t arrived (H_check hn pw ptr) sm = Done (res, sm')"
  shows "handlers_inv sm' (R(t := res))"
proof -
  obtain cl where "hd_self hn = t" "room_at (sm_rooms sm) t \<noteq> None" "client_at (sm_rooms sm) t = Some cl"
    "snd (rc_sap cl) \<noteq> None" "pc_fits (H_check hn pw ptr) cl" using objects_okD[OF assms(1,2)] by auto
  with assms(3) handlers_invD(3)[OF assms(1)] show ?thesis
    by (intro outside_step[OF assms(1,2)]) (auto simp: handler_act_def objects_ok_def split: if_splits)
qed

lemma create_inv:
  assumes "handlers_inv sm R" and "R t = Some (H_create hn pw)"
    and "handler_act hasher t arrived (H_create hn pw) sm = Done (res, sm')"
  shows "handlers_inv sm' (R(t := res))"
proof -
  let ?rs = "sm_rooms sm" and ?rid = "hd_roomID hn"
  obtain cl where cl: "hd_self hn = t" "room_at ?rs t \<noteq> None" "client_at ?rs t = Some cl"
    "snd (rc_sap cl) \<noteq> None" "rc_isHost cl" "\<not> rc_isLeaving cl" using objects_okD[OF assms(1,2)] by auto
  let ?r = "Room\<lparr>prHost := Some t, roomID := ?rid, roomPassword := pw\<rparr>"
  have res: "res = Some (H_loop hn)" "tData sm' = tData sm" "snm_threads sm' = snm_threads sm"
    and rs': "client_at (sm_rooms sm') = client_at ?rs" "room_at (sm_rooms sm') = (room_at ?rs)(t \<mapsto> ?r)"
      "roomMap (sm_rooms sm') = (if roomMap ?rs ?rid = None then (roomMap ?rs)(?rid \<mapsto> Some t) else roomMap ?rs)"
    using assms(3) by (auto simp: handler_act_def createNewRoom_def Let_def)
  have out: "roomMap ?rs rid \<noteq> Some (Some t)" for rid by (rule not_in_map[OF assms(1,2)]) simp_all
  show ?thesis
  proof (rule local_step[OF assms(1)])
    fix rid assume "roomMap (sm_rooms sm') rid = Some (Some t)"
    with out have "rid = ?rid" by (auto simp: rs' split: if_splits)
    with cl show "room_ok (sm_rooms sm') (R(t := res)) rid t"
      by (simp add: room_ok_def stage_ok_def guests_ok_def rs' res Room_def)
  qed (use cl assms(2) handlers_invD(3)[OF assms(1)] in \<open>auto simp: res rs' objects_ok_def guest_ok_def\<close>)
qed

lemma exit_inv:
  assumes "handlers_inv sm R" and "R t = Some pc" "outside pc"
    and "sm_rooms sm1 = (sm_rooms sm)\<lparr>addr_at := f\<rparr>" "tData sm1 = tData sm" "threads_ok (snm_threads sm1)"
  shows "handlers_inv (frame_exit t sm1) (R(t := None))"
  using assms(4-6) by (intro outside_step[OF assms(1-3)]) (auto simp: objects_ok_def)

lemma reject_act_inv:
  assumes "handlers_inv sm R" and "R t = Some (H_reject hn)"
    and "handler_act hasher t arrived (H_reject hn) sm = Done (res, sm')"
  shows "handlers_inv sm' (R(t := res))"
proof -
  from assms(3) obtain ok tm f where tm: "killThread (ucast (fst (hd_sap hn))) (snm_threads sm) = Done (ok, tm)" "res = None"
    "sm' = frame_exit t ((on_net (closesocket (fst (hd_sap hn))) (sm\<lparr>snm_threads := tm\<rparr>))\<lparr>sm_rooms := (sm_rooms sm)\<lparr>addr_at := f\<rparr>\<rparr>)"
    by (auto simp: handler_act_def reject_client_def snm_killThread_def Let_def)
  with killThread_inv[OF handlers_invD(3)[OF assms(1)] tm(1)] show ?thesis
    by (simp add: exit_inv[OF assms(1,2), where f = f])
qed

lemma leave_inv:
  assumes "handlers_inv sm R" and "R t = Some (H_leave hn)"
    and "handler_act hasher t arrived (H_leave hn) sm = Done (res, sm')"
  shows "handlers_inv sm' (R(t := res))"
proof -
  have "hd_self hn = t" using objects_okD[OF assms(1,2)] by auto
  with assms(3) obtain ok tm where tm: "killThread (ucast (fst (hd_sap hn))) (snm_threads sm) = Done (ok, tm)" "res = None"
    "sm' = frame_exit t (sm\<lparr>snm_threads := tm\<rparr>)"
    by (auto simp: handler_act_def handler_leave_def snm_killThread_def)
  with killThread_inv[OF handlers_invD(3)[OF assms(1)] tm(1)] show ?thesis
    by (simp add: exit_inv[OF assms(1,2), where f = "addr_at (sm_rooms sm)"])
qed

lemma close_inv:
  assumes "handlers_inv sm R" and "R t = Some (H_close hn)"
    and "handler_act hasher t arrived (H_close hn) sm = Done (res, sm')"
  shows "handlers_inv sm' (R(t := res))"
proof -
  obtain cl where "hd_self hn = t" "room_at (sm_rooms sm) t \<noteq> None" "client_at (sm_rooms sm) t = Some cl"
    "snd (rc_sap cl) \<noteq> None" using objects_okD[OF assms(1,2)] by auto
  with assms(3) handlers_invD(3)[OF assms(1)] show ?thesis
    by (intro outside_step[OF assms(1,2)]) (auto simp: handler_act_def objects_ok_def)
qed

subsection \<open>The loop\<close>

lemma loop_inv:
  assumes "handlers_inv sm R" and "R t = Some (H_loop hn)"
    and "handler_act hasher t arrived (H_loop hn) sm = Done (res, sm')"
  shows "handlers_inv sm' (R(t := res))"
proof -
  let ?rs = "sm_rooms sm"
  obtain cl where cl: "hd_self hn = t" "room_at ?rs t \<noteq> None" "client_at ?rs t = Some cl" "snd (rc_sap cl) \<noteq> None"
    using objects_okD[OF assms(1,2)] by auto
  obtain recvRes buf where recv: "EncryptedServerSocket_recvData (hd_buf hn) arrived = (recvRes, buf)"
    by (cases "EncryptedServerSocket_recvData (hd_buf hn) arrived")
  let ?hn = "hn\<lparr>hd_buf := buf\<rparr>"
  have res: "res = Some (dispatch_message ?hn recvRes cl)" and sm': "sm' = sm"
    using assms(3) cl(3) by (auto simp: handler_act_def recv client_ptr_def)
  have cases: "dispatch_message ?hn recvRes cl = H_loop ?hn
      \<or> (rc_isLeaving cl \<and> dispatch_message ?hn recvRes cl = H_leave ?hn)
      \<or> (rc_isHost cl \<and> (\<exists>nx. dispatch_message ?hn recvRes cl = H_end ?hn nx))
      \<or> (\<not> rc_isHost cl \<and> (\<exists>nx. dispatch_message ?hn recvRes cl = H_remove ?hn nx))"
    by (simp add: dispatch_message_def Let_def)
  have guest: "guest_ok ?rs (R(t := res)) rid c" if "guest_ok ?rs R rid c" for rid c
    using that cases assms(2) cl(3) by (cases "c = t") (auto simp: guest_ok_def res)
  show ?thesis
    unfolding sm'
  proof (rule local_step[OF assms(1)])
    show "objects_ok ?rs (R(t := res)) t" using cases cl by (auto simp: objects_ok_def res)
    show "res \<noteq> Some H_begin" using cases by (auto simp: res)
    fix rid
    show "guest_ok ?rs R rid t \<Longrightarrow> guest_ok ?rs (R(t := res)) rid t" by (rule guest)
    assume "roomMap ?rs rid = Some (Some t)"
    from handlers_invD(5)[OF assms(1) this] assms(2) cl(3) obtain r where r: "room_at ?rs t = Some r" "prHost r = Some t"
      "rc_isHost cl" "hd_roomID hn = rid" "guests_ok ?rs R rid (roomVector r)" "\<not> rc_isLeaving cl"
      by (auto simp: room_ok_def stage_ok_def)
    have "guests_ok ?rs (R(t := res)) rid (roomVector r)" by (rule guests_ok_mono[OF r(5) guest])
    with r cases cl(3) show "room_ok ?rs (R(t := res)) rid t" by (auto simp: room_ok_def stage_ok_def res)
  next
    fix hn' e nx assume "res = Some (H_ending hn' e nx)"
    then show "ec_host e = t \<and> ec_rid e = hd_roomID hn' \<and> (ec_pc e \<noteq> Room_ended \<longrightarrow> roomMap ?rs (hd_roomID hn') = Some (Some t))"
      using cases by (auto simp: res)
  next
    fix sap assume "res = Some (H_identify sap)"
    then show "snd sap \<noteq> None" using cases by (auto simp: res)
  qed (use handlers_invD(3)[OF assms(1)] in simp_all)
qed

subsection \<open>Ending a room\<close>

lemma send_room_msg_simps [simp]:
  "sm_rooms (send_room_msg s m sm) = sm_rooms sm" "snm_threads (send_room_msg s m sm) = snm_threads sm"
  "tData (send_room_msg s m sm) = tData sm"
  by (simp_all add: send_room_msg_def)

lemma end_inv:
  assumes inv: "handlers_inv sm R" and t: "R t = Some (H_end hn nx)" and one: "one_host (sm, R)"
    and run: "handler_act hasher t arrived (H_end hn nx) sm = Done (res, sm')"
  shows "handlers_inv sm' (R(t := res))"
proof -
  let ?rs = "sm_rooms sm" and ?rid = "hd_roomID hn"
  obtain cl where cl: "hd_self hn = t" "room_at ?rs t \<noteq> None" "client_at ?rs t = Some cl" "snd (rc_sap cl) \<noteq> None"
    "rc_isHost cl" using objects_okD[OF inv t] by auto
  obtain ptr rs1 where g: "getRoomPtr ?rid ?rs = (ptr, rs1)" by fastforce
  from run g obtain p where ptr: "ptr = Some p" by (cases ptr) (auto simp: handler_act_def end_enter_def room_ptr_def)
  have map: "roomMap ?rs ?rid = Some (Some p)" and rs1: "rs1 = ?rs" using getRoomPtr_keeps(4)[OF g ptr] by auto
  from handlers_invD(5)[OF inv map] obtain cp rp where p: "client_at ?rs p = Some cp" "rc_isHost cp" "stage_ok ?rs R ?rid p rp"
    unfolding room_ok_def by blast
  then have "hosts ?rs R ?rid p" by (auto simp: hosts_def stage_ok_def split: option.splits handler_pc.splits)
  moreover have "hosts ?rs R ?rid t" using t cl by (auto simp: hosts_def)
  ultimately have pt: "p = t" using one by (auto simp: one_host_def)
  from handlers_invD(5)[OF inv map] t pt obtain r where r: "room_at ?rs t = Some r" "prHost r = Some t"
    "guests_ok ?rs R ?rid (roomVector r)" by (auto simp: room_ok_def stage_ok_def)
  obtain e where res: "res = Some (H_ending hn e nx)" and e: "ec_host e = t" "ec_rid e = ?rid" "ec_vec e = roomVector r"
      "ec_pc e = (if nx = Serve_on then To_host (roomVector r) else Leaving_clients (roomVector r))"
    and sm': "sm_rooms sm' = ?rs" "tData sm' = tData sm" "snm_threads sm' = snm_threads sm"
    using run g r cl by (auto simp: handler_act_def end_enter_def ptr rs1 pt room_ptr_def client_ptr_def split: if_splits)
  have guest: "guest_ok ?rs (R(t := res)) rid c" if "guest_ok ?rs R rid c" for rid c
    using that t by (cases "c = t") (auto simp: guest_ok_def)
  have "guests_ok ?rs (R(t := res)) ?rid (roomVector r)" by (rule guests_ok_mono[OF r(3) guest])
  then have ok: "room_ok ?rs (R(t := res)) ?rid t"
    using r cl e by (cases nx) (simp_all add: room_ok_def stage_ok_def ending_ok_def res)
  show ?thesis
  proof (rule local_step[OF inv])
    fix rid assume "roomMap (sm_rooms sm') rid = Some (Some t)"
    with host_pc(1)[OF inv _ t] have "rid = ?rid" by (auto simp: sm')
    with ok show "room_ok (sm_rooms sm') (R(t := res)) rid t" by (simp add: sm')
  next
    fix rid assume "guest_ok (sm_rooms sm) R rid t"
    then show "guest_ok (sm_rooms sm') (R(t := res)) rid t" using t by (auto simp: guest_ok_def)
  next
    fix hn' e' nx' assume "res = Some (H_ending hn' e' nx')"
    then show "ec_host e' = t \<and> ec_rid e' = hd_roomID hn' \<and> (ec_pc e' \<noteq> Room_ended \<longrightarrow> roomMap (sm_rooms sm') (hd_roomID hn') = Some (Some t))"
      using e map pt by (simp add: res sm')
  qed (use cl handlers_invD(3)[OF inv] in \<open>auto simp: res sm' objects_ok_def\<close>)
qed

text \<open>What is known of a running call.\<close>

lemma ending_facts:
  assumes inv: "handlers_inv sm R" and t: "R t = Some (H_ending hn e nx)" and pc: "ec_pc e \<noteq> Room_ended"
  obtains r cl where "hd_self hn = t" "ec_host e = t" "ec_rid e = hd_roomID hn"
    "roomMap (sm_rooms sm) (hd_roomID hn) = Some (Some t)" "room_at (sm_rooms sm) t = Some r" "prHost r = Some t"
    "client_at (sm_rooms sm) t = Some cl" "rc_isHost cl" "snd (rc_sap cl) \<noteq> None"
    "ending_ok (sm_rooms sm) R (hd_roomID hn) e nx"
proof -
  have e: "ec_host e = t" "ec_rid e = hd_roomID hn" "roomMap (sm_rooms sm) (hd_roomID hn) = Some (Some t)"
    using handlers_invD(4)[OF inv] t pc by (auto simp: calls_ok_def)
  obtain cl where cl: "hd_self hn = t" "client_at (sm_rooms sm) t = Some cl" "snd (rc_sap cl) \<noteq> None" "rc_isHost cl"
    using objects_okD[OF inv t] by auto
  from handlers_invD(5)[OF inv e(3)] t obtain r where "room_at (sm_rooms sm) t = Some r" "prHost r = Some t"
    "ending_ok (sm_rooms sm) R (hd_roomID hn) e nx" by (auto simp: room_ok_def stage_ok_def)
  with e cl show thesis using that by blast
qed

text \<open>A step of a call that marks no client and deletes nothing.\<close>

lemma quiet_ending:
  assumes inv: "handlers_inv sm R" and t: "R t = Some (H_ending hn e nx)" and pc: "ec_pc e \<noteq> Room_ended"
    and same: "sm_rooms sm' = sm_rooms sm" "tData sm' = tData sm" "snm_threads sm' = snm_threads sm"
    and e1: "ec_host e1 = ec_host e" "ec_rid e1 = ec_rid e"
    and ok: "\<And>R. ending_ok (sm_rooms sm) R (hd_roomID hn) e nx \<Longrightarrow> ending_ok (sm_rooms sm) R (hd_roomID hn) e1 nx"
  shows "handlers_inv sm' (R(t \<mapsto> H_ending hn e1 nx))"
proof -
  let ?rs = "sm_rooms sm" and ?R = "R(t \<mapsto> H_ending hn e1 nx)"
  obtain r cl where f: "hd_self hn = t" "ec_host e = t" "ec_rid e = hd_roomID hn"
    "roomMap ?rs (hd_roomID hn) = Some (Some t)" "room_at ?rs t = Some r" "prHost r = Some t"
    "client_at ?rs t = Some cl" "rc_isHost cl" "snd (rc_sap cl) \<noteq> None" "ending_ok ?rs R (hd_roomID hn) e nx"
    by (rule ending_facts[OF inv t pc])
  have guest: "guest_ok ?rs ?R rid c" if "guest_ok ?rs R rid c" for rid c
    using that t by (cases "c = t") (auto simp: guest_ok_def)
  have "ending_ok ?rs ?R (hd_roomID hn) e nx" by (rule ending_ok_mono[OF f(10) guest])
  then have ok1: "room_ok ?rs ?R (hd_roomID hn) t"
    using f ok by (simp add: room_ok_def stage_ok_def)
  show ?thesis
  proof (rule local_step[OF inv])
    fix rid assume "roomMap (sm_rooms sm') rid = Some (Some t)"
    with host_pc(1)[OF inv _ t] have "rid = hd_roomID hn" by (auto simp: same)
    with ok1 show "room_ok (sm_rooms sm') ?R rid t" by (simp add: same)
  next
    fix rid assume "guest_ok (sm_rooms sm) R rid t"
    then show "guest_ok (sm_rooms sm') ?R rid t" using t by (auto simp: guest_ok_def)
  qed (use f e1 handlers_invD(3)[OF inv] in \<open>auto simp: same objects_ok_def\<close>)
qed

text \<open>Marking a guest as leaving.\<close>

lemma client_at_marked: "client_at (mark_leaving {c} rs) h
    = (if h = c then map_option (\<lambda>cl. cl\<lparr>rc_isLeaving := True\<rparr>) (client_at rs h) else client_at rs h)"
  by (simp add: mark_leaving_def)

lemma guest_ok_mark:
  "guest_ok rs R rid d \<Longrightarrow> d \<noteq> c \<Longrightarrow> R' d = R d \<Longrightarrow> guest_ok (mark_leaving {c} rs) R' rid d"
  by (rule guest_ok_frame) (simp_all add: client_at_marked)

lemma marking_inv:
  assumes inv: "handlers_inv sm R" and t: "R t = Some (H_ending hn e nx)" and pc: "ec_pc e = To_clients (c # cs)"
    and same: "sm_rooms sm' = mark_leaving {c} (sm_rooms sm)" "tData sm' = tData sm" "snm_threads sm' = snm_threads sm"
  shows "handlers_inv sm' (R(t \<mapsto> H_ending hn (e\<lparr>ec_pc := To_clients cs\<rparr>) nx))"
proof -
  let ?rs = "sm_rooms sm" and ?R = "R(t \<mapsto> H_ending hn (e\<lparr>ec_pc := To_clients cs\<rparr>) nx)" and ?rid = "hd_roomID hn"
  have "ec_pc e \<noteq> Room_ended" by (simp add: pc)
  from ending_facts[OF inv t this] obtain r cl where f: "hd_self hn = t" "ec_host e = t" "ec_rid e = ?rid"
    "roomMap ?rs ?rid = Some (Some t)" "room_at ?rs t = Some r" "prHost r = Some t"
    "client_at ?rs t = Some cl" "rc_isHost cl" "snd (rc_sap cl) \<noteq> None" "ending_ok ?rs R ?rid e nx" by blast
  have nx: "nx = Serve_on" and guests: "distinct (c # cs)" "\<forall>d \<in> set (c # cs). guest_ok ?rs R ?rid d"
    using f(10) by (simp_all add: ending_ok_def pc guests_ok_def)
  from guests(2) obtain hc cc where c: "R c = Some (H_loop hc) \<or> (\<exists>nx. R c = Some (H_remove hc nx))" "hd_roomID hc = ?rid"
    "client_at ?rs c = Some cc" "\<not> rc_isHost cc" by (auto simp: guest_ok_def)
  have ct: "c \<noteq> t" using c(3,4) f(7,8) by auto
  have at: "roomMap (sm_rooms sm') = roomMap ?rs" "room_at (sm_rooms sm') = room_at ?rs" by (simp_all add: same)
  show ?thesis
  proof (rule step_inv[OF inv])
    fix h assume h: "h \<noteq> t" "objects_ok ?rs R h"
    show "objects_ok (sm_rooms sm') ?R h"
    proof (cases "h = c")
      case True
      with h c show ?thesis by (auto simp: objects_ok_def same client_at_marked)
    next
      case False
      with h show ?thesis by (elim objects_ok_frame) (simp_all add: same client_at_marked)
    qed
  next
    fix rid p assume p: "roomMap ?rs rid = Some (Some p)" "p \<noteq> t" "room_ok ?rs R rid p"
    have pc: "p \<noteq> c" using p(3) c(3,4) by (auto simp: room_ok_def)
    have rid: "rid \<noteq> ?rid" using p(1,2) f(4) by auto
    from p(3) show "room_ok (sm_rooms sm') ?R rid p"
    proof (rule room_ok_mono)
      fix d assume d: "guest_ok ?rs R rid d"
      with rid c(1,2) have "d \<noteq> c" by (auto simp: guest_ok_def)
      moreover have "d \<noteq> t" using d t by (auto simp: guest_ok_def)
      ultimately show "guest_ok (sm_rooms sm') ?R rid d" unfolding same by (intro guest_ok_mark[OF d]) simp_all
    qed (use p(2) pc in \<open>simp_all add: at same client_at_marked\<close>)
  next
    fix rid assume "roomMap (sm_rooms sm') rid = Some (Some t)"
    then have rid: "rid = ?rid" using host_pc(1)[OF inv _ t] by (auto simp: at)
    have "guest_ok (sm_rooms sm') ?R ?rid d" if "d \<in> set cs" for d
      unfolding same using guests that t by (intro guest_ok_mark) (auto simp: guest_ok_def)
    with guests(1) nx have "ending_ok (sm_rooms sm') ?R ?rid (e\<lparr>ec_pc := To_clients cs\<rparr>) nx"
      by (simp add: ending_ok_def guests_ok_def)
    with f ct show "room_ok (sm_rooms sm') ?R rid t"
      by (simp add: rid room_ok_def stage_ok_def at) (simp add: same client_at_marked)
  qed (use f ct handlers_invD(3)[OF inv] in \<open>auto simp: same objects_ok_def client_at_marked\<close>)
qed

text \<open>Marking the host, and deleting the room.\<close>

lemma host_marked_inv:
  assumes inv: "handlers_inv sm R" and t: "R t = Some (H_ending hn e nx)" and pc: "ec_pc e = Leaving_host"
    and same: "sm_rooms sm' = mark_leaving {t} (sm_rooms sm)" "tData sm' = tData sm" "snm_threads sm' = snm_threads sm"
  shows "handlers_inv sm' (R(t \<mapsto> H_ending hn (e\<lparr>ec_pc := Deleting_room\<rparr>) nx))"
proof -
  have "ec_pc e \<noteq> Room_ended" by (simp add: pc)
  from ending_facts[OF inv t this] obtain r cl where f: "hd_self hn = t" "ec_host e = t" "ec_rid e = hd_roomID hn"
    "roomMap (sm_rooms sm) (hd_roomID hn) = Some (Some t)" "room_at (sm_rooms sm) t = Some r" "prHost r = Some t"
    "client_at (sm_rooms sm) t = Some cl" "rc_isHost cl" "snd (rc_sap cl) \<noteq> None" by blast
  show ?thesis
  proof (rule local_step[OF inv])
    fix rid assume "roomMap (sm_rooms sm') rid = Some (Some t)"
    then have "rid = hd_roomID hn" using host_pc(1)[OF inv _ t] by (auto simp: same)
    with f show "room_ok (sm_rooms sm') (R(t \<mapsto> H_ending hn (e\<lparr>ec_pc := Deleting_room\<rparr>) nx)) rid t"
      by (simp add: room_ok_def stage_ok_def ending_ok_def same client_at_marked)
  next
    fix rid assume "guest_ok (sm_rooms sm) R rid t"
    then show "guest_ok (sm_rooms sm') (R(t \<mapsto> H_ending hn (e\<lparr>ec_pc := Deleting_room\<rparr>) nx)) rid t"
      using t by (auto simp: guest_ok_def)
  qed (use f handlers_invD(3)[OF inv] in \<open>auto simp: same objects_ok_def client_at_marked\<close>)
qed

lemma deleting_inv:
  assumes inv: "handlers_inv sm R" and t: "R t = Some (H_ending hn e nx)" and pc: "ec_pc e = Deleting_room"
  shows "handlers_inv (sm\<lparr>sm_rooms := snd (deleteRoom (ec_rid e) (sm_rooms sm))\<rparr>) (R(t \<mapsto> H_ending hn (e\<lparr>ec_pc := Room_ended\<rparr>) nx))"
proof -
  let ?sm = "sm\<lparr>sm_rooms := snd (deleteRoom (ec_rid e) (sm_rooms sm))\<rparr>"
  have "ec_pc e \<noteq> Room_ended" by (simp add: pc)
  from ending_facts[OF inv t this] obtain r cl where f: "hd_self hn = t" "ec_host e = t" "ec_rid e = hd_roomID hn"
    "roomMap (sm_rooms sm) (hd_roomID hn) = Some (Some t)" "room_at (sm_rooms sm) t = Some r" "prHost r = Some t"
    "client_at (sm_rooms sm) t = Some cl" "rc_isHost cl" "snd (rc_sap cl) \<noteq> None" by blast
  have map: "roomMap (snd (deleteRoom (ec_rid e) (sm_rooms sm))) rid = (if rid = hd_roomID hn then None else roomMap (sm_rooms sm) rid)" for rid
    by (simp add: deleteRoom_def f(3))
  show ?thesis
  proof (rule local_step[OF inv])
    fix rid assume "roomMap (sm_rooms ?sm) rid = Some (Some t)"
    then have "rid \<noteq> hd_roomID hn" "roomMap (sm_rooms sm) rid = Some (Some t)" by (auto simp: map split: if_splits)
    with host_pc(1)[OF inv _ t] show "room_ok (sm_rooms ?sm) (R(t \<mapsto> H_ending hn (e\<lparr>ec_pc := Room_ended\<rparr>) nx)) rid t" by auto
  next
    fix rid assume "guest_ok (sm_rooms sm) R rid t"
    then show "guest_ok (sm_rooms ?sm) (R(t \<mapsto> H_ending hn (e\<lparr>ec_pc := Room_ended\<rparr>) nx)) rid t"
      using t by (auto simp: guest_ok_def)
  next
    fix rid p assume "p \<noteq> t"
    then show "roomMap (sm_rooms ?sm) rid = Some (Some p) \<longleftrightarrow> roomMap (sm_rooms sm) rid = Some (Some p)"
      using f(4) by (auto simp: map)
  qed (use f handlers_invD(3)[OF inv] in \<open>auto simp: objects_ok_def deleteRoom_def\<close>)
qed

lemma ending_inv:
  assumes inv: "handlers_inv sm R" and t: "R t = Some (H_ending hn e nx)"
    and run: "handler_act hasher t arrived (H_ending hn e nx) sm = Done (res, sm')"
  shows "handlers_inv sm' (R(t := res))"
proof (cases "ec_pc e = Room_ended")
  case True
  obtain cl where cl: "hd_self hn = t" "room_at (sm_rooms sm) t \<noteq> None" "client_at (sm_rooms sm) t = Some cl"
    "snd (rc_sap cl) \<noteq> None" using objects_okD[OF inv t] by auto
  have "res = Some (go_on nx hn)" "sm' = sm" using run True by (simp_all add: handler_act_def)
  then show ?thesis
    using cl True handlers_invD(3)[OF inv] by (intro outside_step[OF inv t]) (cases nx; auto simp: objects_ok_def)+
next
  case pc: False
  then obtain e1 where step: "end_step e sm = Done (e1, sm')" and res: "res = Some (H_ending hn e1 nx)"
    using run by (auto simp: handler_act_def)
  obtain r cl where f: "ec_host e = t" "client_at (sm_rooms sm) t = Some cl" by (rule ending_facts[OF inv t pc]) blast
  note quiet = quiet_ending[OF inv t pc]
  show ?thesis
  proof (cases "ec_pc e")
    case (To_host cs)
    show ?thesis
    proof (cases cs)
      case Nil
      with To_host step show ?thesis unfolding res by (intro quiet) (auto simp: end_step_def ending_ok_def)
    next
      case (Cons c cs')
      with To_host step show ?thesis unfolding res
        by (intro quiet) (auto simp: end_step_def punch_to_host_def ending_ok_def)
    qed
  next
    case (To_clients cs)
    show ?thesis
    proof (cases cs)
      case Nil
      with To_clients step show ?thesis unfolding res by (intro quiet) (auto simp: end_step_def ending_ok_def)
    next
      case (Cons c cs')
      with To_clients step have e1: "e1 = e\<lparr>ec_pc := To_clients cs'\<rparr>" and sm': "punch_to_client (ec_msg e) c sm = Done sm'"
        by (auto simp: end_step_def)
      show ?thesis unfolding res e1
        using Cons To_clients sm' by (intro marking_inv[OF inv t]) (auto simp: punch_to_client_def set_leaving_eq Let_def)
    qed
  next
    case (Leaving_clients cs)
    show ?thesis
    proof (cases cs)
      case Nil
      with Leaving_clients step show ?thesis unfolding res by (intro quiet) (auto simp: end_step_def ending_ok_def)
    next
      case (Cons c cs')
      with Leaving_clients step show ?thesis unfolding res
        by (intro quiet) (auto simp: end_step_def leave_to_client_def ending_ok_def guests_ok_def)
    qed
  next
    case Leaving_host
    with step f have "e1 = e\<lparr>ec_pc := Deleting_room\<rparr>" "sm' = send_room_msg (ec_sock e) leave_msg (set_leaving t sm)"
      by (auto simp: end_step_def client_ptr_def)
    then show ?thesis unfolding res
      by (simp only:) (rule host_marked_inv[OF inv t Leaving_host]; simp add: set_leaving_eq)
  next
    case Deleting_room
    with step deleting_inv[OF inv t Deleting_room] show ?thesis unfolding res by (auto simp: end_step_def)
  qed (use pc in simp)
qed

subsection \<open>Joining and being removed\<close>

lemma add_inv:
  assumes inv: "handlers_inv sm R" and t: "R t = Some (H_add hn)"
    and run: "handler_act hasher t arrived (H_add hn) sm = Done (res, sm')"
  shows "handlers_inv sm' (R(t := res))"
proof -
  let ?rs = "sm_rooms sm" and ?rid = "hd_roomID hn"
  obtain cl where cl: "hd_self hn = t" "room_at ?rs t \<noteq> None" "client_at ?rs t = Some cl" "snd (rc_sap cl) \<noteq> None"
    "\<not> rc_isHost cl" "\<not> rc_isLeaving cl" using objects_okD[OF inv t] by auto
  obtain ptr rs1 where g: "getRoomPtr ?rid ?rs = (ptr, rs1)" by fastforce
  note keeps = getRoomPtr_keeps[OF g]
  have res: "res = Some (H_loop hn)" and td: "tData sm' = tData sm" "snm_threads sm' = snm_threads sm"
    using run by (auto simp: handler_act_def)
  show ?thesis
  proof (cases ptr)
    case None
    then have "sm_rooms sm' = rs1" using run g by (auto simp: handler_act_def addClientToRoom_def)
    with cl keeps handlers_invD(3)[OF inv] show ?thesis
      unfolding res by (intro outside_step[OF inv t]) (auto simp: td objects_ok_def)
  next
    case (Some p)
    then have map: "roomMap ?rs ?rid = Some (Some p)" and rs1: "rs1 = ?rs" using keeps(4) by auto
    from handlers_invD(5)[OF inv map] obtain r cp where r: "room_at ?rs p = Some r" "client_at ?rs p = Some cp"
      "prHost r = Some p" "rc_isHost cp" "stage_ok ?rs R ?rid p r" by (auto simp: room_ok_def)
    let ?rs' = "?rs\<lparr>room_at := (room_at ?rs)(p \<mapsto> r\<lparr>roomVector := roomVector r @ [t]\<rparr>)\<rparr>"
    have rs': "sm_rooms sm' = ?rs'"
      using run g r cl by (auto simp: handler_act_def addClientToRoom_def Some rs1 room_ptr_def client_ptr_def)
    have pt: "p \<noteq> t" using r(2,4) cl by auto
    have nt: "\<not> guest_ok ?rs R rid t" for rid using t by (simp add: guest_ok_def)
    have guest: "guest_ok ?rs' (R(t := res)) rid c" if "guest_ok ?rs R rid c" for rid c
    proof -
      have "c \<noteq> t" using that nt by blast
      with that show ?thesis by (simp add: guest_ok_def)
    qed
    have new: "guest_ok ?rs' (R(t := res)) ?rid t" using cl by (simp add: guest_ok_def res)
    have joined: "guests_ok ?rs' (R(t := res)) ?rid (roomVector r @ [t])" if "guests_ok ?rs R ?rid (roomVector r)"
      using that nt guest new by (auto simp: guests_ok_def)
    have ending: "ending_ok ?rs' (R(t := res)) ?rid e nx" if "ending_ok ?rs R ?rid e nx" for e nx
      by (rule ending_ok_mono[OF that guest])
    have stage: "stage_ok ?rs' (R(t := res)) ?rid p (r\<lparr>roomVector := roomVector r @ [t]\<rparr>)"
      using r(5) pt joined ending by (auto simp: stage_ok_def split: option.splits handler_pc.splits)
    show ?thesis
    proof (rule step_inv[OF inv])
      fix h assume "h \<noteq> t" "objects_ok ?rs R h"
      then show "objects_ok (sm_rooms sm') (R(t := res)) h"
        using r(1) by (auto simp: objects_ok_def rs' split: option.splits)
    next
      fix rid q assume q: "roomMap ?rs rid = Some (Some q)" "q \<noteq> t" "room_ok ?rs R rid q"
      show "room_ok (sm_rooms sm') (R(t := res)) rid q"
      proof (cases "q = p")
        case True
        have "rid = ?rid" using q(3) r(5) by (auto simp: True room_ok_def stage_ok_def split: option.splits handler_pc.splits)
        with stage r show ?thesis by (simp add: True room_ok_def rs')
      next
        case False
        from q(3) show ?thesis by (rule room_ok_mono) (use q(2) False guest in \<open>simp_all add: rs'\<close>)
      qed
    next
      fix rid assume "roomMap (sm_rooms sm') rid = Some (Some t)"
      then have "roomMap ?rs rid = Some (Some t)" by (simp add: rs')
      with not_in_map[OF inv t] show "room_ok (sm_rooms sm') (R(t := res)) rid t" by simp
    qed (use cl pt handlers_invD(3)[OF inv] in \<open>auto simp: rs' td res objects_ok_def\<close>)
  qed
qed

lemma remove_faults:
  assumes "handlers_inv sm R" and "countable_rooms sm"
  shows "removeClientFromRoom rid c (sm_rooms sm) \<in> {Fault Null_deref, Fault Out_of_range}"
proof (cases "roomMap (sm_rooms sm) rid \<in> {None, Some None}")
  case True
  then show ?thesis by (simp add: removeClient_null)
next
  case False
  then obtain p where p: "roomMap (sm_rooms sm) rid = Some (Some p)" by auto
  with handlers_invD(5)[OF assms(1) p] assms(2) have "removeClientFromRoom rid c (sm_rooms sm) = Fault Out_of_range"
    by (auto simp: room_ok_def countable_rooms_def intro!: removeClient_with_host)
  then show ?thesis by simp
qed

subsection \<open>Every step\<close>

lemma act_inv:
  assumes "handlers_inv sm R" and "R t = Some pc" and "countable_rooms sm" and "one_host (sm, R)"
    and "handler_act hasher t arrived pc sm = Done (res, sm')"
  shows "handlers_inv sm' (R(t := res))"
proof (cases pc)
  case (H_remove hn nx)
  with assms(5) remove_faults[OF assms(1,3), of "hd_roomID hn" t] show ?thesis by (auto simp: handler_act_def)
qed (use assms in \<open>auto intro: begin_inv identify_inv create_inv lookup_inv check_inv add_inv reject_act_inv loop_inv end_inv
    ending_inv close_inv leave_inv\<close>)

lemma accept_keeps:
  assumes "accept_round s a q stop p thread sm = Done sm'"
  shows "sm_rooms sm' = (sm_rooms sm)\<lparr>addr_at := (addr_at (sm_rooms sm))(q \<mapsto> a)\<rparr>"
    "tData sm' = (if 1 < s then (s, Some q) else tData sm)" "threads_ok (snm_threads sm) \<Longrightarrow> threads_ok (snm_threads sm')"
proof -
  have "threads_ok (new_ConThread p ct (snm_threads sm))" if "threads_ok (snm_threads sm)" for ct
    using that by (auto simp: threads_ok_def new_ConThread_def)
  note ok = createNewThread_inv[OF this]
  from assms show "sm_rooms sm' = (sm_rooms sm)\<lparr>addr_at := (addr_at (sm_rooms sm))(q \<mapsto> a)\<rparr>"
    "tData sm' = (if 1 < s then (s, Some q) else tData sm)"
    by (auto simp: accept_round_def acceptNewConnection_def SAP_NULL_def createNewEvent_def compareSocketAddrPair_def Let_def
        split: if_splits)
  from assms show "threads_ok (snm_threads sm')" if "threads_ok (snm_threads sm)"
    using that ok by (auto simp: accept_round_def acceptNewConnection_def createNewEvent_def Let_def split: if_splits)
qed

text \<open>A thread that has been started has no objects yet.\<close>

lemma started_inv:
  assumes inv: "handlers_inv sm R" and h: "R h = None" and td: "snd (tData sm) \<noteq> None"
  shows "handlers_inv sm (R(h \<mapsto> H_begin))"
proof -
  let ?R = "R(h \<mapsto> H_begin)"
  have objects: "objects_ok (sm_rooms sm) ?R k" for k
    using handlers_invD(1)[OF inv, of k] h by (cases "k = h") (auto simp: objects_ok_def split: option.splits)
  have "param_ok sm ?R" using handlers_invD(2)[OF inv] td by (auto simp: param_ok_def simp del: split_paired_All)
  moreover have "calls_ok (sm_rooms sm) ?R" using handlers_invD(4)[OF inv] by (auto simp: calls_ok_def)
  moreover have "room_ok (sm_rooms sm) ?R rid p" if "roomMap (sm_rooms sm) rid = Some (Some p)" for rid p
  proof (rule room_ok_mono[OF handlers_invD(5)[OF inv that]])
    from handlers_invD(5)[OF inv that] have "R p \<noteq> None" by (auto simp: room_ok_def stage_ok_def split: option.splits)
    then show "?R p = R p" using h by auto
    show "guest_ok (sm_rooms sm) ?R rid c" if "guest_ok (sm_rooms sm) R rid c" for c
      using that h by (auto simp: guest_ok_def)
  qed simp_all
  ultimately show ?thesis using objects handlers_invD(3)[OF inv] by (simp add: handlers_inv_def)
qed

lemma accepted_inv:
  assumes inv: "handlers_inv sm R" and h: "R h = None" and acc: "accept_round s a q stop p thread sm = Done sm'"
  shows "handlers_inv sm' (if 1 < s \<and> (\<exists>i. thread = Some i) then R(h \<mapsto> H_begin) else R)"
proof -
  note keeps = accept_keeps[OF acc]
  have "param_ok sm' R" using handlers_invD(2)[OF inv] keeps(2) by (auto simp: param_ok_def simp del: split_paired_All)
  with inv keeps have "handlers_inv sm' R" by (simp add: handlers_inv_def)
  with started_inv[of sm' R h] h keeps(2) show ?thesis by simp
qed

lemma step_handlers_inv:
  assumes "handlers_step hasher prompt (sm, R) (sm', R')" and "handlers_inv sm R" and "one_host (sm, R)"
  shows "handlers_inv sm' R'"
  using assms(1)
proof (rule handlers_stepE)
  fix R1 sm1 q h s a stop p thread sm1'
  assume eq: "(sm, R) = (sm1, R1)" "(sm', R') = (sm1', if 1 < s \<and> (\<exists>i. thread = Some i) then R1(h \<mapsto> H_begin) else R1)"
    and acc: "R1 h = None" "accept_round s a q stop p thread sm1 = Done sm1'"
  then show ?thesis using accepted_inv[OF assms(2), of h s a q stop p thread sm'] by (simp only: prod.inject)
next
  fix R1 h pc sm1 arrived res sm1'
  assume "(sm, R) = (sm1, R1)" "(sm', R') = (sm1', R1(h := res))" "R1 h = Some pc" "countable_rooms sm1"
    "handler_act hasher h arrived pc sm1 = Done (res, sm1')"
  with act_inv[OF assms(2) _ _ assms(3)] show ?thesis by auto
qed

lemma reach_one_host: "handlers_reach hasher prompt s \<Longrightarrow> one_host s"
  by (induction rule: handlers_reach.induct) (auto simp: one_host_def hosts_def)

lemma init_inv: "handlers_inv ServerManager Map.empty"
  by (simp add: handlers_inv_def objects_ok_def param_ok_def threads_ok_def calls_ok_def ServerManager_def RoomManager_def
      ThreadManager_def)

lemma reach_inv: "handlers_reach hasher prompt s \<Longrightarrow> handlers_inv (fst s) (snd s)"
proof (induction rule: handlers_reach.induct)
  case at_start
  then show ?case by (simp add: init_inv)
next
  case (and_step s s')
  with step_handlers_inv[of hasher prompt "fst s" "snd s" "fst s'" "snd s'"] reach_one_host[of hasher prompt s] show ?case by simp
qed

subsection \<open>Faults\<close>

lemma bind_Fault: "bind_outcome m f = Fault e \<longleftrightarrow> m = Fault e \<or> (\<exists>x. m = Done x \<and> f x = Fault e)"
  by (cases m) auto

text \<open>The address object of a client has been deleted.\<close>

definition address_gone :: "rooms \<Rightarrow> nat \<Rightarrow> bool" where
  "address_gone rs c \<longleftrightarrow> (\<exists>cl q. client_at rs c = Some cl \<and> snd (rc_sap cl) = Some q \<and> addr_at rs q = None)"

lemma addr_ptr_fault:
  "client_at rs c = Some cl \<Longrightarrow> addr_ptr cl rs = Fault Mem_fault \<Longrightarrow> address_gone rs c"
  by (auto simp: address_gone_def addr_ptr_def split: option.splits)

lemma end_mem_fault:
  assumes inv: "handlers_inv sm R" and fault: "end_enter rid streaming sm = Fault Mem_fault"
  shows "streaming \<and> (\<exists>p. roomMap (sm_rooms sm) rid = Some (Some p) \<and> address_gone (sm_rooms sm) p)"
proof -
  obtain ptr rs1 where g: "getRoomPtr rid (sm_rooms sm) = (ptr, rs1)" by fastforce
  show ?thesis
  proof (cases ptr)
    case None
    with fault g show ?thesis by (simp add: end_enter_def room_ptr_def)
  next
    case (Some p)
    then have p: "roomMap (sm_rooms sm) rid = Some (Some p)" "rs1 = sm_rooms sm" using getRoomPtr_keeps(4)[OF g] by auto
    moreover from handlers_invD(5)[OF inv this(1)] obtain r cl where "room_at (sm_rooms sm) p = Some r" "prHost r = Some p"
      and cl: "client_at (sm_rooms sm) p = Some cl" unfolding room_ok_def by blast
    ultimately have "streaming \<and> addr_ptr cl (sm_rooms sm) = Fault Mem_fault" using fault g Some
      by (auto simp: end_enter_def room_ptr_def client_ptr_def bind_Fault Let_def split: if_splits)
    with p cl addr_ptr_fault show ?thesis by blast
  qed
qed

lemma ending_mem_fault:
  assumes inv: "handlers_inv sm R" and t: "R t = Some (H_ending hn e nx)" and pc: "ec_pc e \<noteq> Room_ended"
    and fault: "end_step e sm = Fault Mem_fault"
  shows "nx = Serve_on \<and> (\<exists>c cs. ec_pc e = Leaving_clients (c # cs) \<and> client_at (sm_rooms sm) c = None
    \<or> (ec_pc e = To_host (c # cs) \<or> ec_pc e = To_clients (c # cs)) \<and> address_gone (sm_rooms sm) c
        \<and> guest_ok (sm_rooms sm) R (hd_roomID hn) c)"
proof -
  obtain cl where f: "ec_host e = t" "client_at (sm_rooms sm) t = Some cl"
    and ok: "ending_ok (sm_rooms sm) R (hd_roomID hn) e nx" by (rule ending_facts[OF inv t pc]) blast
  have there: "client_at (sm_rooms sm) c \<noteq> None" if "guest_ok (sm_rooms sm) R rid c" for rid c
    using that by (auto simp: guest_ok_def)
  have gone: "address_gone (sm_rooms sm) c"
    if "client_ptr (Some c) (sm_rooms sm) = Done cl" "addr_ptr cl (sm_rooms sm) = Fault Mem_fault" for c cl
    using that addr_ptr_fault by (auto simp: client_ptr_def split: option.splits)
  have body: "address_gone (sm_rooms sm) c" if "guest_ok (sm_rooms sm) R rid c"
    "punch_to_host s c sm = Fault Mem_fault \<or> punch_to_client m c sm = Fault Mem_fault" for rid c s m
    using that(2) there[OF that(1)] gone
    by (auto simp: punch_to_host_def punch_to_client_def bind_Fault Let_def) (auto simp: client_ptr_def split: option.splits)
  show ?thesis
  proof (cases "ec_pc e")
    case (To_host cs)
    with fault ok obtain c cs' where "cs = c # cs'" "guest_ok (sm_rooms sm) R (hd_roomID hn) c" "nx = Serve_on"
      "punch_to_host (ec_sock e) c sm = Fault Mem_fault"
      by (cases cs) (auto simp: end_step_def bind_Fault ending_ok_def guests_ok_def)
    with To_host body show ?thesis by blast
  next
    case (To_clients cs)
    with fault ok obtain c cs' where "cs = c # cs'" "guest_ok (sm_rooms sm) R (hd_roomID hn) c" "nx = Serve_on"
      "punch_to_client (ec_msg e) c sm = Fault Mem_fault"
      by (cases cs) (auto simp: end_step_def bind_Fault ending_ok_def guests_ok_def)
    with To_clients body show ?thesis by blast
  next
    case (Leaving_clients cs)
    with fault ok there show ?thesis
      by (cases cs) (fastforce simp: end_step_def bind_Fault ending_ok_def guests_ok_def leave_to_client_def client_ptr_def
          split: option.splits)+
  qed (use fault f pc in \<open>auto simp: end_step_def client_ptr_def bind_Fault\<close>)
qed

text \<open>The places where a handler can touch freed memory.\<close>

definition stray :: "BYTE list option \<Rightarrow> handler_pc \<Rightarrow> server \<Rightarrow> bool" where
  "stray arrived pc sm \<longleftrightarrow>
    (\<exists>sap. pc = H_identify sap \<and> (\<exists>off \<in> {roomName_off, roomPassword_off, clientName_off}.
        c_string (receive_identity arrived) off = None))
    \<or> (\<exists>hn passHash p. pc = H_check hn passHash (Some p) \<and> room_at (sm_rooms sm) p = None)
    \<or> (\<exists>hn e c cs. pc = H_ending hn e Serve_on \<and> ec_pc e = Leaving_clients (c # cs) \<and> client_at (sm_rooms sm) c = None)"

text \<open>The places where it can read or delete an address object that has been deleted.\<close>

definition stray_address :: "handler_pc \<Rightarrow> server \<Rightarrow> bool" where
  "stray_address pc sm \<longleftrightarrow>
    (\<exists>hn q. pc = H_reject hn \<and> snd (hd_sap hn) = Some q \<and> addr_at (sm_rooms sm) q = None)
    \<or> (\<exists>hn p. pc = H_end hn Serve_on \<and> roomMap (sm_rooms sm) (hd_roomID hn) = Some (Some p) \<and> address_gone (sm_rooms sm) p)
    \<or> (\<exists>hn e c cs. pc = H_ending hn e Serve_on \<and> (ec_pc e = To_host (c # cs) \<or> ec_pc e = To_clients (c # cs))
        \<and> address_gone (sm_rooms sm) c)"

lemma act_mem_fault:
  assumes inv: "handlers_inv sm R" and t: "R h = Some pc" and small: "countable_rooms sm"
    and fault: "handler_act hasher h arrived pc sm = Fault Mem_fault"
  shows "stray arrived pc sm \<or> stray_address pc sm"
proof (cases pc)
  case (H_identify sap)
  with fault show ?thesis
    by (auto simp: handler_act_def identified_def text_of_def stray_def bind_Fault Let_def split: option.splits)
next
  case (H_check hn pw ptr)
  with fault show ?thesis
    by (auto simp: handler_act_def room_ptr_def bind_Fault stray_def split: if_splits option.splits)
next
  case (H_create hn pw)
  with fault show ?thesis by (simp add: handler_act_def createNewRoom_def Let_def)
next
  case (H_add hn)
  obtain ptr rs1 where g: "getRoomPtr (hd_roomID hn) (sm_rooms sm) = (ptr, rs1)" by fastforce
  obtain cl where "client_at (sm_rooms sm) h = Some cl" using objects_okD[OF inv t] by (auto simp: H_add)
  moreover have "\<exists>r. room_at (sm_rooms sm) p = Some r" if "ptr = Some p" for p
    using getRoomPtr_keeps(4)[OF g that] handlers_invD(5)[OF inv] by (auto simp: room_ok_def)
  ultimately show ?thesis
    using fault g getRoomPtr_keeps(1,2)[OF g]
    by (auto simp: H_add handler_act_def addClientToRoom_def room_ptr_def client_ptr_def bind_Fault split: option.splits)
next
  case (H_reject hn)
  with fault killThread_alive[OF handlers_invD(3)[OF inv]] show ?thesis
    by (auto simp: handler_act_def reject_client_def snm_killThread_def delete_Addr_def bind_Fault stray_address_def Let_def
        split: option.splits if_splits)
next
  case (H_leave hn)
  with fault killThread_alive[OF handlers_invD(3)[OF inv]] show ?thesis
    by (auto simp: handler_act_def handler_leave_def snm_killThread_def bind_Fault)
next
  case (H_loop hn)
  obtain cl where "client_at (sm_rooms sm) h = Some cl" using objects_okD[OF inv t] by (auto simp: H_loop)
  with fault show ?thesis by (simp add: H_loop handler_act_def client_ptr_def split_def Let_def)
next
  case (H_end hn nx)
  with fault end_mem_fault[OF inv, of "hd_roomID hn" "nx = Serve_on"] show ?thesis
    by (auto simp: handler_act_def bind_Fault stray_address_def)
next
  case (H_ending hn e nx)
  show ?thesis
  proof (cases "ec_pc e = Room_ended")
    case True
    with fault show ?thesis by (simp add: H_ending handler_act_def)
  next
    case False
    with fault have "end_step e sm = Fault Mem_fault" by (auto simp: H_ending handler_act_def bind_Fault)
    with ending_mem_fault[OF inv t[unfolded H_ending] False] show ?thesis by (auto simp: H_ending stray_def stray_address_def)
  qed
next
  case (H_remove hn nx)
  with fault remove_faults[OF inv small, of "hd_roomID hn" h] show ?thesis by (auto simp: handler_act_def bind_Fault)
qed (use fault in \<open>simp_all add: handler_act_def split_def Let_def\<close>)

subsection \<open>Addresses\<close>

text \<open>What a step of a handler does to the addresses.\<close>

lemma end_step_saps:
  assumes "end_step e sm = Done (e1, sm1)"
  shows "tData sm1 = tData sm \<and> addr_at (sm_rooms sm1) = addr_at (sm_rooms sm)
    \<and> (\<forall>k cl'. client_at (sm_rooms sm1) k = Some cl' \<longrightarrow> (\<exists>cl. client_at (sm_rooms sm) k = Some cl \<and> rc_sap cl' = rc_sap cl))"
proof -
  have "same_saps sm (set_leaving c sm)" for c by (auto simp: set_leaving_eq same_saps_def client_at_mark_leaving)
  moreover have "same_saps sm (send_room_msg s m sm') = same_saps sm sm'" for s m sm' by (simp add: send_room_msg_def)
  moreover have "same_saps sm (sm\<lparr>sm_rooms := snd (deleteRoom (ec_rid e) (sm_rooms sm))\<rparr>)"
    by (simp add: same_saps_def deleteRoom_def)
  ultimately have "same_saps sm sm1" using assms
    by (auto simp: end_step_def punch_to_host_def punch_to_client_def leave_to_client_def Let_def split: end_pc.splits list.splits)
  then show ?thesis by (simp add: same_saps_def)
qed

lemma enter_saps: "end_enter rid streaming sm = Done (e, sm1) \<Longrightarrow> same_saps sm sm1"
  using getRoomPtr_keeps(1)[of rid "sm_rooms sm"]
  by (cases "getRoomPtr rid (sm_rooms sm)")
    (auto simp: end_enter_def send_room_msg_def same_saps_def getRoomPtr_def Let_def split: if_splits option.splits)

lemma room_calls_saps:
  "addClientToRoom rid c rs = Done (ok, rs1) \<Longrightarrow> client_at rs1 = client_at rs \<and> addr_at rs1 = addr_at rs"
  "removeClientFromRoom rid d rs = Done (ok, rs1) \<Longrightarrow> client_at rs1 = client_at rs \<and> addr_at rs1 = addr_at rs"
  "getRoomPtr rid rs = (ptr, rs1) \<Longrightarrow> client_at rs1 = client_at rs \<and> addr_at rs1 = addr_at rs"
  by (auto simp: addClientToRoom_def removeClientFromRoom_def getRoomPtr_def Let_def split: option.splits if_splits)

definition acts_saps :: "nat \<Rightarrow> handler_pc \<Rightarrow> handler_pc option \<Rightarrow> server \<Rightarrow> server \<Rightarrow> bool" where
  "acts_saps h pc res sm sm' \<longleftrightarrow> tData sm' = tData sm
    \<and> addr_at (sm_rooms sm') = (if \<exists>hn. pc = H_reject hn then (addr_at (sm_rooms sm))(the (held sm pc) := None)
        else addr_at (sm_rooms sm))
    \<and> ((\<exists>hn. pc = H_reject hn) \<longrightarrow> res = None)
    \<and> (\<forall>pc1. res = Some pc1 \<longrightarrow> held sm' pc1 = held sm pc)
    \<and> (\<forall>k cl'. k \<noteq> h \<longrightarrow> client_at (sm_rooms sm') k = Some cl' \<longrightarrow> (\<exists>cl. client_at (sm_rooms sm) k = Some cl \<and> rc_sap cl' = rc_sap cl))
    \<and> (\<forall>pc1 hn1 cl'. res = Some pc1 \<longrightarrow> locals_of pc1 = Some hn1 \<longrightarrow> client_at (sm_rooms sm') h = Some cl'
        \<longrightarrow> rc_sap cl' = hd_sap hn1 \<or> (\<exists>hn cl. locals_of pc = Some hn \<and> hd_sap hn1 = hd_sap hn
              \<and> client_at (sm_rooms sm) h = Some cl \<and> rc_sap cl' = rc_sap cl))"

lemma act_saps:
  assumes run: "handler_act hasher h arrived pc sm = Done (res, sm')"
    and held: "held sm pc \<noteq> None" and self: "\<forall>hn. locals_of pc = Some hn \<longrightarrow> hd_self hn = h"
  shows "acts_saps h pc res sm sm'"
proof (cases pc)
  case (H_reject hn)
  with run held show ?thesis
    by (auto simp: acts_saps_def handler_act_def reject_client_def snm_killThread_def delete_Addr_def frame_exit_def held_def
        on_net_def Let_def split: if_splits)
next
  case (H_ending hn e nx)
  show ?thesis
  proof (cases "ec_pc e = Room_ended")
    case True
    with run H_ending show ?thesis by (cases nx) (auto simp: acts_saps_def handler_act_def held_def)
  next
    case False
    with run H_ending obtain e1 where "end_step e sm = Done (e1, sm')" "res = Some (H_ending hn e1 nx)"
      by (auto simp: handler_act_def)
    with end_step_saps[OF this(1)] H_ending show ?thesis by (auto simp: acts_saps_def held_def)
  qed
next
  case (H_end hn nx)
  with run obtain e where "end_enter (hd_roomID hn) (nx = Serve_on) sm = Done (e, sm')" "res = Some (H_ending hn e nx)"
    by (auto simp: handler_act_def)
  with enter_saps[OF this(1)] H_end show ?thesis by (auto simp: acts_saps_def same_saps_def held_def)
next
  case (H_remove hn nx)
  with run room_calls_saps(2) show ?thesis by (cases nx) (auto simp: acts_saps_def handler_act_def held_def)
next
  case (H_add hn)
  with run room_calls_saps(1) show ?thesis by (auto simp: acts_saps_def handler_act_def held_def)
next
  case (H_lookup hn pw)
  obtain ptr rs1 where g: "getRoomPtr (hd_roomID hn) (sm_rooms sm) = (ptr, rs1)" by fastforce
  with run H_lookup room_calls_saps(3)[OF g] show ?thesis by (auto simp: acts_saps_def handler_act_def held_def)
next
  case (H_leave hn)
  with run self show ?thesis
    by (auto simp: acts_saps_def handler_act_def handler_leave_def snm_killThread_def frame_exit_def)
next
  case (H_identify sap)
  with run show ?thesis
    by (cases "fi_isHost (receive_identity arrived)")
      (auto simp: acts_saps_def handler_act_def identified_def frame_enter_def RoomClient3_def held_def Let_def)
next
  case (H_loop hn)
  obtain recvRes buf where recv: "EncryptedServerSocket_recvData (hd_buf hn) arrived = (recvRes, buf)"
    by (cases "EncryptedServerSocket_recvData (hd_buf hn) arrived")
  have "locals_of (dispatch_message (hn\<lparr>hd_buf := buf\<rparr>) recvRes self) = Some (hn\<lparr>hd_buf := buf\<rparr>)
      \<and> held sm (dispatch_message (hn\<lparr>hd_buf := buf\<rparr>) recvRes self) = snd (hd_sap hn)" for self
    by (simp add: dispatch_message_def held_def Let_def)
  with run H_loop recv show ?thesis by (auto simp: acts_saps_def handler_act_def held_def)
next
  case (H_create hn pw)
  with run show ?thesis
    by (cases "roomMap (sm_rooms sm) (hd_roomID hn) = None") (auto simp: acts_saps_def handler_act_def createNewRoom_def held_def Let_def)
next
  case (H_check hn pw ptr)
  with run show ?thesis by (auto simp: acts_saps_def handler_act_def held_def split: if_splits)
qed (use run in \<open>auto simp: acts_saps_def handler_act_def held_def on_net_def\<close>)

lemma held_same: "tData sm' = tData sm \<Longrightarrow> held sm' pc = held sm pc"
  by (simp add: held_def split: handler_pc.split)

lemma act_held:
  assumes inv: "handlers_inv sm R" and held: "held_inv sm R" and t: "R t = Some pc"
    and run: "handler_act hasher t arrived pc sm = Done (res, sm')"
  shows "held_inv sm' (R(t := res))"
proof -
  from held t have q: "held sm pc \<noteq> None" unfolding held_inv_def by force
  have "\<forall>hn. locals_of pc = Some hn \<longrightarrow> hd_self hn = t" using objects_okD[OF inv t] by blast
  note saps = act_saps[OF run q this, unfolded acts_saps_def]
  have old: "held sm' pc' = held sm pc'" for pc' by (rule held_same) (use saps in simp)
  have other: "R h = Some pc'" if "(R(t := res)) h = Some pc'" "h \<noteq> t" for h pc' using that by simp
  have ne: "held sm pc' \<noteq> held sm pc" if "R h = Some pc'" "h \<noteq> t" for h pc'
    using held t that unfolding held_inv_def by blast
  have alive: "\<exists>q. held sm pc' = Some q \<and> addr_at (sm_rooms sm) q \<noteq> None" if "R h = Some pc'" for h pc'
    using held that unfolding held_inv_def by blast
  have "\<exists>q. held sm' pc' = Some q \<and> addr_at (sm_rooms sm') q \<noteq> None" if "(R(t := res)) h = Some pc'" for h pc'
  proof (cases "h = t")
    case True
    with that saps alive[OF t] show ?thesis by auto
  next
    case False
    with that have h: "R h = Some pc'" by simp
    from alive[OF h] obtain r where r: "held sm pc' = Some r" "addr_at (sm_rooms sm) r \<noteq> None" by blast
    with ne[OF h False] q have "r \<noteq> the (held sm pc)" by auto
    with r saps old show ?thesis by simp
  qed
  moreover have "h = h'" if "(R(t := res)) h = Some pc1" "(R(t := res)) h' = Some pc2" "held sm' pc1 = held sm' pc2" for h h' pc1 pc2
  proof -
    have eq: "held sm' pc1 = held sm pc" if "res = Some pc1" for pc1 using saps that by blast
    consider "h = t" "h' = t" | "h = t" "h' \<noteq> t" | "h \<noteq> t" "h' = t" | "h \<noteq> t" "h' \<noteq> t" by blast
    then show ?thesis
    proof cases
      case 2
      with that eq old ne show ?thesis by (metis fun_upd_other fun_upd_same)
    next
      case 3
      with that eq old ne show ?thesis by (metis fun_upd_other fun_upd_same)
    next
      case 4
      with that old have "R h = Some pc1" "R h' = Some pc2" "held sm pc1 = held sm pc2" by auto
      with held show ?thesis unfolding held_inv_def by blast
    qed simp
  qed
  moreover have "rc_sap cl = hd_sap hn"
    if h: "(R(t := res)) h = Some pc'" and hn: "locals_of pc' = Some hn" "client_at (sm_rooms sm') h = Some cl" for h pc' hn cl
  proof (cases "h = t")
    case True
    with h have "res = Some pc'" by simp
    with True hn saps have "rc_sap cl = hd_sap hn \<or> (\<exists>hn0 cl0. locals_of pc = Some hn0 \<and> hd_sap hn = hd_sap hn0
        \<and> client_at (sm_rooms sm) t = Some cl0 \<and> rc_sap cl = rc_sap cl0)" by blast
    with held t show ?thesis unfolding held_inv_def by metis
  next
    case False
    with hn(2) saps obtain cl0 where "client_at (sm_rooms sm) h = Some cl0" "rc_sap cl = rc_sap cl0" by blast
    with False h hn(1) held show ?thesis unfolding held_inv_def by (metis fun_upd_other)
  qed
  ultimately show ?thesis unfolding held_inv_def by blast
qed

text \<open>An accept with no thread about to read its parameter.\<close>

lemma accept_held:
  assumes held: "held_inv sm R" and none: "\<forall>c. R c \<noteq> Some H_begin" and q: "addr_at (sm_rooms sm) q = None"
    and inv: "handlers_inv sm R" and h: "R h = None" and acc: "accept_round s a q stop p thread sm = Done sm'"
  shows "held_inv sm' (if 1 < s \<and> (\<exists>i. thread = Some i) then R(h \<mapsto> H_begin) else R)"
proof -
  note keeps = accept_keeps[OF acc]
  have old: "held sm' pc = held sm pc" if "R k = Some pc" for k pc
    using none that by (auto simp: held_def split: handler_pc.split)
  have alive: "\<exists>r. held sm pc = Some r \<and> addr_at (sm_rooms sm) r \<noteq> None" if "R k = Some pc" for k pc
    using held that unfolding held_inv_def by blast
  have fresh: "held sm pc \<noteq> Some q" if "R k = Some pc" for k pc using alive[OF that] q by auto
  have base: "held_inv sm' R"
    unfolding held_inv_def
  proof (intro conjI allI impI)
    fix k pc assume k: "R k = Some pc"
    from alive[OF k] show "\<exists>r. held sm' pc = Some r \<and> addr_at (sm_rooms sm') r \<noteq> None" by (auto simp: old[OF k] keeps(1))
  next
    fix k k' pc pc' assume "R k = Some pc" "R k' = Some pc'" "held sm' pc = held sm' pc'"
    with old held show "k = k'" unfolding held_inv_def by metis
  next
    fix k pc hn cl assume "R k = Some pc" "locals_of pc = Some hn" "client_at (sm_rooms sm') k = Some cl"
    with held keeps(1) show "rc_sap cl = hd_sap hn" unfolding held_inv_def by simp
  qed
  show ?thesis
  proof (cases "1 < s \<and> (\<exists>i. thread = Some i)")
    case True
    then have new: "held sm' H_begin = Some q" by (simp add: held_def keeps(2))
    have ne: "held sm' pc \<noteq> Some q" if "R k = Some pc" for k pc using old[OF that] fresh[OF that] by simp
    have "addr_at (sm_rooms sm') q \<noteq> None" by (simp add: keeps(1))
    with base new ne h have "held_inv sm' (R(h \<mapsto> H_begin))" unfolding held_inv_def by (auto split: if_splits) metis+
    with True show ?thesis by simp
  qed (simp only: base if_False)
qed

lemma reach_held: "handlers_reach hasher True s \<Longrightarrow> held_inv (fst s) (snd s)"
proof (induction rule: handlers_reach.induct)
  case at_start
  then show ?case by (simp add: held_inv_def)
next
  case (and_step s s')
  note inv = reach_inv[OF and_step.hyps(1)]
  from and_step.hyps(2) show ?case
  proof (cases rule: handlers_step.cases)
    case (accepts R sm q h s0 a stop p thread sm')
    with accept_held and_step.IH inv show ?thesis by simp
  next
    case (acts R h pc sm arrived res sm')
    with act_held[of sm R h pc hasher arrived res sm'] and_step.IH inv show ?thesis by (simp del: fun_upd_apply)
  qed
qed

text \<open>So no handler deletes or reads a deleted address.\<close>

lemma held_not_gone:
  assumes "handlers_inv sm R" and "held_inv sm R"
  shows "\<not> address_gone (sm_rooms sm) c"
proof
  assume gone: "address_gone (sm_rooms sm) c"
  then obtain cl q where c: "client_at (sm_rooms sm) c = Some cl" "snd (rc_sap cl) = Some q" "addr_at (sm_rooms sm) q = None"
    by (auto simp: address_gone_def)
  from handlers_invD(1)[OF assms(1), of c] c(1) obtain pc hn where pc: "R c = Some pc" "locals_of pc = Some hn"
    by (cases "R c") (auto simp: objects_ok_def split: option.splits)
  with assms(2) c(1) have "rc_sap cl = hd_sap hn" unfolding held_inv_def by blast
  with pc(2) c(2) have "held sm pc = Some q" by (cases pc) (auto simp: held_def)
  with assms(2) pc(1) c(3) show False unfolding held_inv_def by fastforce
qed

lemma held_no_stray_address:
  assumes "handlers_inv sm R" and "held_inv sm R" and "R h = Some pc"
  shows "\<not> stray_address pc sm"
proof -
  have "addr_at (sm_rooms sm) q \<noteq> None" if "pc = H_reject hn" "snd (hd_sap hn) = Some q" for hn q
    using assms(2,3) that unfolding held_inv_def by (fastforce simp: held_def)
  with held_not_gone[OF assms(1,2)] show ?thesis unfolding stray_address_def by blast
qed

subsection \<open>A run\<close>

lemma solo_reach:
  assumes "handlers_reach hasher prompt (sm, [h \<mapsto> pc])" and "countable_rooms sm"
    and "handler_act hasher h arrived pc sm = Done (Some pc1, sm1)"
  shows "handlers_reach hasher prompt (sm1, [h \<mapsto> pc1])"
proof (rule handlers_reach.and_step[OF assms(1)])
  show "handlers_step hasher prompt (sm, [h \<mapsto> pc]) (sm1, [h \<mapsto> pc1])"
    using handlers_step.acts[of "[h \<mapsto> pc]" h pc sm hasher arrived "Some pc1" sm1 prompt] assms(2,3) by simp
qed (auto simp: one_host_def hosts_def split: if_splits)

definition bobs_room :: "server" where
  "bobs_room = (send_greeting 7 one_accept)\<lparr>sm_rooms := \<lparr>roomMap = [length_hash (cl_roomName bob) \<mapsto> Some 1],
     room_at = [1 \<mapsto> Room\<lparr>prHost := Some 1, roomID := length_hash (cl_roomName bob), roomPassword := length_hash (cl_roomPassword bob)\<rparr>],
     client_at = [1 \<mapsto> RoomClient3 (7, Some 20) (Some (cl_name bob)) True], addr_at = [20 \<mapsto> zero_sockaddr]\<rparr>\<rparr>"

lemma bob_accepted: "handlers_reach hasher prompt (one_accept, [1 \<mapsto> H_begin])"
proof -
  have "handlers_step hasher prompt (ServerManager, Map.empty)
      (one_accept, if 1 < (7 :: SOCKET) \<and> (\<exists>i. Some (50 :: nat) = Some i) then [1 \<mapsto> H_begin] else Map.empty)"
    by (rule handlers_step.accepts[OF _ _ _ one_accept]) (simp_all add: ServerManager_def RoomManager_def)
  then have "handlers_step hasher prompt (ServerManager, Map.empty) (one_accept, [1 \<mapsto> H_begin])" by (simp add: word_less_nat_alt)
  then show ?thesis
    by (rule handlers_reach.and_step[OF handlers_reach.at_start]) (auto simp: one_host_def hosts_def split: if_splits)
qed

lemma bob_opens_room:
  "handlers_reach length_hash prompt (bobs_room, [1 \<mapsto> H_loop (in_loop 1 (7, Some 20) (length_hash (cl_roomName bob)))])"
proof -
  let ?b = "bob\<lparr>cl_isHost := True\<rparr>" and ?sap = "(7, Some 20) :: socket_addr_pair"
  have rooms: "room_at (sm_rooms one_accept) = Map.empty" by (simp add: RoomManager_def)
  have small: "countable_rooms one_accept" by (simp add: countable_rooms_def RoomManager_def)
  have "handlers_reach length_hash prompt (send_greeting 7 one_accept, [1 \<mapsto> H_identify ?sap])"
    by (rule solo_reach[OF bob_accepted small]) (simp add: handler_act_def)
  moreover have "countable_rooms (send_greeting 7 one_accept)" using small by (simp add: countable_rooms_def)
  ultimately have "handlers_reach length_hash prompt
      (frame_enter 1 (RoomClient3 ?sap (Some (cl_name bob)) True) (send_greeting 7 one_accept),
       [1 \<mapsto> H_create (in_loop 1 ?sap (length_hash (cl_roomName bob))) (length_hash (cl_roomPassword bob))])"
    by (rule solo_reach[where arrived = "Some (encode_fsi (filled_fsi ?b))"])
      (simp add: handler_act_def receive_identity_filled[OF short_bob(3)] identified_filled[OF short_bob(3)])
  moreover have "countable_rooms (frame_enter 1 (RoomClient3 ?sap (Some (cl_name bob)) True) (send_greeting 7 one_accept))"
    by (simp add: countable_rooms_def frame_enter_def RoomManager_def Room_def)
  ultimately show ?thesis
    by (rule solo_reach) (simp add: handler_act_def createNewRoom_def frame_enter_def RoomManager_def bobs_room_def Let_def)
qed

section \<open>Property\<close>

text \<open>
  C15: What can be gone. In every state the handlers reach by any interleaving of their steps, as long
  as no two running hosts use one room number and no room has \<open>2 ^ 32 - 1\<close> guests: each room in the map
  and its host are there, and while the host is in its loop so are all guests of the room, none marked
  as leaving. A step touches memory that is not there in these places only: reading a name without a
  terminating zero, checking the password of a room whose host left after the lookup, telling a guest
  to leave who was gone when \<open>endRoom\<close>'s last loop, after a start, came to it; and, if a
  connection has been accepted before the thread of the one before had read its parameter (so that two
  threads can go by one address object), deleting that object a second time, and reading the deleted
  address of the host or of a guest for a start message. If each new thread reads its parameter before
  the next connection is accepted, no client's address object is ever gone and these two do not happen.
\<close>

theorem handlers_touch_live_objects:
  assumes "handlers_reach hasher prompt (sm, R)" and "countable_rooms sm"
  shows "(\<forall>rid p. roomMap (sm_rooms sm) rid = Some (Some p) \<longrightarrow> (\<exists>r cl. room_at (sm_rooms sm) p = Some r \<and> prHost r = Some p
        \<and> client_at (sm_rooms sm) p = Some cl \<and> rc_isHost cl
        \<and> (\<forall>hn. R p = Some (H_loop hn) \<longrightarrow> (\<forall>c \<in> set (roomVector r). \<exists>cc. client_at (sm_rooms sm) c = Some cc
              \<and> \<not> rc_isHost cc \<and> \<not> rc_isLeaving cc))))
    \<and> (\<forall>h pc arrived. R h = Some pc \<longrightarrow> handler_act hasher h arrived pc sm = Fault Mem_fault \<longrightarrow>
          stray arrived pc sm \<or> stray_address pc sm \<and> \<not> prompt)
    \<and> (prompt \<longrightarrow> (\<forall>c. \<not> address_gone (sm_rooms sm) c))"
proof -
  have inv: "handlers_inv sm R" using reach_inv[OF assms(1)] by simp
  have held: "held_inv sm R" if prompt using reach_held[of hasher "(sm, R)"] assms(1) that by simp
  have room: "\<exists>r cl. room_at (sm_rooms sm) p = Some r \<and> prHost r = Some p
      \<and> client_at (sm_rooms sm) p = Some cl \<and> rc_isHost cl
      \<and> (\<forall>hn. R p = Some (H_loop hn) \<longrightarrow> (\<forall>c \<in> set (roomVector r). \<exists>cc. client_at (sm_rooms sm) c = Some cc
            \<and> \<not> rc_isHost cc \<and> \<not> rc_isLeaving cc))"
    if m: "roomMap (sm_rooms sm) rid = Some (Some p)" for rid p
  proof -
    from handlers_invD(5)[OF inv m] obtain r cl where r: "room_at (sm_rooms sm) p = Some r" "prHost r = Some p"
      "client_at (sm_rooms sm) p = Some cl" "rc_isHost cl" "stage_ok (sm_rooms sm) R rid p r" unfolding room_ok_def by blast
    have "\<exists>cc. client_at (sm_rooms sm) c = Some cc \<and> \<not> rc_isHost cc \<and> \<not> rc_isLeaving cc"
      if "R p = Some (H_loop hn)" "c \<in> set (roomVector r)" for hn c
      using r(5) that by (auto simp: stage_ok_def guests_ok_def guest_ok_def)
    with r(1-4) show ?thesis by blast
  qed
  have fault: "stray arrived pc sm \<or> stray_address pc sm \<and> \<not> prompt"
    if "R h = Some pc" "handler_act hasher h arrived pc sm = Fault Mem_fault" for h pc arrived
    using act_mem_fault[OF inv that(1) assms(2) that(2)] held_no_stray_address[OF inv held that(1)] by blast
  show ?thesis using room fault held_not_gone[OF inv held] by blast
qed

theorem handlers_touch_live_objects_witness:
  "roomMap (sm_rooms bobs_room) (length_hash (cl_roomName bob)) = Some (Some 1)
    \<and> client_at (sm_rooms bobs_room) 1 \<noteq> None
    \<and> (\<forall>arrived. handler_act length_hash 1 arrived (H_loop (in_loop 1 (7, Some 20) (length_hash (cl_roomName bob))))
        bobs_room \<noteq> Fault Mem_fault)"
proof -
  have "countable_rooms bobs_room" by (simp add: countable_rooms_def bobs_room_def Room_def)
  note live = handlers_touch_live_objects[OF bob_opens_room[of True] this]
  show ?thesis
  proof (intro conjI allI notI)
    show room: "roomMap (sm_rooms bobs_room) (length_hash (cl_roomName bob)) = Some (Some 1)" by (simp add: bobs_room_def)
    assume "client_at (sm_rooms bobs_room) 1 = None"
    with conjunct1[OF live, rule_format, OF room] show False by (elim exE conjE) simp
  next
    fix arrived assume "handler_act length_hash 1 arrived (H_loop (in_loop 1 (7, Some 20) (length_hash (cl_roomName bob))))
        bobs_room = Fault Mem_fault"
    from conjunct1[OF conjunct2[OF live], rule_format, OF _ this] show False by (simp add: stray_def)
  qed
qed

end
