(* ===== verification/LateGuests.thy ===== *)
theory LateGuests
  imports ServerInterleaving
begin

text \<open>
  Guests who come while their room is being ended: the places of \<open>ServerInterleaving\<close> where an object
  can be gone are reached, and a guest can be left behind.
\<close>

section \<open>Lemmas\<close>



lemma of_room_at [simp]:
  "is_member (rs\<lparr>room_at := f\<rparr>) c = is_member rs c" "sock_of (rs\<lparr>room_at := f\<rparr>) = sock_of rs"
  "addr_of (rs\<lparr>room_at := f\<rparr>) = addr_of rs" "leaves (rs\<lparr>room_at := f\<rparr>) h v = leaves rs h v"
  "two_punches (rs\<lparr>room_at := f\<rparr>) m = two_punches rs m"
  by (simp_all add: is_member_def sock_of_def addr_of_def leaves_def two_punches_def fun_eq_iff)

section \<open>Property\<close>




end
