(* ===== verification/SharedAddress.thy ===== *)
theory SharedAddress
  imports ServerInterleaving
begin

text \<open>
  Two handlers with one address object. \<open>acceptFunc\<close> hands its threads the address of its own local
  variable; when a second connection comes before the thread of the first has read it, both threads read
  the pair of the second. The places of \<open>ServerInterleaving\<close> where an address object can be gone are then
  reached: one of the two sends the client away and deletes the object, which the other still goes by.
\<close>

section \<open>Lemmas\<close>

text \<open>The start message of a host, read by a handler that still waits for a client to say who it is.\<close>

lemma start_as_identity:
  "receive_identity (Some (room_cmd START_PUNCH_MSG)) = zero_fsi\<lparr>fi_roomName := START_PUNCH_MSG # replicate 15 0\<rparr>"
  by (simp add: receive_identity_def EncryptedServerSocket_recvData_def ServerSocket_recvData_def winsock_recv_def
      room_cmd_def encode_room_msg_def zero_room_msg_def encode_fsi_def decode_fsi_def zero_fsi_def START_PUNCH_MSG_def
      numeral_eq_Suc Let_def)

lemma start_not_zero: "START_PUNCH_MSG \<noteq> 0"
  by (simp add: START_PUNCH_MSG_def)

lemma start_names:
  "text_of (receive_identity (Some (room_cmd START_PUNCH_MSG))) roomName_off = Done [START_PUNCH_MSG]"
  "text_of (receive_identity (Some (room_cmd START_PUNCH_MSG))) roomPassword_off = Done []"
  "text_of (receive_identity (Some (room_cmd START_PUNCH_MSG))) clientName_off = Done []"
  "\<not> fi_isHost (receive_identity (Some (room_cmd START_PUNCH_MSG)))"
  unfolding start_as_identity
  by (simp_all add: text_of_def c_string_def encode_fsi_def zero_fsi_def start_not_zero
      roomName_off_def roomPassword_off_def clientName_off_def numeral_eq_Suc Let_def)

lemma start_identified:
  "identified hasher h sap (receive_identity (Some (room_cmd START_PUNCH_MSG))) sm
    = Done (H_lookup (in_loop h sap (hasher [START_PUNCH_MSG])) (hasher []), frame_enter h (RoomClient3 sap (Some []) False) sm)"
  by (simp add: identified_def start_names in_loop_def Let_def)

text \<open>The server after two connections, and what the two threads have read.\<close>

definition two_connections :: "SOCKET \<Rightarrow> sockaddr_in \<Rightarrow> nat \<Rightarrow> SOCKET \<Rightarrow> sockaddr_in \<Rightarrow> nat \<Rightarrow> server outcome" where
  "two_connections s1 a1 q1 s2 a2 q2 = bind_outcome (accept_round s1 a1 q1 (Some 5) 70 (Some 50) ServerManager)
     (accept_round s2 a2 q2 (Some 6) 80 (Some 60))"

lemma two_connections_done:
  assumes "1 < s1" and "1 < s2" and "q1 \<noteq> q2"
  obtains sm tm where "two_connections s1 a1 q1 s2 a2 q2 = Done sm"
    "handlers_reach hasher False (sm, [1 \<mapsto> H_begin, 2 \<mapsto> H_begin])"
    "sm_rooms sm = RoomManager\<lparr>addr_at := [q1 \<mapsto> a1, q2 \<mapsto> a2]\<rparr>" "tData sm = (s2, Some q2)" "net_sent (sm_net sm) = []"
    "killThread (ucast s2) (snm_threads sm) = Done (True, tm)"
proof -
  have ne: "s1 \<noteq> 0" "s2 \<noteq> 0" "\<not> s1 \<le> 1" "\<not> s2 \<le> 1" using assms(1,2) by auto
  obtain sm1 where sm1: "accept_round s1 a1 q1 (Some 5) 70 (Some 50) ServerManager = Done sm1"
    using ne by (simp add: accept_defs)
  note k1 = accept_keeps(1,2)[OF sm1]
  have t1: "map_of (threadMap (snm_threads sm1)) (ucast s1) = Some (Some 70)" "heap (snm_threads sm1) 70 \<noteq> None"
    "map_of (threadMap (snm_threads sm1)) k \<in> {None, Some (Some 70)}" "net_sent (sm_net sm1) = []" for k
    using sm1 ne by (auto simp: accept_defs empty_net_def split: if_splits)
  obtain sm where sm: "accept_round s2 a2 q2 (Some 6) 80 (Some 60) sm1 = Done sm"
    "net_sent (sm_net sm) = []" "\<exists>tm. killThread (ucast s2) (snm_threads sm) = Done (True, tm)"
    using ne t1(2,4) t1(3)[of "ucast s2"] by (auto simp: accept_defs killThread_def map_add_def split: option.splits)
  note k2 = accept_keeps(1,2)[OF sm(1)]
  have one: "one_host (sm0, R)" if "R = [1 \<mapsto> H_begin] \<or> R = [1 \<mapsto> H_begin, 2 \<mapsto> H_begin]" for sm0 R
    using that by (auto simp: one_host_def hosts_def split: if_splits)
  have "handlers_step hasher False (ServerManager, Map.empty) (sm1, [1 \<mapsto> H_begin])"
    using handlers_step.accepts[OF _ _ _ sm1, of False Map.empty 1 hasher] assms(1) by (simp add: ServerManager_def RoomManager_def)
  with one have "handlers_reach hasher False (sm1, [1 \<mapsto> H_begin])" by (blast intro: handlers_reach.intros)
  moreover have "handlers_step hasher False (sm1, [1 \<mapsto> H_begin]) (sm, [1 \<mapsto> H_begin, 2 \<mapsto> H_begin])"
    using handlers_step.accepts[OF _ _ _ sm(1), of False "[1 \<mapsto> H_begin]" 2 hasher] assms(2,3)
    by (simp add: k1(1) ServerManager_def RoomManager_def)
  ultimately have "handlers_reach hasher False (sm, [1 \<mapsto> H_begin, 2 \<mapsto> H_begin])"
    using one by (blast intro: handlers_reach.intros)
  moreover have "sm_rooms sm = RoomManager\<lparr>addr_at := [q1 \<mapsto> a1, q2 \<mapsto> a2]\<rparr>" "tData sm = (s2, Some q2)"
    using assms(2) by (simp_all add: k1 k2 ServerManager_def RoomManager_def)
  moreover have "two_connections s1 a1 q1 s2 a2 q2 = Done sm" using sm1 sm(1) by (simp add: two_connections_def)
  ultimately show thesis using that sm(2,3) by blast
qed

text \<open>A step of one handler while there is at most one host.\<close>

lemma pair_reach:
  assumes "handlers_reach hasher prompt (sm, R)" and "countable_rooms sm" and "R h = Some pc"
    and "handler_act hasher h arrived pc sm = Done (res, sm')" and "R' = R(h := res)" and "one_host (sm', R')"
  shows "handlers_reach hasher prompt (sm', R')"
  using handlers_step.acts[where R = R and h = h and pc = pc and res = res, OF assms(3,2,4)] assms(1,5,6)
  by (blast intro: handlers_reach.and_step)

lemma pair_one_host:
  assumes "\<forall>h. h \<noteq> 1 \<and> h \<noteq> 2 \<longrightarrow> R h = None"
    and "\<forall>pc cl. R 2 = Some pc \<longrightarrow> locals_of pc \<noteq> None \<longrightarrow> client_at (sm_rooms sm) 2 = Some cl \<longrightarrow> \<not> rc_isHost cl"
  shows "one_host (sm, R)"
proof -
  have "h = 1" if "hosts (sm_rooms sm) R rid h" for rid h
  proof (rule ccontr)
    assume "h \<noteq> 1"
    with that assms(1) have "h = 2" by (fastforce simp: hosts_def)
    with that assms(2) show False by (fastforce simp: hosts_def)
  qed
  then show ?thesis by (auto simp: one_host_def)
qed

lemma first_acts:
  assumes "handlers_reach hasher prompt (sm, [1 \<mapsto> p, 2 \<mapsto> q])" and "countable_rooms sm"
    and "handler_act hasher 1 arrived p sm = Done (Some p', sm')"
    and "\<forall>cl. locals_of q \<noteq> None \<longrightarrow> client_at (sm_rooms sm') 2 = Some cl \<longrightarrow> \<not> rc_isHost cl"
  shows "handlers_reach hasher prompt (sm', [1 \<mapsto> p', 2 \<mapsto> q])"
  using assms(1,2) _ assms(3)
proof (rule pair_reach)
  show "[1 \<mapsto> p, 2 \<mapsto> q] (1 :: nat) = Some p" "[1 :: nat \<mapsto> p', 2 \<mapsto> q] = [1 \<mapsto> p, 2 \<mapsto> q](1 := Some p')"
    by (simp_all add: fun_eq_iff)
  show "one_host (sm', [1 \<mapsto> p', 2 \<mapsto> q])" using assms(4) by (intro pair_one_host) auto
qed

lemma second_acts:
  assumes "handlers_reach hasher prompt (sm, [1 \<mapsto> p, 2 \<mapsto> q])" and "countable_rooms sm"
    and "handler_act hasher 2 arrived q sm = Done (Some q', sm')"
    and "\<forall>cl. locals_of q' \<noteq> None \<longrightarrow> client_at (sm_rooms sm') 2 = Some cl \<longrightarrow> \<not> rc_isHost cl"
  shows "handlers_reach hasher prompt (sm', [1 \<mapsto> p, 2 \<mapsto> q'])"
  using assms(1,2) _ assms(3)
proof (rule pair_reach)
  show "[1 \<mapsto> p, 2 \<mapsto> q] (2 :: nat) = Some q" "[1 :: nat \<mapsto> p, 2 \<mapsto> q'] = [1 \<mapsto> p, 2 \<mapsto> q](2 := Some q')"
    by (simp_all add: fun_eq_iff)
  show "one_host (sm', [1 \<mapsto> p, 2 \<mapsto> q'])" using assms(4) by (intro pair_one_host) auto
qed

lemma second_returns:
  assumes "handlers_reach hasher prompt (sm, [1 \<mapsto> p, 2 \<mapsto> q])" and "countable_rooms sm"
    and "handler_act hasher 2 arrived q sm = Done (None, sm')"
  shows "handlers_reach hasher prompt (sm', [1 \<mapsto> p])"
  using assms(1,2) _ assms(3)
proof (rule pair_reach)
  show "[1 \<mapsto> p, 2 \<mapsto> q] (2 :: nat) = Some q" "[1 :: nat \<mapsto> p] = [1 \<mapsto> p, 2 \<mapsto> q](2 := None)"
    by (simp_all add: fun_eq_iff)
  show "one_host (sm', [1 \<mapsto> p])" by (rule pair_one_host) auto
qed

text \<open>The first thread opens the room of a host and takes its start message; the second waits for an identity.\<close>

definition opened_room :: "(BYTE list \<Rightarrow> SIZE_T) \<Rightarrow> client \<Rightarrow> socket_addr_pair \<Rightarrow> server \<Rightarrow> server" where
  "opened_room hasher c sap sm = (let rs = sm_rooms sm in sm\<lparr>sm_rooms := rs\<lparr>roomMap := [hasher (cl_roomName c) \<mapsto> Some 1],
     room_at := [1 \<mapsto> Room\<lparr>prHost := Some 1, roomID := hasher (cl_roomName c), roomPassword := hasher (cl_roomPassword c)\<rparr>],
     client_at := [1 \<mapsto> RoomClient3 sap (Some (cl_name c)) True]\<rparr>\<rparr>)"

definition starting_handler :: "(BYTE list \<Rightarrow> SIZE_T) \<Rightarrow> client \<Rightarrow> socket_addr_pair \<Rightarrow> handler" where
  "starting_handler hasher c sap = (in_loop 1 sap (hasher (cl_roomName c)))\<lparr>hd_buf := room_cmd START_PUNCH_MSG\<rparr>"

lemma room_opened:
  assumes reach: "handlers_reach hasher prompt (sm, [1 \<mapsto> H_identify sap, 2 \<mapsto> H_identify sap])"
    and rooms: "sm_rooms sm = RoomManager\<lparr>addr_at := f\<rparr>" and c: "short_names c" "cl_isHost c"
  shows "handlers_reach hasher prompt (opened_room hasher c sap sm,
    [1 \<mapsto> H_end (starting_handler hasher c sap) Serve_on, 2 \<mapsto> H_identify sap])"
proof -
  let ?hn = "in_loop 1 sap (hasher (cl_roomName c))" and ?cl = "RoomClient3 sap (Some (cl_name c)) True"
  let ?pw = "hasher (cl_roomPassword c)" and ?sm = "opened_room hasher c sap sm"
  have small: "countable_rooms sm" "countable_rooms (frame_enter 1 ?cl sm)" "countable_rooms ?sm"
    by (simp_all add: countable_rooms_def rooms opened_room_def frame_enter_def RoomManager_def Room_def)
  have "handler_act hasher 1 (Some (encode_fsi (filled_fsi c))) (H_identify sap) sm = Done (Some (H_create ?hn ?pw), frame_enter 1 ?cl sm)"
    by (simp add: handler_act_def receive_identity_filled[OF c(1)] identified_filled[OF c(1)] c(2))
  from first_acts[OF reach small(1) this]
  have "handlers_reach hasher prompt (frame_enter 1 ?cl sm, [1 \<mapsto> H_create ?hn ?pw, 2 \<mapsto> H_identify sap])" by simp
  moreover have "handler_act hasher 1 None (H_create ?hn ?pw) (frame_enter 1 ?cl sm) = Done (Some (H_loop ?hn), ?sm)"
    by (simp add: handler_act_def createNewRoom_def opened_room_def frame_enter_def rooms RoomManager_def Let_def)
  ultimately have "handlers_reach hasher prompt (?sm, [1 \<mapsto> H_loop ?hn, 2 \<mapsto> H_identify sap])"
    by (rule first_acts[OF _ small(2)]) simp
  moreover have "client_at (sm_rooms ?sm) 1 = Some ?cl" by (simp add: opened_room_def Let_def)
  then have "handler_act hasher 1 (Some (room_cmd START_PUNCH_MSG)) (H_loop ?hn) ?sm
      = Done (Some (H_end (starting_handler hasher c sap) Serve_on), ?sm)"
    by (simp add: handler_act_def client_ptr_def dispatch_message_def starting_handler_def RoomClient3_def START_PUNCH_MSG_def
        LEAVE_MSG_def EncryptedServerSocket_recvData_def ServerSocket_recvData_def winsock_recv_full)
  ultimately show ?thesis by (rule first_acts[OF _ small(3)]) simp
qed

text \<open>The second thread takes another start message for the identity of a guest, and sends the client away.\<close>

definition guest_refused :: "(BYTE list \<Rightarrow> SIZE_T) \<Rightarrow> (nat, nat) thread_manager \<Rightarrow> SOCKET \<times> nat \<Rightarrow> server \<Rightarrow> server" where
  "guest_refused hasher tm sap sm = frame_exit 2 ((on_net (closesocket (fst sap)) sm)\<lparr>snm_threads := tm,
     sm_rooms := (sm_rooms sm)\<lparr>roomMap := (roomMap (sm_rooms sm))(hasher [START_PUNCH_MSG] \<mapsto> None),
       addr_at := (addr_at (sm_rooms sm))(snd sap := None)\<rparr>\<rparr>)"

lemma second_refused:
  assumes reach: "handlers_reach hasher prompt (sm, [1 \<mapsto> p, 2 \<mapsto> H_identify (s, Some q)])" and small: "countable_rooms sm"
    and map: "roomMap (sm_rooms sm) (hasher [START_PUNCH_MSG]) = None" and held: "addr_at (sm_rooms sm) q \<noteq> None"
    and kill: "killThread (ucast s) (snm_threads sm) = Done (True, tm)"
  shows "handlers_reach hasher prompt (guest_refused hasher tm (s, q) sm, [1 \<mapsto> p])"
proof -
  let ?h = "in_loop 2 (s, Some q) (hasher [START_PUNCH_MSG])" and ?pw = "hasher []"
  define sm1 where "sm1 = frame_enter 2 (RoomClient3 (s, Some q) (Some []) False) sm"
  define sm2 where "sm2 = sm1\<lparr>sm_rooms := (sm_rooms sm1)\<lparr>roomMap := (roomMap (sm_rooms sm1))(hasher [START_PUNCH_MSG] \<mapsto> None)\<rparr>\<rparr>"
  have guest: "client_at (sm_rooms sm1) 2 = Some k \<Longrightarrow> \<not> rc_isHost k" "client_at (sm_rooms sm2) 2 = Some k \<Longrightarrow> \<not> rc_isHost k" for k
    by (auto simp: sm1_def sm2_def frame_enter_def RoomClient3_def)
  have small': "countable_rooms sm1" "countable_rooms sm2"
    using small by (auto simp: countable_rooms_def sm1_def sm2_def frame_enter_def Room_def)
  have "handler_act hasher 2 (Some (room_cmd START_PUNCH_MSG)) (H_identify (s, Some q)) sm = Done (Some (H_lookup ?h ?pw), sm1)"
    by (simp add: handler_act_def start_identified sm1_def)
  from second_acts[OF reach small this] guest
  have "handlers_reach hasher prompt (sm1, [1 \<mapsto> p, 2 \<mapsto> H_lookup ?h ?pw])" by simp
  moreover have "handler_act hasher 2 None (H_lookup ?h ?pw) sm1 = Done (Some (H_check ?h ?pw None), sm2)"
    using map by (simp add: handler_act_def getRoomPtr_def sm2_def sm1_def frame_enter_def)
  ultimately have "handlers_reach hasher prompt (sm2, [1 \<mapsto> p, 2 \<mapsto> H_check ?h ?pw None])"
    by (rule second_acts[OF _ small'(1)]) (use guest in simp)
  moreover have "handler_act hasher 2 None (H_check ?h ?pw None) sm2 = Done (Some (H_reject ?h), sm2)"
    by (simp add: handler_act_def)
  ultimately have "handlers_reach hasher prompt (sm2, [1 \<mapsto> p, 2 \<mapsto> H_reject ?h])"
    by (rule second_acts[OF _ small'(2)]) (use guest in simp)
  moreover have "handler_act hasher 2 None (H_reject ?h) sm2 = Done (None, guest_refused hasher tm (s, q) sm)"
    using reject_client_done[of "(s, Some q)" sm2 tm q 2] kill held
    by (simp add: handler_act_def guest_refused_def sm2_def sm1_def frame_enter_def frame_exit_def on_net_def)
  ultimately show ?thesis by (rule second_returns[OF _ small'(2)])
qed

section \<open>Property\<close>

text \<open>
  C30: A deleted address is read. Two connections, with different sockets numbered above 1, are accepted
  before either thread has read its parameter. Then both threads serve the second connection and go by
  its address object, and nothing is sent to the first. The second client, a host with names of at most 15 characters, says who it is and sends its
  start message twice: one thread opens the room and takes the first start; the other, which still waits
  for an identity, takes the second one for a guest's, finds no such room (unless the two names have one
  hash), deletes the address object and returns; and the first then reads the deleted address in \<open>endRoom\<close>.
\<close>

theorem shared_address_read_after_delete:
  assumes "1 < s1" and "1 < s2" and "s1 \<noteq> s2" and "q1 \<noteq> q2"
    and c: "short_names c" "cl_isHost c" and names: "hasher (cl_roomName c) \<noteq> hasher [START_PUNCH_MSG]"
  shows "\<exists>sm0 sm hn. two_connections s1 a1 q1 s2 a2 q2 = Done sm0
    \<and> handler_act hasher 1 None H_begin sm0 = Done (Some (H_identify (s2, Some q2)), send_greeting s2 sm0)
    \<and> handler_act hasher 2 None H_begin (send_greeting s2 sm0)
        = Done (Some (H_identify (s2, Some q2)), send_greeting s2 (send_greeting s2 sm0))
    \<and> handlers_reach hasher False (sm, [1 \<mapsto> H_end hn Serve_on]) \<and> hd_sap hn = (s2, Some q2)
    \<and> roomMap (sm_rooms sm) (hasher (cl_roomName c)) = Some (Some 1) \<and> address_gone (sm_rooms sm) 1
    \<and> (\<forall>m. (s1, m) \<notin> set (net_sent (sm_net sm)))
    \<and> handler_act hasher 1 arrived (H_end hn Serve_on) sm = Fault Mem_fault"
proof -
  let ?sap = "(s2, Some q2) :: socket_addr_pair"
  obtain sm0 tm where sm0: "two_connections s1 a1 q1 s2 a2 q2 = Done sm0"
    "handlers_reach hasher False (sm0, [1 \<mapsto> H_begin, 2 \<mapsto> H_begin])"
    "sm_rooms sm0 = RoomManager\<lparr>addr_at := [q1 \<mapsto> a1, q2 \<mapsto> a2]\<rparr>" "tData sm0 = ?sap" "net_sent (sm_net sm0) = []"
    "killThread (ucast s2) (snm_threads sm0) = Done (True, tm)" by (rule two_connections_done[OF assms(1,2,4)])
  define sm2 where "sm2 = send_greeting s2 (send_greeting s2 sm0)"
  define sm where "sm = guest_refused hasher tm (s2, q2) (opened_room hasher c ?sap sm2)"
  let ?hn = "starting_handler hasher c ?sap"
  have small: "countable_rooms sm0" "countable_rooms (send_greeting s2 sm0)" "countable_rooms (opened_room hasher c ?sap sm2)"
    by (simp_all add: countable_rooms_def sm0(3) sm2_def opened_room_def RoomManager_def Room_def Let_def)
  have reads: "handler_act hasher h None H_begin sm0 = Done (Some (H_identify ?sap), send_greeting s2 sm0)"
    "handler_act hasher h None H_begin (send_greeting s2 sm0) = Done (Some (H_identify ?sap), sm2)" for h
    by (simp_all add: handler_act_def sm0(4) sm2_def)
  from first_acts[OF sm0(2) small(1) reads(1)] have
    "handlers_reach hasher False (send_greeting s2 sm0, [1 \<mapsto> H_identify ?sap, 2 \<mapsto> H_begin])" by simp
  from second_acts[OF this small(2) reads(2)] have
    "handlers_reach hasher False (sm2, [1 \<mapsto> H_identify ?sap, 2 \<mapsto> H_identify ?sap])" by simp
  from room_opened[OF this _ c] have
    "handlers_reach hasher False (opened_room hasher c ?sap sm2, [1 \<mapsto> H_end ?hn Serve_on, 2 \<mapsto> H_identify ?sap])"
    by (simp add: sm2_def sm0(3))
  from second_refused[OF this small(3)] have reach: "handlers_reach hasher False (sm, [1 \<mapsto> H_end ?hn Serve_on])"
    using names sm0(6) by (simp add: sm_def sm2_def sm0(3) opened_room_def Let_def)
  have rooms: "roomMap (sm_rooms sm) (hasher (cl_roomName c)) = Some (Some 1)" "client_at (sm_rooms sm) 1 = Some (RoomClient3 ?sap (Some (cl_name c)) True)"
    "\<exists>r. room_at (sm_rooms sm) 1 = Some r \<and> prHost r = Some 1" "addr_at (sm_rooms sm) q2 = None"
    using names by (simp_all add: sm_def guest_refused_def opened_room_def frame_exit_def Let_def)
  then have gone: "address_gone (sm_rooms sm) 1" by (auto simp: address_gone_def RoomClient3_def)
  have "handler_act hasher 1 arrived (H_end ?hn Serve_on) sm = Fault Mem_fault"
    using rooms by (auto simp: handler_act_def end_enter_def getRoomPtr_def room_ptr_def client_ptr_def addr_ptr_def
        starting_handler_def RoomClient3_def simp del: One_nat_def)
  moreover have "\<forall>m. (s1, m) \<notin> set (net_sent (sm_net sm))"
    using assms(3) sm0(5) by (simp add: sm_def sm2_def guest_refused_def opened_room_def frame_exit_def Let_def
        send_greeting_def on_net_def closesocket_def EncryptedServerSocket_sendData_def ServerSocket_sendData_def)
  ultimately show ?thesis
    using sm0(1) reads reach rooms(1) gone
    by (intro exI[of _ sm0] exI[of _ sm] exI[of _ ?hn]) (simp add: sm2_def starting_handler_def)
qed

theorem shared_address_read_after_delete_witness:
  "\<exists>sm0 sm hn. two_connections 7 zero_sockaddr 20 8 zero_sockaddr 21 = Done sm0
    \<and> handler_act length_hash 1 None H_begin sm0 = Done (Some (H_identify (8, Some 21)), send_greeting 8 sm0)
    \<and> handler_act length_hash 2 None H_begin (send_greeting 8 sm0)
        = Done (Some (H_identify (8, Some 21)), send_greeting 8 (send_greeting 8 sm0))
    \<and> handlers_reach length_hash False (sm, [1 \<mapsto> H_end hn Serve_on]) \<and> hd_sap hn = (8, Some 21)
    \<and> roomMap (sm_rooms sm) (length_hash (cl_roomName (bob\<lparr>cl_isHost := True\<rparr>))) = Some (Some 1) \<and> address_gone (sm_rooms sm) 1
    \<and> (\<forall>m. (7, m) \<notin> set (net_sent (sm_net sm)))
    \<and> handler_act length_hash 1 None (H_end hn Serve_on) sm = Fault Mem_fault"
  by (rule shared_address_read_after_delete[OF _ _ _ _ short_bob(3)]) (simp_all add: word_less_nat_alt length_hash_def bob_def)

end
