(* ===== verification/PeerQueue.thy ===== *)
theory PeerQueue
  imports DataStructures
begin

text \<open>
  \<^verbatim>\<open>RDIBYClient/datastructures.h\<close>: the older \<open>ThreadSafeQueue\<close> of the console client. It has no \<open>Clear\<close>,
  no \<open>Size\<close> and no priority queue, and its timeout is 3 milliseconds, not \<open>INFINITE\<close>: a \<open>Pop\<close> polls.
\<close>

section \<open>Operations\<close>

definition RDIBYClient_ThreadSafeQueue :: "'a tsqueue" where
  "RDIBYClient_ThreadSafeQueue = \<lparr>queue = [], queue_semaphore = 0\<rparr>"

definition RDIBYClient_Push :: "'a \<Rightarrow> 'a tsqueue \<Rightarrow> DWORD \<times> 'a tsqueue" where
  "RDIBYClient_Push item q =
     (let q1 = q\<lparr>queue := queue q @ [item]\<rparr>;
          (res, n) = release_semaphore (queue_semaphore q1)
      in (res, q1\<lparr>queue_semaphore := n\<rparr>))"

text \<open>Here no permit arrives within the 3 milliseconds if there is none at the call.\<close>

definition RDIBYClient_Pop :: "'a tsqueue \<Rightarrow> 'a outcome \<times> 'a tsqueue" where
  "RDIBYClient_Pop q = (case wait_semaphore tsq_timeout_RDIBYClient (queue_semaphore q) of
       (Done _, n) \<Rightarrow> (case queue q of
            [] \<Rightarrow> (Fault (Runtime_error ''empty queue''), q\<lparr>queue_semaphore := n\<rparr>)
          | item # rest \<Rightarrow> (Done item, q\<lparr>queue := rest, queue_semaphore := n\<rparr>))
     | (Fault e, n) \<Rightarrow> (Fault e, q\<lparr>queue_semaphore := n\<rparr>)
     | (Blocks, n) \<Rightarrow> (Blocks, q\<lparr>queue_semaphore := n\<rparr>))"

definition RDIBYClient_Peek :: "'a tsqueue \<Rightarrow> 'a outcome" where
  "RDIBYClient_Peek q = (case queue q of
       [] \<Rightarrow> Fault (Runtime_error ''empty queue'')
     | item # _ \<Rightarrow> Done item)"

section \<open>The contract\<close>

lemmas peer_queue_defs = RDIBYClient_ThreadSafeQueue_def RDIBYClient_Push_def RDIBYClient_Pop_def
  RDIBYClient_Peek_def tsq_timeout_RDIBYClient_def INFINITE_def

interpretation peer_queue: polling_queue RDIBYClient_ThreadSafeQueue RDIBYClient_Push RDIBYClient_Pop
  "\<lambda>q. mset (queue q)" queue_semaphore
  by unfold_locales (auto simp: peer_queue_defs tsq_defs Let_def neq_Nil_conv)

interpretation peer_queue: fifo_queue RDIBYClient_ThreadSafeQueue RDIBYClient_Push RDIBYClient_Pop
  "\<lambda>q. mset (queue q)" queue_semaphore queue
  by unfold_locales (auto simp: peer_queue_defs tsq_defs Let_def)

text \<open>
  The two queues differ in one case: without a permit the one of RDIBY waits for an item, the
  console client's throws and leaves the queue as it is.
\<close>

lemma peer_queue_differs_when_empty:
  "RDIBYClient_Push x q = tsq_Push x q"
  "RDIBYClient_Peek q = tsq_Peek q"
  "RDIBYClient_Pop q = (if queue_semaphore q = 0 then (Fault (Runtime_error ''semaphore timed out''), q)
     else tsq_Pop tsq_timeout q)"
  by (auto simp: peer_queue_defs tsq_defs Let_def split: list.split)

text \<open>
  In any sequence of calls, starting with the empty queue, items come out in the order they were
  pushed, none lost or doubled, and the only thing a \<open>Pop\<close> throws is the timeout.
\<close>

lemma peer_queue_polls_in_order:
  assumes "length (peer_queue.pushes cs) \<le> MAXINT"
  shows "peer_queue.pushes cs = peer_queue.popped (fst (peer_queue.calls cs RDIBYClient_ThreadSafeQueue))
      @ queue (snd (peer_queue.calls cs RDIBYClient_ThreadSafeQueue))
    \<and> (\<forall>r \<in> set (fst (peer_queue.calls cs RDIBYClient_ThreadSafeQueue)).
        (\<exists>x. r = Done x) \<or> r = Fault (Runtime_error ''semaphore timed out''))"
  using peer_queue.calls_fifo[OF peer_queue.synced_empty, of cs]
    peer_queue.calls_only_time_out[OF peer_queue.synced_empty, of cs] assms
  by (simp add: RDIBYClient_ThreadSafeQueue_def)

end
