(* ===== verification/SectionLifetime.thy ===== *)
theory SectionLifetime
  imports Concurrency
begin

text \<open>
  When the objects of \<^verbatim>\<open>concurrency.cpp\<close> are created and destroyed. Windows demands that a critical
  section be initialised where it lies, not be copied, and be deleted once. \<open>Concurrency\<close> takes the
  section inside a \<open>ConditionVariable\<close> as a good one; here is which constructor leaves a good one.
\<close>

section \<open>Critical sections in memory\<close>

text \<open>
  \<open>bytes_of\<close> says at which address the bytes found at an address were initialised, \<open>alive\<close> which
  sections have been initialised and not deleted.
\<close>

record sections =
  bytes_of :: "nat \<Rightarrow> nat option"
  alive :: "nat set"

definition usable :: "nat \<Rightarrow> sections \<Rightarrow> bool" where
  "usable a s \<longleftrightarrow> bytes_of s a = Some a \<and> a \<in> alive s"

definition InitializeCriticalSection :: "nat \<Rightarrow> sections \<Rightarrow> sections" where
  "InitializeCriticalSection a s = s\<lparr>bytes_of := (bytes_of s)(a := Some a), alive := insert a (alive s)\<rparr>"

definition DeleteCriticalSection :: "nat \<Rightarrow> sections \<Rightarrow> sections outcome" where
  "DeleteCriticalSection a s =
     (if usable a s then Done (s\<lparr>bytes_of := (bytes_of s)(a := None), alive := alive s - {a}\<rparr>) else Fault Mem_fault)"

definition copy_section :: "nat \<Rightarrow> nat \<Rightarrow> sections \<Rightarrow> sections" where
  "copy_section a b s = s\<lparr>bytes_of := (bytes_of s)(a := bytes_of s b)\<rparr>"

section \<open>RDIBY\<close>

definition CriticalSection_at :: "nat \<Rightarrow> sections \<Rightarrow> sections" where
  "CriticalSection_at a s = InitializeCriticalSection a s"

definition CriticalSection_destructor :: "nat \<Rightarrow> sections \<Rightarrow> sections outcome" where
  "CriticalSection_destructor a s = DeleteCriticalSection a s"

text \<open>The member \<open>cs\<close> at \<open>a\<close> is constructed first; the constructor's body leaves it alone.\<close>

definition ConditionVariable_at :: "nat \<Rightarrow> sections \<Rightarrow> sections" where
  "ConditionVariable_at a s = CriticalSection_at a s"

definition ConditionVariable_destructor :: "nat \<Rightarrow> sections \<Rightarrow> sections outcome" where
  "ConditionVariable_destructor a s = CriticalSection_destructor a s"

section \<open>VideoClient\<close>

definition VideoClient_CriticalSection_at :: "nat \<Rightarrow> sections \<Rightarrow> sections" where
  "VideoClient_CriticalSection_at a s = InitializeCriticalSection a s"

definition VideoClient_CriticalSection_destructor :: "nat \<Rightarrow> sections \<Rightarrow> sections outcome" where
  "VideoClient_CriticalSection_destructor a s = DeleteCriticalSection a s"

text \<open>
  The statement \<^verbatim>\<open>this->cs = CriticalSection();\<close>: a temporary at \<open>t\<close> is constructed, copied member by
  member over the object at \<open>a\<close>, and destroyed.
\<close>

definition assign_new_section :: "nat \<Rightarrow> nat \<Rightarrow> sections \<Rightarrow> sections outcome" where
  "assign_new_section a t s =
     VideoClient_CriticalSection_destructor t (copy_section a t (VideoClient_CriticalSection_at t s))"

definition VideoClient_ConditionVariable_at :: "nat \<Rightarrow> nat \<Rightarrow> sections \<Rightarrow> sections outcome" where
  "VideoClient_ConditionVariable_at a t s = assign_new_section a t (VideoClient_CriticalSection_at a s)"

text \<open>\<open>init\<close> makes it again.\<close>

definition VideoClient_ConditionVariable_init :: "nat \<Rightarrow> nat \<Rightarrow> sections \<Rightarrow> sections outcome" where
  "VideoClient_ConditionVariable_init a t s = assign_new_section a t s"

definition VideoClient_ConditionVariable_destructor :: "nat \<Rightarrow> sections \<Rightarrow> sections outcome" where
  "VideoClient_ConditionVariable_destructor a s = VideoClient_CriticalSection_destructor a s"

section \<open>Lemmas\<close>

lemmas lifetime_defs = usable_def InitializeCriticalSection_def DeleteCriticalSection_def copy_section_def
  CriticalSection_at_def CriticalSection_destructor_def ConditionVariable_at_def ConditionVariable_destructor_def
  VideoClient_CriticalSection_at_def VideoClient_CriticalSection_destructor_def assign_new_section_def
  VideoClient_ConditionVariable_at_def VideoClient_ConditionVariable_init_def VideoClient_ConditionVariable_destructor_def

text \<open>RDIBY's condition variable has a usable section, and gives it back.\<close>

lemma section_lives_with_object:
  assumes "a \<notin> alive s"
  shows "usable a (ConditionVariable_at a s)"
    and "\<exists>s'. ConditionVariable_destructor a (ConditionVariable_at a s) = Done s' \<and> alive s' = alive s
      \<and> (\<forall>b. b \<noteq> a \<longrightarrow> bytes_of s' b = bytes_of s b)"
  using assms by (auto simp: lifetime_defs)

text \<open>
  VideoClient's is left with the bytes of a section that has been deleted, and \<open>init\<close> does not
  mend it; the section its member was constructed with is never given back, and its destructor deletes
  a section that is none. A condition variable that is created and destroyed is already too much.
\<close>

lemma constructor_copies_section:
  assumes "a \<noteq> t" and "a \<notin> alive s" and "t \<notin> alive s"
  shows "\<exists>s1 s2. VideoClient_ConditionVariable_at a t s = Done s1 \<and> VideoClient_ConditionVariable_init a t s1 = Done s2
    \<and> \<not> usable a s1 \<and> \<not> usable a s2 \<and> a \<in> alive s2 \<and> t \<notin> alive s2
    \<and> VideoClient_ConditionVariable_destructor a s1 = Fault Mem_fault
    \<and> VideoClient_ConditionVariable_destructor a s2 = Fault Mem_fault"
  using assms by (auto simp: lifetime_defs)

section \<open>Properties\<close>

text \<open>
  Who may use a condition variable. RDIBY's constructor leaves it with a critical section that is
  its own, and its destructor gives exactly that one back. VideoClient's overwrites the member with the
  bytes of a temporary that is destroyed in the same statement: no call may use the section, whether
  or not \<open>init\<close> is called, the one the member was made with is never deleted, and the destructor deletes
  one that is none.
\<close>

lemma condition_variable_lifetime:
  assumes "a \<noteq> t" and "a \<notin> alive s" and "t \<notin> alive s"
  shows "usable a (ConditionVariable_at a s)
    \<and> (\<exists>s'. ConditionVariable_destructor a (ConditionVariable_at a s) = Done s' \<and> alive s' = alive s
        \<and> (\<forall>b. b \<noteq> a \<longrightarrow> bytes_of s' b = bytes_of s b))
    \<and> (\<exists>s1 s2. VideoClient_ConditionVariable_at a t s = Done s1 \<and> VideoClient_ConditionVariable_init a t s1 = Done s2
        \<and> \<not> usable a s1 \<and> \<not> usable a s2 \<and> a \<in> alive s2
        \<and> VideoClient_ConditionVariable_destructor a s1 = Fault Mem_fault
        \<and> VideoClient_ConditionVariable_destructor a s2 = Fault Mem_fault)"
  using section_lives_with_object[OF assms(2)] constructor_copies_section[OF assms] by blast

end
