(* ===== verification/HostSockets.thy ===== *)
theory HostSockets
  imports Network
begin

text \<open>
  The host's sockets, \<^verbatim>\<open>host.cpp\<close>, exist twice: in RDIBY (\<open>Network\<close>) and, older, in RDIBYClient, modelled
  here. They differ in the kind of socket \<open>initUDP\<close> asks for. \<open>getaddrinfo\<close> copies the kind from the hints
  to its answer, from where it goes to \<^verbatim>\<open>socket\<close>, so \<^verbatim>\<open>socket\<close>'s answer is a function of the kind here.
\<close>

section \<open>The kind of socket asked for\<close>

datatype socktype = SOCK_STREAM | SOCK_DGRAM
datatype protocol = IPPROTO_TCP | IPPROTO_UDP

definition initUDP_hints :: "socktype \<times> protocol" where
  "initUDP_hints = (SOCK_STREAM, IPPROTO_TCP)"

definition RDIBYClient_initUDP_hints :: "socktype \<times> protocol" where
  "RDIBYClient_initUDP_hints = (SOCK_DGRAM, IPPROTO_UDP)"

section \<open>RDIBYClient\<close>

definition RDIBYClient_HostSocket_initTCP :: "SOCKET \<Rightarrow> bool \<Rightarrow> SOCKET \<times> net \<Rightarrow> bool \<times> SOCKET \<times> net" where
  "RDIBYClient_HostSocket_initTCP socketRes connectOk st =
     (let (sock, n) = st
      in if sock \<noteq> -1 then (False, sock, WSACleanup (closesocket sock n))
         else if socketRes = INVALID_SOCKET then (False, socketRes, WSACleanup n)
         else if \<not> connectOk then (False, socketRes, WSACleanup (closesocket socketRes n))
         else (True, socketRes, n))"

definition RDIBYClient_HostSocket_initUDP ::
  "int \<Rightarrow> (socktype \<times> protocol \<Rightarrow> SOCKET) \<Rightarrow> bool \<Rightarrow> SOCKET \<times> net \<Rightarrow> (bool \<times> SOCKET \<times> net) outcome" where
  "RDIBYClient_HostSocket_initUDP addrRes socketAns bindOk st =
     (let (sock, n) = st
      in if addrRes \<noteq> 0 then Fault (Exit 1)
         else let socketRes = socketAns RDIBYClient_initUDP_hints
              in if socketRes \<le> 1 then Fault (Exit 1)
                 else if socketRes = INVALID_SOCKET then Fault (Exit 1)
                 else if \<not> bindOk then Fault (Exit 1)
                 else Done (True, socketRes, n))"

definition RDIBYClient_HostSocket_initListen :: "int \<Rightarrow> bool" where
  "RDIBYClient_HostSocket_initListen listenRes = (if listenRes < 0 then False else True)"

definition RDIBYClient_HostSocket_sendData ::
  "DWORD \<Rightarrow> SOCKET \<Rightarrow> BYTE list \<Rightarrow> DWORD \<Rightarrow> DWORD \<Rightarrow> net \<Rightarrow> DWORD \<times> net" where
  "RDIBYClient_HostSocket_sendData res sock pData dwTypeSize dwLen n =
     (let dwMsgLen = dwTypeSize * dwLen
      in if dwMsgLen \<le> 0 then (-1, n)
         else (res, n\<lparr>net_sent := net_sent n @ [(sock, take (unat dwMsgLen) pData)]\<rparr>))"

definition RDIBYClient_HostSocket_recvData :: "BYTE list \<Rightarrow> BYTE list option \<Rightarrow> DWORD \<times> BYTE list" where
  "RDIBYClient_HostSocket_recvData pBuffer arrived = winsock_recv pBuffer arrived"

section \<open>The sending and receiving contract\<close>

text \<open>
  What a user of a stream socket relies on, whatever class it is: whole messages go out once and in
  order under the socket's number, an empty message is refused, and a receive stays in its buffer.
\<close>

locale stream_socket =
  fixes send :: "DWORD \<Rightarrow> SOCKET \<Rightarrow> BYTE list \<Rightarrow> DWORD \<Rightarrow> DWORD \<Rightarrow> net \<Rightarrow> DWORD \<times> net"
    and recv :: "BYTE list \<Rightarrow> BYTE list option \<Rightarrow> DWORD \<times> BYTE list"
  assumes send_nothing: "tsize * tlen = 0 \<Longrightarrow> send res s bs tsize tlen n = (-1, n)"
    and send_some: "tsize * tlen \<noteq> 0 \<Longrightarrow> send res s bs tsize tlen n
      = (res, n\<lparr>net_sent := net_sent n @ [(s, take (unat (tsize * tlen)) bs)]\<rparr>)"
    and recv_length: "length (snd (recv buf arrived)) = length buf"
    and recv_prefix: "recv buf (Some bs) = (c, buf') \<Longrightarrow> take (length bs) buf' = take (length buf) bs"
begin

text \<open>Some messages of at least one byte and of fitting length, one call each.\<close>

definition send_message :: "SOCKET \<Rightarrow> BYTE list \<Rightarrow> net \<Rightarrow> net" where
  "send_message s bs n = snd (send (word_of_nat (length bs)) s bs (word_of_nat (length bs)) 1 n)"

lemma messages_in_order:
  assumes "\<forall>bs \<in> set msgs. bs \<noteq> [] \<and> length bs < 2 ^ 32"
  shows "net_sent (fold (send_message s) msgs n) = net_sent n @ map (Pair s) msgs
    \<and> net_closed (fold (send_message s) msgs n) = net_closed n"
  using assms
proof (induction msgs arbitrary: n)
  case (Cons bs msgs)
  then have "(word_of_nat (length bs) :: DWORD) \<noteq> 0" "unat (word_of_nat (length bs) :: DWORD) = length bs"
    by (simp_all add: word_of_nat_eq_0_iff unat_of_nat nat_dvd_not_less)
  then have "send_message s bs n = n\<lparr>net_sent := net_sent n @ [(s, bs)]\<rparr>" by (simp add: send_message_def send_some)
  with Cons show ?case by simp
qed simp

text \<open>A message shorter than the buffer is found at its start.\<close>

lemma message_received:
  "length bs \<le> length buf \<Longrightarrow> take (length bs) (snd (recv buf (Some bs))) = bs"
  using recv_prefix[of buf bs] by (metis prod.collapse take_all)

end

lemma winsock_recv_prefix: "winsock_recv buf (Some bs) = (c, buf') \<Longrightarrow> take (length bs) buf' = take (length buf) bs"
  by (cases "length bs \<le> length buf") (auto simp: winsock_recv_def Let_def)

lemma winsock_recv_length: "length (snd (winsock_recv buf arrived)) = length buf"
  by (cases arrived) (auto simp: winsock_recv_def Let_def)

lemmas socket_ops = winsock_recv_length winsock_recv_prefix HostSocket_recvData_def ServerSocket_recvData_def
  ClientSocket_recvData_def RDIBYClient_HostSocket_recvData_def EncryptedServerSocket_recvData_def
  EncryptedClientSocket_recvData_def HostSocket_sendData_def ServerSocket_sendData_def ClientSocket_sendData_def
  RDIBYClient_HostSocket_sendData_def EncryptedServerSocket_sendData_def EncryptedClientSocket_sendData_def

interpretation host_socket: stream_socket HostSocket_sendData HostSocket_recvData
  by unfold_locales (simp_all add: socket_ops Let_def word_coorder.extremum_unique)

interpretation peer_host_socket: stream_socket RDIBYClient_HostSocket_sendData RDIBYClient_HostSocket_recvData
  by unfold_locales (simp_all add: socket_ops Let_def word_coorder.extremum_unique)

interpretation server_socket: stream_socket EncryptedServerSocket_sendData EncryptedServerSocket_recvData
  by unfold_locales (simp_all add: socket_ops Let_def word_coorder.extremum_unique split: prod.splits)

interpretation client_socket: stream_socket EncryptedClientSocket_sendData EncryptedClientSocket_recvData
  by unfold_locales (simp_all add: socket_ops Let_def word_coorder.extremum_unique)

section \<open>The two copies\<close>

text \<open>
  The copies agree on everything but the kind of socket \<open>initUDP\<close> opens: RDIBY's opens a stream socket
  under that name, RDIBYClient's a datagram socket. The program's only difference is there.
\<close>

lemma host_sockets_agree:
  "RDIBYClient_HostSocket_initTCP socketRes ok st = HostSocket_initTCP socketRes ok st"
  "RDIBYClient_HostSocket_initListen l = HostSocket_initListen l"
  "RDIBYClient_HostSocket_sendData res s bs tsize tlen n = HostSocket_sendData res s bs tsize tlen n"
  "RDIBYClient_HostSocket_recvData bs arrived = HostSocket_recvData bs arrived"
  "RDIBYClient_HostSocket_initUDP a socketAns ok st = HostSocket_initUDP a (socketAns RDIBYClient_initUDP_hints) ok st"
  by (simp_all add: RDIBYClient_HostSocket_initTCP_def HostSocket_initTCP_def RDIBYClient_HostSocket_initListen_def
      HostSocket_initListen_def socket_ops RDIBYClient_HostSocket_initUDP_def HostSocket_initUDP_def Let_def split_def)

end
