(* ===== verification/Spec2Isabelle.thy ===== *)
theory Spec2Isabelle
  imports Network Concurrency Peer Admission ServerSafety Mediator QueueThreads
    ClientLibrary Video Events Hooks Viewer ViewerMain Display PacketBounds Retransmission
    TornFrame Recovery HostMain PeerLibrary Reflector ServerMain LateGuests SharedAddress PeerQueue
    SectionLifetime HostSockets
begin

text \<open>
  A verification development for LLLSI, a low-latency screen-sharing system for Windows: a host
  captures its screen, encodes it and sends it over UDP; a viewer rebuilds, decodes and paints the
  frames and collects mouse and keyboard events, which it does not send yet; a rendezvous server brings hosts and
  viewers behind NAT together. The repository holds four Visual Studio projects: \<^verbatim>\<open>src/RDIBY\<close> (the
  server and the library), \<^verbatim>\<open>src/RDIBYClient\<close> (a console client of the server, with an older copy
  of the library), \<^verbatim>\<open>src/VideoHost\<close> and \<^verbatim>\<open>src/VideoClient\<close> (the two ends of a stream).

  \<^bold>\<open>How the program is modelled.\<close> Structs and classes are records, with fields and constructors
  named as in the source (a prefix where a name is taken), and \<open>DWORD\<close>, \<open>WORD\<close>, \<open>SIZE_T\<close> and
  so on are words of their width. Every operation is a function from state to state, \<open>outcome\<close> says
  whether it returns, faults (an exception that leaves it, a null or dangling pointer, an access
  outside a buffer) or waits for good. Objects that the code shares by pointer live in maps from
  addresses, so a dangling pointer shows as a fault: the rooms and clients of the server, which go when
  their handler returns, and the address objects of the clients (\<open>addr_at\<close>), which \<^verbatim>\<open>new\<close> makes and
  \<^verbatim>\<open>delete\<close> takes away. Where threads meet, their steps are an
  \<^theory_text>\<open>inductive\<close> relation, or a list of rounds in any order, and the properties are invariants of
  what is reachable. What Windows, winsock or GDI+ answers to a call is an argument of the
  function that makes the call; after a clean-up of winsock its sockets are refused; image decoding, \<^verbatim>\<open>std::hash\<close>, the scaling of mouse coordinates
  and \<^verbatim>\<open>MapVirtualKey\<close> are function parameters, with no assumption on them but where stated.

  \<^bold>\<open>Theories.\<close>
  \<^item> \<open>Prelude\<close>: machine types, \<open>outcome\<close>, little-endian bytes, bounded memory copies, \<open>recvfrom\<close>.
  \<^item> \<open>Protocols\<close> (\<^verbatim>\<open>protocols.h\<close>, \<^verbatim>\<open>protocol.h\<close>): the structs on the wire and their x64 layout.
  \<^item> \<open>DataStructures\<close>, \<open>QueueThreads\<close> (\<^verbatim>\<open>datastructures.h\<close>): the blocking queues, their contract as locales,
    and all interleavings of threads that use one. \<open>PeerQueue\<close>: RDIBYClient's older queue, which polls.
  \<^item> \<open>Concurrency\<close> (\<^verbatim>\<open>concurrency.*\<close>): critical sections, condition variables, thread manager;
    \<open>SectionLifetime\<close>: their construction and destruction.
  \<^item> \<open>Mediator\<close> (\<^verbatim>\<open>IActionMediator.h\<close>, \<^verbatim>\<open>IServerActionMediator.h\<close>, \<^verbatim>\<open>I*Component.cpp\<close>): listeners, the
    action queue and the program flags.
  \<^item> \<open>Network\<close> (\<^verbatim>\<open>network.*\<close>, \<^verbatim>\<open>client.cpp\<close>, \<^verbatim>\<open>host.cpp\<close>, \<^verbatim>\<open>serverNetwork.cpp\<close>): socket classes and the
    first interaction of a client with the server. \<open>HostSockets\<close>, \<open>PeerLibrary\<close>: RDIBYClient's older
    copies of \<^verbatim>\<open>host.cpp\<close> and \<^verbatim>\<open>client.*\<close>, compared with these.
  \<^item> \<open>Rooms\<close> (\<^verbatim>\<open>room.*\<close>), \<open>Server\<close>, \<open>Admission\<close>, \<open>Rendezvous\<close>, \<open>ServerSafety\<close> (\<^verbatim>\<open>server.*\<close>): the
    rooms, the handler of a client, who is let in, what a started room sends, and the invariant of all
    states reachable by whole messages. \<open>ServerRaces\<close>, \<open>ServerThreads\<close>, \<open>ServerInterleaving\<close>, \<open>LateGuests\<close>, \<open>SharedAddress\<close>:
    \<open>endRoom\<close> and the handlers statement by statement, that these are the whole messages when run alone, which
    objects can be gone in an interleaving, the guests who suffer from it, and two handlers that have
    read one parameter and so go by one address object.
    \<open>ServerMain\<close>, \<open>Reflector\<close> (\<^verbatim>\<open>servertest1.cpp\<close>): the server program. \<open>Peer\<close>
    (\<^verbatim>\<open>RDIBYClient/clienttest.cpp\<close>): the clients of the server.
  \<^item> \<open>Chunks\<close>, \<open>HostStream\<close>, \<open>Retransmission\<close> (\<^verbatim>\<open>VideoHost/host.*\<close>): cutting frames into packets, keeping,
    acknowledging and resending them. \<open>HostMain\<close>, \<open>HostProcess\<close> (\<^verbatim>\<open>VideoHost/main.cpp\<close>): the start of the
    program, and the process with its threads in small steps, which refines \<open>sendStream\<close>.
  \<^item> \<open>Video\<close>, \<open>Stream\<close> (\<^verbatim>\<open>video.*\<close>, \<^verbatim>\<open>stream.h\<close>): capturing and encoding, stream containers.
  \<^item> \<open>ClientPipeline\<close>, \<open>Reassembly\<close>, \<open>Viewer\<close>, \<open>Display\<close> (\<^verbatim>\<open>VideoClient/main.cpp\<close>): receiver, consumer,
    decoder, timer and window; their refinement of a specification by arrived chunks; all
    interleavings of their rounds; the graphics objects they create and free. \<open>ViewerThreads\<close>,
    \<open>ViewerRaces\<close>: the same threads in small steps, which refine the rounds, do not deadlock, and when
    a fragment comes twice do not keep a frame's entry from its consumer. \<open>PacketBounds\<close>: which packets
    make the consumer write outside a frame; \<open>TornFrame\<close>: what duplicates do to a frame;
    \<open>ViewerMain\<close>: \<open>wWinMain\<close>, the window procedure and the shut-down.
  \<^item> \<open>ClientLibrary\<close> (\<^verbatim>\<open>client.h\<close>, \<^verbatim>\<open>client.cpp\<close>): the packet and frame streams of the library.
  \<^item> \<open>Events\<close>, \<open>Hooks\<close> (\<^verbatim>\<open>VideoClient/main.cpp\<close>, \<^verbatim>\<open>VideoHost/main.cpp\<close>, \<^verbatim>\<open>events.*\<close>): mouse and keyboard
    events, what the hooks queue and the host would make of it (its handler for them has no body, and the
    viewer's sender thread is not started), and the chain of hooks they come from.
  \<^item> \<open>StreamSystem\<close>: the two programs with their threads and a network that loses and reorders, as one
    transition system: the viewer shows only what the host has captured, and no packet is lost in
    silence. \<open>ViewerLiveness\<close>: what the viewer has received it can show, by a measure of the work left.
    \<open>Recovery\<close>: from every reachable state a frame whose packets are received or still kept can be
    shown. This theory: what the host sends is rebuilt by the viewer, and a loss is recovered.

  \<^bold>\<open>Interfaces.\<close> \<open>counted_queue\<close> and its extensions (\<open>blocking_queue\<close>, \<open>polling_queue\<close>, \<open>fifo_queue\<close>,
  \<open>clearable_queue\<close>) are the contract of the queues, \<open>prio_order\<close> that of the comparison of the bitmap
  queue, \<open>lock\<close> that of a critical section, \<open>stream_socket\<close> that of the socket classes. Each is
  interpreted on the definitions of the code, in the theory that holds them.

  \<^bold>\<open>Bounds and fuel.\<close> No definition needs fuel: loops run over lists of answers or rounds, or
  have a termination proof. A semaphore counts to \<open>MAXINT\<close>, so the properties of the queues ask for
  fewer than 2147483647 items. \<open>sendable\<close> asks that a frame have at most 65535 packets, as their number
  is a \<open>WORD\<close>, and at most \<^verbatim>\<open>2 ^ 31\<close> bytes, as offsets are computed as \<^verbatim>\<open>int\<close>; \<open>length frs \<le> 2 ^ 32\<close> keeps frame
  numbers apart. The host keeps at most 200 packets (\<open>RECENT_PACKETS_SIZE\<close>). A viewer that has left
  its message loop ends after at most 13 steps.

  \<^bold>\<open>What is atomic.\<close> In \<open>QueueThreads\<close>, \<open>HostProcess\<close> and \<open>ViewerMain\<close> the parts between two system calls are
  steps, in \<open>ViewerThreads\<close> every access to shared data is; in \<open>Viewer\<close> a round of a thread's loop is one.
  A lookup, write or erasure of an entry of \<open>activeFrames\<close> is taken as a step, though the map has no lock.
  In \<open>StreamSystem\<close> a step is one of \<open>HostProcess\<close>, one of \<open>ViewerThreads\<close>, or a loss of the network.
  In \<open>Server\<close> and \<open>ServerSafety\<close> one accept, one entry and one message are single steps; in \<open>ServerThreads\<close>
  only the accept is. In both \<open>prompt\<close> says that each thread the accept loop starts reads its parameter, a
  local variable of that loop, before the next accept; without it any number of accepts can come first.
  One \<^verbatim>\<open>recv\<close> delivers one whole message.

  \<^bold>\<open>Not modelled.\<close> \<^verbatim>\<open>audio.h\<close>, \<^verbatim>\<open>media.h\<close> and the older \<^verbatim>\<open>protocols.h\<close> and \<^verbatim>\<open>video.h\<close> of RDIBYClient only
  declare classes without operations; \<^verbatim>\<open>concurrencytest1.cpp\<close> and RDIBY's \<^verbatim>\<open>clienttest.cpp\<close> are commented
  out. Printing is left out, and so is filling structs for Windows. Headers and files that are copies
  of each other (\<^verbatim>\<open>stream.h\<close>, \<^verbatim>\<open>video.cpp\<close>, \<^verbatim>\<open>client.cpp\<close>, \<^verbatim>\<open>datastructures.h\<close>, \<^verbatim>\<open>concurrency.cpp\<close>,
  \<^verbatim>\<open>IActionMediator.h\<close>, \<^verbatim>\<open>events.cpp\<close>) are modelled once; where two copies differ, both are.
\<close>

section \<open>A stream from the host to the viewer\<close>

text \<open>
  C1: Streaming is lossless across reordering. For any frames the host can cut, \<open>sendStream\<close> sends
  them completely; and in whatever order its datagrams arrive, the fragments of different frames
  mixed at will and anything behind them in the receive buffers, the viewer's consumer rebuilds
  every frame byte for byte and reports each frame complete exactly once.
\<close>

theorem stream_roundtrip:
  assumes "\<forall>fr \<in> set frs. sendable PACKET_SIZE fr \<and> fr \<noteq> []" and "length frs \<le> 2 ^ 32"
  shows "\<exists>pm' ds. sendStream t (map (Pair PACKET_SIZE) frs) 0 pm = Done pm' \<and> sent pm' = sent pm @ ds
    \<and> (\<forall>arriving. mset (map fst arriving) = mset ds \<longrightarrow>
        (\<exists>st. consume_packets (in_buffers arriving) client_init = Done (st :: 'bmp client_state)
          \<and> mset (queue (frameNumQueue st)) = mset (map word_of_nat [0..<length frs])
          \<and> (\<forall>n < length frs. \<exists>fb. activeFrames st (word_of_nat n) = Some fb \<and> chunks fb = frs ! n)))"
proof -
  let ?q = "nextSequence pm" and ?ds = "stream_datagrams t 4060 frs 0 (nextSequence pm)"
  let ?fr = "frame_table frs" and ?dg = "datagram_of t (seq_table frs (nextSequence pm)) (frame_table frs)"
  have "\<forall>fr \<in> set frs. sendable PACKET_SIZE fr" using assms(1) by blast
  from sendStream_done[OF this, of t 0 pm] obtain pm' where
    pm': "sendStream t (map (Pair PACKET_SIZE) frs) 0 pm = Done pm'" "sent pm' = sent pm @ ?ds"
    by (auto simp: PACKET_SIZE_def)
  have "\<exists>st. consume_packets (in_buffers arriving) client_init = Done (st :: 'bmp client_state)
      \<and> mset (queue (frameNumQueue st)) = mset (map word_of_nat [0..<length frs])
      \<and> (\<forall>n < length frs. \<exists>fb. activeFrames st (word_of_nat n) = Some fb \<and> chunks fb = frs ! n)"
    if "mset (map fst arriving) = mset ?ds" for arriving
  proof -
    from that have "mset (map fst arriving) = mset (map ?dg (stream_fragments frs))"
      by (simp only: stream_datagrams_fragments[OF assms(2)])
    from mset_map_permute[OF this] obtain fis where
      fis: "mset fis = mset (stream_fragments frs)" "map fst arriving = map ?dg fis"
      by (elim exE conjE)
    let ?xs = "zip fis (map snd arriving)"
    have len: "length fis = length arriving" using fis(2) by (metis length_map)
    have "in_buffers arriving = map (\<lambda>(d, junk). d @ junk) (zip (map fst arriving) (map snd arriving))"
      by (simp add: in_buffers_def zip_map_fst_snd)
    also have "\<dots> = map (\<lambda>(fi, junk). ?dg fi @ junk) ?xs"
      unfolding fis(2) by (simp add: zip_map1 split_def)
    finally have bufs: "in_buffers arriving = map (\<lambda>(fi, junk). ?dg fi @ junk) ?xs" .
    have fst_xs: "map fst ?xs = fis" using len by simp
    have "\<forall>x \<in> set ?xs. fragment ?fr (fst x)"
      using fragments_sendable[OF _ assms(2)] assms(1) mset_eq_setD[OF fis(1)]
      by (metis in_set_zipE prod.collapse)
    from consume_run[OF implements_init this, of t "seq_table frs ?q"] obtain st :: "'bmp client_state" where
      st: "consume_packets (in_buffers arriving) client_init = Done st"
      and R: "implements ?fr st (fold (arrive ?fr) fis no_arrivals)"
      unfolding bufs[symmetric] fst_xs by (elim exE conjE)
    have "\<exists>fb. activeFrames st (word_of_nat n) = Some fb \<and> chunks fb = frs ! n" if n: "n < length frs" for n
    proof -
      let ?is = "arrived (fold (arrive ?fr) fis no_arrivals) (word_of_nat n)"
      have is_all: "set ?is = {..<k_of (frs ! n)}" by (rule arrived_all[OF fis(1) assms(2) n])
      moreover have "0 < k_of (frs ! n)"
        using assms(1) n nchunks_less[of 4060 0 "length (frs ! n)"] by (simp add: k_of_def)
      ultimately have "?is \<noteq> []" by (metis empty_iff empty_set lessThan_iff)
      with R n assms(2) show ?thesis
        by (simp add: implements_def buffer_of_def filled_def is_all k_of_def partial_frame_full)
    qed
    moreover have "mset (queue (frameNumQueue st)) = mset (map word_of_nat [0..<length frs])"
      using R completed_stream[OF assms fis(1)] by (simp add: implements_def)
    ultimately show ?thesis using st by blast
  qed
  with pm' show ?thesis by blast
qed

theorem stream_roundtrip_witness:
  "\<exists>pm' ds. sendStream 1 (map (Pair PACKET_SIZE) [[1, 2, 3], replicate 5000 7]) 0 PacketManager = Done pm'
    \<and> sent pm' = sent PacketManager @ ds
    \<and> (\<forall>arriving. mset (map fst arriving) = mset ds \<longrightarrow>
        (\<exists>st. consume_packets (in_buffers arriving) client_init = Done (st :: nat client_state)
          \<and> mset (queue (frameNumQueue st)) = mset (map word_of_nat [0..<length [[1, 2, 3], replicate 5000 (7 :: BYTE)]])
          \<and> (\<forall>n < length [[1, 2, 3], replicate 5000 (7 :: BYTE)].
               \<exists>fb. activeFrames st (word_of_nat n) = Some fb \<and> chunks fb = [[1, 2, 3], replicate 5000 7] ! n)))"
  by (rule stream_roundtrip) (simp_all add: sendable_def PACKET_SIZE_def nchunks_def)

section \<open>Loss and recovery\<close>

text \<open>The acknowledgements the viewer sends for what it receives.\<close>

lemma receives_acks:
  assumes "length fresh = CLIENT_PACKET_SIZE"
    and "\<forall>i. length (chunk p frame i) \<le> CLIENT_PACKET_SIZE - sizeof_rtmp"
    and "viewer_run decode (map (\<lambda>i. Receive fresh (Some (frame_datagram t p f frame s i))) is) st = Done st'"
  shows "acks st' = acks st @ map (fragment_ack t p f frame s) is"
  using assms(3)
proof (induction "is" arbitrary: st)
  case (Cons i "is")
  from Cons.IH[of "receiver_step fresh (Some (frame_datagram t p f frame s i)) st"] Cons.prems
  show ?case by (simp add: receiver_fragment[OF assms(1) assms(2)[rule_format] refl])
qed simp

text \<open>
  C3: Lost packets are recovered. Whatever packets of a frame of at most 200 the network loses, once
  the viewer's acknowledgements of the others have reached the host, the next round of the host's
  timer sends the lost packets again, and only these; when they arrive, the viewer's threads
  rebuild the frame, and the first paint after the next tick shows it.
\<close>

theorem lost_packets_recovered:
  assumes "sendable PACKET_SIZE frame" and "frame \<noteq> []" and "k_of frame \<le> RECENT_PACKETS_SIZE"
    and "length fresh = CLIENT_PACKET_SIZE" and "decode frame = Some bmp"
  shows "let dgram = frame_datagram t PAYLOAD_SIZE f frame 0;
      got = filter (\<lambda>i. i \<notin> lost) [0..<k_of frame]; missing = filter (\<lambda>i. i \<in> lost) [0..<k_of frame];
      receive = (\<lambda>i. Receive fresh (Some (dgram i))) in
    \<exists>pm st1 buf pm1 st2.
      send_frame t PACKET_SIZE f frame PacketManager = Done pm \<and> sent pm = map dgram [0..<k_of frame]
    \<and> viewer_run decode (map receive got) client_init = Done st1
    \<and> host_run (map (\<lambda>a. Received (Some a)) (acks st1)) (replicate 36 0, pm) = Done (buf, pm1)
    \<and> sent (ackPackets_round pm1) = sent pm @ map dgram missing
    \<and> viewer_run decode (map receive missing @ replicate (k_of frame) Consume @ [Decode, Tick, Paint]) st1 = Done st2
    \<and> displayed st2 = [(f, Some bmp)]"
proof -
  let ?k = "k_of frame" and ?d = "frame_datagram t 4060 f frame 0"
  let ?got = "filter (\<lambda>i. i \<notin> lost) [0..<?k]" and ?missing = "filter (\<lambda>i. i \<in> lost) [0..<?k]"
  have ok: "fragments_ok (\<lambda>_. frame) (map (Pair f) (?got @ ?missing))"
    using assms(1) by (auto simp: fragments_ok_def fragment_def distinct_map inj_on_def)
  have full: "set (?got @ ?missing) = {..<?k}" by auto
  have len: "length (?got @ ?missing) = ?k"
    using sum_length_filter_compl[of "\<lambda>i. i \<notin> lost" "[0..<?k]"] by simp
  then have small: "length (?got @ ?missing) < MAXINT" using assms(3) by (simp add: RECENT_PACKETS_SIZE_def MAXINT_def)
  from shown_in_two_portions[where decodeImage = decode and b = bmp, OF ok full assms(2) small assms(4,5) refl, of t 0, unfolded len]
  obtain st1 st2 where v:
    "viewer_run decode (map (\<lambda>i. Receive fresh (Some (?d i))) ?got) client_init = Done st1"
    "viewer_run decode (map (\<lambda>i. Receive fresh (Some (?d i))) ?missing
      @ replicate ?k Consume @ [Decode, Tick, Paint]) st1 = Done st2"
    "displayed st2 = [(f, Some bmp)]" by (elim exE conjE)
  have "\<forall>i. length (chunk 4060 frame i) \<le> CLIENT_PACKET_SIZE - sizeof_rtmp"
    by (simp add: length_chunk CLIENT_PACKET_SIZE_def)
  from receives_acks[OF assms(4) this v(1)] have acks: "acks st1 = map (fragment_ack t 4060 f frame 0) ?got"
    by (simp add: client_init_def)
  from send_frame_fold[OF assms(1)] obtain pm where pm: "send_frame t PACKET_SIZE f frame PacketManager = Done pm"
    by blast
  from resends_missing[OF assms(1) pm, of "replicate 36 0" lost] obtain buf pm1 where
    "host_run (map (\<lambda>a. Received (Some a)) (acks st1)) (replicate 36 0, pm) = Done (buf, pm1)"
    "sent (ackPackets_round pm1) = sent pm @ map ?d ?missing" by (auto simp: acks comp_def)
  with pm first_frame_recent(2)[OF assms(1) pm] v show ?thesis
    unfolding Let_def PAYLOAD_pos
    by (intro exI[of _ pm] exI[of _ st1] exI[of _ buf] exI[of _ pm1] exI[of _ st2] conjI)
qed

theorem lost_packets_recovered_witness:
  "let frame = replicate 10000 7; dgram = frame_datagram 1 PAYLOAD_SIZE 9 frame 0;
      got = filter (\<lambda>i. i \<notin> {1}) [0..<k_of frame]; missing = filter (\<lambda>i. i \<in> {1}) [0..<k_of frame];
      receive = (\<lambda>i. Receive (replicate 4096 0) (Some (dgram i))) in
    \<exists>pm st1 buf pm1 st2.
      send_frame 1 PACKET_SIZE 9 frame PacketManager = Done pm \<and> sent pm = map dgram [0..<k_of frame]
    \<and> viewer_run (\<lambda>bytes. Some (length bytes)) (map receive got) client_init = Done st1
    \<and> host_run (map (\<lambda>a. Received (Some a)) (acks st1)) (replicate 36 0, pm) = Done (buf, pm1)
    \<and> sent (ackPackets_round pm1) = sent pm @ map dgram missing
    \<and> viewer_run (\<lambda>bytes. Some (length bytes)) (map receive missing @ replicate (k_of frame) Consume @ [Decode, Tick, Paint]) st1 = Done st2
    \<and> displayed st2 = [(9, Some 10000)]"
  unfolding Let_def[of "replicate 10000 (7 :: BYTE)"]
  by (rule lost_packets_recovered)
    (simp_all add: sendable_def PACKET_SIZE_def nchunks_def k_of_def RECENT_PACKETS_SIZE_def CLIENT_PACKET_SIZE_def)

end
